(* ===== verification/Xis_Prelude.thy ===== *)
theory Xis_Prelude
  imports Main "HOL-Library.Word" "HOL-Library.Monad_Syntax"
begin

text \<open>
  Shared vocabulary of the development: the C integer types of \<^verbatim>\<open>type.h\<close>, the page
  constants of \<^verbatim>\<open>krnlconst.hdr\<close>, a checked array access, and the lemmas on lists, bits
  and options that several components use.
\<close>

unbundle bit_operations_syntax

section \<open>Integer types and constants\<close>

type_synonym u8 = "8 word"
type_synonym u16 = "16 word"
type_synonym u32 = "32 word"
type_synonym u64 = "64 word"

definition PAGE_SHIFT :: nat where "PAGE_SHIFT = 12"
definition PAGE_SIZE :: u32 where "PAGE_SIZE = 0x1000"
definition PAGE_MASK :: u32 where "PAGE_MASK = NOT (PAGE_SIZE - 1)"
definition PGD_SHIFT :: nat where "PGD_SHIFT = 22"
definition PGD_SIZE :: u32 where "PGD_SIZE = 0x400000"
definition PGD_MASK :: u32 where "PGD_MASK = NOT (PGD_SIZE - 1)"
definition KERNEL_VIRT_ADDR :: u32 where "KERNEL_VIRT_ADDR = 0x80000000"

named_theorems flag_simps \<open>evaluation of flag words\<close>
named_theorems frame_simps \<open>what an operation leaves unchanged\<close>
named_theorems step_defs \<open>definitions unfolded to run one step of the code\<close>

section \<open>Checked arrays\<close>

text \<open>
  A C array is a list; an index outside it is \<^const>\<open>None\<close>, so that a proof that an
  operation returns also shows that every access it makes is inside the array.
\<close>

definition aget :: "'a list \<Rightarrow> nat \<Rightarrow> 'a option" where
  "aget xs i = (if i < length xs then Some (xs ! i) else None)"

definition aput :: "'a list \<Rightarrow> nat \<Rightarrow> 'a \<Rightarrow> 'a list option" where
  "aput xs i x = (if i < length xs then Some (xs[i := x]) else None)"

lemma aget_in [simp]: "i < length xs \<Longrightarrow> aget xs i = Some (xs ! i)"
  by (simp add: aget_def)

lemma aget_out [simp]: "length xs \<le> i \<Longrightarrow> aget xs i = None"
  by (simp add: aget_def)

lemma aput_in [simp]: "i < length xs \<Longrightarrow> aput xs i x = Some (xs[i := x])"
  by (simp add: aput_def)

lemma aput_out [simp]: "length xs \<le> i \<Longrightarrow> aput xs i x = None"
  by (simp add: aput_def)

lemma aget_eq_Some: "aget xs i = Some x \<longleftrightarrow> i < length xs \<and> x = xs ! i"
  by (auto simp: aget_def)

lemma aput_eq_Some: "aput xs i x = Some ys \<longleftrightarrow> i < length xs \<and> ys = xs[i := x]"
  by (auto simp: aput_def)

section \<open>Lists\<close>

lemma remove1_last: "distinct xs \<Longrightarrow> xs \<noteq> [] \<Longrightarrow> remove1 (last xs) xs = butlast xs"
  by (induction xs) (auto dest: last_in_set)

lemma length_remove1_in: "x \<in> set xs \<Longrightarrow> length xs = Suc (length (remove1 x xs))"
  by (induction xs) auto

section \<open>Addresses and masks\<close>

lemma unat_take12: "unat (w AND 0xFFF) = unat w mod 4096" for w :: u32
proof -
  have "(0xFFF :: u32) = mask 12" by (simp add: mask_eq_exp_minus_1)
  then have "w AND 0xFFF = take_bit 12 w" by (simp add: take_bit_eq_mask)
  then show ?thesis by (simp add: unsigned_take_bit_eq take_bit_eq_mod [where 'a = nat])
qed

lemma and_3ff: "unat (w AND 0x3ff) = unat w mod 1024" for w :: u32
proof -
  have "(0x3ff :: u32) = mask 10" by (simp add: mask_eq_exp_minus_1)
  then have "w AND 0x3ff = take_bit 10 w" by (simp add: take_bit_eq_mask)
  then show ?thesis by (simp add: unsigned_take_bit_eq take_bit_eq_mod [where 'a = nat])
qed

lemma PAGE_MASK_not: "PAGE_MASK = NOT (mask 12)"
  by (simp add: PAGE_MASK_def PAGE_SIZE_def mask_eq_exp_minus_1)

lemma and_page_mask: "w AND PAGE_MASK = push_bit 12 (drop_bit 12 w)"
  unfolding PAGE_MASK_not by (rule bit_word_eqI) (auto simp: bit_simps)

lemma unat_page_mask: "unat (w AND PAGE_MASK) = unat w div 4096 * 4096"
proof -
  have "unat w div 4096 * 4096 \<le> unat w" by simp
  also have "unat w < 2 ^ 32" using unsigned_less [of w] by simp
  finally show ?thesis
    unfolding and_page_mask
    by (simp add: unsigned_push_bit_eq unat_drop_bit_eq drop_bit_eq_div [where 'a = nat]
        push_bit_eq_mult [where 'a = nat] take_bit_eq_mod)
qed

lemma page_mask_or:
  assumes "w AND 0xFFF = 0" and "f < 0x1000"
  shows "(w OR f) AND PAGE_MASK = w"
proof -
  have m: "(0xFFF :: u32) = mask 12" by (simp add: mask_eq_exp_minus_1)
  have "take_bit 12 w = 0" using assms(1) m by (simp add: take_bit_eq_mask)
  then have w: "bit w n \<Longrightarrow> 12 \<le> n" for n by (metis bit_take_bit_iff bit_0_eq bot_apply bot_bool_def not_le)
  have "unat f < 4096" using assms(2) by (simp add: word_less_nat_alt)
  then have "unat (f AND 0xFFF) = unat f" by (simp add: unat_take12)
  then have "take_bit 12 f = f" unfolding m take_bit_eq_mask by (simp only: word_unat_eq_iff)
  then have f: "\<not> bit f n" if "12 \<le> n" for n using that by (metis bit_take_bit_iff not_le)
  show ?thesis
    unfolding PAGE_MASK_not by (rule bit_word_eqI) (use w f in \<open>auto simp: bit_simps dest: w\<close>)
qed

lemma or_page_mask: "f < 0x1000 \<Longrightarrow> (e OR f) AND PAGE_MASK = e AND PAGE_MASK" for e f :: u32
proof -
  assume f: "f < 0x1000"
  have "(e OR f) AND PAGE_MASK = (e AND PAGE_MASK) OR (f AND PAGE_MASK)"
    by (rule bit_word_eqI) (auto simp: bit_simps)
  moreover have "f AND PAGE_MASK = 0"
    using page_mask_or [of 0 f] f by simp
  ultimately show ?thesis by simp
qed

lemma unat_add_of_nat: "unat a + k < 2 ^ 32 \<Longrightarrow> unat (a + of_nat k :: u32) = unat a + k"
  by (simp add: unat_word_ariths unat_of_nat)

lemma word_add_no_wrap: "unat a + unat b < 2 ^ 32 \<Longrightarrow> unat (a + b :: u32) = unat a + unat b"
  by (simp add: unat_word_ariths)

section \<open>Signed values\<close>

lemma sint_unat:
  fixes w :: "'a::len word"
  assumes "unat w < 2 ^ (LENGTH('a) - 1)"
  shows "sint w = int (unat w)"
proof -
  have "int (unat w) < int (2 ^ (LENGTH('a) - 1))" using assms by (simp only: of_nat_less_iff)
  then have "uint w < 2 ^ (LENGTH('a) - 1)" by simp
  moreover have "- (2 ^ (LENGTH('a) - 1)) \<le> uint w" by (rule order_trans [of _ 0]) simp_all
  ultimately have "signed_take_bit (LENGTH('a) - 1) (uint w) = uint w" by (intro signed_take_bit_int_eq_self)
  then show ?thesis by (simp add: sint_uint)
qed

section \<open>Sequences of steps\<close>

text \<open>Total correctness of a step: from a state of \<open>P\<close> it returns one of \<open>Q\<close>.\<close>

definition delivers :: "('s \<Rightarrow> bool) \<Rightarrow> ('s \<Rightarrow> 't option) \<Rightarrow> ('t \<Rightarrow> bool) \<Rightarrow> bool" where
  "delivers P f Q \<longleftrightarrow> (\<forall>s. P s \<longrightarrow> (\<exists>t. f s = Some t \<and> Q t))"

lemma deliversI: "(\<And>s. P s \<Longrightarrow> \<exists>t. f s = Some t \<and> Q t) \<Longrightarrow> delivers P f Q"
  by (simp add: delivers_def)

lemma deliversD: "delivers P f Q \<Longrightarrow> P s \<Longrightarrow> \<exists>t. f s = Some t \<and> Q t"
  by (simp add: delivers_def)

lemma delivers_bind: "delivers P f Q \<Longrightarrow> delivers Q g R \<Longrightarrow> delivers P (\<lambda>s. Option.bind (f s) g) R"
  by (fastforce simp: delivers_def)

lemma delivers_total: "(\<And>s. P s \<Longrightarrow> Q (f s)) \<Longrightarrow> delivers P (\<lambda>s. Some (f s)) Q"
  by (simp add: delivers_def)

lemma delivers_conseq: "delivers P f Q \<Longrightarrow> (\<And>s. P' s \<Longrightarrow> P s) \<Longrightarrow> (\<And>t. Q t \<Longrightarrow> Q' t) \<Longrightarrow> delivers P' f Q'"
  by (fastforce simp: delivers_def)

end
