(* ===== verification/Descriptors.thy ===== *)
theory Descriptors
  imports Xis_Prelude
begin

text \<open>
  The descriptor tables of \<^verbatim>\<open>setup32.h\<close> and \<^verbatim>\<open>setup32.c\<close>: the structures with their bit
  fields at their widths, the \<^verbatim>\<open>SET_*\<close> macros, and the initialisation of GDT, LDT, TSS and IDT. The 64-bit
  layout of the packed structures is written down once and read back the way the processor reads it.
  Addresses of handlers and tables are arguments.
\<close>

section \<open>GDT entries\<close>

record gdt_entry =
  segment_limit_low :: u16
  base_address_low :: u16
  base_address_mid :: u8
  gdt_type :: "4 word"
  gdt_system :: "1 word"
  gdt_dpl :: "2 word"
  gdt_present :: "1 word"
  segment_limit_high :: "4 word"
  avl :: "1 word"
  l_bit :: "1 word"
  db :: "1 word"
  granularity :: "1 word"
  base_address_high :: u8

definition zero_gdt_entry :: gdt_entry where
  "zero_gdt_entry = \<lparr>segment_limit_low = 0, base_address_low = 0, base_address_mid = 0, gdt_type = 0,
     gdt_system = 0, gdt_dpl = 0, gdt_present = 0, segment_limit_high = 0, avl = 0, l_bit = 0, db = 0,
     granularity = 0, base_address_high = 0\<rparr>"

definition gdt_entry_of ::
  "u32 \<Rightarrow> u32 \<Rightarrow> 4 word \<Rightarrow> 1 word \<Rightarrow> 2 word \<Rightarrow> 1 word \<Rightarrow> 1 word \<Rightarrow> gdt_entry"
where
  "gdt_entry_of segment_limit base_address type sys dpl d g = zero_gdt_entry\<lparr>
     segment_limit_low := ucast (segment_limit AND 0xffff),
     segment_limit_high := ucast (drop_bit 16 segment_limit AND 0xf),
     base_address_low := ucast (base_address AND 0xffff),
     base_address_mid := ucast (drop_bit 16 base_address AND 0xff),
     base_address_high := ucast (drop_bit 24 base_address AND 0xff),
     gdt_type := type, gdt_system := sys, gdt_dpl := dpl, gdt_present := 1,
     avl := 0, l_bit := 0, db := d, granularity := g\<rparr>"

definition SET_GDT_ENTRY ::
  "nat \<Rightarrow> u32 \<Rightarrow> u32 \<Rightarrow> 4 word \<Rightarrow> 1 word \<Rightarrow> 2 word \<Rightarrow> 1 word \<Rightarrow> 1 word \<Rightarrow>
   gdt_entry list \<Rightarrow> gdt_entry list option"
where
  "SET_GDT_ENTRY index segment_limit base_address type sys dpl d g t =
     aput t index (gdt_entry_of segment_limit base_address type sys dpl d g)"

definition MAX_NUM_SMPS :: nat where "MAX_NUM_SMPS = 32"
definition USER_CODE_SEG :: nat where "USER_CODE_SEG = 0x10"
definition USER_DATA_SEG :: nat where "USER_DATA_SEG = 0x20"
definition KERNEL_CODE_SEG :: nat where "KERNEL_CODE_SEG = 0x30"
definition KERNEL_DATA_SEG :: nat where "KERNEL_DATA_SEG = 0x40"
definition LDT_SELECTOR :: nat where "LDT_SELECTOR = 0x50"
definition FIRST_TASK_SEG :: nat where "FIRST_TASK_SEG = 0x60"
definition LAST_SEG :: nat where "LAST_SEG = FIRST_TASK_SEG + MAX_NUM_SMPS * 8"
definition USER_CODE_SEG_IN_LDT :: nat where "USER_CODE_SEG_IN_LDT = 0"
definition USER_DATA_SEG_IN_LDT :: nat where "USER_DATA_SEG_IN_LDT = 8"

lemmas selectors [flag_simps] = MAX_NUM_SMPS_def USER_CODE_SEG_def USER_DATA_SEG_def KERNEL_CODE_SEG_def
  KERNEL_DATA_SEG_def LDT_SELECTOR_def FIRST_TASK_SEG_def LAST_SEG_def USER_CODE_SEG_IN_LDT_def
  USER_DATA_SEG_IN_LDT_def

definition SET_KERNEL_CODE_SEGMENT :: "u32 \<Rightarrow> u32 \<Rightarrow> gdt_entry list \<Rightarrow> gdt_entry list option" where
  "SET_KERNEL_CODE_SEGMENT segment_limit base_address =
     SET_GDT_ENTRY (KERNEL_CODE_SEG div 8) segment_limit base_address 0xa 1 0 1 1"

definition SET_KERNEL_DATA_SEGMENT :: "u32 \<Rightarrow> u32 \<Rightarrow> gdt_entry list \<Rightarrow> gdt_entry list option" where
  "SET_KERNEL_DATA_SEGMENT segment_limit base_address =
     SET_GDT_ENTRY (KERNEL_DATA_SEG div 8) segment_limit base_address 2 1 0 1 1"

definition SET_USER_CODE_SEGMENT :: "u32 \<Rightarrow> u32 \<Rightarrow> gdt_entry list \<Rightarrow> gdt_entry list option" where
  "SET_USER_CODE_SEGMENT segment_limit base_address =
     SET_GDT_ENTRY (USER_CODE_SEG div 8) segment_limit base_address 0xa 1 3 1 1"

definition SET_USER_DATA_SEGMENT :: "u32 \<Rightarrow> u32 \<Rightarrow> gdt_entry list \<Rightarrow> gdt_entry list option" where
  "SET_USER_DATA_SEGMENT segment_limit base_address =
     SET_GDT_ENTRY (USER_DATA_SEG div 8) segment_limit base_address 2 1 3 1 1"

definition SET_USER_CODE_SEGMENT_IN_LDT :: "u32 \<Rightarrow> u32 \<Rightarrow> gdt_entry list \<Rightarrow> gdt_entry list option" where
  "SET_USER_CODE_SEGMENT_IN_LDT segment_limit base_address =
     SET_GDT_ENTRY (USER_CODE_SEG_IN_LDT div 8) segment_limit base_address 0xa 1 3 1 1"

definition SET_USER_DATA_SEGMENT_IN_LDT :: "u32 \<Rightarrow> u32 \<Rightarrow> gdt_entry list \<Rightarrow> gdt_entry list option" where
  "SET_USER_DATA_SEGMENT_IN_LDT segment_limit base_address =
     SET_GDT_ENTRY (USER_DATA_SEG_IN_LDT div 8) segment_limit base_address 2 1 3 1 1"

definition SET_TASK_SEGMENT :: "u32 \<Rightarrow> u32 \<Rightarrow> nat \<Rightarrow> gdt_entry list \<Rightarrow> gdt_entry list option" where
  "SET_TASK_SEGMENT segment_limit base_address segment =
     SET_GDT_ENTRY (segment div 8) segment_limit base_address 9 0 3 0 0"

definition SET_LDT_DESCRIPTOR :: "u32 \<Rightarrow> u32 \<Rightarrow> gdt_entry list \<Rightarrow> gdt_entry list option" where
  "SET_LDT_DESCRIPTOR segment_limit base_address =
     SET_GDT_ENTRY (LDT_SELECTOR div 8) segment_limit base_address 2 0 3 0 0"

section \<open>IDT entries\<close>

record idt_entry =
  offset_low :: u16
  segment_selector :: u16
  idt_unused :: u8
  idt_type :: "4 word"
  idt_s :: "1 word"
  idt_dpl :: "2 word"
  idt_present :: "1 word"
  offset_high :: u16

definition zero_idt_entry :: idt_entry where
  "zero_idt_entry = \<lparr>offset_low = 0, segment_selector = 0, idt_unused = 0, idt_type = 0, idt_s = 0,
     idt_dpl = 0, idt_present = 0, offset_high = 0\<rparr>"

definition idt_entry_of :: "u32 \<Rightarrow> u16 \<Rightarrow> 4 word \<Rightarrow> 2 word \<Rightarrow> 1 word \<Rightarrow> idt_entry" where
  "idt_entry_of offset sel type dpl present = zero_idt_entry\<lparr>
     offset_low := ucast (offset AND 0xffff),
     offset_high := ucast (drop_bit 16 offset AND 0xffff),
     segment_selector := sel, idt_type := type, idt_dpl := dpl, idt_present := present\<rparr>"

definition SET_IDT_ENTRY ::
  "nat \<Rightarrow> u32 \<Rightarrow> u16 \<Rightarrow> 4 word \<Rightarrow> 2 word \<Rightarrow> 1 word \<Rightarrow> idt_entry list \<Rightarrow> idt_entry list option"
where
  "SET_IDT_ENTRY index offset sel type dpl present t = aput t index (idt_entry_of offset sel type dpl present)"

definition SET_INTERRUPT_GATE :: "nat \<Rightarrow> u32 \<Rightarrow> idt_entry list \<Rightarrow> idt_entry list option" where
  "SET_INTERRUPT_GATE index offset = SET_IDT_ENTRY index offset (of_nat KERNEL_CODE_SEG) 0xe 3 1"

definition SET_TRAP_GATE :: "nat \<Rightarrow> u32 \<Rightarrow> idt_entry list \<Rightarrow> idt_entry list option" where
  "SET_TRAP_GATE index offset = SET_IDT_ENTRY index offset (of_nat KERNEL_CODE_SEG) 0xf 3 1"

definition SET_TASK_GATE :: "nat \<Rightarrow> idt_entry list \<Rightarrow> idt_entry list option" where
  "SET_TASK_GATE index = SET_IDT_ENTRY index 0 (of_nat KERNEL_CODE_SEG) 5 3 1"

section \<open>The tables\<close>

record tss_entry =
  tss_prev_task :: u16
  tss_reserved1 :: u16
  esp0 :: u32
  ss0 :: u16
  tss_reserved2 :: u16
  tss_esp1 :: u32
  tss_ss1 :: u16
  tss_reserved3 :: u16
  tss_esp2 :: u32
  tss_ss2 :: u16
  tss_reserved4 :: u16
  tss_cr3 :: u32
  tss_eip :: u32
  tss_eflags :: u32
  tss_eax :: u32
  tss_ecx :: u32
  tss_edx :: u32
  tss_ebx :: u32
  tss_esp :: u32
  tss_ebp :: u32
  tss_esi :: u32
  tss_edi :: u32
  tss_es :: u16
  tss_reserved5 :: u16
  tss_cs :: u16
  tss_reserved6 :: u16
  tss_ss :: u16
  tss_reserved7 :: u16
  tss_ds :: u16
  tss_reserved8 :: u16
  tss_fs :: u16
  tss_reserved9 :: u16
  tss_gs :: u16
  tss_reserved10 :: u16
  tss_ldt :: u16
  tss_reserved11 :: u16
  tss_reserved12 :: u16
  tss_ioremapaddr :: u16

definition sizeof_tss :: nat where "sizeof_tss = 104"

definition zero_tss :: tss_entry where
  "zero_tss = \<lparr>tss_prev_task = 0, tss_reserved1 = 0, esp0 = 0, ss0 = 0, tss_reserved2 = 0, tss_esp1 = 0,
     tss_ss1 = 0, tss_reserved3 = 0, tss_esp2 = 0, tss_ss2 = 0, tss_reserved4 = 0, tss_cr3 = 0,
     tss_eip = 0, tss_eflags = 0, tss_eax = 0, tss_ecx = 0, tss_edx = 0, tss_ebx = 0,
     tss_esp = 0, tss_ebp = 0, tss_esi = 0, tss_edi = 0, tss_es = 0, tss_reserved5 = 0,
     tss_cs = 0, tss_reserved6 = 0, tss_ss = 0, tss_reserved7 = 0, tss_ds = 0,
     tss_reserved8 = 0, tss_fs = 0, tss_reserved9 = 0, tss_gs = 0, tss_reserved10 = 0,
     tss_ldt = 0, tss_reserved11 = 0, tss_reserved12 = 0, tss_ioremapaddr = 0\<rparr>"

record tables =
  gdt :: "gdt_entry list"
  gdt_size :: u16
  ldt :: "gdt_entry list"
  idt :: "idt_entry list"
  idt_size :: u16
  tss :: "tss_entry list"

text \<open>Addresses fixed by the linker: the tables, the stacks and the assembly entry points.\<close>

record symbols =
  ldt_addr :: u32
  tss_base :: u32
  kernel_stack_0_start :: u32
  trap_handler_addr :: "nat \<Rightarrow> u32"
  irq_handler_addr :: "nat \<Rightarrow> u32"
  sys_call_handler_128 :: u32

definition tss_addr :: "symbols \<Rightarrow> nat \<Rightarrow> u32" where
  "tss_addr sy smp_id = tss_base sy + of_nat (smp_id * sizeof_tss)"

definition initializeLDT32 :: "symbols \<Rightarrow> tables \<Rightarrow> tables option" where
  "initializeLDT32 sy t =
     do {
       let l = replicate (length (ldt t)) zero_gdt_entry;
       l \<leftarrow> SET_USER_CODE_SEGMENT_IN_LDT 0xfffff 0 l;
       l \<leftarrow> SET_USER_DATA_SEGMENT_IN_LDT 0xfffff 0 l;
       g \<leftarrow> SET_LDT_DESCRIPTOR 16 (ldt_addr sy) (gdt t);
       Some (t\<lparr>ldt := l, gdt := g\<rparr>)
     }"

definition initializeGDT32 :: "tables \<Rightarrow> tables option" where
  "initializeGDT32 t =
     do {
       let g = replicate (LAST_SEG div 8) zero_gdt_entry;
       g \<leftarrow> SET_KERNEL_CODE_SEGMENT 0xfffff 0 g;
       g \<leftarrow> SET_KERNEL_DATA_SEGMENT 0xfffff 0 g;
       g \<leftarrow> SET_USER_CODE_SEGMENT 0xfffff 0 g;
       g \<leftarrow> SET_USER_DATA_SEGMENT 0xfffff 0 g;
       Some (t\<lparr>gdt := g, gdt_size := of_nat (LAST_SEG - 1)\<rparr>)
     }"

definition initializeTSS32 :: "symbols \<Rightarrow> nat \<Rightarrow> tables \<Rightarrow> tables option" where
  "initializeTSS32 sy smp_id t =
     do {
       ts \<leftarrow> aput (tss t) smp_id
         (zero_tss\<lparr>esp0 := kernel_stack_0_start sy + of_nat (smp_id * 0x2000), ss0 := of_nat KERNEL_DATA_SEG\<rparr>);
       g \<leftarrow> SET_TASK_SEGMENT (of_nat sizeof_tss) (tss_addr sy smp_id) (FIRST_TASK_SEG + smp_id * 8) (gdt t);
       Some (t\<lparr>tss := ts, gdt := g\<rparr>)
     }"

fun set_gates ::
  "(nat \<Rightarrow> u32 \<Rightarrow> idt_entry list \<Rightarrow> idt_entry list option) \<Rightarrow> (nat \<times> u32) list \<Rightarrow> idt_entry list \<Rightarrow> idt_entry list option"
where
  "set_gates gate [] t = Some t"
| "set_gates gate ((v, h) # vs) t = do { t \<leftarrow> gate v h t; set_gates gate vs t }"

text \<open>The 16 interrupt gates, the 20 trap gates and the system call, in the order of the code.\<close>

definition initializeIDT32 :: "symbols \<Rightarrow> tables \<Rightarrow> tables option" where
  "initializeIDT32 sy t =
     do {
       let i = replicate (length (idt t)) zero_idt_entry;
       i \<leftarrow> set_gates SET_INTERRUPT_GATE (map (\<lambda>k. (32 + k, irq_handler_addr sy k)) [0..<16]) i;
       i \<leftarrow> set_gates SET_TRAP_GATE (map (\<lambda>k. (k, trap_handler_addr sy k)) ([0..<15] @ [16, 17, 18, 19, 30])) i;
       i \<leftarrow> SET_TRAP_GATE 128 (sys_call_handler_128 sy) i;
       Some (t\<lparr>idt := i, idt_size := of_nat (256 * 8 - 1)\<rparr>)
     }"

definition set_idt :: "nat \<Rightarrow> u32 \<Rightarrow> tables \<Rightarrow> tables option" where
  "set_idt vector idt_function t = do { i \<leftarrow> SET_INTERRUPT_GATE vector idt_function (idt t); Some (t\<lparr>idt := i\<rparr>) }"

section \<open>The packed layout, and how the processor reads it\<close>

definition pack_gdt :: "gdt_entry \<Rightarrow> u64" where
  "pack_gdt e = ucast (segment_limit_low e) OR push_bit 16 (ucast (base_address_low e)) OR
     push_bit 32 (ucast (base_address_mid e)) OR push_bit 40 (ucast (gdt_type e)) OR
     push_bit 44 (ucast (gdt_system e)) OR push_bit 45 (ucast (gdt_dpl e)) OR push_bit 47 (ucast (gdt_present e)) OR
     push_bit 48 (ucast (segment_limit_high e)) OR push_bit 52 (ucast (avl e)) OR push_bit 53 (ucast (l_bit e)) OR
     push_bit 54 (ucast (db e)) OR push_bit 55 (ucast (granularity e)) OR push_bit 56 (ucast (base_address_high e))"

record descriptor =
  d_base :: u32
  d_limit :: u32
  d_type :: "4 word"
  d_user_segment :: bool
  d_dpl :: "2 word"
  d_present :: bool
  d_default32 :: bool

text \<open>The limit of a descriptor counts bytes, or pages when the granularity bit is set.\<close>

definition cpu_descriptor :: "u64 \<Rightarrow> descriptor" where
  "cpu_descriptor d =
     (let raw = ucast (take_bit 16 d) OR push_bit 16 (ucast (take_bit 4 (drop_bit 48 d))) :: u32
      in \<lparr>d_base = ucast (take_bit 24 (drop_bit 16 d)) OR push_bit 24 (ucast (drop_bit 56 d)),
          d_limit = (if bit d 55 then push_bit 12 raw OR 0xfff else raw),
          d_type = ucast (drop_bit 40 d), d_user_segment = bit d 44, d_dpl = ucast (drop_bit 45 d),
          d_present = bit d 47, d_default32 = bit d 54\<rparr>)"

definition pack_idt :: "idt_entry \<Rightarrow> u64" where
  "pack_idt e = ucast (offset_low e) OR push_bit 16 (ucast (segment_selector e)) OR push_bit 32 (ucast (idt_unused e)) OR
     push_bit 40 (ucast (idt_type e)) OR push_bit 44 (ucast (idt_s e)) OR push_bit 45 (ucast (idt_dpl e)) OR
     push_bit 47 (ucast (idt_present e)) OR push_bit 48 (ucast (offset_high e))"

record gate =
  g_offset :: u32
  g_selector :: u16
  g_type :: "4 word"
  g_dpl :: "2 word"
  g_present :: bool

definition cpu_gate :: "u64 \<Rightarrow> gate" where
  "cpu_gate d = \<lparr>g_offset = ucast (take_bit 16 d) OR push_bit 16 (ucast (drop_bit 48 d)),
     g_selector = ucast (drop_bit 16 d), g_type = ucast (drop_bit 40 d), g_dpl = ucast (drop_bit 45 d),
     g_present = bit d 47\<rparr>"

end
