(* ===== verification/Descriptors_Props.thy ===== *)
theory Descriptors_Props
  imports Descriptors
begin

text \<open>
  Lemmas and properties of the descriptor tables: what the packed entries mean to the processor, which
  descriptors and gates the initialisation leaves in GDT, LDT and IDT, and the task segments of the CPUs.
\<close>

section \<open>Bits of the packed entries\<close>

lemma low_mask: "b AND 0xffff = take_bit 16 b" "b AND 0xff = take_bit 8 b" "b AND 0xf = take_bit 4 b" for b :: u32
  by (simp_all add: take_bit_eq_mask mask_eq_exp_minus_1)

lemma bit_beyond:
  "16 \<le> n \<Longrightarrow> \<not> bit (w :: u16) n" "8 \<le> n \<Longrightarrow> \<not> bit (b :: u8) n" "4 \<le> n \<Longrightarrow> \<not> bit (q :: 4 word) n"
  "2 \<le> n \<Longrightarrow> \<not> bit (r :: 2 word) n" "1 \<le> n \<Longrightarrow> \<not> bit (s :: 1 word) n" "32 \<le> n \<Longrightarrow> \<not> bit (v :: u32) n"
  using bit_imp_le_length [of w n] bit_imp_le_length [of b n] bit_imp_le_length [of q n] bit_imp_le_length [of r n]
     bit_imp_le_length [of s n] bit_imp_le_length [of v n] by auto

lemmas field_bits = bit_or_iff bit_push_bit_iff bit_unsigned_iff possible_bit_word bit_beyond

lemma pack_gdt_bits:
  "n < 16 \<Longrightarrow> bit (pack_gdt e) n = bit (segment_limit_low e) n"
  "16 \<le> n \<Longrightarrow> n < 32 \<Longrightarrow> bit (pack_gdt e) n = bit (base_address_low e) (n - 16)"
  "32 \<le> n \<Longrightarrow> n < 40 \<Longrightarrow> bit (pack_gdt e) n = bit (base_address_mid e) (n - 32)"
  "40 \<le> n \<Longrightarrow> n < 44 \<Longrightarrow> bit (pack_gdt e) n = bit (gdt_type e) (n - 40)"
  "bit (pack_gdt e) 44 = bit (gdt_system e) 0"
  "45 \<le> n \<Longrightarrow> n < 47 \<Longrightarrow> bit (pack_gdt e) n = bit (gdt_dpl e) (n - 45)"
  "bit (pack_gdt e) 47 = bit (gdt_present e) 0"
  "48 \<le> n \<Longrightarrow> n < 52 \<Longrightarrow> bit (pack_gdt e) n = bit (segment_limit_high e) (n - 48)"
  "bit (pack_gdt e) 54 = bit (db e) 0"
  "bit (pack_gdt e) 55 = bit (granularity e) 0"
  "56 \<le> n \<Longrightarrow> n < 64 \<Longrightarrow> bit (pack_gdt e) n = bit (base_address_high e) (n - 56)"
  unfolding pack_gdt_def by (simp_all add: field_bits, auto)

lemma pack_idt_bits:
  "n < 16 \<Longrightarrow> bit (pack_idt e) n = bit (offset_low e) n"
  "16 \<le> n \<Longrightarrow> n < 32 \<Longrightarrow> bit (pack_idt e) n = bit (segment_selector e) (n - 16)"
  "40 \<le> n \<Longrightarrow> n < 44 \<Longrightarrow> bit (pack_idt e) n = bit (idt_type e) (n - 40)"
  "45 \<le> n \<Longrightarrow> n < 47 \<Longrightarrow> bit (pack_idt e) n = bit (idt_dpl e) (n - 45)"
  "bit (pack_idt e) 47 = bit (idt_present e) 0"
  "48 \<le> n \<Longrightarrow> n < 64 \<Longrightarrow> bit (pack_idt e) n = bit (offset_high e) (n - 48)"
  unfolding pack_idt_def by (simp_all add: field_bits, auto)
lemma gdt_entry_of_simps:
  "segment_limit_low (gdt_entry_of lim base ty sys dpl d g) = ucast lim"
  "segment_limit_high (gdt_entry_of lim base ty sys dpl d g) = ucast (drop_bit 16 lim)"
  "base_address_low (gdt_entry_of lim base ty sys dpl d g) = ucast base"
  "base_address_mid (gdt_entry_of lim base ty sys dpl d g) = ucast (drop_bit 16 base)"
  "base_address_high (gdt_entry_of lim base ty sys dpl d g) = ucast (drop_bit 24 base)"
  "gdt_type (gdt_entry_of lim base ty sys dpl d g) = ty" "gdt_system (gdt_entry_of lim base ty sys dpl d g) = sys"
  "gdt_dpl (gdt_entry_of lim base ty sys dpl d g) = dpl" "gdt_present (gdt_entry_of lim base ty sys dpl d g) = 1"
  "db (gdt_entry_of lim base ty sys dpl d g) = d" "granularity (gdt_entry_of lim base ty sys dpl d g) = g"
  by (simp_all add: gdt_entry_of_def low_mask; rule bit_word_eqI; auto simp: bit_simps)+

lemma bit_one: "bit (x :: 1 word) 0 \<longleftrightarrow> x = 1"
proof
  assume "bit x 0"
  then show "x = 1" by (intro bit_word_eqI) (simp add: bit_1_iff)
qed simp

text \<open>What a \<^verbatim>\<open>SET_GDT_ENTRY\<close> call means: its arguments as the processor reads them.\<close>

definition descriptor_of ::
  "u32 \<Rightarrow> u32 \<Rightarrow> 4 word \<Rightarrow> 1 word \<Rightarrow> 2 word \<Rightarrow> 1 word \<Rightarrow> 1 word \<Rightarrow> descriptor"
where
  "descriptor_of lim base type sys dpl d g =
     \<lparr>d_base = base, d_limit = (if g = 1 then push_bit 12 (take_bit 20 lim) OR 0xfff else take_bit 20 lim),
      d_type = type, d_user_segment = (sys = 1), d_dpl = dpl, d_present = True, d_default32 = (d = 1)\<rparr>"

lemma cpu_descriptor_of: "cpu_descriptor (pack_gdt (gdt_entry_of lim base ty sys dpl d g)) = descriptor_of lim base ty sys dpl d g"
proof -
  let ?p = "pack_gdt (gdt_entry_of lim base ty sys dpl d g)"
  note b = pack_gdt_bits [where e = "gdt_entry_of lim base ty sys dpl d g", unfolded gdt_entry_of_simps]
    pack_gdt_bits(5,7,9,10) [where e = "gdt_entry_of lim base ty sys dpl d g", unfolded gdt_entry_of_simps bit_one]
  have base: "ucast (take_bit 24 (drop_bit 16 ?p)) OR push_bit 24 (ucast (drop_bit 56 ?p)) = base"
  proof (rule bit_word_eqI)
    fix n assume "n < LENGTH(32)"
    then consider "n < 16" | "16 \<le> n" "n < 24" | "24 \<le> n" "n < 32" by fastforce
    then show "bit (ucast (take_bit 24 (drop_bit 16 ?p)) OR push_bit 24 (ucast (drop_bit 56 ?p)) :: u32) n = bit base n"
      by cases (auto simp: bit_simps b)
  qed
  have raw: "ucast (take_bit 16 ?p) OR push_bit 16 (ucast (take_bit 4 (drop_bit 48 ?p))) = take_bit 20 lim"
  proof (rule bit_word_eqI)
    fix n assume "n < LENGTH(32)"
    then consider "n < 16" | "16 \<le> n" "n < 20" | "20 \<le> n" "n < 32" by fastforce
    then show "bit (ucast (take_bit 16 ?p) OR push_bit 16 (ucast (take_bit 4 (drop_bit 48 ?p))) :: u32) n = bit (take_bit 20 lim) n"
      by cases (auto simp: bit_simps b)
  qed
  have "ucast (drop_bit 40 ?p) = ty" "ucast (drop_bit 45 ?p) = dpl"
    by (rule bit_word_eqI, simp add: bit_simps b)+
  then show ?thesis
    unfolding cpu_descriptor_def Let_def descriptor_of_def base raw by (simp add: b bit_one)
qed

lemma idt_entry_of_simps:
  "offset_low (idt_entry_of h sel ty dpl p) = ucast h" "offset_high (idt_entry_of h sel ty dpl p) = ucast (drop_bit 16 h)"
  "segment_selector (idt_entry_of h sel ty dpl p) = sel" "idt_type (idt_entry_of h sel ty dpl p) = ty"
  "idt_dpl (idt_entry_of h sel ty dpl p) = dpl" "idt_present (idt_entry_of h sel ty dpl p) = p"
  by (simp_all add: idt_entry_of_def low_mask; rule bit_word_eqI; auto simp: bit_simps)+

lemma cpu_gate_of:
  "cpu_gate (pack_idt (idt_entry_of h sel ty dpl p)) =
     \<lparr>g_offset = h, g_selector = sel, g_type = ty, g_dpl = dpl, g_present = (p = 1)\<rparr>"
proof -
  let ?p = "pack_idt (idt_entry_of h sel ty dpl p)"
  note b = pack_idt_bits [where e = "idt_entry_of h sel ty dpl p", unfolded idt_entry_of_simps]
    pack_idt_bits(5) [where e = "idt_entry_of h sel ty dpl p", unfolded idt_entry_of_simps bit_one]
  have off: "ucast (take_bit 16 ?p) OR push_bit 16 (ucast (drop_bit 48 ?p)) = h"
  proof (rule bit_word_eqI)
    fix n assume "n < LENGTH(32)"
    then consider "n < 16" | "16 \<le> n" "n < 32" by fastforce
    then show "bit (ucast (take_bit 16 ?p) OR push_bit 16 (ucast (drop_bit 48 ?p)) :: u32) n = bit h n"
      by cases (auto simp: bit_simps b)
  qed
  have "ucast (drop_bit 16 ?p) = sel" "ucast (drop_bit 40 ?p) = ty" "ucast (drop_bit 45 ?p) = dpl"
    by (rule bit_word_eqI, simp add: bit_simps b)+
  then show ?thesis unfolding cpu_gate_def off by (simp add: b bit_one)
qed


section \<open>Table updates\<close>

lemma set_gdt_entry_Some:
  "i < length t \<Longrightarrow> SET_GDT_ENTRY i lim base ty sys dpl d g t = Some (t[i := gdt_entry_of lim base ty sys dpl d g])"
  by (simp add: SET_GDT_ENTRY_def)

lemma set_idt_entry_Some:
  "i < length t \<Longrightarrow> SET_IDT_ENTRY i h sel ty dpl p t = Some (t[i := idt_entry_of h sel ty dpl p])"
  by (simp add: SET_IDT_ENTRY_def)

lemmas segment_macros = SET_KERNEL_CODE_SEGMENT_def SET_KERNEL_DATA_SEGMENT_def SET_USER_CODE_SEGMENT_def
  SET_USER_DATA_SEGMENT_def SET_USER_CODE_SEGMENT_IN_LDT_def SET_USER_DATA_SEGMENT_IN_LDT_def
  SET_TASK_SEGMENT_def SET_LDT_DESCRIPTOR_def

definition gdt_of :: "symbols \<Rightarrow> gdt_entry list" where
  "gdt_of sy = (replicate 44 zero_gdt_entry)
     [6 := gdt_entry_of 0xfffff 0 0xa 1 0 1 1, 8 := gdt_entry_of 0xfffff 0 2 1 0 1 1,
      2 := gdt_entry_of 0xfffff 0 0xa 1 3 1 1, 4 := gdt_entry_of 0xfffff 0 2 1 3 1 1,
      10 := gdt_entry_of 16 (ldt_addr sy) 2 0 3 0 0]"

lemma length_gdt_of [simp]: "length (gdt_of sy) = 44"
  by (simp add: gdt_of_def)

lemma initializeGDT32_eq:
  "initializeGDT32 t = Some (t\<lparr>gdt := (replicate 44 zero_gdt_entry)
     [6 := gdt_entry_of 0xfffff 0 0xa 1 0 1 1, 8 := gdt_entry_of 0xfffff 0 2 1 0 1 1,
      2 := gdt_entry_of 0xfffff 0 0xa 1 3 1 1, 4 := gdt_entry_of 0xfffff 0 2 1 3 1 1], gdt_size := 351\<rparr>)"
  by (simp add: initializeGDT32_def segment_macros set_gdt_entry_Some selectors)

lemma initialize_GDT_LDT:
  assumes "length (ldt t) = 2"
  shows "Option.bind (initializeGDT32 t) (initializeLDT32 sy) =
     Some (t\<lparr>gdt := gdt_of sy, gdt_size := 351,
        ldt := [gdt_entry_of 0xfffff 0 0xa 1 3 1 1, gdt_entry_of 0xfffff 0 2 1 3 1 1]\<rparr>)"
  using assms
  by (simp add: initializeGDT32_eq initializeLDT32_def segment_macros set_gdt_entry_Some selectors gdt_of_def
      numeral_2_eq_2)


lemma set_gates_spec:
  assumes "\<And>v h t. v < length t \<Longrightarrow> gate v h t = Some (t[v := g h])"
    and "\<forall>v \<in> fst ` set vs. v < length t" and "distinct (map fst vs)"
  shows "\<exists>t'. set_gates gate vs t = Some t' \<and> length t' = length t \<and> (\<forall>(v, h) \<in> set vs. t' ! v = g h) \<and>
     (\<forall>v. v \<notin> fst ` set vs \<longrightarrow> t' ! v = t ! v)"
  using assms(2,3)
proof (induction vs arbitrary: t)
  case (Cons x vs)
  obtain v h where [simp]: "x = (v, h)" by fastforce
  define u where "u = t[v := g h]"
  have u: "length u = length t" "u ! v = g h" "\<And>w. w \<noteq> v \<Longrightarrow> u ! w = t ! w"
    using Cons.prems by (simp_all add: u_def)
  have "gate v h t = Some u"
    using Cons.prems by (simp add: assms(1) u_def)
  moreover obtain t' where t': "set_gates gate vs u = Some t'" "length t' = length u"
      "\<forall>(v, h) \<in> set vs. t' ! v = g h" "\<forall>v. v \<notin> fst ` set vs \<longrightarrow> t' ! v = u ! v"
    using Cons.IH [of u] Cons.prems by (auto simp: u)
  ultimately show ?case
    using Cons.prems u by (intro exI [of _ t']) auto
qed simp

definition trap_vectors :: "nat list" where
  "trap_vectors = [0..<15] @ [16, 17, 18, 19, 30]"

text \<open>The vector table the code intends: the gate's type and its handler.\<close>

definition idt_vector :: "symbols \<Rightarrow> nat \<Rightarrow> (4 word \<times> u32) option" where
  "idt_vector sy v =
     (if v \<in> set trap_vectors then Some (0xf, trap_handler_addr sy v)
      else if 32 \<le> v \<and> v < 48 then Some (0xe, irq_handler_addr sy (v - 32))
      else if v = 128 then Some (0xf, sys_call_handler_128 sy) else None)"

definition gate_for :: "(4 word \<times> u32) option \<Rightarrow> gate" where
  "gate_for x = (case x of
     None \<Rightarrow> \<lparr>g_offset = 0, g_selector = 0, g_type = 0, g_dpl = 0, g_present = False\<rparr>
   | Some (ty, h) \<Rightarrow> \<lparr>g_offset = h, g_selector = 0x30, g_type = ty, g_dpl = 3, g_present = True\<rparr>)"

lemma cpu_gate_zero: "cpu_gate (pack_idt zero_idt_entry) = gate_for None"
  by (simp add: zero_idt_entry_def pack_idt_def cpu_gate_def gate_for_def)

lemma cpu_gate_entry:
  "cpu_gate (pack_idt (idt_entry_of h (of_nat KERNEL_CODE_SEG) ty 3 1)) = gate_for (Some (ty, h))"
  by (simp add: cpu_gate_of gate_for_def KERNEL_CODE_SEG_def)

lemma initializeIDT32_gates:
  assumes "length (idt t) = 256"
  shows "\<exists>i. initializeIDT32 sy t = Some (t\<lparr>idt := i, idt_size := 2047\<rparr>) \<and> length i = 256 \<and>
     (\<forall>v < 256. cpu_gate (pack_idt (i ! v)) = gate_for (idt_vector sy v))"
proof -
  let ?sel = "of_nat KERNEL_CODE_SEG"
  define z where "z = replicate 256 zero_idt_entry"
  define irqs where "irqs = map (\<lambda>k. (32 + k, irq_handler_addr sy k)) [0..<16]"
  define traps where "traps = map (\<lambda>k. (k, trap_handler_addr sy k)) trap_vectors"
  have "\<exists>i. set_gates SET_INTERRUPT_GATE irqs z = Some i \<and> length i = length z \<and>
      (\<forall>(v, h) \<in> set irqs. i ! v = idt_entry_of h ?sel 0xe 3 1) \<and> (\<forall>v. v \<notin> fst ` set irqs \<longrightarrow> i ! v = z ! v)"
    by (rule set_gates_spec)
      (auto simp: SET_INTERRUPT_GATE_def set_idt_entry_Some irqs_def z_def distinct_map comp_def)
  then obtain i1 where i1: "set_gates SET_INTERRUPT_GATE irqs z = Some i1" "length i1 = length z"
      "\<forall>(v, h) \<in> set irqs. i1 ! v = idt_entry_of h ?sel 0xe 3 1" "\<forall>v. v \<notin> fst ` set irqs \<longrightarrow> i1 ! v = z ! v" by blast
  have "\<exists>i. set_gates SET_TRAP_GATE traps i1 = Some i \<and> length i = length i1 \<and>
      (\<forall>(v, h) \<in> set traps. i ! v = idt_entry_of h ?sel 0xf 3 1) \<and> (\<forall>v. v \<notin> fst ` set traps \<longrightarrow> i ! v = i1 ! v)"
    by (rule set_gates_spec)
      (auto simp: SET_TRAP_GATE_def set_idt_entry_Some traps_def trap_vectors_def z_def i1(2) distinct_map comp_def)
  then obtain i2 where i2: "set_gates SET_TRAP_GATE traps i1 = Some i2" "length i2 = length i1"
      "\<forall>(v, h) \<in> set traps. i2 ! v = idt_entry_of h ?sel 0xf 3 1" "\<forall>v. v \<notin> fst ` set traps \<longrightarrow> i2 ! v = i1 ! v" by blast
  define i where "i = i2[128 := idt_entry_of (sys_call_handler_128 sy) ?sel 0xf 3 1]"
  have len: "length i2 = 256" using i1 i2 by (simp add: z_def)
  have "initializeIDT32 sy t = Some (t\<lparr>idt := i, idt_size := 2047\<rparr>)"
    using i1(1) i2(1) len unfolding irqs_def traps_def trap_vectors_def z_def
    by (simp add: initializeIDT32_def assms SET_TRAP_GATE_def set_idt_entry_Some i_def)
  moreover have "cpu_gate (pack_idt (i ! v)) = gate_for (idt_vector sy v)" if v: "v < 256" for v
  proof -
    have s: "fst ` set irqs = {32..<48}" "fst ` set traps = set trap_vectors"
      by (force simp: irqs_def image_image image_iff, simp add: traps_def image_image)
    have "i ! v = (if v \<in> set trap_vectors then idt_entry_of (trap_handler_addr sy v) ?sel 0xf 3 1
        else if 32 \<le> v \<and> v < 48 then idt_entry_of (irq_handler_addr sy (v - 32)) ?sel 0xe 3 1
        else if v = 128 then idt_entry_of (sys_call_handler_128 sy) ?sel 0xf 3 1 else zero_idt_entry)"
    proof -
      have tr: "i2 ! v = idt_entry_of (trap_handler_addr sy v) ?sel 0xf 3 1" if "v \<in> set trap_vectors"
        using i2(3) that by (auto simp: traps_def)
      have ir: "i1 ! v = idt_entry_of (irq_handler_addr sy (v - 32)) ?sel 0xe 3 1" if "32 \<le> v" "v < 48"
      proof -
        have "(v, irq_handler_addr sy (v - 32)) \<in> set irqs"
          using that by (auto simp: irqs_def image_iff intro!: bexI [of _ "v - 32"])
        then show ?thesis using i1(3) by auto
      qed
      have "i1 ! v = zero_idt_entry" if "v \<notin> {32..<48}"
        using i1(4) that v by (simp add: s z_def)
      moreover have "128 \<notin> set trap_vectors" by (simp add: trap_vectors_def)
      ultimately show ?thesis
        using i2(4) tr ir len v by (auto simp: i_def s nth_list_update)
    qed
    then show ?thesis
      by (simp add: idt_vector_def cpu_gate_entry cpu_gate_zero)
  qed
  ultimately show ?thesis using len by (auto simp: i_def)
qed


section \<open>Properties\<close>

definition flat_segment :: "4 word \<Rightarrow> 2 word \<Rightarrow> descriptor" where
  "flat_segment ty dpl = \<lparr>d_base = 0, d_limit = 0xffffffff, d_type = ty, d_user_segment = True, d_dpl = dpl,
     d_present = True, d_default32 = True\<rparr>"

definition absent_segment :: descriptor where
  "absent_segment = \<lparr>d_base = 0, d_limit = 0, d_type = 0, d_user_segment = False, d_dpl = 0,
     d_present = False, d_default32 = False\<rparr>"

definition system_segment :: "u32 \<Rightarrow> u32 \<Rightarrow> 4 word \<Rightarrow> descriptor" where
  "system_segment base lim ty = \<lparr>d_base = base, d_limit = lim, d_type = ty, d_user_segment = False, d_dpl = 3,
     d_present = True, d_default32 = False\<rparr>"

lemma cpu_descriptor_zero: "cpu_descriptor (pack_gdt zero_gdt_entry) = absent_segment"
  by (simp add: zero_gdt_entry_def pack_gdt_def cpu_descriptor_def absent_segment_def Let_def)

lemma flat_entry: "cpu_descriptor (pack_gdt (gdt_entry_of 0xfffff 0 ty 1 dpl 1 1)) = flat_segment ty dpl"
  by (simp add: cpu_descriptor_of descriptor_of_def flat_segment_def)

lemma system_entry:
  "take_bit 20 lim = lim \<Longrightarrow> cpu_descriptor (pack_gdt (gdt_entry_of lim base ty 0 3 0 0)) = system_segment base lim ty"
  by (simp add: cpu_descriptor_of descriptor_of_def system_segment_def)

lemma gdt_of_entry:
  "i < 44 \<Longrightarrow> cpu_descriptor (pack_gdt (gdt_of sy ! i)) =
       (if i = 6 then flat_segment 0xa 0 else if i = 8 then flat_segment 2 0
        else if i = 2 then flat_segment 0xa 3 else if i = 4 then flat_segment 2 3
        else if i = 10 then system_segment (ldt_addr sy) 16 2 else absent_segment)"
  by (simp add: gdt_of_def nth_list_update flat_entry system_entry cpu_descriptor_zero)

text \<open>\<^verbatim>\<open>SET_GDT_ENTRY\<close>: the entry it writes, packed as the compiler lays the structure out,
  is read by the processor as exactly the base, limit, type and privilege of the call, with the limit cut to 20
  bits and counted in pages when the granularity is 1; all other entries keep their value, and an index past
  the table is the only failure.\<close>

theorem set_gdt_entry_roundtrip:
  "(SET_GDT_ENTRY i lim base ty sys dpl d g t = None \<longleftrightarrow> length t \<le> i) \<and>
   (\<forall>t'. SET_GDT_ENTRY i lim base ty sys dpl d g t = Some t' \<longrightarrow>
      length t' = length t \<and> cpu_descriptor (pack_gdt (t' ! i)) = descriptor_of lim base ty sys dpl d g \<and>
      (\<forall>j. j \<noteq> i \<longrightarrow> t' ! j = t ! j))"
  by (auto simp: SET_GDT_ENTRY_def aput_def cpu_descriptor_of)

theorem set_gdt_entry_roundtrip_witness:
  "\<exists>t'. SET_GDT_ENTRY 1 16 0xc0123456 2 0 3 0 0 (replicate 3 zero_gdt_entry) = Some t' \<and>
     d_base (cpu_descriptor (pack_gdt (t' ! 1))) = 0xc0123456 \<and> t' ! 2 = zero_gdt_entry"
proof -
  have "SET_GDT_ENTRY 1 16 0xc0123456 2 0 3 0 0 (replicate 3 zero_gdt_entry) \<noteq> None"
    using set_gdt_entry_roundtrip [of 1 16 "0xc0123456" 2 0 3 0 0 "replicate 3 zero_gdt_entry"] by simp
  then show ?thesis
    using set_gdt_entry_roundtrip [of 1 16 "0xc0123456" 2 0 3 0 0 "replicate 3 zero_gdt_entry"]
    by (auto simp: descriptor_of_def)
qed

text \<open>(C25) After \<^verbatim>\<open>initializeGDT32\<close> and \<^verbatim>\<open>initializeLDT32\<close> the GDT holds, as the processor reads it,
  the kernel's and the user's code and data segments, each the flat 4 GiB with privilege 0 and 3, and the LDT
  with its address and size; every other selector up to the last task segment is not present, and the LDT
  itself holds the two flat user segments.\<close>

theorem descriptor_tables_flat:
  assumes "length (ldt t) = 2"
  shows "\<exists>t'. Option.bind (initializeGDT32 t) (initializeLDT32 sy) = Some t' \<and>
    length (gdt t') = LAST_SEG div 8 \<and> unat (gdt_size t') = LAST_SEG - 1 \<and>
    (\<forall>i < LAST_SEG div 8. cpu_descriptor (pack_gdt (gdt t' ! i)) =
       (if i = KERNEL_CODE_SEG div 8 then flat_segment 0xa 0 else if i = KERNEL_DATA_SEG div 8 then flat_segment 2 0
        else if i = USER_CODE_SEG div 8 then flat_segment 0xa 3 else if i = USER_DATA_SEG div 8 then flat_segment 2 3
        else if i = LDT_SELECTOR div 8 then system_segment (ldt_addr sy) 16 2 else absent_segment)) \<and>
    map (\<lambda>e. cpu_descriptor (pack_gdt e)) (ldt t') = [flat_segment 0xa 3, flat_segment 2 3] \<and>
    idt t' = idt t \<and> tss t' = tss t"
  using gdt_of_entry [of _ sy] by (simp add: initialize_GDT_LDT assms flat_entry selectors)

text \<open>(C24) After \<^verbatim>\<open>initializeIDT32\<close> every one of the 256 vectors is either the gate the code
  intends, through the kernel's code segment, present, callable from user mode, of interrupt type for the 16
  IRQs at 32 to 47 and of trap type for the exceptions and the system call 128, or not present.\<close>

theorem idt_vectors:
  assumes "length (idt t) = 256"
  shows "\<exists>t'. initializeIDT32 sy t = Some t' \<and> length (idt t') = 256 \<and> unat (idt_size t') = 256 * 8 - 1 \<and>
    (\<forall>v < 256. cpu_gate (pack_idt (idt t' ! v)) = gate_for (idt_vector sy v)) \<and> gdt t' = gdt t \<and> ldt t' = ldt t"
proof -
  obtain i where "initializeIDT32 sy t = Some (t\<lparr>idt := i, idt_size := 2047\<rparr>)" "length i = 256"
      "\<forall>v < 256. cpu_gate (pack_idt (i ! v)) = gate_for (idt_vector sy v)"
    using initializeIDT32_gates [OF assms] by blast
  then show ?thesis by simp
qed

text \<open>\<^verbatim>\<open>set_idt\<close> makes exactly its vector an interrupt gate to the handler, and every
  other vector of the table is the gate it was; a vector past the table is the only failure.\<close>

theorem set_idt_installs:
  "(set_idt v h t = None \<longleftrightarrow> length (idt t) \<le> v) \<and>
   (\<forall>t'. set_idt v h t = Some t' \<longrightarrow> cpu_gate (pack_idt (idt t' ! v)) = gate_for (Some (0xe, h)) \<and>
      (\<forall>w. w \<noteq> v \<longrightarrow> idt t' ! w = idt t ! w) \<and> length (idt t') = length (idt t) \<and> gdt t' = gdt t)"
  by (auto simp: set_idt_def SET_INTERRUPT_GATE_def SET_IDT_ENTRY_def aput_def cpu_gate_entry bind_eq_Some_conv)

fun initialize_tasks :: "symbols \<Rightarrow> nat list \<Rightarrow> tables \<Rightarrow> tables option" where
  "initialize_tasks sy [] t = Some t"
| "initialize_tasks sy (c # cs) t = Option.bind (initializeTSS32 sy c t) (initialize_tasks sy cs)"

lemma initializeTSS32_Some:
  assumes "c < 32" "length (tss t) = 32" "length (gdt t) = 44"
  shows "initializeTSS32 sy c t = Some (t\<lparr>
    tss := (tss t)[c := zero_tss\<lparr>esp0 := kernel_stack_0_start sy + of_nat (c * 0x2000), ss0 := 0x40\<rparr>],
    gdt := (gdt t)[12 + c := gdt_entry_of 104 (tss_addr sy c) 9 0 3 0 0]\<rparr>)"
  using assms by (simp add: initializeTSS32_def SET_TASK_SEGMENT_def set_gdt_entry_Some selectors sizeof_tss_def)

text \<open>(C26) \<^verbatim>\<open>initializeTSS32\<close> for any set of CPUs below 32, in any order, gives each of them a
  task segment of its own in the GDT, with the address and size of its TSS, whose kernel stack is the CPU's
  own 8 KiB; no other descriptor and no other CPU's TSS changes.\<close>

theorem task_segments:
  assumes "length (tss t) = MAX_NUM_SMPS" "length (gdt t) = LAST_SEG div 8" "\<forall>c \<in> set cs. c < MAX_NUM_SMPS" "distinct cs"
  shows "\<exists>t'. initialize_tasks sy cs t = Some t' \<and>
    (\<forall>c \<in> set cs. cpu_descriptor (pack_gdt (gdt t' ! ((FIRST_TASK_SEG + c * 8) div 8))) =
         system_segment (tss_addr sy c) (of_nat sizeof_tss) 9 \<and>
       esp0 (tss t' ! c) = kernel_stack_0_start sy + of_nat c * 0x2000 \<and> ss0 (tss t' ! c) = of_nat KERNEL_DATA_SEG) \<and>
    (\<forall>i. i \<notin> (\<lambda>c. (FIRST_TASK_SEG + c * 8) div 8) ` set cs \<longrightarrow> gdt t' ! i = gdt t ! i) \<and>
    (\<forall>i. i \<notin> set cs \<longrightarrow> tss t' ! i = tss t ! i) \<and> idt t' = idt t \<and> ldt t' = ldt t"
  using assms
proof (induction cs arbitrary: t)
  case (Cons c cs)
  define u where "u = t\<lparr>
    tss := (tss t)[c := zero_tss\<lparr>esp0 := kernel_stack_0_start sy + of_nat (c * 0x2000), ss0 := 0x40\<rparr>],
    gdt := (gdt t)[12 + c := gdt_entry_of 104 (tss_addr sy c) 9 0 3 0 0]\<rparr>"
  have "initializeTSS32 sy c t = Some u"
    using Cons.prems unfolding u_def by (intro initializeTSS32_Some) (auto simp: selectors)
  moreover have u: "length (tss u) = MAX_NUM_SMPS" "length (gdt u) = LAST_SEG div 8" "\<And>i. i \<noteq> c \<Longrightarrow> tss u ! i = tss t ! i"
      "\<And>i. i \<noteq> 12 + c \<Longrightarrow> gdt u ! i = gdt t ! i" "esp0 (tss u ! c) = kernel_stack_0_start sy + of_nat c * 0x2000"
      "ss0 (tss u ! c) = 0x40" "cpu_descriptor (pack_gdt (gdt u ! (12 + c))) = system_segment (tss_addr sy c) 104 9"
      "idt u = idt t" "ldt u = ldt t"
    using Cons.prems by (simp_all add: u_def selectors system_entry)
  moreover have "12 + c \<notin> (\<lambda>c. 12 + c) ` set cs" "c \<notin> set cs" using Cons.prems by auto
  ultimately show ?case
    using Cons.IH [of u] Cons.prems by (auto simp: selectors sizeof_tss_def)
qed simp

text \<open>Concrete tables for the witnesses.\<close>

definition blank_tables :: tables where
  "blank_tables = \<lparr>gdt = replicate 44 zero_gdt_entry, gdt_size = 0, ldt = replicate 2 zero_gdt_entry,
     idt = replicate 256 zero_idt_entry, idt_size = 0, tss = replicate 32 zero_tss\<rparr>"

definition some_symbols :: symbols where
  "some_symbols = \<lparr>ldt_addr = 0xc0120000, tss_base = 0xc0130000, kernel_stack_0_start = 0xc0140000,
     trap_handler_addr = (\<lambda>v. 0xc0101000 + of_nat v * 16), irq_handler_addr = (\<lambda>k. 0xc0102000 + of_nat k * 16),
     sys_call_handler_128 = 0xc0103000\<rparr>"

theorem descriptor_tables_flat_witness:
  "length (ldt blank_tables) = 2 \<and> (\<exists>t'. Option.bind (initializeGDT32 blank_tables) (initializeLDT32 some_symbols) = Some t' \<and>
     cpu_descriptor (pack_gdt (gdt t' ! 6)) = flat_segment 0xa 0)"
proof
  show l: "length (ldt blank_tables) = 2" by (simp add: blank_tables_def)
  show "\<exists>t'. Option.bind (initializeGDT32 blank_tables) (initializeLDT32 some_symbols) = Some t' \<and>
     cpu_descriptor (pack_gdt (gdt t' ! 6)) = flat_segment 0xa 0"
    using descriptor_tables_flat [OF l, of some_symbols] by (auto simp: selectors)
qed

theorem idt_vectors_witness:
  "length (idt blank_tables) = 256 \<and> (\<exists>t'. initializeIDT32 some_symbols blank_tables = Some t' \<and>
     cpu_gate (pack_idt (idt t' ! 33)) = \<lparr>g_offset = 0xc0102010, g_selector = 0x30, g_type = 0xe, g_dpl = 3, g_present = True\<rparr> \<and>
     \<not> g_present (cpu_gate (pack_idt (idt t' ! 15))))"
proof
  show l: "length (idt blank_tables) = 256" by (simp add: blank_tables_def)
  obtain t' where "initializeIDT32 some_symbols blank_tables = Some t'"
      "\<forall>v < 256. cpu_gate (pack_idt (idt t' ! v)) = gate_for (idt_vector some_symbols v)"
    using idt_vectors [OF l, of some_symbols] by blast
  moreover have "gate_for (idt_vector some_symbols 33) =
      \<lparr>g_offset = 0xc0102010, g_selector = 0x30, g_type = 0xe, g_dpl = 3, g_present = True\<rparr>"
      "gate_for (idt_vector some_symbols 15) = gate_for None"
    by (simp_all add: idt_vector_def trap_vectors_def some_symbols_def gate_for_def)
  ultimately show "\<exists>t'. initializeIDT32 some_symbols blank_tables = Some t' \<and>
     cpu_gate (pack_idt (idt t' ! 33)) = \<lparr>g_offset = 0xc0102010, g_selector = 0x30, g_type = 0xe, g_dpl = 3, g_present = True\<rparr> \<and>
     \<not> g_present (cpu_gate (pack_idt (idt t' ! 15)))"
    by (intro exI [of _ t']) (simp add: gate_for_def)
qed

theorem set_idt_installs_witness:
  "\<exists>t'. set_idt 64 0xc0105000 blank_tables = Some t' \<and> g_offset (cpu_gate (pack_idt (idt t' ! 64))) = 0xc0105000"
proof -
  note inst = set_idt_installs [of 64 "0xc0105000" blank_tables]
  have "length (idt blank_tables) = 256" by (simp add: blank_tables_def)
  then have "set_idt 64 0xc0105000 blank_tables \<noteq> None" by (simp add: inst [THEN conjunct1])
  then obtain t' where t': "set_idt 64 0xc0105000 blank_tables = Some t'" by blast
  then have "cpu_gate (pack_idt (idt t' ! 64)) = gate_for (Some (0xe, 0xc0105000))"
    using inst [THEN conjunct2, rule_format, of t'] by blast
  then show ?thesis using t' by (simp add: gate_for_def)
qed

theorem task_segments_witness:
  "length (tss blank_tables) = MAX_NUM_SMPS \<and> length (gdt blank_tables) = LAST_SEG div 8 \<and>
   (\<exists>t'. initialize_tasks some_symbols [0, 5, 1] blank_tables = Some t' \<and> esp0 (tss t' ! 5) = 0xc014a000 \<and>
     d_base (cpu_descriptor (pack_gdt (gdt t' ! 17))) = tss_addr some_symbols 5)"
proof (intro conjI)
  show l: "length (tss blank_tables) = MAX_NUM_SMPS" "length (gdt blank_tables) = LAST_SEG div 8"
    by (simp_all add: blank_tables_def selectors)
  show "\<exists>t'. initialize_tasks some_symbols [0, 5, 1] blank_tables = Some t' \<and> esp0 (tss t' ! 5) = 0xc014a000 \<and>
     d_base (cpu_descriptor (pack_gdt (gdt t' ! 17))) = tss_addr some_symbols 5"
    using task_segments [OF l, of "[0, 5, 1]" some_symbols]
    by (auto simp: selectors system_segment_def some_symbols_def)
qed

end
