(* ===== verification/Spinlock.thy ===== *)
theory Spinlock
  imports Xis_Prelude
begin

text \<open>
  The spin lock of \<^verbatim>\<open>lock.c\<close>: the exchange loop of \<^verbatim>\<open>spinlock_lock\<close> and the store of
  \<^verbatim>\<open>spinlock_unlock\<close>, once as run by a CPU on its own (where a held lock means the loop
  never ends) and once as a step relation in which any number of CPUs interleave at the
  level of single instructions.
\<close>

section \<open>One CPU\<close>

text \<open>
  \<open>xchgl\<close> swaps the lock word and \<^verbatim>\<open>eax\<close>; the loop ends when the old value was 0.
  The result is the lock word after the loop; \<^const>\<open>None\<close> is a loop that never ends.
\<close>

partial_function (option) spin_loop :: "u32 \<Rightarrow> u32 \<Rightarrow> u32 option" where
  "spin_loop val eax =
     (let val' = eax; eax' = val
      in if eax' \<noteq> 0 then spin_loop val' eax' else Some val')"

definition spinlock_lock :: "u32 \<Rightarrow> u32 option" where
  "spinlock_lock val = spin_loop val 1"

definition spinlock_unlock :: "u32 \<Rightarrow> u32" where
  "spinlock_unlock val = 0"

lemma spin_loop_returns: "spin_loop val eax = Some r \<Longrightarrow> val = 0 \<or> eax = 0"
proof (rule spin_loop.raw_induct [where P = "\<lambda>val eax r. val = 0 \<or> eax = 0"])
  fix f :: "u32 \<Rightarrow> u32 \<Rightarrow> u32 option" and val eax r :: u32
  assume "\<And>val eax r. f val eax = Some r \<Longrightarrow> val = 0 \<or> eax = 0"
    and "(let val' = eax; eax' = val in if eax' \<noteq> 0 then f val' eax' else Some val') = Some r"
  then show "val = 0 \<or> eax = 0" by (fastforce simp: Let_def split: if_splits)
qed

lemma spinlock_lock_free [simp]: "spinlock_lock 0 = Some 1"
  by (simp add: spinlock_lock_def spin_loop.simps)

lemma spinlock_lock_held [simp]: "val \<noteq> 0 \<Longrightarrow> spinlock_lock val = None"
  using spin_loop_returns [of val 1] by (cases "spinlock_lock val") (auto simp: spinlock_lock_def)

lemma spinlock_lock_eq_Some: "spinlock_lock v = Some w \<longleftrightarrow> v = 0 \<and> w = 1"
  by (cases "v = 0") auto

section \<open>Interleaved CPUs\<close>

text \<open>
  Where a CPU is in the lock code: outside, before the exchange, before the test of the value
  it got, or inside the critical section. \<open>Spin\<close> is label \<^verbatim>\<open>1:\<close> of the assembly.
\<close>

datatype lock_pc = Outside | Spin | Test | Inside

record lock_state =
  lock_val :: u32
  cpu_pc :: "nat \<Rightarrow> lock_pc"
  cpu_eax :: "nat \<Rightarrow> u32"

definition lock_init :: lock_state where
  "lock_init = \<lparr>lock_val = 0, cpu_pc = (\<lambda>_. Outside), cpu_eax = (\<lambda>_. 0)\<rparr>"

inductive lock_step :: "nat \<Rightarrow> lock_state \<Rightarrow> lock_state \<Rightarrow> bool" where
  load_one: "cpu_pc s c = Outside \<Longrightarrow>
     lock_step c s (s\<lparr>cpu_pc := (cpu_pc s)(c := Spin), cpu_eax := (cpu_eax s)(c := 1)\<rparr>)"
| exchange: "cpu_pc s c = Spin \<Longrightarrow>
     lock_step c s (s\<lparr>lock_val := cpu_eax s c, cpu_eax := (cpu_eax s)(c := lock_val s),
                      cpu_pc := (cpu_pc s)(c := Test)\<rparr>)"
| again: "cpu_pc s c = Test \<Longrightarrow> cpu_eax s c \<noteq> 0 \<Longrightarrow>
     lock_step c s (s\<lparr>cpu_pc := (cpu_pc s)(c := Spin)\<rparr>)"
| enter: "cpu_pc s c = Test \<Longrightarrow> cpu_eax s c = 0 \<Longrightarrow>
     lock_step c s (s\<lparr>cpu_pc := (cpu_pc s)(c := Inside)\<rparr>)"
| leave: "cpu_pc s c = Inside \<Longrightarrow>
     lock_step c s (s\<lparr>lock_val := spinlock_unlock (lock_val s), cpu_pc := (cpu_pc s)(c := Outside)\<rparr>)"

inductive lock_reachable :: "lock_state \<Rightarrow> bool" where
  start: "lock_reachable lock_init"
| step: "lock_reachable s \<Longrightarrow> lock_step c s t \<Longrightarrow> lock_reachable t"

inductive_cases lock_stepE: "lock_step c s t"

text \<open>A CPU owns the lock from the exchange that returned 0 to the store of \<^verbatim>\<open>unlock\<close>.\<close>

definition owns :: "lock_state \<Rightarrow> nat \<Rightarrow> bool" where
  "owns s c \<longleftrightarrow> cpu_pc s c = Inside \<or> cpu_pc s c = Test \<and> cpu_eax s c = 0"

definition lock_inv :: "lock_state \<Rightarrow> bool" where
  "lock_inv s \<longleftrightarrow>
     (\<forall>c. cpu_pc s c = Spin \<longrightarrow> cpu_eax s c = 1) \<and>
     (\<forall>c. cpu_pc s c = Test \<longrightarrow> cpu_eax s c = 0 \<or> cpu_eax s c = 1) \<and>
     (lock_val s = 0 \<and> (\<forall>c. \<not> owns s c) \<or> lock_val s = 1 \<and> (\<exists>c. \<forall>d. owns s d \<longleftrightarrow> d = c))"

lemma lock_inv_init: "lock_inv lock_init"
  by (simp add: lock_inv_def lock_init_def owns_def)

lemma lock_inv_step:
  assumes "lock_step c s t" and inv: "lock_inv s"
  shows "lock_inv t"
  using assms(1)
proof (cases rule: lock_step.cases)
  case load_one
  then have "owns t = owns s" by (auto simp: owns_def fun_eq_iff)
  then show ?thesis using inv load_one by (simp add: lock_inv_def)
next
  case exchange
  then have t: "lock_val t = 1" "cpu_eax s c = 1" "\<not> owns s c" using inv by (auto simp: lock_inv_def owns_def)
  have "owns t = (if lock_val s = 0 then (owns s)(c := True) else owns s)"
    using exchange t(3) by (auto simp: owns_def fun_eq_iff)
  then show ?thesis using inv exchange t by (auto simp: lock_inv_def)
next
  case again
  then have "owns t = owns s" by (auto simp: owns_def fun_eq_iff)
  then show ?thesis using inv again by (auto simp: lock_inv_def)
next
  case enter
  then have "owns t = owns s" by (auto simp: owns_def fun_eq_iff)
  then show ?thesis using inv enter by (auto simp: lock_inv_def)
next
  case leave
  then have "owns t = (owns s)(c := False)" and "owns s c" by (auto simp: owns_def fun_eq_iff)
  then show ?thesis using inv leave by (auto simp: lock_inv_def spinlock_unlock_def)
qed

lemma lock_reachable_inv: "lock_reachable s \<Longrightarrow> lock_inv s"
  by (induction rule: lock_reachable.induct) (auto intro: lock_inv_init lock_inv_step)

lemma owns_unique: "lock_inv s \<Longrightarrow> owns s c \<Longrightarrow> lock_val s = 1 \<and> (\<forall>d. owns s d \<longleftrightarrow> d = c)"
  unfolding lock_inv_def by metis

text \<open>
  (C16) Mutual exclusion of \<^verbatim>\<open>spinlock_lock\<close> and \<^verbatim>\<open>spinlock_unlock\<close>: however the
  instructions of any number of CPUs interleave, two CPUs are never both between the
  return of \<^verbatim>\<open>spinlock_lock\<close> and the store of \<^verbatim>\<open>spinlock_unlock\<close>, and while one is
  there the lock word is 1.
\<close>

theorem spinlock_mutual_exclusion:
  assumes "lock_reachable s" and "cpu_pc s c = Inside"
  shows "lock_val s = 1 \<and> (\<forall>d. cpu_pc s d = Inside \<longrightarrow> d = c)"
  using owns_unique [OF lock_reachable_inv [OF assms(1)], of c] assms(2) unfolding owns_def by blast

text \<open>Two CPUs race: both load 1, both exchange, CPU 7 wins and enters.\<close>

definition race :: lock_state where
  "race = \<lparr>lock_val = 1, cpu_pc = (\<lambda>_. Outside)(3 := Test, 7 := Inside), cpu_eax = (\<lambda>_. 0)(3 := 1, 7 := 0)\<rparr>"

lemma race_reachable: "lock_reachable race"
proof -
  let ?a = "lock_init\<lparr>cpu_pc := (cpu_pc lock_init)(3 := Spin), cpu_eax := (cpu_eax lock_init)(3 := 1)\<rparr>"
  let ?b = "?a\<lparr>cpu_pc := (cpu_pc ?a)(7 := Spin), cpu_eax := (cpu_eax ?a)(7 := 1)\<rparr>"
  let ?c = "?b\<lparr>lock_val := cpu_eax ?b 7, cpu_eax := (cpu_eax ?b)(7 := lock_val ?b),
               cpu_pc := (cpu_pc ?b)(7 := Test)\<rparr>"
  let ?d = "?c\<lparr>lock_val := cpu_eax ?c 3, cpu_eax := (cpu_eax ?c)(3 := lock_val ?c),
               cpu_pc := (cpu_pc ?c)(3 := Test)\<rparr>"
  let ?e = "?d\<lparr>cpu_pc := (cpu_pc ?d)(7 := Inside)\<rparr>"
  have "lock_reachable ?a"
    by (rule lock_reachable.step [OF lock_reachable.start lock_step.load_one]) (simp add: lock_init_def)
  then have "lock_reachable ?b"
    by (rule lock_reachable.step [OF _ lock_step.load_one]) (simp add: lock_init_def)
  then have "lock_reachable ?c"
    by (rule lock_reachable.step [OF _ lock_step.exchange]) (simp add: lock_init_def)
  then have "lock_reachable ?d"
    by (rule lock_reachable.step [OF _ lock_step.exchange]) (simp add: lock_init_def)
  then have "lock_reachable ?e"
    by (rule lock_reachable.step [OF _ lock_step.enter]) (simp_all add: lock_init_def)
  also have "?e = race" by (simp add: race_def lock_init_def fun_upd_twist)
  finally show ?thesis .
qed

lemma race_inside: "cpu_pc race 7 = Inside"
  by (simp add: race_def)

theorem spinlock_mutual_exclusion_witness:
  "lock_val race = 1 \<and> cpu_pc race 3 \<noteq> Inside"
  using spinlock_mutual_exclusion [OF race_reachable race_inside] by (auto dest: spec [of _ 3])

text \<open>
  (C17) What the next two instructions of a waiting CPU do, in any reachable state: they can
  run; if some CPU owns the lock the waiting CPU is back at the loop and the same CPU owns it
  (the failed exchange is harmless), and if nobody owns it the waiting CPU is inside with the
  lock word 1 (a free lock is always obtained).
\<close>

theorem spinlock_progress:
  assumes "lock_reachable s" and spin: "cpu_pc s c = Spin"
  shows "(\<exists>t u. lock_step c s t \<and> lock_step c t u) \<and>
         (\<forall>t u. lock_step c s t \<and> lock_step c t u \<longrightarrow>
            (if \<exists>d. owns s d then cpu_pc u c = Spin \<and> owns u = owns s
             else cpu_pc u c = Inside \<and> lock_val u = 1))"
proof -
  note inv = lock_reachable_inv [OF assms(1)]
  define t where "t = s\<lparr>lock_val := cpu_eax s c, cpu_eax := (cpu_eax s)(c := lock_val s),
               cpu_pc := (cpu_pc s)(c := Test)\<rparr>"
  have t: "cpu_pc t c = Test" "cpu_eax t c = lock_val s" "lock_val t = 1"
    using inv spin by (simp_all add: t_def lock_inv_def)
  have step1: "lock_step c s t" unfolding t_def using spin by (rule lock_step.exchange)
  have det1: "t' = t" if "lock_step c s t'" for t'
    using that spin by (auto simp: t_def elim: lock_stepE)
  have owns_t: "owns t = owns s" if "lock_val s = 1"
    using that t spin by (auto simp: owns_def t_def fun_eq_iff)
  show ?thesis
  proof (cases "\<exists>d. owns s d")
    case True
    then have "lock_val s = 1" using owns_unique [OF inv] by blast
    then have eax: "cpu_eax t c = 1" using t by simp
    let ?u = "t\<lparr>cpu_pc := (cpu_pc t)(c := Spin)\<rparr>"
    have step2: "lock_step c t ?u" using t(1) eax by (intro lock_step.again) simp_all
    have "u = ?u" if "lock_step c t u" for u using that t(1) eax by (auto elim: lock_stepE)
    then have all: "u = ?u" if "lock_step c s t'" "lock_step c t' u" for t' u using that det1 by blast
    have "owns ?u = owns t" using t(1) eax by (auto simp: owns_def fun_eq_iff)
    then have "cpu_pc ?u c = Spin \<and> owns ?u = owns s" using owns_t [OF \<open>lock_val s = 1\<close>] by simp
    then show ?thesis using True step1 step2 all by metis
  next
    case False
    then have eax: "cpu_eax t c = 0" using inv t by (auto simp: lock_inv_def)
    let ?u = "t\<lparr>cpu_pc := (cpu_pc t)(c := Inside)\<rparr>"
    have step2: "lock_step c t ?u" using t(1) eax by (intro lock_step.enter) simp_all
    have "u = ?u" if "lock_step c t u" for u using that t(1) eax by (auto elim: lock_stepE)
    then have all: "u = ?u" if "lock_step c s t'" "lock_step c t' u" for t' u using that det1 by blast
    have "cpu_pc ?u c = Inside \<and> lock_val ?u = 1" using t(3) by simp
    then show ?thesis using False step1 step2 all by metis
  qed
qed

text \<open>CPU 3 has loaded 1 and is about to exchange, nobody owns the lock.\<close>

definition waiting :: lock_state where
  "waiting = \<lparr>lock_val = 0, cpu_pc = (\<lambda>_. Outside)(3 := Spin), cpu_eax = (\<lambda>_. 0)(3 := 1)\<rparr>"

lemma waiting_reachable: "lock_reachable waiting"
proof -
  let ?a = "lock_init\<lparr>cpu_pc := (cpu_pc lock_init)(3 := Spin), cpu_eax := (cpu_eax lock_init)(3 := 1)\<rparr>"
  have "lock_reachable ?a"
    by (rule lock_reachable.step [OF lock_reachable.start lock_step.load_one]) (simp add: lock_init_def)
  also have "?a = waiting" by (simp add: waiting_def lock_init_def)
  finally show ?thesis .
qed

lemma waiting_spins: "cpu_pc waiting 3 = Spin" "\<not> owns waiting d"
  by (simp_all add: waiting_def owns_def)

theorem spinlock_progress_witness:
  "\<exists>t u. lock_step 3 waiting t \<and> lock_step 3 t u \<and> cpu_pc u 3 = Inside \<and> lock_val u = 1"
  using spinlock_progress [OF waiting_reachable waiting_spins(1)] waiting_spins(2) by metis

end
