(* ===== verification/Paging.thy ===== *)
theory Paging
  imports Spinlock
begin

text \<open>
  The page tables of \<^verbatim>\<open>page32.c\<close>: \<^verbatim>\<open>build_pagetable\<close>, \<^verbatim>\<open>unmap_pagetable\<close>,
  \<^verbatim>\<open>map_kernel_with_pagetable\<close>, \<^verbatim>\<open>unmap_kernel_with_pagetable\<close>, \<^verbatim>\<open>page_getpfn\<close> and
  the directory locks. Memory is a map from 32-bit addresses (of the kernel's linear mapping) to 32-bit words; a
  walk of the tables as the MMU does it says what a mapping means. The addresses of the
  linker symbols are a parameter.
\<close>

section \<open>State\<close>

record kernel_layout =
  kernel_pg_dir :: u32
  kernel_pg_table_0 :: u32
  master_kernel_pg_dir :: u32

record paging =
  pmem :: "u32 \<Rightarrow> u32"
  lock_pgd_kernel :: "u32 list"
  lock_pgd_user :: "u32 list"

definition PGD_PRESENT :: u32 where "PGD_PRESENT = 1"
definition PGD_WRITE :: u32 where "PGD_WRITE = 2"
definition PGD_USER :: u32 where "PGD_USER = 4"
definition PTE_PRESENT :: u32 where "PTE_PRESENT = 1"
definition PTE_WRITE :: u32 where "PTE_WRITE = 2"
definition PTE_USER :: u32 where "PTE_USER = 4"
definition PGD_FLAG_MASK :: u32 where "PGD_FLAG_MASK = 0x1FFF"
definition MAP_USER :: u32 where "MAP_USER = 1"
definition MAP_LOCAL_CPU :: u32 where "MAP_LOCAL_CPU = 2"
definition MAP_PGD_LOCKED :: u32 where "MAP_PGD_LOCKED = 4"

lemmas paging_flags [flag_simps] = PGD_PRESENT_def PGD_WRITE_def PGD_USER_def PTE_PRESENT_def PTE_WRITE_def
  PTE_USER_def MAP_USER_def MAP_LOCAL_CPU_def MAP_PGD_LOCKED_def

definition ALIGN_PAGE :: "u32 \<Rightarrow> u32" where
  "ALIGN_PAGE m = (m + PAGE_SIZE - 1) AND PAGE_MASK"

definition GET_CPU_PGDIR :: "kernel_layout \<Rightarrow> u32 \<Rightarrow> u32" where
  "GET_CPU_PGDIR lay cpuid = kernel_pg_dir lay + PAGE_SIZE * cpuid"

definition pmem_write :: "u32 \<Rightarrow> u32 \<Rightarrow> paging \<Rightarrow> paging" where
  "pmem_write a x s = s\<lparr>pmem := (pmem s)(a := x)\<rparr>"

section \<open>Directory locks\<close>

definition uses_kernel_lock :: "u32 \<Rightarrow> u32 \<Rightarrow> bool" where
  "uses_kernel_lock addr flags \<longleftrightarrow> flags AND (MAP_USER OR MAP_LOCAL_CPU) = 0 \<and> KERNEL_VIRT_ADDR \<le> addr"

definition pgd_lock_index :: "u32 \<Rightarrow> nat" where
  "pgd_lock_index addr = unat (drop_bit PGD_SHIFT (addr - KERNEL_VIRT_ADDR) AND 0x3ff)"

definition LOCK_PGD :: "u32 \<Rightarrow> u32 \<Rightarrow> u32 \<Rightarrow> paging \<Rightarrow> paging option" where
  "LOCK_PGD cpuid addr flags s =
     (if uses_kernel_lock addr flags
      then do { v \<leftarrow> aget (lock_pgd_kernel s) (pgd_lock_index addr); v \<leftarrow> spinlock_lock v;
                l \<leftarrow> aput (lock_pgd_kernel s) (pgd_lock_index addr) v; Some (s\<lparr>lock_pgd_kernel := l\<rparr>) }
      else do { v \<leftarrow> aget (lock_pgd_user s) (unat cpuid); v \<leftarrow> spinlock_lock v;
                l \<leftarrow> aput (lock_pgd_user s) (unat cpuid) v; Some (s\<lparr>lock_pgd_user := l\<rparr>) })"

definition UNLOCK_PGD :: "u32 \<Rightarrow> u32 \<Rightarrow> u32 \<Rightarrow> paging \<Rightarrow> paging option" where
  "UNLOCK_PGD cpuid addr flags s =
     (if uses_kernel_lock addr flags
      then do { v \<leftarrow> aget (lock_pgd_kernel s) (pgd_lock_index addr);
                l \<leftarrow> aput (lock_pgd_kernel s) (pgd_lock_index addr) (spinlock_unlock v);
                Some (s\<lparr>lock_pgd_kernel := l\<rparr>) }
      else do { v \<leftarrow> aget (lock_pgd_user s) (unat cpuid);
                l \<leftarrow> aput (lock_pgd_user s) (unat cpuid) (spinlock_unlock v);
                Some (s\<lparr>lock_pgd_user := l\<rparr>) })"

definition pgd_lock_init :: "paging \<Rightarrow> paging" where
  "pgd_lock_init s = s\<lparr>lock_pgd_kernel := map (\<lambda>_. 0) (lock_pgd_kernel s),
                       lock_pgd_user := map (\<lambda>_. 0) (lock_pgd_user s)\<rparr>"

fun lock_list :: "u32 list \<Rightarrow> u32 list option" where
  "lock_list [] = Some []"
| "lock_list (l # ls) = do { v \<leftarrow> spinlock_lock l; ls \<leftarrow> lock_list ls; Some (v # ls) }"

definition pgd_kernel_lock_all :: "paging \<Rightarrow> paging option" where
  "pgd_kernel_lock_all s = do { ls \<leftarrow> lock_list (lock_pgd_kernel s); Some (s\<lparr>lock_pgd_kernel := ls\<rparr>) }"

definition pgd_kernel_unlock_all :: "paging \<Rightarrow> paging" where
  "pgd_kernel_unlock_all s = s\<lparr>lock_pgd_kernel := map spinlock_unlock (lock_pgd_kernel s)\<rparr>"

section \<open>build_pagetable\<close>

text \<open>The directory entry under its lock: the block that appears before and inside the loop.\<close>

definition pgd_entry :: "u32 \<Rightarrow> u32 \<Rightarrow> u32 \<Rightarrow> paging \<Rightarrow> paging" where
  "pgd_entry pgd table pgd_flags s =
     (if pmem s pgd = 0 then pmem_write pgd ((table - KERNEL_VIRT_ADDR) OR pgd_flags) s
      else if (pmem s pgd AND PGD_FLAG_MASK) XOR pgd_flags \<noteq> 0 then pmem_write pgd (pmem s pgd OR pgd_flags) s
      else s)"

definition set_pgd :: "u32 \<Rightarrow> u32 \<Rightarrow> u32 \<Rightarrow> u32 \<Rightarrow> u32 \<Rightarrow> u32 \<Rightarrow> paging \<Rightarrow> paging option" where
  "set_pgd cpuid pgd table start pgd_flags map_flags s =
     (let locked = map_flags AND MAP_PGD_LOCKED \<noteq> 0
      in do {
        s \<leftarrow> (if \<not> locked then LOCK_PGD cpuid start map_flags s else Some s);
        let s = pgd_entry pgd table pgd_flags s;
        if \<not> locked then UNLOCK_PGD cpuid start map_flags s else Some s
      })"

definition next_page :: "u32 \<Rightarrow> u32" where
  "next_page pte = (pte + PAGE_SIZE) AND PAGE_MASK"

partial_function (option) build_loop ::
  "u32 \<Rightarrow> u32 list \<Rightarrow> u32 \<Rightarrow> u32 \<Rightarrow> u32 \<Rightarrow> u32 \<Rightarrow>
   nat \<Rightarrow> u32 \<Rightarrow> u32 \<Rightarrow> u32 \<Rightarrow> u32 \<Rightarrow> u32 \<Rightarrow> paging \<Rightarrow> paging option"
where
  "build_loop cpuid pgtable end pgd_flags pte_flags map_flags idx pgd pte last_pte phys_addr start s =
     (if start < end
      then do {
        (idx, pgd, pte, last_pte, s) \<leftarrow>
          (if pte = last_pte
           then do {
             table \<leftarrow> aget pgtable (idx + 1);
             s \<leftarrow> set_pgd cpuid (pgd + 4) table start pgd_flags map_flags s;
             Some (idx + 1, pgd + 4, table, next_page table, s)
           }
           else Some (idx, pgd, pte, last_pte, s));
        let s = pmem_write pte (phys_addr OR pte_flags) s;
        build_loop cpuid pgtable end pgd_flags pte_flags map_flags idx pgd (pte + 4) last_pte
          (phys_addr + PAGE_SIZE) (start + PAGE_SIZE) s
      }
      else Some s)"

definition pgdir_for :: "kernel_layout \<Rightarrow> u32 \<Rightarrow> u32 \<Rightarrow> u32" where
  "pgdir_for lay cpuid map_flags =
     (if map_flags AND (MAP_USER OR MAP_LOCAL_CPU) \<noteq> 0 then GET_CPU_PGDIR lay cpuid else master_kernel_pg_dir lay)"

definition pgd_slot :: "u32 \<Rightarrow> u32 \<Rightarrow> u32" where
  "pgd_slot pgdir addr = pgdir + 4 * (drop_bit PGD_SHIFT addr AND 0x3ff)"

definition pte_slot :: "u32 \<Rightarrow> u32 \<Rightarrow> u32" where
  "pte_slot table addr = table + 4 * (drop_bit PAGE_SHIFT addr AND 0x3ff)"

definition build_pagetable ::
  "kernel_layout \<Rightarrow> u32 \<Rightarrow> u32 list \<Rightarrow> u32 \<Rightarrow> u32 \<Rightarrow> u32 \<Rightarrow> u32 \<Rightarrow> u32 \<Rightarrow> u32 \<Rightarrow> paging \<Rightarrow> paging option"
where
  "build_pagetable lay cpuid pgtable phys_addr start len pgd_flags pte_flags map_flags s =
     do {
       table \<leftarrow> aget pgtable 0;
       let pgd = pgd_slot (pgdir_for lay cpuid map_flags) start;
       let pte = pte_slot table start;
       s \<leftarrow> set_pgd cpuid pgd table start pgd_flags map_flags s;
       build_loop cpuid pgtable (start + len) pgd_flags pte_flags map_flags 0 pgd pte (next_page pte)
         phys_addr start s
     }"

section \<open>unmap_pagetable\<close>

partial_function (option) unmap_loop ::
  "u32 \<Rightarrow> u32 list \<Rightarrow> u32 \<Rightarrow> u32 \<Rightarrow> nat \<Rightarrow> u32 \<Rightarrow> u32 \<Rightarrow> u32 \<Rightarrow> u32 \<Rightarrow> paging \<Rightarrow> paging option"
where
  "unmap_loop cpuid pgtable end map_flags idx pgd pte last_pte start s =
     (if start < end
      then if pte = last_pte
        then do {
          table \<leftarrow> aget pgtable (idx + 1);
          let locked = map_flags AND MAP_PGD_LOCKED \<noteq> 0;
          s \<leftarrow> (if \<not> locked then LOCK_PGD cpuid (start + PAGE_SIZE) map_flags s else Some s);
          let absent = (pmem s (pgd + 4) = 0);
          s \<leftarrow> (if \<not> locked then UNLOCK_PGD cpuid (start + PAGE_SIZE) map_flags s else Some s);
          if absent
          then unmap_loop cpuid pgtable end map_flags (idx + 1) (pgd + 4) (next_page table) (next_page table)
                 (start + PGD_SIZE) s
          else unmap_loop cpuid pgtable end map_flags (idx + 1) (pgd + 4) (table + 4) (next_page table)
                 (start + PAGE_SIZE) (pmem_write table 0 s)
        }
        else unmap_loop cpuid pgtable end map_flags idx pgd (pte + 4) last_pte (start + PAGE_SIZE)
               (pmem_write pte 0 s)
      else Some s)"

text \<open>An absent first directory entry skips to the end of its table.\<close>

definition unmap_pagetable :: "kernel_layout \<Rightarrow> u32 \<Rightarrow> u32 list \<Rightarrow> u32 \<Rightarrow> u32 \<Rightarrow> u32 \<Rightarrow> paging \<Rightarrow> paging option" where
  "unmap_pagetable lay cpuid pgtable start len map_flags s =
     do {
       table \<leftarrow> aget pgtable 0;
       let locked = map_flags AND MAP_PGD_LOCKED \<noteq> 0;
       let pgd = pgd_slot (pgdir_for lay cpuid map_flags) start;
       let pte = pte_slot table start;
       let last_pte = next_page pte;
       s \<leftarrow> (if \<not> locked then LOCK_PGD cpuid start map_flags s else Some s);
       let (start', pte') = (if pmem s pgd = 0 then (start + push_bit PAGE_SHIFT ((last_pte - pte) div 4), last_pte)
                             else (start, pte));
       s \<leftarrow> (if \<not> locked then UNLOCK_PGD cpuid start' map_flags s else Some s);
       unmap_loop cpuid pgtable (start + len) map_flags 0 pgd pte' last_pte start' s
     }"

section \<open>Kernel mappings\<close>

definition kernel_pte :: "kernel_layout \<Rightarrow> u32 \<Rightarrow> u32" where
  "kernel_pte lay virt_addr =
     kernel_pg_table_0 lay +
     push_bit PAGE_SHIFT (drop_bit PGD_SHIFT (virt_addr - KERNEL_VIRT_ADDR) AND 0x3ff) +
     4 * (drop_bit PAGE_SHIFT virt_addr AND 0x3ff)"

partial_function (option) map_loop ::
  "kernel_layout \<Rightarrow> u32 \<Rightarrow> u32 \<Rightarrow> u32 \<Rightarrow> u32 \<Rightarrow> u32 \<Rightarrow> u32 \<Rightarrow> u32 \<Rightarrow> paging \<Rightarrow> paging option"
where
  "map_loop lay cpu end_virt_addr pte_flags map_flags pte virt_addr phys_addr s =
     (if virt_addr \<noteq> end_virt_addr
      then do {
        s \<leftarrow> build_pagetable lay cpu [pte AND PAGE_MASK] phys_addr virt_addr PAGE_SIZE
               (PGD_PRESENT OR PGD_WRITE) (pte_flags OR PTE_PRESENT) map_flags s;
        map_loop lay cpu end_virt_addr pte_flags map_flags (pte + 4) (virt_addr + PAGE_SIZE)
          (phys_addr + PAGE_SIZE) s
      }
      else Some s)"

definition map_kernel_with_pagetable ::
  "kernel_layout \<Rightarrow> u32 \<Rightarrow> u32 \<Rightarrow> u32 \<Rightarrow> u32 \<Rightarrow> u32 \<Rightarrow> u32 \<Rightarrow> paging \<Rightarrow> paging option"
where
  "map_kernel_with_pagetable lay cpu virt_addr phys_addr len pte_flags map_flags s =
     (if virt_addr < KERNEL_VIRT_ADDR \<or> map_flags AND MAP_USER \<noteq> 0 then Some s
      else let end_virt_addr = ALIGN_PAGE (virt_addr + len);
               virt_addr = virt_addr AND PAGE_MASK
           in map_loop lay cpu end_virt_addr pte_flags map_flags (kernel_pte lay virt_addr) virt_addr
                (phys_addr AND PAGE_MASK) s)"

definition map_kernel_linear_with_pagetable ::
  "kernel_layout \<Rightarrow> u32 \<Rightarrow> u32 \<Rightarrow> u32 \<Rightarrow> u32 \<Rightarrow> u32 \<Rightarrow> paging \<Rightarrow> paging option"
where
  "map_kernel_linear_with_pagetable lay cpu v l pte_flags map_flags s =
     map_kernel_with_pagetable lay cpu v (v - KERNEL_VIRT_ADDR) l pte_flags map_flags s"

partial_function (option) unmap_kernel_loop ::
  "kernel_layout \<Rightarrow> u32 \<Rightarrow> u32 \<Rightarrow> u32 \<Rightarrow> u32 \<Rightarrow> u32 \<Rightarrow> paging \<Rightarrow> paging option"
where
  "unmap_kernel_loop lay cpu end_virt_addr map_flags pte virt_addr s =
     (if virt_addr \<noteq> end_virt_addr
      then do {
        s \<leftarrow> unmap_pagetable lay cpu [pte AND PAGE_MASK] virt_addr PAGE_SIZE map_flags s;
        unmap_kernel_loop lay cpu end_virt_addr map_flags (pte + 4) (virt_addr + PAGE_SIZE) s
      }
      else Some s)"

definition unmap_kernel_with_pagetable ::
  "kernel_layout \<Rightarrow> u32 \<Rightarrow> u32 \<Rightarrow> u32 \<Rightarrow> u32 \<Rightarrow> paging \<Rightarrow> paging option"
where
  "unmap_kernel_with_pagetable lay cpu virt_addr len map_flags s =
     (if virt_addr < KERNEL_VIRT_ADDR \<or> map_flags AND MAP_USER \<noteq> 0 then Some s
      else let end_virt_addr = ALIGN_PAGE (virt_addr + len);
               virt_addr = virt_addr AND PAGE_MASK
           in unmap_kernel_loop lay cpu end_virt_addr map_flags (kernel_pte lay virt_addr) virt_addr s)"

section \<open>page_getpfn\<close>

text \<open>A 32-bit read at any address: an unaligned one takes bytes of two words.\<close>

definition read32 :: "(u32 \<Rightarrow> u32) \<Rightarrow> u32 \<Rightarrow> u32" where
  "read32 m a =
     (let r = unat (a AND 3); b = a AND NOT 3
      in if r = 0 then m b else drop_bit (8 * r) (m b) OR push_bit (32 - 8 * r) (m (b + 4)))"

definition page_getpfn :: "kernel_layout \<Rightarrow> u32 \<Rightarrow> u32 \<Rightarrow> paging \<Rightarrow> u32" where
  "page_getpfn lay cpu addr s =
     (let pgd = read32 (pmem s) (pgd_slot (GET_CPU_PGDIR lay cpu) addr);
          pte = (pgd + KERNEL_VIRT_ADDR) + 4 * (drop_bit PAGE_SHIFT addr AND 0x3ff)
      in read32 (pmem s) pte AND PAGE_MASK)"

end
