(* ===== verification/Paging_Refine.thy ===== *)
theory Paging_Refine
  imports Paging
begin

text \<open>
  What the page table code of \<^verbatim>\<open>Paging\<close> does to the mapping: addresses of directory and table entries by page number,
  the walk \<open>translate\<close>, the invariant of the kernel half of a directory, and the effect of mapping and unmapping
  a range of pages on every walk.
\<close>

section \<open>Kernel pages by number\<close>

text \<open>Kernel page \<open>n\<close> starts at \<open>kaddr n\<close>; there are \<open>2 ^ 19\<close> of them.\<close>

definition kaddr :: "nat \<Rightarrow> u32" where
  "kaddr n = KERNEL_VIRT_ADDR + of_nat (4096 * n)"

lemma unat_kaddr: "n < 2 ^ 19 \<Longrightarrow> unat (kaddr n) = 2 ^ 31 + 4096 * n"
  unfolding kaddr_def by (subst unat_add_of_nat) (simp_all add: KERNEL_VIRT_ADDR_def)

lemma kaddr_index:
  assumes "n < 2 ^ 19"
  shows "drop_bit PGD_SHIFT (kaddr n) AND 0x3ff = of_nat (512 + n div 1024)"
    "drop_bit PAGE_SHIFT (kaddr n) AND 0x3ff = of_nat (n mod 1024)"
    "drop_bit PGD_SHIFT (kaddr n - KERNEL_VIRT_ADDR) AND 0x3ff = of_nat (n div 1024)"
proof -
  have d: "n div 1024 < 512" using assms by (simp add: less_mult_imp_div_less)
  have "(2 ^ 31 + 4096 * n) div 2 ^ 22 = 512 + n div 1024"
  proof -
    have "2 ^ 31 + 4096 * n = 4096 * (1024 * 512 + n)" by simp
    also have "\<dots> div 2 ^ 22 = (1024 * 512 + n) div 1024" by (subst div_mult_mult1 [of 4096 _ 1024, symmetric]) simp_all
    finally show ?thesis by simp
  qed
  then have "unat (drop_bit PGD_SHIFT (kaddr n)) = 512 + n div 1024"
    by (simp add: unat_drop_bit_eq unat_kaddr [OF assms] PGD_SHIFT_def drop_bit_eq_div [where 'a = nat])
  then show "drop_bit PGD_SHIFT (kaddr n) AND 0x3ff = of_nat (512 + n div 1024)"
    unfolding word_unat_eq_iff and_3ff using d by (simp add: unat_of_nat del: of_nat_add)
  have "(2 ^ 31 + 4096 * n) div 2 ^ 12 = 1024 * 512 + n" by simp
  then have "unat (drop_bit PAGE_SHIFT (kaddr n)) = 1024 * 512 + n"
    by (simp add: unat_drop_bit_eq unat_kaddr [OF assms] PAGE_SHIFT_def drop_bit_eq_div [where 'a = nat])
  then show "drop_bit PAGE_SHIFT (kaddr n) AND 0x3ff = of_nat (n mod 1024)"
    unfolding word_unat_eq_iff and_3ff using mod_mult_self4 [of 1024 512 n] by (simp add: unat_of_nat)
  have "kaddr n - KERNEL_VIRT_ADDR = of_nat (4096 * n)" by (simp add: kaddr_def)
  moreover have "unat (of_nat (4096 * n) :: u32) = 4096 * n" using assms by (simp add: unat_of_nat del: of_nat_mult)
  moreover have "4096 * n div 2 ^ 22 = n div 1024"
    by (subst div_mult_mult1 [of 4096 _ 1024, symmetric]) simp_all
  ultimately have "unat (drop_bit PGD_SHIFT (kaddr n - KERNEL_VIRT_ADDR)) = n div 1024"
    by (simp add: unat_drop_bit_eq PGD_SHIFT_def drop_bit_eq_div [where 'a = nat] del: of_nat_mult)
  then show "drop_bit PGD_SHIFT (kaddr n - KERNEL_VIRT_ADDR) AND 0x3ff = of_nat (n div 1024)"
    unfolding word_unat_eq_iff and_3ff using d by (simp add: unat_of_nat)
qed

lemma kaddr_page: "n < 2 ^ 19 \<Longrightarrow> kaddr n AND PAGE_MASK = kaddr n"
  unfolding word_unat_eq_iff unat_page_mask by (simp add: unat_kaddr)

lemma kaddr_Suc: "kaddr n + PAGE_SIZE = kaddr (Suc n)"
  by (simp add: kaddr_def PAGE_SIZE_def)

definition pgd_at :: "u32 \<Rightarrow> nat \<Rightarrow> u32" where
  "pgd_at dir i = dir + of_nat (4 * (512 + i))"

definition pte_at :: "kernel_layout \<Rightarrow> nat \<Rightarrow> u32" where
  "pte_at lay n = kernel_pg_table_0 lay + of_nat (4 * n)"

definition table_at :: "kernel_layout \<Rightarrow> nat \<Rightarrow> u32" where
  "table_at lay i = kernel_pg_table_0 lay + of_nat (4096 * i)"

definition layout_ok :: "kernel_layout \<Rightarrow> u32 \<Rightarrow> bool" where
  "layout_ok lay dir \<longleftrightarrow>
     4096 dvd unat (kernel_pg_table_0 lay) \<and> 2 ^ 31 \<le> unat (kernel_pg_table_0 lay) \<and>
     unat (kernel_pg_table_0 lay) + 2 ^ 21 + 4096 < 2 ^ 32 \<and>
     4096 dvd unat dir \<and> unat dir + 4096 < 2 ^ 32 \<and>
     (unat dir + 4096 \<le> unat (kernel_pg_table_0 lay) \<or> unat (kernel_pg_table_0 lay) + 2 ^ 21 \<le> unat dir)"

lemma unat_pte_at: "layout_ok lay dir \<Longrightarrow> n < 2 ^ 19 \<Longrightarrow> unat (pte_at lay n) = unat (kernel_pg_table_0 lay) + 4 * n"
  unfolding pte_at_def by (intro unat_add_of_nat) (simp add: layout_ok_def)

lemma unat_pgd_at: "layout_ok lay dir \<Longrightarrow> i < 512 \<Longrightarrow> unat (pgd_at dir i) = unat dir + 4 * (512 + i)"
  unfolding pgd_at_def by (intro unat_add_of_nat) (simp add: layout_ok_def)

lemma unat_table_at: "layout_ok lay dir \<Longrightarrow> i < 512 \<Longrightarrow> unat (table_at lay i) = unat (kernel_pg_table_0 lay) + 4096 * i"
  unfolding table_at_def by (intro unat_add_of_nat) (simp add: layout_ok_def)

lemma pte_at_inj: "layout_ok lay dir \<Longrightarrow> m < 2 ^ 19 \<Longrightarrow> n < 2 ^ 19 \<Longrightarrow> pte_at lay m = pte_at lay n \<longleftrightarrow> m = n"
  using unat_pte_at [of lay dir m] unat_pte_at [of lay dir n] by (simp add: word_unat_eq_iff)

lemma pgd_at_inj: "layout_ok lay dir \<Longrightarrow> i < 512 \<Longrightarrow> j < 512 \<Longrightarrow> pgd_at dir i = pgd_at dir j \<longleftrightarrow> i = j"
  using unat_pgd_at [of lay dir i] unat_pgd_at [of lay dir j] by (simp add: word_unat_eq_iff)

lemma pgd_pte_apart: "layout_ok lay dir \<Longrightarrow> i < 512 \<Longrightarrow> n < 2 ^ 19 \<Longrightarrow> pgd_at dir i \<noteq> pte_at lay n"
  using unat_pgd_at [of lay dir i] unat_pte_at [of lay dir n] by (auto simp: word_unat_eq_iff layout_ok_def)

lemma slots:
  assumes ok: "layout_ok lay dir" and n: "n < 2 ^ 19"
  shows "pgd_slot dir (kaddr n) = pgd_at dir (n div 1024)"
    "kernel_pte lay (kaddr n) = pte_at lay n"
    "pte_at lay n AND PAGE_MASK = table_at lay (n div 1024)"
    "pte_slot (table_at lay (n div 1024)) (kaddr n) = pte_at lay n"
    "next_page (pte_at lay n) \<noteq> pte_at lay n"
proof -
  have d: "n div 1024 < 512" using n by (simp add: less_mult_imp_div_less)
  have nm: "4096 * (n div 1024) + 4 * (n mod 1024) = 4 * n"
    using div_mult_mod_eq [of n 1024] by linarith
  show "pgd_slot dir (kaddr n) = pgd_at dir (n div 1024)"
    by (simp add: pgd_slot_def pgd_at_def kaddr_index(1) [OF n])
  have sum: "of_nat (4096 * (n div 1024)) + of_nat (4 * (n mod 1024)) = (of_nat (4 * n) :: u32)"
    by (simp only: of_nat_add [symmetric] nm)
  have "push_bit PAGE_SHIFT (of_nat (n div 1024)) = (of_nat (4096 * (n div 1024)) :: u32)"
    by (simp add: PAGE_SHIFT_def push_bit_eq_mult)
  moreover have four: "(4 :: u32) * of_nat (n mod 1024) = of_nat (4 * (n mod 1024))" by simp
  ultimately show "kernel_pte lay (kaddr n) = pte_at lay n"
    by (simp only: kernel_pte_def kaddr_index [OF n] pte_at_def sum [symmetric] add.assoc)
  show "pte_slot (table_at lay (n div 1024)) (kaddr n) = pte_at lay n"
    by (simp only: pte_slot_def kaddr_index [OF n] pte_at_def table_at_def four sum [symmetric] add.assoc)
  obtain t where t: "unat (kernel_pg_table_0 lay) = 4096 * t" using ok by (auto simp: layout_ok_def elim: dvdE)
  have "(4096 * t + 4 * n) div 4096 = t + n div 1024"
    by (simp add: div_mult_mult1 [of 4 n 1024, simplified])
  then have "unat (pte_at lay n AND PAGE_MASK) = 4096 * t + 4096 * (n div 1024)"
    unfolding unat_page_mask by (simp add: unat_pte_at [OF ok n] t)
  then show "pte_at lay n AND PAGE_MASK = table_at lay (n div 1024)"
    unfolding word_unat_eq_iff by (simp add: unat_table_at [OF ok d] t)
  show "next_page (pte_at lay n) \<noteq> pte_at lay n"
  proof
    assume "next_page (pte_at lay n) = pte_at lay n"
    moreover have "unat (pte_at lay n + PAGE_SIZE) = unat (pte_at lay n) + 4096"
      unfolding PAGE_SIZE_def using unat_add_of_nat [of "pte_at lay n" 4096] ok n
      by (simp add: unat_pte_at [OF ok n] layout_ok_def)
    moreover have "(unat (pte_at lay n) + 4096) div 4096 * 4096 > unat (pte_at lay n)"
      using div_mult_mod_eq [of "unat (pte_at lay n) + 4096" 4096] mod_less_divisor [of 4096 "unat (pte_at lay n) + 4096"]
      by linarith
    ultimately show False unfolding next_page_def word_unat_eq_iff unat_page_mask by simp
  qed
qed

section \<open>One page\<close>

definition locks_free :: "paging \<Rightarrow> bool" where
  "locks_free s \<longleftrightarrow> lock_pgd_kernel s = replicate 512 0 \<and> lock_pgd_user s = replicate 32 0"

lemma pmem_write_simps [simp]:
  "pmem (pmem_write a x s) = (pmem s)(a := x)" "lock_pgd_kernel (pmem_write a x s) = lock_pgd_kernel s"
  "lock_pgd_user (pmem_write a x s) = lock_pgd_user s"
  by (simp_all add: pmem_write_def)

lemma locks_free_write [simp]: "locks_free (pmem_write a x s) \<longleftrightarrow> locks_free s"
  by (simp add: locks_free_def)

lemma pgd_entry_simps [simp]:
  "lock_pgd_kernel (pgd_entry p t f s) = lock_pgd_kernel s" "lock_pgd_user (pgd_entry p t f s) = lock_pgd_user s"
  by (simp_all add: pgd_entry_def)

lemma replicate_update [simp]: "(replicate n x)[i := x] = replicate n x"
  by (metis length_replicate list_update_beyond list_update_id not_le nth_replicate)

text \<open>With free locks the critical section is the update alone.\<close>

lemma lock_index_bound: "n < 2 ^ 19 \<Longrightarrow> pgd_lock_index (kaddr n) = n div 1024 \<and> n div 1024 < 512"
  by (simp add: pgd_lock_index_def kaddr_index unat_of_nat less_mult_imp_div_less)

lemma locked_region:
  assumes free: "locks_free s" and cpu: "unat cpuid < 32" and n: "n < 2 ^ 19"
  shows "\<exists>t. LOCK_PGD cpuid (kaddr n) fl s = Some t \<and> pmem t = pmem s \<and>
     (\<forall>m. UNLOCK_PGD cpuid (kaddr n) fl (t\<lparr>pmem := m\<rparr>) = Some (s\<lparr>pmem := m\<rparr>))"
  using free cpu lock_index_bound [OF n]
  by (auto simp: LOCK_PGD_def UNLOCK_PGD_def locks_free_def spinlock_unlock_def Let_def)

lemma pgd_entry_mem: "pgd_entry p t f s = s\<lparr>pmem := pmem (pgd_entry p t f s)\<rparr>"
  by (simp add: pgd_entry_def pmem_write_def)

lemma pgd_entry_mem_cong: "pmem s = pmem t \<Longrightarrow> pmem (pgd_entry p q f s) = pmem (pgd_entry p q f t)"
  by (simp add: pgd_entry_def)

lemma set_pgd_free:
  assumes "locks_free s" and "unat cpuid < 32" and "n < 2 ^ 19"
  shows "set_pgd cpuid pgd table (kaddr n) pf fl s = Some (pgd_entry pgd table pf s)"
proof -
  obtain t where t: "LOCK_PGD cpuid (kaddr n) fl s = Some t" "pmem t = pmem s"
    "\<And>m. UNLOCK_PGD cpuid (kaddr n) fl (t\<lparr>pmem := m\<rparr>) = Some (s\<lparr>pmem := m\<rparr>)"
    using locked_region [OF assms, of fl] by blast
  have "UNLOCK_PGD cpuid (kaddr n) fl (pgd_entry pgd table pf t) = Some (s\<lparr>pmem := pmem (pgd_entry pgd table pf s)\<rparr>)"
    using t(3) [of "pmem (pgd_entry pgd table pf t)"] pgd_entry_mem [of pgd table pf t] pgd_entry_mem_cong [OF t(2)] by metis
  then show ?thesis using t(1) pgd_entry_mem [of pgd table pf s] by (simp add: set_pgd_def Let_def)
qed

lemma build_one_page:
  assumes ok: "layout_ok lay (pgdir_for lay cpuid fl)" and free: "locks_free s" and cpu: "unat cpuid < 32"
    and n: "n + 1 < 2 ^ 19"
  shows "build_pagetable lay cpuid [table_at lay (n div 1024)] phys (kaddr n) PAGE_SIZE pf tf fl s =
    Some (pmem_write (pte_at lay n) (phys OR tf)
           (pgd_entry (pgd_at (pgdir_for lay cpuid fl) (n div 1024)) (table_at lay (n div 1024)) pf s))"
proof -
  have n': "n < 2 ^ 19" using n by simp
  note sl = slots [OF ok n']
  have lt: "kaddr n < kaddr n + PAGE_SIZE"
    unfolding kaddr_Suc word_less_nat_alt using n by (simp add: unat_kaddr)
  show ?thesis
    using lt sl(5) [symmetric]
    by (simp add: build_pagetable_def sl(1,4) set_pgd_free [OF free cpu n'] Let_def build_loop.simps)
qed

text \<open>The walk of the MMU from page directory \<open>dir\<close> for kernel page \<open>n\<close>: its page table entry, if present.\<close>

definition translate :: "u32 \<Rightarrow> (u32 \<Rightarrow> u32) \<Rightarrow> nat \<Rightarrow> u32 option" where
  "translate dir m n =
     (let e = m (pgd_slot dir (kaddr n))
      in if e AND PGD_PRESENT = 0 then None
         else let p = m (pte_slot ((e AND PAGE_MASK) + KERNEL_VIRT_ADDR) (kaddr n))
              in if p AND PTE_PRESENT = 0 then None else Some p)"

text \<open>
  Kernel directory entries are zero, with an empty table behind them, or present and point to
  their own table.
\<close>

definition pg_inv :: "kernel_layout \<Rightarrow> u32 \<Rightarrow> (u32 \<Rightarrow> u32) \<Rightarrow> bool" where
  "pg_inv lay dir m \<longleftrightarrow>
     (\<forall>i < 512. let e = m (pgd_at dir i) in
        e = 0 \<and> (\<forall>n < 2 ^ 19. n div 1024 = i \<longrightarrow> m (pte_at lay n) = 0) \<or>
        e AND PGD_PRESENT \<noteq> 0 \<and> (e AND PAGE_MASK) + KERNEL_VIRT_ADDR = table_at lay i)"

text \<open>
  A CPU's directory follows the master: a kernel entry is zero, or points to the kernel's table of its number.
\<close>

definition dir_synced :: "kernel_layout \<Rightarrow> u32 \<Rightarrow> (u32 \<Rightarrow> u32) \<Rightarrow> bool" where
  "dir_synced lay dir m \<longleftrightarrow>
     (\<forall>i < 512. let e = m (pgd_at dir i) in
        e = 0 \<or> e AND PGD_PRESENT \<noteq> 0 \<and> (e AND PAGE_MASK) + KERNEL_VIRT_ADDR = table_at lay i)"

lemma pg_inv_synced: "pg_inv lay dir m \<Longrightarrow> dir_synced lay dir m"
  unfolding pg_inv_def dir_synced_def Let_def by blast

lemma translate_inv:
  assumes ok: "layout_ok lay dir" and inv: "pg_inv lay dir m" and n: "n < 2 ^ 19"
  shows "translate dir m n = (if m (pte_at lay n) AND PTE_PRESENT = 0 then None else Some (m (pte_at lay n)))"
proof -
  have d: "n div 1024 < 512" using n by (simp add: less_mult_imp_div_less)
  show ?thesis
    using inv d n slots [OF ok n] unfolding pg_inv_def translate_def Let_def
    by (auto simp: PGD_PRESENT_def)
qed

lemma table_phys:
  assumes ok: "layout_ok lay dir" and i: "i < 512"
  shows "(table_at lay i - KERNEL_VIRT_ADDR) AND 0xFFF = 0"
proof -
  have t: "2 ^ 31 \<le> unat (table_at lay i)" "4096 dvd unat (table_at lay i)"
    using ok i unat_table_at [OF ok i] by (auto simp: layout_ok_def)
  have "unat (table_at lay i - KERNEL_VIRT_ADDR) = unat (table_at lay i) - 2 ^ 31"
    using t(1) by (subst unat_sub) (simp_all add: KERNEL_VIRT_ADDR_def word_le_nat_alt)
  moreover have "(4096 :: nat) dvd unat (table_at lay i) - 2 ^ 31" using t by (intro dvd_diff_nat) simp_all
  ultimately have "unat ((table_at lay i - KERNEL_VIRT_ADDR) AND 0xFFF) = 0"
    by (simp add: unat_take12 dvd_eq_mod_eq_0)
  then show ?thesis by (simp add: unat_eq_zero)
qed

lemma or_present: "(e OR (f OR PTE_PRESENT)) AND PTE_PRESENT \<noteq> 0" "(e OR (PGD_PRESENT OR f)) AND PGD_PRESENT \<noteq> 0"
  for e :: u32
proof -
  have "bit ((e OR (f OR 1)) AND (1 :: u32)) 0" "bit ((e OR (1 OR f)) AND (1 :: u32)) 0" by (simp_all add: bit_simps)
  then show "(e OR (f OR PTE_PRESENT)) AND PTE_PRESENT \<noteq> 0" "(e OR (PGD_PRESENT OR f)) AND PGD_PRESENT \<noteq> 0"
    unfolding PTE_PRESENT_def PGD_PRESENT_def by (metis bit_0_eq bot_apply bot_bool_def)+
qed

lemma pgd_entry_value:
  assumes ok: "layout_ok lay dir" and inv: "dir_synced lay dir (pmem s)" and i: "i < 512"
  shows "\<exists>e. pmem (pgd_entry (pgd_at dir i) (table_at lay i) (PGD_PRESENT OR PGD_WRITE) s) = (pmem s)(pgd_at dir i := e) \<and>
     e AND PGD_PRESENT \<noteq> 0 \<and> (e AND PAGE_MASK) + KERNEL_VIRT_ADDR = table_at lay i"
proof -
  let ?e = "pmem s (pgd_at dir i)"
  have f: "PGD_PRESENT OR PGD_WRITE < (0x1000 :: u32)" by (simp add: flag_simps)
  consider "?e = 0" | "?e AND PGD_PRESENT \<noteq> 0" "(?e AND PAGE_MASK) + KERNEL_VIRT_ADDR = table_at lay i"
    using inv i unfolding dir_synced_def Let_def by blast
  then show ?thesis
  proof cases
    case 1
    then show ?thesis
      using page_mask_or [OF table_phys [OF ok i] f] or_present(2) [of "table_at lay i - KERNEL_VIRT_ADDR" PGD_WRITE]
      by (intro exI [of _ "(table_at lay i - KERNEL_VIRT_ADDR) OR (PGD_PRESENT OR PGD_WRITE)"])
        (simp add: pgd_entry_def)
  next
    case 2
    then have "?e \<noteq> 0" by auto
    define e where "e = (if (?e AND PGD_FLAG_MASK) XOR (PGD_PRESENT OR PGD_WRITE) \<noteq> 0 then ?e OR (PGD_PRESENT OR PGD_WRITE) else ?e)"
    have "pmem (pgd_entry (pgd_at dir i) (table_at lay i) (PGD_PRESENT OR PGD_WRITE) s) = (pmem s)(pgd_at dir i := e)"
      using \<open>?e \<noteq> 0\<close> by (simp add: pgd_entry_def e_def)
    moreover have "e AND PGD_PRESENT \<noteq> 0" "e AND PAGE_MASK = ?e AND PAGE_MASK"
      using 2(1) or_page_mask [OF f, of ?e] or_present(2) [of ?e PGD_WRITE] by (simp_all add: e_def)
    ultimately show ?thesis using 2(2) by (intro exI [of _ e]) simp
  qed
qed

lemma map_page_effect:
  assumes ok: "layout_ok lay dir" and inv: "pg_inv lay dir (pmem s)" and n: "n < 2 ^ 19"
    and m: "m' = (pmem (pgd_entry (pgd_at dir (n div 1024)) (table_at lay (n div 1024)) (PGD_PRESENT OR PGD_WRITE) s))
              (pte_at lay n := x)"
  shows "pg_inv lay dir m'" "\<And>k. k < 2 ^ 19 \<Longrightarrow> m' (pte_at lay k) = (if k = n then x else pmem s (pte_at lay k))"
proof -
  have i: "n div 1024 < 512" using n by (simp add: less_mult_imp_div_less)
  obtain e where e: "m' = (pmem s)(pgd_at dir (n div 1024) := e, pte_at lay n := x)"
     "e AND PGD_PRESENT \<noteq> 0" "(e AND PAGE_MASK) + KERNEL_VIRT_ADDR = table_at lay (n div 1024)"
    using pgd_entry_value [OF ok pg_inv_synced [OF inv] i] m by auto
  show pte: "m' (pte_at lay k) = (if k = n then x else pmem s (pte_at lay k))" if "k < 2 ^ 19" for k
    using pte_at_inj [OF ok that n] pgd_pte_apart [OF ok i that] unfolding e(1) by auto
  have pgd: "m' (pgd_at dir j) = (if j = n div 1024 then e else pmem s (pgd_at dir j))" if "j < 512" for j
    using pgd_at_inj [OF ok that i] pgd_pte_apart [OF ok that n] unfolding e(1) by auto
  show "pg_inv lay dir m'"
    unfolding pg_inv_def Let_def
  proof (intro allI impI)
    fix j assume j: "j < (512 :: nat)"
    show "m' (pgd_at dir j) = 0 \<and> (\<forall>n < 2 ^ 19. n div 1024 = j \<longrightarrow> m' (pte_at lay n) = 0) \<or>
        m' (pgd_at dir j) AND PGD_PRESENT \<noteq> 0 \<and> (m' (pgd_at dir j) AND PAGE_MASK) + KERNEL_VIRT_ADDR = table_at lay j"
    proof (cases "j = n div 1024")
      case True
      then show ?thesis using pgd [OF j] e(2,3) by simp
    next
      case False
      then have "\<forall>k < 2 ^ 19. k div 1024 = j \<longrightarrow> m' (pte_at lay k) = pmem s (pte_at lay k)" using pte by auto
      then show ?thesis using pgd [OF j] False inv j unfolding pg_inv_def Let_def by auto
    qed
  qed
qed

section \<open>Ranges of pages\<close>

lemma map_loop_ok:
  assumes ok: "layout_ok lay dir" and dir: "dir = pgdir_for lay cpu mf" and cpu: "unat cpu < 32" and m: "m < 2 ^ 19"
  shows "n \<le> m \<Longrightarrow> locks_free s \<Longrightarrow> pg_inv lay dir (pmem s) \<Longrightarrow>
    \<exists>s'. map_loop lay cpu (kaddr m) fl mf (pte_at lay n) (kaddr n) phys s = Some s' \<and> locks_free s' \<and>
      pg_inv lay dir (pmem s') \<and>
      (\<forall>k < 2 ^ 19. pmem s' (pte_at lay k) =
         (if n \<le> k \<and> k < m then (phys + of_nat (4096 * (k - n))) OR (fl OR PTE_PRESENT) else pmem s (pte_at lay k))) \<and>
      (\<forall>a. (\<forall>k. n \<le> k \<and> k < m \<longrightarrow> a \<noteq> pte_at lay k \<and> a \<noteq> pgd_at dir (k div 1024)) \<longrightarrow> pmem s' a = pmem s a)"
proof (induction "m - n" arbitrary: n s phys)
  case 0
  then have "n = m" by simp
  then show ?case using 0 by (subst map_loop.simps) auto
next
  case (Suc d)
  have n: "n + 1 < 2 ^ 19" "n < 2 ^ 19" "n < m" using Suc.hyps(2) m by simp_all
  have ne: "kaddr n \<noteq> kaddr m" using n m by (simp add: word_unat_eq_iff unat_kaddr)
  define s1 where "s1 = pmem_write (pte_at lay n) (phys OR (fl OR PTE_PRESENT))
     (pgd_entry (pgd_at dir (n div 1024)) (table_at lay (n div 1024)) (PGD_PRESENT OR PGD_WRITE) s)"
  have b: "build_pagetable lay cpu [table_at lay (n div 1024)] phys (kaddr n) PAGE_SIZE (PGD_PRESENT OR PGD_WRITE)
     (fl OR PTE_PRESENT) mf s = Some s1"
    unfolding dir s1_def by (rule build_one_page [OF ok [unfolded dir] Suc.prems(2) cpu n(1)])
  have fr: "locks_free s1" using Suc.prems(2) by (simp add: locks_free_def s1_def)
  have inv: "pg_inv lay dir (pmem s1)"
    by (rule map_page_effect(1) [OF ok Suc.prems(3) n(2)]) (simp add: s1_def)
  have pte: "pmem s1 (pte_at lay k) = (if k = n then phys OR (fl OR PTE_PRESENT) else pmem s (pte_at lay k))"
    if "k < 2 ^ 19" for k
    using map_page_effect(2) [OF ok Suc.prems(3) n(2) _ that, of "pmem s1"] by (simp add: s1_def)
  have pre: "d = m - Suc n" "Suc n \<le> m" using Suc.hyps(2) n(3) by simp_all
  have nx: "pte_at lay n + 4 = pte_at lay (Suc n)" by (simp add: pte_at_def)
  obtain s' where s': "map_loop lay cpu (kaddr m) fl mf (pte_at lay (Suc n)) (kaddr (Suc n)) (phys + PAGE_SIZE) s1 = Some s'"
    "locks_free s'" "pg_inv lay dir (pmem s')"
    "\<forall>k < 2 ^ 19. pmem s' (pte_at lay k) =
      (if Suc n \<le> k \<and> k < m then (phys + PAGE_SIZE + of_nat (4096 * (k - Suc n))) OR (fl OR PTE_PRESENT)
       else pmem s1 (pte_at lay k))"
    "\<forall>a. (\<forall>k. Suc n \<le> k \<and> k < m \<longrightarrow> a \<noteq> pte_at lay k \<and> a \<noteq> pgd_at dir (k div 1024)) \<longrightarrow> pmem s' a = pmem s1 a"
    using Suc.hyps(1) [OF pre fr inv, of "phys + PAGE_SIZE"] by blast
  have "map_loop lay cpu (kaddr m) fl mf (pte_at lay n) (kaddr n) phys s = Some s'"
    using ne b s'(1) by (subst map_loop.simps) (simp add: slots(3) [OF ok n(2)] kaddr_Suc nx)
  moreover have "pmem s' (pte_at lay k) =
      (if n \<le> k \<and> k < m then (phys + of_nat (4096 * (k - n))) OR (fl OR PTE_PRESENT) else pmem s (pte_at lay k))"
    if k: "k < 2 ^ 19" for k
  proof (cases "Suc n \<le> k \<and> k < m")
    case True
    then obtain c where "k = Suc n + c" using le_Suc_ex by blast
    then have "4096 * (k - n) = 4096 + 4096 * (k - Suc n)" by simp
    then have e: "phys + PAGE_SIZE + of_nat (4096 * (k - Suc n)) = phys + of_nat (4096 * (k - n))"
      by (simp only: PAGE_SIZE_def of_nat_add) simp
    have "pmem s' (pte_at lay k) = (phys + PAGE_SIZE + of_nat (4096 * (k - Suc n))) OR (fl OR PTE_PRESENT)"
      using s'(4) [rule_format, OF k] True by (simp only: if_True simp_thms)
    moreover have "n \<le> k \<and> k < m" using True by simp
    ultimately show ?thesis unfolding e by (simp only: if_True simp_thms)
  next
    case False
    then show ?thesis using s'(4) k pte [OF k] n(3) by (cases "k = n") auto
  qed
  moreover have "pmem s' a = pmem s a"
    if a: "\<forall>k. n \<le> k \<and> k < m \<longrightarrow> a \<noteq> pte_at lay k \<and> a \<noteq> pgd_at dir (k div 1024)" for a
  proof -
    have "pmem s' a = pmem s1 a" using s'(5) a by simp
    then show ?thesis using a n(3) by (auto simp: pgd_entry_def s1_def)
  qed
  ultimately show ?case using s'(2,3) by blast
qed

definition first_page :: "u32 \<Rightarrow> nat" where
  "first_page v = (unat v - 2 ^ 31) div 4096"

definition end_page :: "u32 \<Rightarrow> u32 \<Rightarrow> nat" where
  "end_page v len = (unat v - 2 ^ 31 + unat len + 4095) div 4096"

lemma range_pages:
  assumes v: "KERNEL_VIRT_ADDR \<le> v" and len: "unat v + unat len \<le> 2 ^ 32 - 4096"
  shows "v AND PAGE_MASK = kaddr (first_page v)" "ALIGN_PAGE (v + len) = kaddr (end_page v len)"
    "first_page v \<le> end_page v len" "end_page v len < 2 ^ 19"
proof -
  obtain d where d: "unat v = 2 ^ 31 + d" using v by (auto simp: KERNEL_VIRT_ADDR_def word_le_nat_alt le_iff_add)
  have fp: "first_page v = d div 4096" and ep: "end_page v len = (d + unat len + 4095) div 4096"
    by (simp_all add: first_page_def end_page_def d)
  have b: "d + unat len \<le> 2 ^ 31 - 4096" using len d by simp
  then show em: "end_page v len < 2 ^ 19" unfolding ep by (simp add: less_mult_imp_div_less)
  show le: "first_page v \<le> end_page v len" unfolding fp ep by (intro div_le_mono) simp
  have "(2 ^ 31 + x) div 4096 * 4096 = 2 ^ 31 + 4096 * (x div 4096)" for x :: nat
  proof -
    have "(2 ^ 31 + x) div 4096 = (4096 * 2 ^ 19 + x) div 4096" by simp
    also have "\<dots> = 2 ^ 19 + x div 4096" by (rule div_mult_self4) simp
    finally show ?thesis by simp
  qed
  note dm = this
  show "v AND PAGE_MASK = kaddr (first_page v)"
    using le em dm [of d] unfolding word_unat_eq_iff unat_page_mask by (simp add: unat_kaddr d fp)
  have "unat (v + len + PAGE_SIZE - 1) = 2 ^ 31 + (d + unat len + 4095)"
  proof -
    have e: "v + len + PAGE_SIZE - 1 = v + len + of_nat 4095" by (simp add: PAGE_SIZE_def)
    have "unat (v + len) = unat v + unat len" using b d by (intro word_add_no_wrap) simp
    then show ?thesis unfolding e using b d unat_add_of_nat [of "v + len" 4095] by simp
  qed
  then show "ALIGN_PAGE (v + len) = kaddr (end_page v len)"
    using em dm [of "d + unat len + 4095"] unfolding ALIGN_PAGE_def word_unat_eq_iff unat_page_mask
    by (simp add: unat_kaddr ep)
qed

lemma unmap_one_page:
  assumes ok: "layout_ok lay (pgdir_for lay cpuid fl)" and free: "locks_free s" and cpu: "unat cpuid < 32"
    and n: "n + 1 < 2 ^ 19" and present: "pmem s (pgd_at (pgdir_for lay cpuid fl) (n div 1024)) \<noteq> 0"
  shows "unmap_pagetable lay cpuid [table_at lay (n div 1024)] (kaddr n) PAGE_SIZE fl s =
    Some (pmem_write (pte_at lay n) 0 s)"
proof -
  have n': "n < 2 ^ 19" using n by simp
  note sl = slots [OF ok n']
  have lt: "kaddr n < kaddr n + PAGE_SIZE"
    unfolding kaddr_Suc word_less_nat_alt using n by (simp add: unat_kaddr)
  obtain t where t: "LOCK_PGD cpuid (kaddr n) fl s = Some t" "pmem t = pmem s"
    "\<And>m. UNLOCK_PGD cpuid (kaddr n) fl (t\<lparr>pmem := m\<rparr>) = Some (s\<lparr>pmem := m\<rparr>)"
    using locked_region [OF free cpu n', of fl] by blast
  have u: "UNLOCK_PGD cpuid (kaddr n) fl t = Some s" using t(3) [of "pmem s"] t(2) by (metis paging.surjective paging.update_convs(1) old.unit.exhaust)
  show ?thesis
    using lt sl(5) [symmetric] present t(1,2) u
    by (auto simp add: unmap_pagetable_def sl(1,4) Let_def unmap_loop.simps)
qed

lemma unmap_page_inv:
  assumes ok: "layout_ok lay dir" and inv: "pg_inv lay dir m" and n: "n < 2 ^ 19"
  shows "pg_inv lay dir (m(pte_at lay n := 0))"
  using inv pgd_pte_apart [OF ok _ n] unfolding pg_inv_def Let_def by simp blast

lemma unmap_loop_ok:
  assumes ok: "layout_ok lay dir" and dir: "dir = pgdir_for lay cpu mf" and cpu: "unat cpu < 32" and m: "m < 2 ^ 19"
  shows "n \<le> m \<Longrightarrow> locks_free s \<Longrightarrow> pg_inv lay dir (pmem s) \<Longrightarrow>
    \<forall>k. n \<le> k \<and> k < m \<longrightarrow> pmem s (pgd_at dir (k div 1024)) \<noteq> 0 \<Longrightarrow>
    \<exists>s'. unmap_kernel_loop lay cpu (kaddr m) mf (pte_at lay n) (kaddr n) s = Some s' \<and> locks_free s' \<and>
      pg_inv lay dir (pmem s') \<and>
      (\<forall>k < 2 ^ 19. pmem s' (pte_at lay k) = (if n \<le> k \<and> k < m then 0 else pmem s (pte_at lay k))) \<and>
      (\<forall>a. (\<forall>k. n \<le> k \<and> k < m \<longrightarrow> a \<noteq> pte_at lay k) \<longrightarrow> pmem s' a = pmem s a)"
proof (induction "m - n" arbitrary: n s)
  case 0
  then have "n = m" by simp
  then show ?case using 0 by (subst unmap_kernel_loop.simps) auto
next
  case (Suc d)
  have n: "n + 1 < 2 ^ 19" "n < 2 ^ 19" "n < m" using Suc.hyps(2) m by simp_all
  have ne: "kaddr n \<noteq> kaddr m" using n m by (simp add: word_unat_eq_iff unat_kaddr)
  define s1 where "s1 = pmem_write (pte_at lay n) 0 s"
  have "pmem s (pgd_at dir (n div 1024)) \<noteq> 0" using Suc.prems(4) n(3) by blast
  then have b: "unmap_pagetable lay cpu [table_at lay (n div 1024)] (kaddr n) PAGE_SIZE mf s = Some s1"
    unfolding s1_def dir by (rule unmap_one_page [OF ok [unfolded dir] Suc.prems(2) cpu n(1)])
  have fr: "locks_free s1" using Suc.prems(2) by (simp add: s1_def)
  have inv: "pg_inv lay dir (pmem s1)" using unmap_page_inv [OF ok Suc.prems(3) n(2)] by (simp add: s1_def)
  have pte: "pmem s1 (pte_at lay k) = (if k = n then 0 else pmem s (pte_at lay k))" if "k < 2 ^ 19" for k
    using pte_at_inj [OF ok that n(2)] by (simp add: s1_def)
  have pgd: "\<forall>k. Suc n \<le> k \<and> k < m \<longrightarrow> pmem s1 (pgd_at dir (k div 1024)) \<noteq> 0"
  proof (intro allI impI)
    fix k assume k: "Suc n \<le> k \<and> k < m"
    then have "k div 1024 < 512" using m by (simp add: less_mult_imp_div_less)
    then show "pmem s1 (pgd_at dir (k div 1024)) \<noteq> 0"
      using pgd_pte_apart [OF ok _ n(2)] Suc.prems(4) k by (simp add: s1_def)
  qed
  have pre: "d = m - Suc n" "Suc n \<le> m" using Suc.hyps(2) n(3) by simp_all
  have nx: "pte_at lay n + 4 = pte_at lay (Suc n)" by (simp add: pte_at_def)
  obtain s' where s': "unmap_kernel_loop lay cpu (kaddr m) mf (pte_at lay (Suc n)) (kaddr (Suc n)) s1 = Some s'"
    "locks_free s'" "pg_inv lay dir (pmem s')"
    "\<forall>k < 2 ^ 19. pmem s' (pte_at lay k) = (if Suc n \<le> k \<and> k < m then 0 else pmem s1 (pte_at lay k))"
    "\<forall>a. (\<forall>k. Suc n \<le> k \<and> k < m \<longrightarrow> a \<noteq> pte_at lay k) \<longrightarrow> pmem s' a = pmem s1 a"
    using Suc.hyps(1) [OF pre fr inv pgd] by blast
  have "unmap_kernel_loop lay cpu (kaddr m) mf (pte_at lay n) (kaddr n) s = Some s'"
    using ne b s'(1) by (subst unmap_kernel_loop.simps) (simp add: slots(3) [OF ok n(2)] kaddr_Suc nx)
  moreover have "pmem s' (pte_at lay k) = (if n \<le> k \<and> k < m then 0 else pmem s (pte_at lay k))"
    if k: "k < 2 ^ 19" for k
    using s'(4) k pte [OF k] n(3) by (cases "k = n") auto
  moreover have "pmem s' a = pmem s a" if a: "\<forall>k. n \<le> k \<and> k < m \<longrightarrow> a \<noteq> pte_at lay k" for a
    using s'(5) a n(3) by (simp add: s1_def)
  ultimately show ?case using s'(2,3) by blast
qed

section \<open>Mapping and unmapping a range\<close>

lemma map_range:
  assumes ok: "layout_ok lay dir" and dir: "dir = pgdir_for lay cpu mf" and user: "mf AND MAP_USER = 0"
    and cpu: "unat cpu < 32" and s: "locks_free s" "pg_inv lay dir (pmem s)"
    and v: "KERNEL_VIRT_ADDR \<le> v" "unat v + unat len \<le> 2 ^ 32 - 4096"
  shows "\<exists>s'. map_kernel_with_pagetable lay cpu v phys len fl mf s = Some s' \<and> locks_free s' \<and> pg_inv lay dir (pmem s') \<and>
      (\<forall>k < 2 ^ 19. pmem s' (pte_at lay k) =
         (if first_page v \<le> k \<and> k < end_page v len
          then ((phys AND PAGE_MASK) + of_nat (4096 * (k - first_page v))) OR (fl OR PTE_PRESENT)
          else pmem s (pte_at lay k))) \<and>
      (\<forall>k. first_page v \<le> k \<and> k < end_page v len \<longrightarrow> pmem s' (pgd_at dir (k div 1024)) \<noteq> 0) \<and>
      (\<forall>a. (\<forall>k. first_page v \<le> k \<and> k < end_page v len \<longrightarrow> a \<noteq> pte_at lay k \<and> a \<noteq> pgd_at dir (k div 1024)) \<longrightarrow>
         pmem s' a = pmem s a)"
proof -
  note r = range_pages [OF v]
  have fp: "first_page v < 2 ^ 19" using r(3,4) by simp
  obtain s' where s': "map_loop lay cpu (kaddr (end_page v len)) fl mf (pte_at lay (first_page v)) (kaddr (first_page v))
      (phys AND PAGE_MASK) s = Some s'" "locks_free s'" "pg_inv lay dir (pmem s')"
      "\<forall>k < 2 ^ 19. pmem s' (pte_at lay k) =
         (if first_page v \<le> k \<and> k < end_page v len
          then ((phys AND PAGE_MASK) + of_nat (4096 * (k - first_page v))) OR (fl OR PTE_PRESENT)
          else pmem s (pte_at lay k))"
      "\<forall>a. (\<forall>k. first_page v \<le> k \<and> k < end_page v len \<longrightarrow> a \<noteq> pte_at lay k \<and> a \<noteq> pgd_at dir (k div 1024)) \<longrightarrow>
         pmem s' a = pmem s a"
    using map_loop_ok [OF ok dir cpu r(4,3) s] by blast
  have "map_kernel_with_pagetable lay cpu v phys len fl mf s = Some s'"
    using s'(1) v(1) user by (simp add: map_kernel_with_pagetable_def r(1,2) slots(2) [OF ok fp] Let_def not_less)
  moreover have "pmem s' (pgd_at dir (k div 1024)) \<noteq> 0" if k: "first_page v \<le> k \<and> k < end_page v len" for k
  proof
    assume z: "pmem s' (pgd_at dir (k div 1024)) = 0"
    have b: "k < 2 ^ 19" "k div 1024 < 512" using k r(4) by (simp_all add: less_mult_imp_div_less)
    then have "pmem s' (pte_at lay k) = 0" using s'(3) z unfolding pg_inv_def Let_def by fastforce
    then have "((phys AND PAGE_MASK) + of_nat (4096 * (k - first_page v))) OR (fl OR PTE_PRESENT) = 0"
      using s'(4) [rule_format, OF b(1)] k by (simp only: if_True simp_thms)
    then show False using or_present(1) by (metis and_zero_eq bit.conj_zero_left)
  qed
  ultimately show ?thesis using s'(2-5) by blast
qed

lemma unmap_range:
  assumes ok: "layout_ok lay dir" and dir: "dir = pgdir_for lay cpu mf" and user: "mf AND MAP_USER = 0"
    and cpu: "unat cpu < 32" and s: "locks_free s" "pg_inv lay dir (pmem s)"
    and v: "KERNEL_VIRT_ADDR \<le> v" "unat v + unat len \<le> 2 ^ 32 - 4096"
    and pgd: "\<forall>k. first_page v \<le> k \<and> k < end_page v len \<longrightarrow> pmem s (pgd_at dir (k div 1024)) \<noteq> 0"
  shows "\<exists>s'. unmap_kernel_with_pagetable lay cpu v len mf s = Some s' \<and> locks_free s' \<and> pg_inv lay dir (pmem s') \<and>
      (\<forall>k < 2 ^ 19. pmem s' (pte_at lay k) =
         (if first_page v \<le> k \<and> k < end_page v len then 0 else pmem s (pte_at lay k)))"
proof -
  note r = range_pages [OF v]
  have fp: "first_page v < 2 ^ 19" using r(3,4) by simp
  obtain s' where s': "unmap_kernel_loop lay cpu (kaddr (end_page v len)) mf (pte_at lay (first_page v)) (kaddr (first_page v)) s = Some s'"
      "locks_free s'" "pg_inv lay dir (pmem s')"
      "\<forall>k < 2 ^ 19. pmem s' (pte_at lay k) =
         (if first_page v \<le> k \<and> k < end_page v len then 0 else pmem s (pte_at lay k))"
    using unmap_loop_ok [OF ok dir cpu r(4,3) s pgd] by blast
  have "unmap_kernel_with_pagetable lay cpu v len mf s = Some s'"
    using s'(1) v(1) user by (simp add: unmap_kernel_with_pagetable_def r(1,2) slots(2) [OF ok fp] Let_def not_less)
  then show ?thesis using s'(2-4) by blast
qed

section \<open>Properties\<close>

lemma page_sum_aligned: "((p AND PAGE_MASK) + of_nat (4096 * j)) AND 0xFFF = (0 :: u32)"
proof -
  have a: "4096 dvd unat (p AND PAGE_MASK)" by (simp add: unat_page_mask)
  have "4096 dvd (4096 * j) mod 2 ^ 32" by (intro dvd_mod) simp_all
  then have b: "4096 dvd unat (of_nat (4096 * j) :: u32)" by (simp add: unat_of_nat del: of_nat_mult)
  have "unat ((p AND PAGE_MASK) + of_nat (4096 * j)) =
      (unat (p AND PAGE_MASK) + unat (of_nat (4096 * j) :: u32)) mod 2 ^ 32"
    by (subst unat_word_ariths(1)) simp
  moreover have "4096 dvd (unat (p AND PAGE_MASK) + unat (of_nat (4096 * j) :: u32)) mod 2 ^ 32"
    using a b by (intro dvd_mod dvd_add) simp_all
  ultimately have "unat (((p AND PAGE_MASK) + of_nat (4096 * j)) AND 0xFFF) = 0"
    by (simp only: unat_take12 dvd_eq_mod_eq_0)
  then show ?thesis by (simp add: unat_eq_zero)
qed

lemma flags_of_entry:
  assumes "w AND 0xFFF = (0 :: u32)" and "f < 0x1000"
  shows "(w OR f) AND 0xFFF = f"
proof -
  have "(w OR f) AND 0xFFF = (w AND 0xFFF) OR (f AND 0xFFF)" by (rule bit_word_eqI) (auto simp: bit_simps)
  moreover have "unat f < 4096" using assms(2) by (simp add: word_less_nat_alt)
  then have "f AND 0xFFF = f" by (simp add: word_unat_eq_iff unat_take12)
  ultimately show ?thesis using assms(1) by simp
qed

lemma or_small: "f < 0x1000 \<Longrightarrow> f OR PTE_PRESENT < (0x1000 :: u32)"
proof -
  assume f: "f < 0x1000"
  then have "f AND PAGE_MASK = 0" using page_mask_or [of 0 f] by simp
  moreover have "PTE_PRESENT AND PAGE_MASK = 0" by (simp add: PTE_PRESENT_def PAGE_MASK_def PAGE_SIZE_def)
  ultimately have "(f OR PTE_PRESENT) AND PAGE_MASK = 0" by (metis bit.conj_disj_distrib2 bit.disj_zero_right)
  then have "unat (f OR PTE_PRESENT) div 4096 * 4096 = 0" by (metis unat_page_mask unat_0)
  then show ?thesis by (simp add: word_less_nat_alt div_eq_0_iff)
qed

text \<open>(C12) Mapping kernel memory: for a range of kernel addresses that does not include the last page,
  \<^verbatim>\<open>map_kernel_with_pagetable\<close> returns with all locks free; the MMU then translates every page that meets the range to the
  corresponding physical page with exactly the given flags and present set, and every other kernel page as before; nothing but the
  directory and table entries of the range is written.\<close>

theorem map_kernel_translates:
  assumes "layout_ok lay dir" and "dir = pgdir_for lay cpu mf" and "mf AND MAP_USER = 0" and "unat cpu < 32"
    and "locks_free s" and "pg_inv lay dir (pmem s)" and "fl < 0x1000"
    and "KERNEL_VIRT_ADDR \<le> v" and "unat v + unat len \<le> 2 ^ 32 - 4096"
  shows "\<exists>s'. map_kernel_with_pagetable lay cpu v phys len fl mf s = Some s' \<and> locks_free s' \<and> pg_inv lay dir (pmem s') \<and>
     (\<forall>k. first_page v \<le> k \<and> k < end_page v len \<longrightarrow> (\<exists>e. translate dir (pmem s') k = Some e \<and>
        e AND PAGE_MASK = (phys AND PAGE_MASK) + of_nat (4096 * (k - first_page v)) \<and> e AND 0xFFF = fl OR PTE_PRESENT)) \<and>
     (\<forall>k < 2 ^ 19. k < first_page v \<or> end_page v len \<le> k \<longrightarrow> translate dir (pmem s') k = translate dir (pmem s) k) \<and>
     (\<forall>a. (\<forall>k. first_page v \<le> k \<and> k < end_page v len \<longrightarrow> a \<noteq> pte_at lay k \<and> a \<noteq> pgd_at dir (k div 1024)) \<longrightarrow>
        pmem s' a = pmem s a)"
proof -
  note tr = translate_inv [OF assms(1)]
  let ?w = "\<lambda>k. (phys AND PAGE_MASK) + of_nat (4096 * (k - first_page v))"
  obtain s' where s': "map_kernel_with_pagetable lay cpu v phys len fl mf s = Some s'" "locks_free s'" "pg_inv lay dir (pmem s')"
    "\<forall>k < 2 ^ 19. pmem s' (pte_at lay k) =
       (if first_page v \<le> k \<and> k < end_page v len then ?w k OR (fl OR PTE_PRESENT) else pmem s (pte_at lay k))"
    "\<forall>a. (\<forall>k. first_page v \<le> k \<and> k < end_page v len \<longrightarrow> a \<noteq> pte_at lay k \<and> a \<noteq> pgd_at dir (k div 1024)) \<longrightarrow>
       pmem s' a = pmem s a"
    using map_range [OF assms(1-6,8,9)] by blast
  note f = or_small [OF assms(7)]
  have "\<exists>e. translate dir (pmem s') k = Some e \<and> e AND PAGE_MASK = ?w k \<and> e AND 0xFFF = fl OR PTE_PRESENT"
    if k: "first_page v \<le> k \<and> k < end_page v len" for k
  proof -
    have b: "k < 2 ^ 19" using k range_pages(4) [OF assms(8,9)] by simp
    have e: "pmem s' (pte_at lay k) = ?w k OR (fl OR PTE_PRESENT)"
      using s'(4) [rule_format, OF b] k by (simp only: if_True simp_thms)
    show ?thesis
      using tr [OF s'(3) b] or_present(1) [of "?w k" fl] page_mask_or [OF page_sum_aligned f]
        flags_of_entry [OF page_sum_aligned f] unfolding e by simp
  qed
  moreover have "translate dir (pmem s') k = translate dir (pmem s) k"
    if "k < 2 ^ 19" "k < first_page v \<or> end_page v len \<le> k" for k
    using tr [OF s'(3) that(1)] tr [OF assms(6) that(1)] s'(4) that by auto
  ultimately show ?thesis using s'(1-3,5) by blast
qed

text \<open>A machine with empty tables.\<close>

definition lay0 :: kernel_layout where
  "lay0 = \<lparr>kernel_pg_dir = 0x80600000, kernel_pg_table_0 = 0x80200000, master_kernel_pg_dir = 0x80100000\<rparr>"

definition empty_paging :: paging where
  "empty_paging = \<lparr>pmem = (\<lambda>_. 0), lock_pgd_kernel = replicate 512 0, lock_pgd_user = replicate 32 0\<rparr>"

lemma lay0_ok: "layout_ok lay0 (pgdir_for lay0 0 0)" "locks_free empty_paging" "pg_inv lay0 dir (pmem empty_paging)"
  by (simp_all add: layout_ok_def lay0_def pgdir_for_def locks_free_def empty_paging_def pg_inv_def)

theorem map_kernel_translates_witness:
  "\<exists>s'. map_kernel_with_pagetable lay0 0 0xFEC00000 0xFEC00000 0x1800 PTE_WRITE 0 empty_paging = Some s' \<and> locks_free s' \<and>
     (\<exists>e. translate (pgdir_for lay0 0 0) (pmem s') 0x7EC01 = Some e \<and> e AND 0xFFF = 3)"
proof -
  have "first_page 0xFEC00000 \<le> 0x7EC01" "0x7EC01 < end_page 0xFEC00000 0x1800"
    by (simp_all add: first_page_def end_page_def)
  moreover have "KERNEL_VIRT_ADDR \<le> 0xFEC00000" "unat (0xFEC00000 :: u32) + unat (0x1800 :: u32) \<le> 2 ^ 32 - 4096"
    by (simp_all add: KERNEL_VIRT_ADDR_def)
  ultimately show ?thesis
    using map_kernel_translates [OF lay0_ok(1) refl _ _ lay0_ok(2,3), of PTE_WRITE "0xFEC00000" "0x1800" "0xFEC00000"]
    by (fastforce simp: PTE_WRITE_def PTE_PRESENT_def)
qed

text \<open>(C13) Unmapping undoes mapping: after mapping a range and unmapping it again no page of the range is translated,
  every other kernel page is translated as before both calls, and all locks are free.\<close>

theorem map_unmap_kernel:
  assumes "layout_ok lay dir" and "dir = pgdir_for lay cpu mf" and "mf AND MAP_USER = 0" and "unat cpu < 32"
    and "locks_free s" and "pg_inv lay dir (pmem s)"
    and "KERNEL_VIRT_ADDR \<le> v" and "unat v + unat len \<le> 2 ^ 32 - 4096"
  shows "\<exists>s1 s2. map_kernel_with_pagetable lay cpu v phys len fl mf s = Some s1 \<and>
     unmap_kernel_with_pagetable lay cpu v len mf s1 = Some s2 \<and> locks_free s2 \<and> pg_inv lay dir (pmem s2) \<and>
     (\<forall>k < 2 ^ 19. translate dir (pmem s2) k =
        (if first_page v \<le> k \<and> k < end_page v len then None else translate dir (pmem s) k))"
proof -
  note tr = translate_inv [OF assms(1)]
  obtain s1 where s1: "map_kernel_with_pagetable lay cpu v phys len fl mf s = Some s1" "locks_free s1" "pg_inv lay dir (pmem s1)"
    "\<forall>k < 2 ^ 19. \<not> (first_page v \<le> k \<and> k < end_page v len) \<longrightarrow> pmem s1 (pte_at lay k) = pmem s (pte_at lay k)"
    "\<forall>k. first_page v \<le> k \<and> k < end_page v len \<longrightarrow> pmem s1 (pgd_at dir (k div 1024)) \<noteq> 0"
    using map_range [OF assms(1-6,7,8), of phys fl] by (auto split: if_splits)
  obtain s2 where s2: "unmap_kernel_with_pagetable lay cpu v len mf s1 = Some s2" "locks_free s2" "pg_inv lay dir (pmem s2)"
    "\<forall>k < 2 ^ 19. pmem s2 (pte_at lay k) = (if first_page v \<le> k \<and> k < end_page v len then 0 else pmem s1 (pte_at lay k))"
    using unmap_range [OF assms(1-4) s1(2,3) assms(7,8) s1(5)] by blast
  have "translate dir (pmem s2) k = (if first_page v \<le> k \<and> k < end_page v len then None else translate dir (pmem s) k)"
    if "k < 2 ^ 19" for k
    using tr [OF s2(3) that] tr [OF assms(6) that] s1(4) s2(4) that by simp
  then show ?thesis using s1(1) s2(1-3) by blast
qed

theorem map_unmap_kernel_witness:
  "\<exists>s1 s2. map_kernel_with_pagetable lay0 0 0xC0000000 0x5000 0x3000 3 0 empty_paging = Some s1 \<and>
     unmap_kernel_with_pagetable lay0 0 0xC0000000 0x3000 0 s1 = Some s2 \<and> locks_free s2"
  using map_unmap_kernel [OF lay0_ok(1) refl _ _ lay0_ok(2,3), of "0xC0000000" "0x3000" "0x5000" 3]
  by (auto simp: KERNEL_VIRT_ADDR_def)

section \<open>Where the code and its intent part\<close>

lemma last_page: "kaddr (2 ^ 19 - 1) = 0xFFFFF000" "kaddr (2 ^ 19 - 1) + PAGE_SIZE = 0"
  by (simp_all add: kaddr_def KERNEL_VIRT_ADDR_def PAGE_SIZE_def)

text \<open>The last page of the address space cannot be mapped: the end address wraps to zero, so
  \<^verbatim>\<open>build_pagetable\<close> writes no table entry and the page is translated as before.\<close>

theorem map_last_page:
  assumes "layout_ok lay dir" and "dir = pgdir_for lay cpu mf" and "mf AND MAP_USER = 0" and "unat cpu < 32"
    and "locks_free s" and "pg_inv lay dir (pmem s)"
  shows "\<exists>s'. map_kernel_with_pagetable lay cpu 0xFFFFF000 phys 0x1000 fl mf s = Some s' \<and>
     translate dir (pmem s') (2 ^ 19 - 1) = translate dir (pmem s) (2 ^ 19 - 1)"
proof -
  obtain n where nv: "n = 2 ^ 19 - (1 :: nat)" by blast
  then have n: "n < 2 ^ 19" and i: "n div 1024 < 512" by simp_all
  note last = last_page [folded nv]
  note sl = slots [OF assms(1) n]
  let ?s = "pgd_entry (pgd_at dir (n div 1024)) (table_at lay (n div 1024)) (PGD_PRESENT OR PGD_WRITE) s"
  have b: "build_pagetable lay cpu [table_at lay (n div 1024)] q (kaddr n) PAGE_SIZE (PGD_PRESENT OR PGD_WRITE) tf mf s = Some ?s" for q tf
    unfolding build_pagetable_def
    using set_pgd_free [OF assms(5,4) n, of "pgd_at dir (n div 1024)"] sl(1) last(2) assms(2)
    by (simp add: Let_def build_loop.simps)
  have start: "ALIGN_PAGE (0xFFFFF000 + 0x1000) = 0" "\<not> 0xFFFFF000 < KERNEL_VIRT_ADDR"
    by (simp_all add: ALIGN_PAGE_def PAGE_SIZE_def PAGE_MASK_def KERNEL_VIRT_ADDR_def)
  have mask: "0xFFFFF000 AND PAGE_MASK = kaddr n"
    unfolding last by (simp add: PAGE_MASK_def PAGE_SIZE_def)
  have "kaddr n \<noteq> 0" unfolding last by simp
  then have m: "map_loop lay cpu 0 fl mf (pte_at lay n) (kaddr n) q s = Some ?s" for q
    using b sl(3) last(2) by (subst map_loop.simps) (simp add: map_loop.simps)
  have run: "map_kernel_with_pagetable lay cpu 0xFFFFF000 phys 0x1000 fl mf s = Some ?s"
    using start mask assms(3) m sl(2) by (simp add: map_kernel_with_pagetable_def Let_def)
  obtain e where e: "pmem ?s = (pmem s)(pgd_at dir (n div 1024) := e)"
     "e AND PGD_PRESENT \<noteq> 0" "(e AND PAGE_MASK) + KERNEL_VIRT_ADDR = table_at lay (n div 1024)"
    using pgd_entry_value [OF assms(1) pg_inv_synced [OF assms(6)] i] by blast
  have "translate dir (pmem ?s) n =
      (if pmem s (pte_at lay n) AND PTE_PRESENT = 0 then None else Some (pmem s (pte_at lay n)))"
    using e(2,3) pgd_pte_apart [OF assms(1) i n] unfolding translate_def sl(1) e(1) by (simp add: sl(4) Let_def)
  then have "translate dir (pmem ?s) n = translate dir (pmem s) n"
    using translate_inv [OF assms(1,6) n] by simp
  then show ?thesis using run unfolding nv by blast
qed

theorem map_last_page_witness:
  "\<exists>s'. map_kernel_with_pagetable lay0 0 0xFFFFF000 0x7000 0x1000 PTE_WRITE 0 empty_paging = Some s' \<and>
     translate (pgdir_for lay0 0 0) (pmem s') (2 ^ 19 - 1) = None"
proof -
  have "translate (pgdir_for lay0 0 0) (pmem empty_paging) (2 ^ 19 - 1) = None"
    by (simp add: translate_def empty_paging_def)
  then show ?thesis using map_last_page [OF lay0_ok(1) refl _ _ lay0_ok(2,3), of "0x7000" PTE_WRITE] by simp
qed

text \<open>Unmapping a page whose directory entry is absent: \<^verbatim>\<open>start\<close> is advanced to the next directory entry between
  locking and unlocking, so the lock of the entry stays taken and the next one is released instead; the next attempt to
  take the lock never returns.\<close>

theorem unmap_absent_keeps_lock:
  assumes "layout_ok lay (master_kernel_pg_dir lay)" and "locks_free s" and "n div 1024 < 511"
    and "pmem s (pgd_at (master_kernel_pg_dir lay) (n div 1024)) = 0"
  shows "\<exists>s'. unmap_pagetable lay cpu [table_at lay (n div 1024)] (kaddr n) PAGE_SIZE 0 s = Some s' \<and>
     lock_pgd_kernel s' ! (n div 1024) = 1 \<and> LOCK_PGD cpu (kaddr n) 0 s' = None"
proof -
  let ?i = "n div 1024" and ?r = "n mod 1024" and ?pte = "pte_at lay n"
  have n: "n < 2 ^ 19" using assms(3) by (simp add: div_less_iff_less_mult)
  note sl = slots [OF assms(1) n]
  define m where "m = 1024 * (?i + 1)"
  have r: "?r < 1024" by simp
  have e: "n = 1024 * ?i + ?r" by simp
  have split: "n = 1024 * q + t \<Longrightarrow> t < 1024 \<Longrightarrow> n + (1024 - t) = 1024 * (q + 1) \<and> n < 1024 * (q + 1)" for q t
    by simp
  have split4: "n = 1024 * q + t \<Longrightarrow> 4 * n = 4096 * q + 4 * t" for q t by simp
  have nm: "n + (1024 - ?r) = m" "m < 2 ^ 19" "m div 1024 = ?i + 1" "n < m"
    using split [OF e r] assms(3) unfolding m_def by (blast, simp, simp, blast)
  have i: "?i < 512" using assms(3) by simp
  note up = unat_pte_at [OF assms(1) n] and ut = unat_table_at [OF assms(1) i]
  have lim: "unat (kernel_pg_table_0 lay) + 4096 * ?i + 8192 < 2 ^ 32" using assms(1,3) by (simp add: layout_ok_def)
  have n_le: "4 * n = 4096 * ?i + 4 * ?r" using split4 [OF e] .
  have np: "unat (next_page ?pte) = unat (kernel_pg_table_0 lay) + 4096 * ?i + 4096"
  proof -
    have t: "4096 dvd unat (kernel_pg_table_0 lay)" using assms(1) by (simp add: layout_ok_def)
    have "unat (?pte + PAGE_SIZE) = unat ?pte + 4096"
      using unat_add_of_nat [of ?pte 4096] lim up n_le r by (simp add: PAGE_SIZE_def)
    moreover have "(unat (kernel_pg_table_0 lay) + (4096 * ?i + 4 * ?r) + 4096) div 4096 * 4096 =
        unat (kernel_pg_table_0 lay) + 4096 * ?i + 4096"
    proof -
      obtain c where "unat (kernel_pg_table_0 lay) = 4096 * c" using t by (elim dvdE)
      moreover have "(4096 * c + (4096 * q + 4 * x) + 4096) div 4096 = c + q + 1" if "x < 1024" for c q x :: nat
        using that by simp
      ultimately show ?thesis using r by simp
    qed
    moreover note n_le
    ultimately show ?thesis unfolding next_page_def unat_page_mask by (simp only: up)
  qed
  have step: "kaddr n + push_bit PAGE_SHIFT ((next_page ?pte - ?pte) div 4) = kaddr m"
  proof -
    have "unat (next_page ?pte - ?pte) = 4096 - 4 * ?r"
      using np up n_le by (subst unat_sub) (simp_all add: word_le_nat_alt)
    then have "unat ((next_page ?pte - ?pte) div 4) = 1024 - ?r" by (simp add: unat_div)
    moreover have "(next_page ?pte - ?pte) div 4 = of_nat (unat ((next_page ?pte - ?pte) div 4))" by simp
    ultimately have "(next_page ?pte - ?pte) div 4 = of_nat (1024 - ?r)" by (simp only:)
    then have "push_bit PAGE_SHIFT ((next_page ?pte - ?pte) div 4) = of_nat (4096 * (1024 - ?r))"
      by (simp add: PAGE_SHIFT_def push_bit_eq_mult)
    moreover have "4096 * n + 4096 * (1024 - ?r) = 4096 * m" using nm(1) by (simp only: add_mult_distrib2 [symmetric])
    ultimately show ?thesis unfolding kaddr_def by (metis (no_types) add.assoc of_nat_add)
  qed
  have lt: "\<not> kaddr m < kaddr n + PAGE_SIZE"
    unfolding kaddr_Suc word_less_nat_alt using nm by (simp add: unat_kaddr)
  have lk: "LOCK_PGD cpu (kaddr n) 0 s = Some (s\<lparr>lock_pgd_kernel := (replicate 512 0)[?i := 1]\<rparr>)"
    using assms(2) lock_index_bound [OF n] unat_kaddr [OF n]
    by (simp add: LOCK_PGD_def uses_kernel_lock_def locks_free_def KERNEL_VIRT_ADDR_def word_le_nat_alt)
  have ul: "UNLOCK_PGD cpu (kaddr m) 0 (s\<lparr>lock_pgd_kernel := (replicate 512 0)[?i := 1]\<rparr>) =
      Some (s\<lparr>lock_pgd_kernel := (replicate 512 0)[?i := 1, ?i + 1 := 0]\<rparr>)"
    using lock_index_bound [OF nm(2)] unat_kaddr [OF nm(2)] nm(3)
    by (simp add: UNLOCK_PGD_def uses_kernel_lock_def KERNEL_VIRT_ADDR_def word_le_nat_alt spinlock_unlock_def)
  let ?s = "s\<lparr>lock_pgd_kernel := (replicate 512 0)[?i := 1, ?i + 1 := 0]\<rparr>"
  have dir: "pgdir_for lay cpu 0 = master_kernel_pg_dir lay" by (simp add: pgdir_for_def)
  have "unmap_pagetable lay cpu [table_at lay ?i] (kaddr n) PAGE_SIZE 0 s = Some ?s"
    using lk ul lt step assms(4)
    by (simp add: unmap_pagetable_def dir sl(1,4) Let_def unmap_loop.simps)
  moreover have "lock_pgd_kernel ?s ! ?i = 1" using i by simp
  moreover have "LOCK_PGD cpu (kaddr n) 0 ?s = None"
    using lock_index_bound [OF n] unat_kaddr [OF n]
    by (simp add: LOCK_PGD_def uses_kernel_lock_def KERNEL_VIRT_ADDR_def word_le_nat_alt)
  ultimately show ?thesis by blast
qed

theorem unmap_absent_keeps_lock_witness:
  "\<exists>s'. unmap_pagetable lay0 0 [table_at lay0 (3072 div 1024)] (kaddr 3072) PAGE_SIZE 0 empty_paging = Some s' \<and>
     LOCK_PGD 0 (kaddr 3072) 0 s' = None"
proof -
  have "layout_ok lay0 (master_kernel_pg_dir lay0)" using lay0_ok(1) by (simp add: pgdir_for_def)
  moreover have "pmem empty_paging a = 0" for a by (simp add: empty_paging_def)
  ultimately show ?thesis
    using unmap_absent_keeps_lock [of lay0 empty_paging 3072 0] lay0_ok(2) by auto
qed

lemma and_not_of_aligned: "a AND 3 = 0 \<Longrightarrow> a AND NOT 3 = (a :: u32)"
proof -
  assume "a AND 3 = 0"
  moreover have "a = (a AND NOT 3) OR (a AND 3)" by (rule bit_word_eqI) (auto simp: bit_simps)
  ultimately show ?thesis by simp
qed

lemma read_unaligned:
  assumes "a AND 3 = (0 :: u32)"
  shows "read32 m (a + 3) = drop_bit 24 (m a) OR push_bit 8 (m (a + 4))"
proof -
  have "a + 3 = a OR 3" using disjunctive_add [of a 3] assms by (metis bit_and_iff bit_0_eq bot_apply bot_bool_def)
  moreover have "(a OR 3) AND 3 = 3" "(a OR 3) AND NOT 3 = a AND NOT 3" by (rule bit_word_eqI; auto simp: bit_simps)+
  moreover note and_not_of_aligned [OF assms]
  ultimately show ?thesis by (simp add: read32_def Let_def)
qed

text \<open>\<^verbatim>\<open>page_getpfn\<close> does not clear the flags of the directory entry: for an entry with the flags
  present and write the table address is off by three, and the result is made of the top byte of the entry it should read
  and of the entry after it.\<close>

theorem page_getpfn_misreads:
  assumes "pgd_slot (GET_CPU_PGDIR lay cpu) addr AND 3 = 0"
    and "pmem s (pgd_slot (GET_CPU_PGDIR lay cpu) addr) = t OR (PGD_PRESENT OR PGD_WRITE)" and "t AND 0xFFF = 0"
    and "pte = pte_slot (t + KERNEL_VIRT_ADDR) addr" and "pte AND 3 = 0"
  shows "page_getpfn lay cpu addr s = (drop_bit 24 (pmem s pte) OR push_bit 8 (pmem s (pte + 4))) AND PAGE_MASK"
proof -
  have p: "read32 (pmem s) (pgd_slot (GET_CPU_PGDIR lay cpu) addr) = t OR 3"
    using assms(1,2) and_not_of_aligned [OF assms(1)] by (simp add: read32_def Let_def flag_simps)
  have "t OR 3 = t + 3"
  proof -
    have "t AND 3 = (t AND 0xFFF) AND 3" by (simp add: and.assoc)
    then have "t AND 3 = 0" using assms(3) by simp
    then show ?thesis using disjunctive_add [of t 3] by (metis bit_and_iff bit_0_eq bot_apply bot_bool_def)
  qed
  then have "(t OR 3) + KERNEL_VIRT_ADDR + 4 * (drop_bit PAGE_SHIFT addr AND 0x3ff) = pte + 3"
    by (simp add: assms(4) pte_slot_def algebra_simps)
  then show ?thesis unfolding page_getpfn_def p Let_def using read_unaligned [OF assms(5)] by simp
qed

theorem page_getpfn_misreads_witness:
  "page_getpfn lay0 0 0x80005000
     \<lparr>pmem = (\<lambda>_. 0)(0x80600800 := 0x200003, 0x80200014 := 0x5003, 0x80200018 := 0x6003),
      lock_pgd_kernel = [], lock_pgd_user = []\<rparr> = 0x600000"
proof -
  let ?s = "\<lparr>pmem = (\<lambda>_. 0)(0x80600800 := 0x200003, 0x80200014 := 0x5003, 0x80200018 := 0x6003),
      lock_pgd_kernel = [], lock_pgd_user = []\<rparr> :: paging"
  have d: "pgd_slot (GET_CPU_PGDIR lay0 0) 0x80005000 = 0x80600800"
    by (simp add: pgd_slot_def GET_CPU_PGDIR_def lay0_def PGD_SHIFT_def)
  have p: "pte_slot (0x200000 + KERNEL_VIRT_ADDR) 0x80005000 = 0x80200014"
    by (simp add: pte_slot_def KERNEL_VIRT_ADDR_def PAGE_SHIFT_def)
  have "page_getpfn lay0 0 0x80005000 ?s =
      (drop_bit 24 (pmem ?s 0x80200014) OR push_bit 8 (pmem ?s (0x80200014 + 4))) AND PAGE_MASK"
    by (rule page_getpfn_misreads [where t = "0x200000"]) (simp_all add: d p flag_simps)
  then show ?thesis by (simp add: PAGE_MASK_def PAGE_SIZE_def)
qed

text \<open>The directory locks as a whole: taking all of them succeeds exactly when all are free, leaves all taken, and
  \<^verbatim>\<open>pgd_kernel_unlock_all\<close> makes them free again, as \<^verbatim>\<open>pgd_lock_init\<close> does.\<close>

theorem pgd_kernel_locks:
  "(pgd_kernel_lock_all s \<noteq> None \<longleftrightarrow> (\<forall>l \<in> set (lock_pgd_kernel s). l = 0)) \<and>
   (case pgd_kernel_lock_all s of None \<Rightarrow> True
    | Some t \<Rightarrow> lock_pgd_kernel t = replicate (length (lock_pgd_kernel s)) 1 \<and> pgd_kernel_unlock_all t = s) \<and>
   lock_pgd_kernel (pgd_lock_init s) = replicate (length (lock_pgd_kernel s)) 0"
proof -
  have l: "lock_list ls = (if \<forall>l \<in> set ls. l = 0 then Some (replicate (length ls) 1) else None)" for ls
    by (induction ls) (auto simp: spinlock_lock_eq_Some split: if_splits)
  have z: "map spinlock_unlock (replicate (length ls) 1) = ls" if "\<forall>l \<in> set ls. l = 0" for ls
    using that by (induction ls) (simp_all add: spinlock_unlock_def)
  have "map (\<lambda>_. 0 :: u32) ls = replicate (length ls) 0" for ls :: "u32 list" by (rule map_replicate_const)
  then show ?thesis using z by (simp add: pgd_kernel_lock_all_def pgd_kernel_unlock_all_def pgd_lock_init_def l)
qed

theorem pgd_kernel_locks_witness:
  "\<exists>t. pgd_kernel_lock_all (empty_paging\<lparr>lock_pgd_kernel := [0, 0, 0]\<rparr>) = Some t \<and> lock_pgd_kernel t = [1, 1, 1] \<and>
     lock_pgd_kernel (pgd_kernel_unlock_all t) = [0, 0, 0]"
proof -
  have "pgd_kernel_lock_all (empty_paging\<lparr>lock_pgd_kernel := [0, 0, 0]\<rparr>) \<noteq> None"
    using pgd_kernel_locks [of "empty_paging\<lparr>lock_pgd_kernel := [0, 0, 0]\<rparr>"] by simp
  then obtain t where t: "pgd_kernel_lock_all (empty_paging\<lparr>lock_pgd_kernel := [0, 0, 0]\<rparr>) = Some t" by blast
  then have "lock_pgd_kernel t = [1, 1, 1] \<and> pgd_kernel_unlock_all t = empty_paging\<lparr>lock_pgd_kernel := [0, 0, 0]\<rparr>"
    using pgd_kernel_locks [of "empty_paging\<lparr>lock_pgd_kernel := [0, 0, 0]\<rparr>"] by (simp add: numeral_3_eq_3)
  then show ?thesis using t by simp
qed

end
