(* ===== verification/Traps.thy ===== *)
theory Traps
  imports Descriptors_Props Paging_Refine
begin

text \<open>
  Setting up a CPU and its traps, from \<^verbatim>\<open>setup32.c\<close>: \<^verbatim>\<open>setup32\<close>, which copies the master
  page directory, fills the descriptor tables and loads the registers, and \<^verbatim>\<open>trap_handler\<close>, which repairs
  a page fault of the kernel from the master directory. A \<^verbatim>\<open>printf\<close> is recorded as its format
  and arguments, an \<^verbatim>\<open>outb\<close> as port and byte.
\<close>

section \<open>State\<close>

record regs_frame =
  trap_nr :: u32
  rf_gs :: u32
  rf_fs :: u32
  rf_es :: u32
  rf_ds :: u32
  rf_edi :: u32
  rf_esi :: u32
  rf_ebp :: u32
  rf_orig_esp :: u32
  rf_ebx :: u32
  rf_edx :: u32
  rf_ecx :: u32
  rf_eax :: u32
  code_nr :: u32
  rf_eip :: u32
  rf_cs :: u32
  rf_eflags :: u32
  rf_esp :: u32
  rf_ss :: u32

text \<open>
  The registers of one CPU that \<^verbatim>\<open>setup32\<close> and the step to user mode load; of GDTR and IDTR the limit is kept. In the kernel GS
  holds the number of the CPU.
\<close>

record cpu_regs =
  cr3 :: u32
  gdtr :: u16
  idtr :: u16
  ldtr :: u16
  task_reg :: u16
  r_cs :: u16
  r_ds :: u16
  r_es :: u16
  r_ss :: u16
  r_fs :: u16
  r_gs :: u16
  r_eip :: u32
  r_esp :: u32
  r_eflags :: u32

record machine =
  paging_of :: paging
  tables_of :: tables
  sched_tick :: "u32 list"
  regs_of :: "nat \<Rightarrow> cpu_regs"
  port_out :: "(u16 \<times> u8) list"
  printed :: "(string \<times> u32 list) list"

definition log_printf :: "string \<Rightarrow> u32 list \<Rightarrow> machine \<Rightarrow> machine" where
  "log_printf fmt args m = m\<lparr>printed := printed m @ [(fmt, args)]\<rparr>"

definition outb :: "u8 \<Rightarrow> u16 \<Rightarrow> machine \<Rightarrow> machine" where
  "outb x port m = m\<lparr>port_out := port_out m @ [(port, x)]\<rparr>"

definition upd_regs :: "nat \<Rightarrow> (cpu_regs \<Rightarrow> cpu_regs) \<Rightarrow> machine \<Rightarrow> machine" where
  "upd_regs cpu f m = m\<lparr>regs_of := (regs_of m)(cpu := f (regs_of m cpu))\<rparr>"

section \<open>setup32\<close>

text \<open>\<^verbatim>\<open>memcpy\<close> in ascending order; the ranges are whole words here.\<close>

fun memcpy_words :: "nat \<Rightarrow> u32 \<Rightarrow> u32 \<Rightarrow> (u32 \<Rightarrow> u32) \<Rightarrow> (u32 \<Rightarrow> u32)" where
  "memcpy_words 0 dest src m = m"
| "memcpy_words (Suc n) dest src m = memcpy_words n (dest + 4) (src + 4) (m(dest := m src))"

definition loadGDT32 :: "nat \<Rightarrow> machine \<Rightarrow> machine" where
  "loadGDT32 cpu m = upd_regs cpu (\<lambda>r. r\<lparr>gdtr := gdt_size (tables_of m), r_cs := of_nat KERNEL_CODE_SEG,
     r_ds := of_nat KERNEL_DATA_SEG, r_es := of_nat KERNEL_DATA_SEG, r_ss := of_nat KERNEL_DATA_SEG,
     r_fs := of_nat KERNEL_DATA_SEG\<rparr>) m"

definition loadLDT32 :: "nat \<Rightarrow> machine \<Rightarrow> machine" where
  "loadLDT32 cpu = upd_regs cpu (\<lambda>r. r\<lparr>ldtr := of_nat LDT_SELECTOR\<rparr>)"

text \<open>\<^verbatim>\<open>ltr\<close> marks the descriptor as busy; one that is not of an available task segment (type 9) is a general protection fault.\<close>

definition ltr :: "u16 \<Rightarrow> gdt_entry list \<Rightarrow> gdt_entry list option" where
  "ltr sel g =
     do {
       e \<leftarrow> aget g (unat sel div 8);
       if gdt_present e = 1 \<and> gdt_system e = 0 \<and> gdt_type e = 9 then aput g (unat sel div 8) (e\<lparr>gdt_type := 11\<rparr>) else None
     }"

definition loadTSS32 :: "nat \<Rightarrow> machine \<Rightarrow> machine option" where
  "loadTSS32 smp_id m =
     do {
       let sel = of_nat (FIRST_TASK_SEG + smp_id * 8) OR 3;
       g \<leftarrow> ltr sel (gdt (tables_of m));
       Some (upd_regs smp_id (\<lambda>r. r\<lparr>task_reg := sel\<rparr>) (m\<lparr>tables_of := (tables_of m)\<lparr>gdt := g\<rparr>\<rparr>))
     }"

definition loadIDT32 :: "nat \<Rightarrow> machine \<Rightarrow> machine" where
  "loadIDT32 cpu m = upd_regs cpu (\<lambda>r. r\<lparr>idtr := idt_size (tables_of m)\<rparr>) m"

definition mask_pic_8259 :: "machine \<Rightarrow> machine" where
  "mask_pic_8259 m = outb 0xff 0xa1 (outb 0xff 0x21 m)"

text \<open>The tables are filled by CPU 0 only.\<close>

definition init_tables :: "symbols \<Rightarrow> nat \<Rightarrow> tables \<Rightarrow> tables option" where
  "init_tables sy cpu t =
     (if cpu = 0
      then do { t \<leftarrow> initializeGDT32 t; t \<leftarrow> initializeLDT32 sy t; initializeIDT32 sy t }
      else Some t)"

definition setup32 :: "kernel_layout \<Rightarrow> symbols \<Rightarrow> nat \<Rightarrow> machine \<Rightarrow> machine option" where
  "setup32 lay sy cpu m =
     (let pgd = kernel_pg_dir lay + of_nat cpu * PAGE_SIZE;
          new_cr3 = pgd - KERNEL_VIRT_ADDR;
          p = paging_of m
      in do {
        let m = m\<lparr>paging_of := p\<lparr>pmem := memcpy_words 1024 pgd (master_kernel_pg_dir lay) (pmem p)\<rparr>\<rparr>;
        ticks \<leftarrow> aput (sched_tick m) cpu 0;
        let m = m\<lparr>sched_tick := ticks\<rparr>;
        t \<leftarrow> init_tables sy cpu (tables_of m);
        let m = loadLDT32 cpu (loadGDT32 cpu (m\<lparr>tables_of := t\<rparr>));
        t \<leftarrow> initializeTSS32 sy cpu (tables_of m);
        m \<leftarrow> loadTSS32 cpu (m\<lparr>tables_of := t\<rparr>);
        let m = loadIDT32 cpu m;
        let m = (if cpu = 0
                 then log_printf ''Setup GDT,IDT, LDT and TSS done\<newline>'' [] (mask_pic_8259 m)
                 else m);
        Some (upd_regs cpu (\<lambda>r. r\<lparr>cr3 := new_cr3\<rparr>) m)
      })"

section \<open>trap_handler\<close>

text \<open>The handler returns to the interrupted code, or halts the CPU for good.\<close>

datatype outcome = Resume machine | Halt machine

definition trap_format :: string where
  "trap_format = ''Trap handler\<newline>gs: %x fs: %x es: %x ds: %x code_nr: %x cs: %x eip: %x ss: %x esp: %x eflags: %x trap: %d ''"

definition trap_handler :: "kernel_layout \<Rightarrow> u32 \<Rightarrow> u32 \<Rightarrow> regs_frame \<Rightarrow> machine \<Rightarrow> outcome" where
  "trap_handler lay cpu cr2 rf m =
     (let m = log_printf trap_format
                [rf_gs rf, rf_fs rf, rf_es rf, rf_ds rf, code_nr rf, rf_cs rf, rf_eip rf, rf_ss rf, rf_esp rf,
                 rf_eflags rf, trap_nr rf] m
      in if trap_nr rf = 14
         then
           let pgd_entry = drop_bit PGD_SHIFT cr2 AND 0x3ff;
               local_pgd = GET_CPU_PGDIR lay cpu + 4 * pgd_entry;
               master_pgd = master_kernel_pg_dir lay + 4 * pgd_entry;
               p = paging_of m;
               in_kernel = KERNEL_VIRT_ADDR \<le> rf_eip rf;
               m = (if in_kernel
                    then log_printf '' PF: %x %x %x %x '' [local_pgd, master_pgd, pmem p local_pgd, pmem p master_pgd] m
                    else m)
           in if in_kernel \<and> pmem p local_pgd = 0 \<and> pmem p master_pgd \<noteq> 0
              then Resume ((log_printf '' fixed pgd entry '' [] m)
                     \<lparr>paging_of := pmem_write local_pgd (pmem p master_pgd) p\<rparr>)
              else Halt (log_printf '' CR2 reg: %x\<newline>'' [cr2] m)
         else Halt (log_printf ''\<newline>'' [] m))"

end
