(* ===== verification/Traps_Props.thy ===== *)
theory Traps_Props
  imports Traps
begin

text \<open>
  Properties of \<^verbatim>\<open>setup32\<close> and of the page fault repair.
\<close>

section \<open>Copying the directory\<close>

lemma memcpy_words_same:
  "(\<forall>i < n. a \<noteq> dest + of_nat (4 * i)) \<Longrightarrow> memcpy_words n dest src m a = m a"
proof (induction n arbitrary: dest src m)
  case (Suc n)
  have "a \<noteq> dest" using Suc.prems [rule_format, of 0] by simp
  moreover have "\<forall>i < n. a \<noteq> (dest + 4) + of_nat (4 * i)"
    using Suc.prems [rule_format, of "Suc i" for i] by (simp add: algebra_simps)
  ultimately show ?case
    using Suc.IH [of "dest + 4" "src + 4" "m(dest := m src)"] by (metis fun_upd_other memcpy_words.simps(2))
qed simp

lemma memcpy_words_copied:
  assumes "\<forall>i < n. \<forall>j < n. dest + of_nat (4 * i) \<noteq> src + of_nat (4 * j)" and "n < 2 ^ 30" and "i < n"
  shows "memcpy_words n dest src m (dest + of_nat (4 * i)) = m (src + of_nat (4 * i))"
  using assms
proof (induction n arbitrary: dest src m i)
  case (Suc n)
  have sep: "\<forall>i < n. \<forall>j < n. (dest + 4) + of_nat (4 * i) \<noteq> (src + 4) + of_nat (4 * j)"
    using Suc.prems(1) [rule_format, of "Suc i" "Suc j" for i j] by (simp add: algebra_simps)
  show ?case
  proof (cases i)
    case 0
    have "dest \<noteq> dest + 4 + of_nat (4 * j)" if "j < n" for j
    proof -
      have "unat (of_nat (4 * Suc j) :: u32) = 4 * Suc j"
        using that Suc.prems(2) unat_add_of_nat [of 0 "4 * Suc j"] by simp
      then have "(of_nat (4 * Suc j) :: u32) \<noteq> 0" by (metis unat_0 mult_is_0 nat.distinct(1) zero_neq_numeral)
      moreover have "dest + 4 + of_nat (4 * j) = dest + of_nat (4 * Suc j)" by simp
      ultimately show ?thesis by (metis add_cancel_right_right)
    qed
    then show ?thesis using 0 memcpy_words_same [of n dest "dest + 4" "src + 4"] by simp
  next
    case (Suc k)
    have "dest + of_nat (4 * Suc k) = (dest + 4) + of_nat (4 * k)" "src + of_nat (4 * Suc k) = (src + 4) + of_nat (4 * k)"
      by simp_all
    moreover have "dest \<noteq> (src + 4) + of_nat (4 * k)"
      using Suc.prems(1) [rule_format, of 0 "Suc k"] Suc.prems(3) \<open>i = Suc k\<close> by (simp add: add.assoc)
    moreover have "memcpy_words n (dest + 4) (src + 4) (m(dest := m src)) ((dest + 4) + of_nat (4 * k)) =
        (m(dest := m src)) ((src + 4) + of_nat (4 * k))"
      using Suc.prems(2,3) \<open>i = Suc k\<close> by (intro Suc.IH [OF sep]) simp_all
    ultimately show ?thesis
      unfolding \<open>i = Suc k\<close> memcpy_words.simps by (metis fun_upd_other)
  qed
qed simp

section \<open>A CPU's directory and the master\<close>

definition apart :: "u32 \<Rightarrow> u32 \<Rightarrow> bool" where
  "apart d e \<longleftrightarrow> unat d + 4096 \<le> unat e \<or> unat e + 4096 \<le> unat d"

lemma translate_synced:
  assumes ok: "layout_ok lay dir" and sync: "dir_synced lay dir m" and n: "n < 2 ^ 19"
  shows "translate dir m n =
    (if m (pgd_at dir (n div 1024)) = 0 \<or> m (pte_at lay n) AND PTE_PRESENT = 0 then None else Some (m (pte_at lay n)))"
proof -
  have "n div 1024 < 512" using n by (simp add: less_mult_imp_div_less)
  then show ?thesis
    using sync slots [OF ok n] unfolding dir_synced_def translate_def Let_def by (auto simp: PGD_PRESENT_def)
qed

lemma dir_slot:
  assumes "layout_ok lay dir" and "i < 512"
  shows "pgd_at dir i = dir + of_nat (4 * (512 + i))"
  by (simp add: pgd_at_def)

lemma pgd_at_apart:
  assumes "layout_ok lay d" "layout_ok lay e" "apart d e" "i < 512" "j < 512"
  shows "pgd_at d i \<noteq> pgd_at e j"
  using unat_pgd_at [OF assms(1,4)] unat_pgd_at [OF assms(2,5)] assms(3-5) by (auto simp: apart_def)

text \<open>The directory index of a faulting address inside page \<open>n\<close>.\<close>

lemma fault_index:
  assumes n: "n < 2 ^ 19" and a: "a AND PAGE_MASK = kaddr n"
  shows "drop_bit PGD_SHIFT a AND 0x3ff = of_nat (512 + n div 1024)"
proof -
  have "drop_bit PGD_SHIFT a = drop_bit PGD_SHIFT (a AND PAGE_MASK)"
  proof (rule bit_word_eqI)
    fix i
    have "bit (PAGE_MASK :: u32) (22 + i)" if "22 + i < 32"
      using that by (simp add: PAGE_MASK_not bit_simps)
    then show "bit (drop_bit PGD_SHIFT a) i = bit (drop_bit PGD_SHIFT (a AND PAGE_MASK)) i"
      using bit_imp_le_length [of a "22 + i"] by (auto simp: PGD_SHIFT_def bit_simps)
  qed
  then show ?thesis by (simp add: a kaddr_index(1) [OF n])
qed


section \<open>The repair of a page fault\<close>

text \<open>
  What the handler does on a kernel page fault in page \<open>n\<close>: it copies the directory entry if the CPU has none and the
  master has one, and halts otherwise.
\<close>

lemma trap_handler_fault:
  assumes n: "n < 2 ^ 19" and a: "cr2 AND PAGE_MASK = kaddr n"
    and rf: "trap_nr rf = 14" "KERNEL_VIRT_ADDR \<le> rf_eip rf"
    and l: "l = pgd_at (GET_CPU_PGDIR lay cpu) (n div 1024)" and g: "g = pgd_at (master_kernel_pg_dir lay) (n div 1024)"
  shows "if pmem (paging_of m) l = 0 \<and> pmem (paging_of m) g \<noteq> 0
     then \<exists>m'. trap_handler lay cpu cr2 rf m = Resume m' \<and> paging_of m' = pmem_write l (pmem (paging_of m) g) (paging_of m) \<and>
       tables_of m' = tables_of m \<and> regs_of m' = regs_of m \<and> sched_tick m' = sched_tick m
     else \<exists>m'. trap_handler lay cpu cr2 rf m = Halt m' \<and> paging_of m' = paging_of m"
proof -
  note fi = fault_index [OF n a]
  have e: "GET_CPU_PGDIR lay cpu + 4 * (drop_bit PGD_SHIFT cr2 AND 0x3ff) = l"
    "master_kernel_pg_dir lay + 4 * (drop_bit PGD_SHIFT cr2 AND 0x3ff) = g"
    by (simp_all add: fi l g pgd_at_def)
  show ?thesis
    unfolding trap_handler_def Let_def e using rf by (simp add: log_printf_def)
qed

text \<open>An access of the kernel on a CPU to page \<open>n\<close>: the entry the MMU uses, after at most \<open>fuel\<close> page faults.\<close>

fun kernel_access :: "nat \<Rightarrow> kernel_layout \<Rightarrow> u32 \<Rightarrow> u32 \<Rightarrow> regs_frame \<Rightarrow> nat \<Rightarrow> machine \<Rightarrow> (u32 option \<times> machine) option" where
  "kernel_access 0 lay cpu cr2 rf n m = None"
| "kernel_access (Suc fuel) lay cpu cr2 rf n m =
     (case translate (GET_CPU_PGDIR lay cpu) (pmem (paging_of m)) n of
        Some e \<Rightarrow> Some (Some e, m)
      | None \<Rightarrow> (case trap_handler lay cpu cr2 rf m of
                  Halt m' \<Rightarrow> Some (None, m')
                | Resume m' \<Rightarrow> kernel_access fuel lay cpu cr2 rf n m'))"

lemma copied_entry_synced:
  assumes ok: "layout_ok lay d" "layout_ok lay g" and ap: "apart d g"
    and inv: "pg_inv lay g m" and sync: "dir_synced lay d m" and i: "i < 512" and z: "m (pgd_at g i) \<noteq> 0"
    and m': "m' = m(pgd_at d i := m (pgd_at g i))"
  shows "dir_synced lay d m'" "pg_inv lay g m'" "\<And>n. n < 2 ^ 19 \<Longrightarrow> m' (pte_at lay n) = m (pte_at lay n)"
    "\<And>j. j < 512 \<Longrightarrow> m' (pgd_at g j) = m (pgd_at g j)"
    "\<And>j. j < 512 \<Longrightarrow> m' (pgd_at d j) = (if j = i then m (pgd_at g i) else m (pgd_at d j))"
proof -
  show pte: "m' (pte_at lay n) = m (pte_at lay n)" if "n < 2 ^ 19" for n
    using pgd_pte_apart [OF ok(1) i that] by (auto simp: m')
  show master: "m' (pgd_at g j) = m (pgd_at g j)" if "j < 512" for j
    using pgd_at_apart [OF ok ap i that] by (auto simp: m')
  show own: "m' (pgd_at d j) = (if j = i then m (pgd_at g i) else m (pgd_at d j))" if "j < 512" for j
    using pgd_at_inj [OF ok(1) that i] by (auto simp: m')
  have e: "m (pgd_at g i) AND PGD_PRESENT \<noteq> 0" "(m (pgd_at g i) AND PAGE_MASK) + KERNEL_VIRT_ADDR = table_at lay i"
    using inv i z unfolding pg_inv_def Let_def by blast+
  show "dir_synced lay d m'"
    using sync e own unfolding dir_synced_def Let_def by metis
  show "pg_inv lay g m'"
    using inv pte master unfolding pg_inv_def Let_def by metis
qed


lemma access_own_entry:
  assumes ok: "layout_ok lay d" "layout_ok lay g" and d: "d = GET_CPU_PGDIR lay cpu" and g: "g = master_kernel_pg_dir lay"
    and inv: "pg_inv lay g (pmem (paging_of m))" and sync: "dir_synced lay d (pmem (paging_of m))" and n: "n < 2 ^ 19"
    and a: "cr2 AND PAGE_MASK = kaddr n" and rf: "trap_nr rf = 14" "KERNEL_VIRT_ADDR \<le> rf_eip rf"
    and nz: "pmem (paging_of m) (pgd_at d (n div 1024)) \<noteq> 0"
  shows "\<exists>m'. kernel_access (Suc fuel) lay cpu cr2 rf n m = Some (translate g (pmem (paging_of m)) n, m') \<and>
     paging_of m' = paging_of m"
proof -
  let ?m = "pmem (paging_of m)"
  have i: "n div 1024 < 512" using n by (simp add: less_mult_imp_div_less)
  have tg: "translate g ?m n = translate d ?m n"
    using translate_synced [OF ok(1) sync n] translate_inv [OF ok(2) inv n] nz by simp
  show ?thesis
  proof (cases "translate d ?m n")
    case None
    obtain m' where "trap_handler lay cpu cr2 rf m = Halt m'" "paging_of m' = paging_of m"
      using trap_handler_fault [OF n a rf refl refl, of m lay cpu] nz d by auto
    then show ?thesis using None tg d by simp
  next
    case (Some e)
    then show ?thesis using tg d by simp
  qed
qed

lemma fault_resolves:
  assumes "layout_ok lay d" "layout_ok lay g" "apart d g" "d = GET_CPU_PGDIR lay cpu" "g = master_kernel_pg_dir lay"
    and "pg_inv lay g (pmem (paging_of m))" and "dir_synced lay d (pmem (paging_of m))"
    and "n < 2 ^ 19" and "cr2 AND PAGE_MASK = kaddr n" and "trap_nr rf = 14" and "KERNEL_VIRT_ADDR \<le> rf_eip rf"
  shows "\<exists>m'. kernel_access 2 lay cpu cr2 rf n m = Some (translate g (pmem (paging_of m)) n, m') \<and>
     pg_inv lay g (pmem (paging_of m')) \<and> dir_synced lay d (pmem (paging_of m')) \<and>
     (\<forall>k < 2 ^ 19. translate g (pmem (paging_of m')) k = translate g (pmem (paging_of m)) k \<and>
        (translate d (pmem (paging_of m)) k \<noteq> None \<longrightarrow>
           translate d (pmem (paging_of m')) k = translate d (pmem (paging_of m)) k)) \<and>
     (\<forall>a. a \<noteq> pgd_at d (n div 1024) \<longrightarrow> pmem (paging_of m') a = pmem (paging_of m) a)"
proof -
  let ?m = "pmem (paging_of m)" and ?i = "n div 1024"
  have i: "?i < 512" using assms(8) by (simp add: less_mult_imp_div_less)
  note own = access_own_entry [OF assms(1,2,4,5) _ _ assms(8-11)]
  note td = translate_synced [OF assms(1)] and tg = translate_inv [OF assms(2)]
  consider "?m (pgd_at d ?i) \<noteq> 0" | "?m (pgd_at d ?i) = 0" "?m (pgd_at g ?i) = 0"
    | "?m (pgd_at d ?i) = 0" "?m (pgd_at g ?i) \<noteq> 0" by blast
  then show ?thesis
  proof cases
    case 1
    then show ?thesis using own [OF assms(6,7), of "Suc 0"] assms(6,7) by (auto simp: numeral_2_eq_2)
  next
    case 2
    obtain m' where "trap_handler lay cpu cr2 rf m = Halt m'" "paging_of m' = paging_of m"
      using trap_handler_fault [OF assms(8-11) refl refl, of m lay cpu] 2 assms(4,5) by auto
    moreover have "translate d ?m n = None" using td [OF assms(7,8)] 2 by simp
    moreover have "?m (pte_at lay n) = 0" using assms(6,8) i 2(2) unfolding pg_inv_def Let_def by fastforce
    then have "translate g ?m n = None" using tg [OF assms(6,8)] by simp
    ultimately show ?thesis using assms(4,6,7) by (auto simp: numeral_2_eq_2)
  next
    case 3
    obtain m1 where m1: "trap_handler lay cpu cr2 rf m = Resume m1"
        "paging_of m1 = pmem_write (pgd_at d ?i) (?m (pgd_at g ?i)) (paging_of m)"
      using trap_handler_fault [OF assms(8-11) refl refl, of m lay cpu] 3 assms(4,5) by auto
    have up: "pmem (paging_of m1) = ?m(pgd_at d ?i := ?m (pgd_at g ?i))" by (simp add: m1(2))
    note c = copied_entry_synced [OF assms(1-3,6,7) i 3(2) up]
    have none: "translate d ?m n = None" using td [OF assms(7,8)] 3 by simp
    have same: "translate g (pmem (paging_of m1)) k = translate g ?m k" if "k < 2 ^ 19" for k
      using tg [OF c(2) that] tg [OF assms(6) that] c(3) [OF that] by simp
    have kept: "translate d (pmem (paging_of m1)) k = translate d ?m k" if k: "k < 2 ^ 19" "translate d ?m k \<noteq> None" for k
    proof -
      have kd: "k div 1024 < 512" using k(1) by (simp add: less_mult_imp_div_less)
      then have "k div 1024 \<noteq> ?i" using td [OF assms(7) k(1)] k(2) 3(1) by (auto split: if_splits)
      then show ?thesis
        using td [OF assms(7) k(1)] td [OF c(1) k(1)] c(3) [OF k(1)] c(5) [OF kd] by simp
    qed
    have "pmem (paging_of m1) (pgd_at d ?i) \<noteq> 0" using 3(2) by (simp add: up)
    then obtain m' where m': "kernel_access (Suc 0) lay cpu cr2 rf n m1 = Some (translate g (pmem (paging_of m1)) n, m')"
        "paging_of m' = paging_of m1"
      using own [OF c(2,1), of 0] by blast
    then have "kernel_access 2 lay cpu cr2 rf n m = Some (translate g ?m n, m')"
      using m1(1) none same [OF assms(8)] assms(4) by (simp add: numeral_2_eq_2)
    moreover have "pmem (paging_of m') = pmem (paging_of m1)" using m'(2) by simp
    ultimately show ?thesis using c(1,2) same kept up by auto
  qed
qed


section \<open>setup32\<close>

text \<open>The tables as CPU 0 leaves them, whatever the task segments.\<close>

definition tables_ready :: "symbols \<Rightarrow> tables \<Rightarrow> bool" where
  "tables_ready sy t \<longleftrightarrow> length (gdt t) = 44 \<and> length (tss t) = 32 \<and> length (idt t) = 256 \<and>
     (\<forall>i < 12. cpu_descriptor (pack_gdt (gdt t ! i)) = cpu_descriptor (pack_gdt (gdt_of sy ! i))) \<and>
     (\<forall>v < 256. cpu_gate (pack_idt (idt t ! v)) = gate_for (idt_vector sy v)) \<and>
     map (\<lambda>e. cpu_descriptor (pack_gdt e)) (ldt t) = [flat_segment 0xa 3, flat_segment 2 3]"

lemma boot_tables_ready:
  assumes "length (ldt t) = 2" "length (idt t) = 256" "length (tss t) = 32"
  shows "\<exists>t1 t2 t3. initializeGDT32 t = Some t1 \<and> initializeLDT32 sy t1 = Some t2 \<and> initializeIDT32 sy t2 = Some t3 \<and>
     tables_ready sy t3 \<and> tss t3 = tss t"
proof -
  obtain t1 where t1: "initializeGDT32 t = Some t1" by (simp add: initializeGDT32_eq)
  define t2 where "t2 = t\<lparr>gdt := gdt_of sy, gdt_size := 351,
     ldt := [gdt_entry_of 0xfffff 0 0xa 1 3 1 1, gdt_entry_of 0xfffff 0 2 1 3 1 1]\<rparr>"
  have t2: "initializeLDT32 sy t1 = Some t2"
    using initialize_GDT_LDT [OF assms(1), of sy] by (simp add: t1 t2_def)
  obtain i where i: "initializeIDT32 sy t2 = Some (t2\<lparr>idt := i, idt_size := 2047\<rparr>)" "length i = 256"
      "\<forall>v < 256. cpu_gate (pack_idt (i ! v)) = gate_for (idt_vector sy v)"
    using initializeIDT32_gates [of t2 sy] assms(2) by (auto simp: t2_def)
  then show ?thesis
    using t1 t2 i assms(3)
    by (intro exI [of _ t1] exI [of _ t2] exI [of _ "t2\<lparr>idt := i, idt_size := 2047\<rparr>"])
      (simp add: tables_ready_def t2_def flat_entry)
qed

lemma task_register:
  assumes "c < 32"
  shows "unat (of_nat (FIRST_TASK_SEG + c * 8) OR 3 :: u16) div 8 = 12 + c"
proof -
  have d: "unat y div 8 = unat (drop_bit 3 y)" for y :: u16
    by (simp add: unat_drop_bit_eq drop_bit_eq_div [where 'a = nat])
  have three: "(3 :: u16) = mask 2" by (simp add: mask_eq_exp_minus_1)
  have "drop_bit 3 (y OR 3) = drop_bit 3 y" for y :: u16
    unfolding three by (rule bit_word_eqI) (simp add: bit_simps)
  then have "unat (of_nat (FIRST_TASK_SEG + c * 8) OR 3 :: u16) div 8 = unat (of_nat (FIRST_TASK_SEG + c * 8) :: u16) div 8"
    by (simp only: d)
  also have "unat (of_nat (FIRST_TASK_SEG + c * 8) :: u16) = FIRST_TASK_SEG + c * 8"
    using assms by (simp add: unat_of_nat selectors del: of_nat_add)
  finally show ?thesis by (simp add: selectors)
qed

lemma ltr_task:
  assumes "c < 32" and "12 + c < length g"
  shows "ltr (of_nat (FIRST_TASK_SEG + c * 8) OR 3) (g[12 + c := gdt_entry_of lim base 9 0 dpl d gr]) =
     Some (g[12 + c := gdt_entry_of lim base 11 0 dpl d gr])"
  using assms(2) unfolding ltr_def task_register [OF assms(1)]
  by (simp add: aget_def aput_def gdt_entry_of_def zero_gdt_entry_def)

lemma task_entry_ready:
  assumes "tables_ready sy t" and "c < 32"
  shows "tables_ready sy (t\<lparr>tss := (tss t)[c := x], gdt := (gdt t)[12 + c := e]\<rparr>)"
  using assms by (simp add: tables_ready_def)

lemma dir_entries:
  assumes "layout_ok lay d" and "i < 1024"
  shows "unat (d + of_nat (4 * i)) = unat d + 4 * i"
  using assms by (intro unat_add_of_nat) (simp add: layout_ok_def)

text \<open>A directory whose kernel half holds the master's entries translates as the master does.\<close>

lemma follows_master:
  assumes ok: "layout_ok lay d" "layout_ok lay g" and inv: "pg_inv lay g m"
    and own: "\<And>j. j < 512 \<Longrightarrow> m' (pgd_at d j) = m (pgd_at g j)"
    and pte: "\<And>n. n < 2 ^ 19 \<Longrightarrow> m' (pte_at lay n) = m (pte_at lay n)"
  shows "dir_synced lay d m'" "\<And>k. k < 2 ^ 19 \<Longrightarrow> translate d m' k = translate g m k"
proof -
  show sync: "dir_synced lay d m'"
    using pg_inv_synced [OF inv] own unfolding dir_synced_def Let_def by metis
  show "translate d m' k = translate g m k" if k: "k < 2 ^ 19" for k
  proof -
    have kd: "k div 1024 < 512" using k by (simp add: less_mult_imp_div_less)
    have "m (pte_at lay k) = 0" if "m (pgd_at g (k div 1024)) = 0"
      using inv k kd that unfolding pg_inv_def Let_def by fastforce
    then show ?thesis
      using translate_synced [OF ok(1) sync k] translate_inv [OF ok(2) inv k] own [OF kd] pte [OF k] by auto
  qed
qed

text \<open>The effect of the copy, for directories apart from each other.\<close>

lemma master_copied:
  assumes ok: "layout_ok lay d" "layout_ok lay g" and ap: "apart d g" and inv: "pg_inv lay g m"
    and m': "m' = memcpy_words 1024 d g m"
  shows "\<And>i. i < 1024 \<Longrightarrow> m' (d + of_nat (4 * i)) = m (g + of_nat (4 * i))"
    "\<And>a. (\<forall>i < 1024. a \<noteq> d + of_nat (4 * i)) \<Longrightarrow> m' a = m a"
    "pg_inv lay g m'" "dir_synced lay d m'" "\<And>k. k < 2 ^ 19 \<Longrightarrow> translate d m' k = translate g m k"
proof -
  have sep: "\<forall>i < 1024. \<forall>j < 1024. d + of_nat (4 * i) \<noteq> g + of_nat (4 * j)"
    using dir_entries [OF ok(1)] dir_entries [OF ok(2)] ap by (fastforce simp: apart_def word_unat_eq_iff)
  show cp: "m' (d + of_nat (4 * i)) = m (g + of_nat (4 * i))" if "i < 1024" for i
    unfolding m' by (rule memcpy_words_copied [OF sep _ that]) simp
  show fr: "m' a = m a" if "\<forall>i < 1024. a \<noteq> d + of_nat (4 * i)" for a
    unfolding m' by (rule memcpy_words_same [OF that])
  have pte: "m' (pte_at lay n) = m (pte_at lay n)" if n: "n < 2 ^ 19" for n
  proof (rule fr, intro allI impI)
    fix i assume "i < (1024 :: nat)"
    then show "pte_at lay n \<noteq> d + of_nat (4 * i)"
      using dir_entries [OF ok(1), of i] unat_pte_at [OF ok(1) n] ok(1) n
      by (auto simp: word_unat_eq_iff layout_ok_def)
  qed
  have master: "m' (pgd_at g j) = m (pgd_at g j)" if "j < 512" for j
  proof (rule fr, intro allI impI)
    fix i assume "i < (1024 :: nat)"
    then have "d + of_nat (4 * i) \<noteq> g + of_nat (4 * (512 + j))"
      using sep [rule_format, of i "512 + j"] that by simp
    then show "pgd_at g j \<noteq> d + of_nat (4 * i)" unfolding pgd_at_def by metis
  qed
  have own: "m' (pgd_at d j) = m (pgd_at g j)" if "j < 512" for j
    using cp [of "512 + j"] that by (simp add: pgd_at_def)
  show inv': "pg_inv lay g m'"
    using inv pte master unfolding pg_inv_def Let_def by metis
  show "dir_synced lay d m'" "\<And>k. k < 2 ^ 19 \<Longrightarrow> translate d m' k = translate g m k"
    using follows_master [OF ok inv own pte] by blast+
qed

section \<open>Properties\<close>

text \<open>The lazy copy of the kernel's half of the directory is enough: when a CPU whose directory follows the master
  accesses a kernel page, the access ends after at most one repaired page fault exactly as the master directory
  translates it (or halts, when the master has no translation); no translation the CPU had changes, and the
  directory still follows the master.\<close>

theorem page_fault_resolution:
  assumes "layout_ok lay d" "layout_ok lay g" "apart d g" "d = GET_CPU_PGDIR lay cpu" "g = master_kernel_pg_dir lay"
    and "pg_inv lay g (pmem (paging_of m))" and "dir_synced lay d (pmem (paging_of m))"
    and "n < 2 ^ 19" and "cr2 AND PAGE_MASK = kaddr n" and "trap_nr rf = 14" and "KERNEL_VIRT_ADDR \<le> rf_eip rf"
  shows "\<exists>m'. kernel_access 2 lay cpu cr2 rf n m = Some (translate g (pmem (paging_of m)) n, m') \<and>
     pg_inv lay g (pmem (paging_of m')) \<and> dir_synced lay d (pmem (paging_of m')) \<and>
     (\<forall>k < 2 ^ 19. translate g (pmem (paging_of m')) k = translate g (pmem (paging_of m)) k \<and>
        (translate d (pmem (paging_of m)) k \<noteq> None \<longrightarrow>
           translate d (pmem (paging_of m')) k = translate d (pmem (paging_of m)) k)) \<and>
     (\<forall>a. a \<noteq> pgd_at d (n div 1024) \<longrightarrow> pmem (paging_of m') a = pmem (paging_of m) a)"
  by (rule fault_resolves [OF assms])

lemma setup32_ok:
  assumes "layout_ok lay d" "layout_ok lay g" "apart d g" "d = GET_CPU_PGDIR lay (of_nat cpu)" "g = master_kernel_pg_dir lay"
    and "pg_inv lay g (pmem (paging_of m))" and "cpu < 32" and "length (sched_tick m) = 32"
    and "if cpu = 0 then length (ldt (tables_of m)) = 2 \<and> length (idt (tables_of m)) = 256 \<and> length (tss (tables_of m)) = 32
         else tables_ready sy (tables_of m)"
  shows "\<exists>m'. setup32 lay sy cpu m = Some m' \<and>
     (\<forall>k < 2 ^ 19. translate d (pmem (paging_of m')) k = translate g (pmem (paging_of m)) k) \<and>
     locks_free (paging_of m') = locks_free (paging_of m) \<and> dir_synced lay d (pmem (paging_of m')) \<and> pg_inv lay g (pmem (paging_of m')) \<and>
     (\<forall>a. (\<forall>i < 1024. a \<noteq> d + of_nat (4 * i)) \<longrightarrow> pmem (paging_of m') a = pmem (paging_of m) a) \<and>
     cr3 (regs_of m' cpu) = d - KERNEL_VIRT_ADDR \<and> sched_tick m' = (sched_tick m)[cpu := 0] \<and>
     (\<forall>c. c \<noteq> cpu \<longrightarrow> regs_of m' c = regs_of m c \<and> tss (tables_of m') ! c = tss (tables_of m) ! c) \<and>
     tables_ready sy (tables_of m') \<and>
     (let desc = \<lambda>sel. cpu_descriptor (pack_gdt (gdt (tables_of m') ! (unat sel div 8))); r = regs_of m' cpu
      in desc (r_cs r) = flat_segment 0xa 0 \<and> (\<forall>sel \<in> {r_ds r, r_es r, r_fs r, r_ss r}. desc sel = flat_segment 2 0) \<and>
         desc (ldtr r) = system_segment (ldt_addr sy) 16 2 \<and> desc (task_reg r) = system_segment (tss_addr sy cpu) 104 11 \<and>
         esp0 (tss (tables_of m') ! cpu) = kernel_stack_0_start sy + of_nat cpu * 0x2000)"
proof -
  let ?p = "paging_of m"
  define mem where "mem = memcpy_words 1024 d g (pmem ?p)"
  note cp = master_copied [OF assms(1-3,6) mem_def]
  have d: "kernel_pg_dir lay + of_nat cpu * PAGE_SIZE = d" by (simp add: assms(4) GET_CPU_PGDIR_def mult.commute)
  obtain t where t: "init_tables sy cpu (tables_of m) = Some t" and rdy: "tables_ready sy t" and tss: "tss t = tss (tables_of m)"
  proof (cases "cpu = 0")
    case True
    then show ?thesis
      using boot_tables_ready [of "tables_of m" sy] assms(9) that by (auto simp: init_tables_def)
  next
    case False
    then show ?thesis using assms(9) that by (simp add: init_tables_def)
  qed
  define tasks where "tasks ty = t\<lparr>tss := (tss t)[cpu := zero_tss\<lparr>esp0 := kernel_stack_0_start sy + of_nat (cpu * 0x2000), ss0 := 0x40\<rparr>],
    gdt := (gdt t)[12 + cpu := gdt_entry_of 104 (tss_addr sy cpu) ty 0 3 0 0]\<rparr>" for ty
  define u where "u = tasks 11"
  have g: "12 + cpu < length (gdt t)" using rdy assms(7) by (simp add: tables_ready_def)
  have t9: "initializeTSS32 sy cpu t = Some (tasks 9)"
    using initializeTSS32_Some [OF assms(7), of t sy] rdy by (simp add: tasks_def tables_ready_def)
  have u: "ltr (of_nat (FIRST_TASK_SEG + cpu * 8) OR 3) (gdt (tasks 9)) = Some (gdt u)" "(tasks 9)\<lparr>gdt := gdt u\<rparr> = u"
    using ltr_task [OF assms(7) g] by (simp_all add: tasks_def u_def)
  have urdy: "tables_ready sy u" unfolding u_def tasks_def by (rule task_entry_ready [OF rdy assms(7)])
  have task: "cpu_descriptor (pack_gdt (gdt u ! (12 + cpu))) = system_segment (tss_addr sy cpu) 104 11"
    "esp0 (tss u ! cpu) = kernel_stack_0_start sy + of_nat cpu * 0x2000" "\<And>c. c \<noteq> cpu \<Longrightarrow> tss u ! c = tss (tables_of m) ! c"
    using rdy assms(7) tss by (simp_all add: u_def tasks_def tables_ready_def system_entry)
  have seg: "cpu_descriptor (pack_gdt (gdt u ! 6)) = flat_segment 0xa 0" "cpu_descriptor (pack_gdt (gdt u ! 8)) = flat_segment 2 0"
    "cpu_descriptor (pack_gdt (gdt u ! 10)) = system_segment (ldt_addr sy) 16 2"
    using urdy by (simp_all add: tables_ready_def gdt_of_entry)
  obtain m' where m': "setup32 lay sy cpu m = Some m'" "paging_of m' = ?p\<lparr>pmem := mem\<rparr>" "tables_of m' = u"
      "sched_tick m' = (sched_tick m)[cpu := 0]" "\<And>c. c \<noteq> cpu \<Longrightarrow> regs_of m' c = regs_of m c"
      "cr3 (regs_of m' cpu) = d - KERNEL_VIRT_ADDR" "r_cs (regs_of m' cpu) = 0x30" "r_ds (regs_of m' cpu) = 0x40"
      "r_es (regs_of m' cpu) = 0x40" "r_fs (regs_of m' cpu) = 0x40" "r_ss (regs_of m' cpu) = 0x40" "ldtr (regs_of m' cpu) = 0x50"
      "task_reg (regs_of m' cpu) = of_nat (FIRST_TASK_SEG + cpu * 8) OR 3"
    using t t9 u assms(7,8)
    by (simp add: setup32_def d Let_def loadGDT32_def loadLDT32_def loadTSS32_def loadIDT32_def upd_regs_def
        mask_pic_8259_def outb_def log_printf_def mem_def assms(5) KERNEL_CODE_SEG_def KERNEL_DATA_SEG_def LDT_SELECTOR_def)
  have "desc = (\<lambda>sel. cpu_descriptor (pack_gdt (gdt u ! (unat sel div 8)))) \<Longrightarrow>
      desc (0x30 :: u16) = flat_segment 0xa 0 \<and> desc 0x40 = flat_segment 2 0 \<and>
      desc 0x50 = system_segment (ldt_addr sy) 16 2 \<and>
      desc (of_nat (FIRST_TASK_SEG + cpu * 8) OR 3) = system_segment (tss_addr sy cpu) 104 11" for desc
    using seg task(1) task_register [OF assms(7)] by simp
  then show ?thesis
    using m' cp task(2,3) urdy by (simp add: Let_def locks_free_def)
qed

text \<open>(C15) \<^verbatim>\<open>setup32\<close> on any CPU: it returns, the CPU's new page directory translates every kernel page as the
  master does and nothing else in memory changes; CR3 is its physical address; the descriptor tables are those of
  CPU 0's initialisation, and the selectors loaded into CS, DS, ES, FS and SS and into the task register name the flat kernel
  segments and the CPU's own task segment, busy now (type 11), with its own stack. GS is not loaded. The locks of the page tables are left as they were.\<close>

theorem setup32_ready:
  assumes "layout_ok lay d" "layout_ok lay g" "apart d g" "d = GET_CPU_PGDIR lay (of_nat cpu)" "g = master_kernel_pg_dir lay"
    and "pg_inv lay g (pmem (paging_of m))" and "cpu < 32" and "length (sched_tick m) = 32"
    and "if cpu = 0 then length (ldt (tables_of m)) = 2 \<and> length (idt (tables_of m)) = 256 \<and> length (tss (tables_of m)) = 32
         else tables_ready sy (tables_of m)"
  shows "\<exists>m'. setup32 lay sy cpu m = Some m' \<and>
     (\<forall>k < 2 ^ 19. translate d (pmem (paging_of m')) k = translate g (pmem (paging_of m)) k) \<and>
     locks_free (paging_of m') = locks_free (paging_of m) \<and> dir_synced lay d (pmem (paging_of m')) \<and> pg_inv lay g (pmem (paging_of m')) \<and>
     (\<forall>a. (\<forall>i < 1024. a \<noteq> d + of_nat (4 * i)) \<longrightarrow> pmem (paging_of m') a = pmem (paging_of m) a) \<and>
     cr3 (regs_of m' cpu) = d - KERNEL_VIRT_ADDR \<and> sched_tick m' = (sched_tick m)[cpu := 0] \<and>
     (\<forall>c. c \<noteq> cpu \<longrightarrow> regs_of m' c = regs_of m c \<and> tss (tables_of m') ! c = tss (tables_of m) ! c) \<and>
     tables_ready sy (tables_of m') \<and>
     (let desc = \<lambda>sel. cpu_descriptor (pack_gdt (gdt (tables_of m') ! (unat sel div 8))); r = regs_of m' cpu
      in desc (r_cs r) = flat_segment 0xa 0 \<and> (\<forall>sel \<in> {r_ds r, r_es r, r_fs r, r_ss r}. desc sel = flat_segment 2 0) \<and>
         desc (ldtr r) = system_segment (ldt_addr sy) 16 2 \<and> desc (task_reg r) = system_segment (tss_addr sy cpu) 104 11 \<and>
         esp0 (tss (tables_of m') ! cpu) = kernel_stack_0_start sy + of_nat cpu * 0x2000)"
  by (rule setup32_ok [OF assms])

text \<open>(C14) A kernel mapping made later reaches every CPU: after \<^verbatim>\<open>map_kernel_with_pagetable\<close> on any CPU has mapped a range in
  the master tables, an access to a page of the range on any other CPU, whose directory was copied before the mapping,
  ends after at most one page fault with the page and flags of the mapping.\<close>

theorem kernel_mapping_reaches_cpu:
  assumes "layout_ok lay d" "layout_ok lay g" "apart d g" "d = GET_CPU_PGDIR lay cpu" "g = master_kernel_pg_dir lay"
    and "locks_free (paging_of m)" and "pg_inv lay g (pmem (paging_of m))" and "dir_synced lay d (pmem (paging_of m))"
    and "fl < 0x1000" and "mf AND (MAP_USER OR MAP_LOCAL_CPU) = 0" and "unat cpu0 < 32"
    and "KERNEL_VIRT_ADDR \<le> v" and "unat v + unat len \<le> 2 ^ 32 - 4096"
    and "first_page v \<le> n" and "n < end_page v len" and "cr2 AND PAGE_MASK = kaddr n"
    and "trap_nr rf = 14" and "KERNEL_VIRT_ADDR \<le> rf_eip rf"
  shows "\<exists>p' e m'. map_kernel_with_pagetable lay cpu0 v phys len fl mf (paging_of m) = Some p' \<and>
     kernel_access 2 lay cpu cr2 rf n (m\<lparr>paging_of := p'\<rparr>) = Some (Some e, m') \<and>
     e AND PAGE_MASK = (phys AND PAGE_MASK) + of_nat (4096 * (n - first_page v)) \<and> e AND 0xFFF = fl OR PTE_PRESENT"
proof -
  let ?w = "(phys AND PAGE_MASK) + of_nat (4096 * (n - first_page v))"
  have b: "n < 2 ^ 19" using range_pages(4) [OF assms(12,13)] assms(15) by simp
  have gdir: "g = pgdir_for lay cpu0 mf" using assms(5,10) by (simp add: pgdir_for_def)
  have user: "mf AND MAP_USER = 0"
  proof -
    have "mf AND MAP_USER = (mf AND (MAP_USER OR MAP_LOCAL_CPU)) AND MAP_USER"
      by (rule bit_word_eqI) (auto simp: bit_simps)
    then show ?thesis by (simp add: assms(10))
  qed
  obtain p' where p': "map_kernel_with_pagetable lay cpu0 v phys len fl mf (paging_of m) = Some p'" "pg_inv lay g (pmem p')"
    "\<forall>k < 2 ^ 19. pmem p' (pte_at lay k) =
       (if first_page v \<le> k \<and> k < end_page v len
        then ((phys AND PAGE_MASK) + of_nat (4096 * (k - first_page v))) OR (fl OR PTE_PRESENT)
        else pmem (paging_of m) (pte_at lay k))"
    "\<forall>a. (\<forall>k. first_page v \<le> k \<and> k < end_page v len \<longrightarrow> a \<noteq> pte_at lay k \<and> a \<noteq> pgd_at g (k div 1024)) \<longrightarrow>
       pmem p' a = pmem (paging_of m) a"
    using map_range [OF assms(2) gdir user assms(11,6,7,12,13)] by blast
  have "pmem p' (pgd_at d j) = pmem (paging_of m) (pgd_at d j)" if j: "j < 512" for j
  proof (rule p'(4) [rule_format], rule conjI)
    fix k assume k: "first_page v \<le> k \<and> k < end_page v len"
    then have kb: "k < 2 ^ 19" "k div 1024 < 512"
      using range_pages(4) [OF assms(12,13)] by (simp_all add: less_mult_imp_div_less)
    show "pgd_at d j \<noteq> pte_at lay k" by (rule pgd_pte_apart [OF assms(1) j kb(1)])
    show "pgd_at d j \<noteq> pgd_at g (k div 1024)" by (rule pgd_at_apart [OF assms(1-3) j kb(2)])
  qed
  then have sync: "dir_synced lay d (pmem p')"
    using assms(8) unfolding dir_synced_def Let_def by metis
  have e: "pmem p' (pte_at lay n) = ?w OR (fl OR PTE_PRESENT)"
    using p'(3) [rule_format, OF b] assms(14,15) by (simp only: if_True simp_thms)
  have "translate g (pmem p') n = Some (?w OR (fl OR PTE_PRESENT))"
    using translate_inv [OF assms(2) p'(2) b] or_present(1) [of ?w fl] by (simp only: e if_False)
  moreover obtain m' where "kernel_access 2 lay cpu cr2 rf n (m\<lparr>paging_of := p'\<rparr>) = Some (translate g (pmem p') n, m')"
    using fault_resolves [OF assms(1-5) _ _ b assms(16-18), of "m\<lparr>paging_of := p'\<rparr>"] p'(2) sync by auto
  ultimately show ?thesis
    using p'(1) page_mask_or [OF page_sum_aligned or_small [OF assms(9)]] flags_of_entry [OF page_sum_aligned or_small [OF assms(9)]]
    by (metis (no_types, lifting))
qed


section \<open>Witnesses\<close>

definition boot_machine :: machine where
  "boot_machine = \<lparr>paging_of = empty_paging, tables_of = blank_tables, sched_tick = replicate 32 7,
     regs_of = (\<lambda>_. \<lparr>cr3 = 0, gdtr = 0, idtr = 0, ldtr = 0, task_reg = 0, r_cs = 0, r_ds = 0, r_es = 0, r_ss = 0, r_fs = 0,
       r_gs = 0, r_eip = 0, r_esp = 0, r_eflags = 0x202\<rparr>),
     port_out = [], printed = []\<rparr>"

definition kernel_fault :: regs_frame where
  "kernel_fault = \<lparr>trap_nr = 14, rf_gs = 0, rf_fs = 0x40, rf_es = 0x40, rf_ds = 0x40, rf_edi = 0, rf_esi = 0, rf_ebp = 0,
     rf_orig_esp = 0, rf_ebx = 0, rf_edx = 0, rf_ecx = 0, rf_eax = 0, code_nr = 0, rf_eip = 0x80101234, rf_cs = 0x30,
     rf_eflags = 0x202, rf_esp = 0, rf_ss = 0\<rparr>"

lemma lay0_dirs:
  "layout_ok lay0 (GET_CPU_PGDIR lay0 c)" "layout_ok lay0 (master_kernel_pg_dir lay0)"
  "apart (GET_CPU_PGDIR lay0 c) (master_kernel_pg_dir lay0)" if "c \<in> {0, 3}"
  using that by (auto simp: layout_ok_def lay0_def GET_CPU_PGDIR_def PAGE_SIZE_def apart_def)

lemma boot_machine_paging [simp]: "paging_of boot_machine = empty_paging" "tables_of boot_machine = blank_tables"
  "sched_tick boot_machine = replicate 32 7"
  by (simp_all add: boot_machine_def)

lemma empty_synced: "dir_synced lay0 d (pmem empty_paging)" "pg_inv lay0 d (pmem empty_paging)"
  by (simp_all add: dir_synced_def pg_inv_def empty_paging_def)

lemma kernel_fault_page:
  "(0xFEC01010 :: u32) AND PAGE_MASK = kaddr 0x7EC01" "trap_nr kernel_fault = 14" "KERNEL_VIRT_ADDR \<le> rf_eip kernel_fault"
  by (simp_all add: PAGE_MASK_def PAGE_SIZE_def kaddr_def KERNEL_VIRT_ADDR_def kernel_fault_def)

theorem page_fault_resolution_witness:
  "\<exists>m'. kernel_access 2 lay0 3 0xFEC01010 kernel_fault 0x7EC01 boot_machine = Some (None, m')"
proof -
  have "translate (master_kernel_pg_dir lay0) (pmem empty_paging) 0x7EC01 = None"
    by (simp add: translate_def empty_paging_def Let_def)
  moreover have "(3 :: u32) \<in> {0, 3}" "(0x7EC01 :: nat) < 2 ^ 19" by simp_all
  ultimately show ?thesis
    using page_fault_resolution [OF lay0_dirs [of 3] refl refl, of boot_machine "0x7EC01" "0xFEC01010" kernel_fault]
      empty_synced kernel_fault_page by auto
qed

theorem setup32_ready_witness:
  "\<exists>m'. setup32 lay0 some_symbols 0 boot_machine = Some m' \<and> cr3 (regs_of m' 0) = 0x600000 \<and>
     sched_tick m' = (replicate 32 7)[0 := 0] \<and> tables_ready some_symbols (tables_of m')"
proof -
  have "length (ldt blank_tables) = 2" "length (idt blank_tables) = 256" "length (tss blank_tables) = 32"
    by (simp_all add: blank_tables_def)
  moreover have "GET_CPU_PGDIR lay0 0 - KERNEL_VIRT_ADDR = 0x600000"
    by (simp add: GET_CPU_PGDIR_def lay0_def KERNEL_VIRT_ADDR_def)
  ultimately show ?thesis
    using setup32_ready [OF lay0_dirs [of 0] _ refl, of 0 boot_machine some_symbols] empty_synced by auto
qed

theorem kernel_mapping_reaches_cpu_witness:
  "\<exists>p' e m'. map_kernel_with_pagetable lay0 0 0xFEC00000 0xFEC00000 0x1800 PTE_WRITE 0 (paging_of boot_machine) = Some p' \<and>
     kernel_access 2 lay0 3 0xFEC01010 kernel_fault 0x7EC01 (boot_machine\<lparr>paging_of := p'\<rparr>) = Some (Some e, m') \<and>
     e AND 0xFFF = 3"
proof -
  have "first_page 0xFEC00000 \<le> 0x7EC01" "0x7EC01 < end_page 0xFEC00000 0x1800"
    by (simp_all add: first_page_def end_page_def)
  moreover have "KERNEL_VIRT_ADDR \<le> 0xFEC00000" "unat (0xFEC00000 :: u32) + unat (0x1800 :: u32) \<le> 2 ^ 32 - 4096"
    by (simp_all add: KERNEL_VIRT_ADDR_def)
  moreover have "(0 :: u32) AND (MAP_USER OR MAP_LOCAL_CPU) = 0" "unat (0 :: u32) < 32" "PTE_WRITE < 0x1000"
    by (simp_all add: PTE_WRITE_def)
  moreover have "locks_free (paging_of boot_machine)" by (simp add: lay0_ok)
  ultimately obtain p' e m' where
    "map_kernel_with_pagetable lay0 0 0xFEC00000 0xFEC00000 0x1800 PTE_WRITE 0 (paging_of boot_machine) = Some p'"
    "kernel_access 2 lay0 3 0xFEC01010 kernel_fault 0x7EC01 (boot_machine\<lparr>paging_of := p'\<rparr>) = Some (Some e, m')"
    "e AND 0xFFF = PTE_WRITE OR PTE_PRESENT"
    using kernel_mapping_reaches_cpu [OF lay0_dirs [of 3] refl refl, of boot_machine PTE_WRITE 0 0 "0xFEC00000" "0x1800"
        "0x7EC01" "0xFEC01010" kernel_fault "0xFEC00000"] empty_synced kernel_fault_page by auto
  then show ?thesis by (intro exI [of _ p'] exI [of _ e] exI [of _ m']) (simp add: PTE_WRITE_def PTE_PRESENT_def)
qed

end
