(* ===== verification/Ring_Buffer.thy ===== *)
theory Ring_Buffer
  imports Xis_Prelude
begin

text \<open>
  The byte ring buffer of \<^verbatim>\<open>util.c\<close> (\<^verbatim>\<open>ring_buffer_init\<close>, \<^verbatim>\<open>ring_buffer_put_elem\<close>,
  \<^verbatim>\<open>ring_buffer_get_elem\<close>). A call returns its \<^verbatim>\<open>int\<close> result and the new buffer;
  \<^const>\<open>None\<close> stands for an access outside the array or a division by zero. The sums are
  computed in \<^verbatim>\<open>int\<close> after promotion of the \<^verbatim>\<open>u16\<close> fields, so they do not wrap.
\<close>

record ring_buffer =
  rb_buffer :: "u8 list"
  buffer_size :: u16
  cur_ptr :: u16
  rb_len :: u16

definition ring_buffer_init :: "u8 list \<Rightarrow> u16 \<Rightarrow> ring_buffer \<Rightarrow> (int \<times> ring_buffer) option" where
  "ring_buffer_init buffer n rb =
     (if n = 0 then Some (-1, rb)
      else if length buffer < unat n then None
      else Some (0, rb\<lparr>buffer_size := n,
                       rb_buffer := replicate (unat n) 0 @ drop (unat n) buffer,
                       cur_ptr := 0, rb_len := 0\<rparr>))"

definition ring_buffer_put_elem :: "u8 \<Rightarrow> ring_buffer \<Rightarrow> (int \<times> ring_buffer) option" where
  "ring_buffer_put_elem e rb =
     (if buffer_size rb = 0 then None
      else if (unat (cur_ptr rb) + unat (rb_len rb) + 1) mod unat (buffer_size rb) = unat (cur_ptr rb)
      then Some (-1, rb)
      else do {
        b \<leftarrow> aput (rb_buffer rb) (unat (cur_ptr rb)) e;
        Some (0, rb\<lparr>rb_buffer := b, rb_len := rb_len rb + 1\<rparr>)
      })"

text \<open>The result carries \<^verbatim>\<open>*elem\<close>; the null check of \<^verbatim>\<open>elem\<close> is the argument \<open>has_elem\<close>.\<close>

definition ring_buffer_get_elem :: "bool \<Rightarrow> ring_buffer \<Rightarrow> (int \<times> u8 option \<times> ring_buffer) option" where
  "ring_buffer_get_elem has_elem rb =
     (if rb_len rb = 0 \<or> \<not> has_elem then Some (-1, None, rb)
      else do {
        e \<leftarrow> aget (rb_buffer rb) (unat (cur_ptr rb));
        if buffer_size rb = 0 then None
        else Some (0, Some e, rb\<lparr>cur_ptr := of_nat ((unat (cur_ptr rb) + 1) mod unat (buffer_size rb)),
                                 rb_len := rb_len rb - 1\<rparr>)
      })"

section \<open>Well-formed buffers\<close>

definition rb_wf :: "ring_buffer \<Rightarrow> bool" where
  "rb_wf rb \<longleftrightarrow> unat (buffer_size rb) \<le> length (rb_buffer rb) \<and> cur_ptr rb < buffer_size rb \<and>
     rb_len rb < buffer_size rb"

lemma rb_wfD:
  assumes "rb_wf rb"
  shows "unat (buffer_size rb) \<le> length (rb_buffer rb)" "unat (cur_ptr rb) < unat (buffer_size rb)"
    "unat (rb_len rb) < unat (buffer_size rb)" "buffer_size rb \<noteq> 0" "unat (buffer_size rb) < 65536"
  using assms unsigned_less [of "buffer_size rb"] by (auto simp: rb_wf_def word_less_nat_alt)

lemma full_iff: "c < n \<Longrightarrow> l < n \<Longrightarrow> (c + l + 1) mod n = c \<longleftrightarrow> l + 1 = (n :: nat)"
proof
  assume *: "c < n" "l < n" "(c + l + 1) mod n = c"
  show "l + 1 = n"
  proof (cases "c + l + 1 < n")
    case False
    then have "(c + l + 1) mod n = c + l + 1 - n" using *(1,2) by (simp add: le_mod_geq)
    then show ?thesis using * False by linarith
  qed (use * in simp)
qed (metis Suc_eq_plus1 add.commute add_Suc_right mod_add_self1 mod_less)

lemma unat_plus1: "unat (x :: u16) + 1 < 65536 \<Longrightarrow> unat (x + 1) = unat x + 1"
  by (simp add: unat_word_ariths)

lemma put_cases:
  assumes wf: "rb_wf rb"
  shows "ring_buffer_put_elem e rb =
    (if unat (rb_len rb) + 1 = unat (buffer_size rb) then Some (-1, rb)
     else Some (0, rb\<lparr>rb_buffer := (rb_buffer rb)[unat (cur_ptr rb) := e], rb_len := rb_len rb + 1\<rparr>))"
  using rb_wfD [OF wf] full_iff [of "unat (cur_ptr rb)" "unat (buffer_size rb)" "unat (rb_len rb)"]
  by (simp add: ring_buffer_put_elem_def)

lemma get_cases:
  assumes wf: "rb_wf rb"
  shows "ring_buffer_get_elem True rb =
    (if rb_len rb = 0 then Some (-1, None, rb)
     else Some (0, Some (rb_buffer rb ! unat (cur_ptr rb)),
       rb\<lparr>cur_ptr := of_nat ((unat (cur_ptr rb) + 1) mod unat (buffer_size rb)), rb_len := rb_len rb - 1\<rparr>))"
  using rb_wfD [OF wf] by (simp add: ring_buffer_get_elem_def)

lemma put_total:
  assumes "rb_wf rb"
  shows "\<exists>rb1. ring_buffer_put_elem e rb =
     Some (if unat (rb_len rb) + 1 = unat (buffer_size rb) then -1 else 0, rb1)"
  using put_cases [OF assms, of e] by simp

lemma get_total:
  assumes "rb_wf rb"
  shows "\<exists>x rb1. ring_buffer_get_elem True rb = Some (if unat (rb_len rb) = 0 then -1 else 0, x, rb1)"
  using get_cases [OF assms] by (simp add: unat_eq_zero)

lemma put_wf:
  assumes wf: "rb_wf rb" and r: "ring_buffer_put_elem e rb = Some (c, rb')"
  shows "rb_wf rb'" "buffer_size rb' = buffer_size rb" "length (rb_buffer rb') = length (rb_buffer rb)"
    "c = 0 \<Longrightarrow> unat (rb_len rb') = unat (rb_len rb) + 1" "c \<noteq> 0 \<Longrightarrow> rb' = rb"
  using r rb_wfD [OF wf] unat_plus1 [of "rb_len rb"] unfolding put_cases [OF wf]
  by (auto simp: rb_wf_def word_less_nat_alt split: if_splits)

lemma get_wf:
  assumes wf: "rb_wf rb" and r: "ring_buffer_get_elem True rb = Some (c, e, rb')"
  shows "rb_wf rb'" "buffer_size rb' = buffer_size rb" "rb_buffer rb' = rb_buffer rb"
    "c = 0 \<Longrightarrow> unat (rb_len rb) = unat (rb_len rb') + 1" "c \<noteq> 0 \<Longrightarrow> rb' = rb \<and> rb_len rb = 0"
proof -
  have "rb_len rb \<noteq> 0 \<Longrightarrow> unat (rb_len rb - 1) = unat (rb_len rb) - 1"
    by (rule unat_minus_one)
  moreover have "rb_len rb \<noteq> 0 \<Longrightarrow> 0 < unat (rb_len rb)" by (simp add: unat_gt_0)
  moreover have "unat (of_nat ((unat (cur_ptr rb) + 1) mod unat (buffer_size rb)) :: u16) =
      (unat (cur_ptr rb) + 1) mod unat (buffer_size rb)"
    using rb_wfD(4,5) [OF wf] by (simp add: unat_of_nat unat_gt_0 order.strict_trans [OF mod_less_divisor])
  ultimately show "rb_wf rb'" "buffer_size rb' = buffer_size rb" "rb_buffer rb' = rb_buffer rb"
    "c = 0 \<Longrightarrow> unat (rb_len rb) = unat (rb_len rb') + 1" "c \<noteq> 0 \<Longrightarrow> rb' = rb \<and> rb_len rb = 0"
    using r rb_wfD [OF wf] unfolding get_cases [OF wf]
    by (auto simp: rb_wf_def word_less_nat_alt split: if_splits)
qed

section \<open>Properties\<close>

text \<open>A buffer of \<open>n\<close> bytes as \<^verbatim>\<open>ring_buffer_init\<close> leaves it.\<close>

definition fresh :: "u16 \<Rightarrow> ring_buffer" where
  "fresh n = \<lparr>rb_buffer = replicate (unat n) 0, buffer_size = n, cur_ptr = 0, rb_len = 0\<rparr>"

text \<open>A client: puts are \<open>Some e\<close>, gets are \<^const>\<open>None\<close>; the list collects the return codes.\<close>

fun rb_run :: "u8 option list \<Rightarrow> ring_buffer \<Rightarrow> (int list \<times> ring_buffer) option" where
  "rb_run [] rb = Some ([], rb)"
| "rb_run (Some e # ops) rb =
     do { (c, rb) \<leftarrow> ring_buffer_put_elem e rb; (cs, rb) \<leftarrow> rb_run ops rb; Some (c # cs, rb) }"
| "rb_run (None # ops) rb =
     do { (c, _, rb) \<leftarrow> ring_buffer_get_elem True rb; (cs, rb) \<leftarrow> rb_run ops rb; Some (c # cs, rb) }"

text \<open>How many elements are in the buffer, as the return codes promise.\<close>

fun occupancy :: "u8 option list \<Rightarrow> nat \<Rightarrow> nat \<Rightarrow> int list \<times> nat" where
  "occupancy [] n l = ([], l)"
| "occupancy (Some _ # ops) n l =
     (if l + 1 = n then (let (cs, l) = occupancy ops n l in (-1 # cs, l))
      else (let (cs, l) = occupancy ops n (l + 1) in (0 # cs, l)))"
| "occupancy (None # ops) n l =
     (if l = 0 then (let (cs, l) = occupancy ops n l in (-1 # cs, l))
      else (let (cs, l) = occupancy ops n (l - 1) in (0 # cs, l)))"

lemma rb_run_occupancy:
  "rb_wf rb \<Longrightarrow> \<exists>rb'. rb_run ops rb =
     Some (fst (occupancy ops (unat (buffer_size rb)) (unat (rb_len rb))), rb') \<and> rb_wf rb' \<and>
     unat (rb_len rb') = snd (occupancy ops (unat (buffer_size rb)) (unat (rb_len rb))) \<and>
     buffer_size rb' = buffer_size rb"
proof (induction ops arbitrary: rb)
  case (Cons x ops)
  show ?case
  proof (cases x)
    case (Some e)
    obtain rb1 where p: "ring_buffer_put_elem e rb =
        Some (if unat (rb_len rb) + 1 = unat (buffer_size rb) then -1 else 0, rb1)"
      using put_total [OF Cons.prems] by blast
    note w = put_wf [OF Cons.prems p]
    show ?thesis using Cons.IH [OF w(1)] p w(2,4,5) Some by (auto simp: case_prod_beta split: if_splits)
  next
    case None
    obtain x rb1 where p: "ring_buffer_get_elem True rb = Some (if unat (rb_len rb) = 0 then -1 else 0, x, rb1)"
      using get_total [OF Cons.prems] by blast
    note w = get_wf [OF Cons.prems p]
    show ?thesis using Cons.IH [OF w(1)] p w(2,4,5) None by (auto simp: case_prod_beta split: if_splits)
  qed
qed simp

text \<open>(C39) Safety and capacity: after \<^verbatim>\<open>ring_buffer_init\<close> on a buffer of \<open>n > 0\<close> bytes, every sequence of
  puts and gets stays inside the array and returns; a put is refused exactly when \<open>n - 1\<close>
  elements are stored, a get exactly when none is.\<close>

theorem ring_buffer_capacity:
  assumes "n \<noteq> 0" and "unat n \<le> length buffer"
  shows "\<exists>rb rb'. ring_buffer_init buffer n rb0 = Some (0, rb) \<and>
     rb_run ops rb = Some (fst (occupancy ops (unat n) 0), rb') \<and>
     unat (rb_len rb') = snd (occupancy ops (unat n) 0)"
proof -
  obtain rb where rb: "ring_buffer_init buffer n rb0 = Some (0, rb)" "rb_wf rb" "buffer_size rb = n" "rb_len rb = 0"
    using assms by (simp add: ring_buffer_init_def rb_wf_def word_neq_0_conv)
  then show ?thesis using rb_run_occupancy [OF rb(2), of ops] by auto
qed

theorem ring_buffer_capacity_witness:
  "\<exists>rb rb'. ring_buffer_init (replicate 3 7) 3 (fresh 1) = Some (0, rb) \<and>
     rb_run [None, Some 1, Some 2, Some 3, None, Some 4] rb = Some ([-1, 0, 0, -1, 0, 0], rb') \<and> unat (rb_len rb') = 2"
  using ring_buffer_capacity [of 3 "replicate 3 7" "fresh 1" "[None, Some 1, Some 2, Some 3, None, Some 4]"]
  by (simp del: rb_run.simps) (simp only: numeral_2_eq_2)

text \<open>One element at a time: on an empty buffer of at least two bytes, a put followed by a get returns the
  byte that was put and leaves the buffer empty.\<close>

theorem ring_buffer_roundtrip:
  assumes "rb_wf rb" and "rb_len rb = 0" and "1 < buffer_size rb"
  shows "\<exists>rb1 rb2. ring_buffer_put_elem e rb = Some (0, rb1) \<and>
     ring_buffer_get_elem True rb1 = Some (0, Some e, rb2) \<and> rb_wf rb2 \<and> rb_len rb2 = 0"
proof -
  note w = rb_wfD [OF assms(1)]
  have "unat (buffer_size rb) \<noteq> 1" using assms(3) by (simp add: word_less_nat_alt)
  then have p: "ring_buffer_put_elem e rb =
     Some (0, rb\<lparr>rb_buffer := (rb_buffer rb)[unat (cur_ptr rb) := e], rb_len := 1\<rparr>)" (is "_ = Some (0, ?rb1)")
    using put_cases [OF assms(1), of e] assms(2) by simp
  have "ring_buffer_get_elem True ?rb1 = Some (0, Some e, ?rb1\<lparr>cur_ptr :=
      of_nat ((unat (cur_ptr rb) + 1) mod unat (buffer_size rb)), rb_len := 0\<rparr>)" (is "_ = Some (0, _, ?rb2)")
    using w get_cases [OF put_wf(1) [OF assms(1) p]] by simp
  then show ?thesis using p get_wf(1) [OF put_wf(1) [OF assms(1) p]] by auto
qed

theorem ring_buffer_roundtrip_witness:
  "\<exists>rb1 rb2. ring_buffer_put_elem 9 (fresh 4) = Some (0, rb1) \<and> ring_buffer_get_elem True rb1 = Some (0, Some 9, rb2)"
  using ring_buffer_roundtrip [of "fresh 4" 9] by (auto simp: fresh_def rb_wf_def)

text \<open>Not a queue: a put always writes at \<^verbatim>\<open>cur_ptr\<close>, so a second put overwrites the first
  element; the next get returns the second byte and the first is lost.\<close>

theorem ring_buffer_overwrites:
  assumes "rb_wf rb" and "unat (rb_len rb) + 2 < unat (buffer_size rb)"
  shows "\<exists>rb1 rb2 rb3. ring_buffer_put_elem a rb = Some (0, rb1) \<and> ring_buffer_put_elem b rb1 = Some (0, rb2) \<and>
     ring_buffer_get_elem True rb2 = Some (0, Some b, rb3)"
proof -
  have p1: "ring_buffer_put_elem a rb =
     Some (0, rb\<lparr>rb_buffer := (rb_buffer rb)[unat (cur_ptr rb) := a], rb_len := rb_len rb + 1\<rparr>)" (is "_ = Some (0, ?rb1)")
    using put_cases [OF assms(1), of a] assms(2) by simp
  note w1 = put_wf [OF assms(1) p1]
  have "ring_buffer_put_elem b ?rb1 =
     Some (0, ?rb1\<lparr>rb_buffer := (rb_buffer ?rb1)[unat (cur_ptr rb) := b], rb_len := rb_len ?rb1 + 1\<rparr>)" (is "_ = Some (0, ?rb2)")
    using put_cases [OF w1(1), of b] assms(2) w1(2,4) by auto
  then have p2: "ring_buffer_put_elem b ?rb1 = Some (0, ?rb2)" .
  have "unat (rb_len ?rb2) \<noteq> 0" using put_wf(4) [OF w1(1) p2] by simp
  then have ne: "rb_len ?rb2 \<noteq> 0" by (metis unat_0)
  have "ring_buffer_get_elem True ?rb2 = Some (0, Some b, ?rb2\<lparr>cur_ptr :=
      of_nat ((unat (cur_ptr rb) + 1) mod unat (buffer_size rb)), rb_len := rb_len ?rb2 - 1\<rparr>)"
    unfolding get_cases [OF put_wf(1) [OF w1(1) p2]] using ne rb_wfD(1,2) [OF assms(1)] by simp
  then show ?thesis using p1 p2 by blast
qed

theorem ring_buffer_overwrites_witness:
  "\<exists>rb1 rb2 rb3. ring_buffer_put_elem 1 (fresh 4) = Some (0, rb1) \<and> ring_buffer_put_elem 2 rb1 = Some (0, rb2) \<and>
     ring_buffer_get_elem True rb2 = Some (0, Some 2, rb3)"
  using ring_buffer_overwrites [of "fresh 4" 1 2] by (auto simp: fresh_def rb_wf_def)

end
