(* ===== verification/Cstring.thy ===== *)
theory Cstring
  imports Xis_Prelude
begin

text \<open>
  The string routines of \<^verbatim>\<open>util.c\<close>: \<^verbatim>\<open>strlen\<close>, \<^verbatim>\<open>strncmp\<close>, \<^verbatim>\<open>_itoa\<close>, \<^verbatim>\<open>_lltoa\<close> and
  \<^verbatim>\<open>ptrtoa\<close>. Memory is a byte list, a \<^verbatim>\<open>char *\<close> an index into it, and an access outside the
  list is \<^const>\<open>None\<close>; \<^verbatim>\<open>char\<close> is signed on this target, so characters compare by
  their signed value.
\<close>

definition bytes_of :: "string \<Rightarrow> u8 list" where
  "bytes_of s = map of_char s"

definition string_of :: "u8 list \<Rightarrow> string" where
  "string_of bs = map (\<lambda>b. char_of (unat b)) bs"

section \<open>strlen and strncmp\<close>

function strlen_loop :: "u8 list \<Rightarrow> nat \<Rightarrow> nat \<Rightarrow> nat option" where
  "strlen_loop mem p len =
     (case aget mem p of
        None \<Rightarrow> None
      | Some c \<Rightarrow> if c \<noteq> 0 then strlen_loop mem (p + 1) (len + 1) else Some len)"
  by pat_completeness auto
termination by (relation "measure (\<lambda>(mem, p, _). length mem - p)") (auto simp: aget_eq_Some)

declare strlen_loop.simps [simp del]

definition strlen :: "u8 list \<Rightarrow> nat \<Rightarrow> nat option" where
  "strlen mem p = strlen_loop mem p 0"

fun strncmp :: "u8 list \<Rightarrow> nat \<Rightarrow> nat \<Rightarrow> nat \<Rightarrow> int option" where
  "strncmp mem s1 s2 0 = Some 0"
| "strncmp mem s1 s2 (Suc n) =
     do { a \<leftarrow> aget mem s1; b \<leftarrow> aget mem s2;
          if sint a < sint b then Some (-1)
          else if sint a > sint b then Some 1
          else strncmp mem (s1 + 1) (s2 + 1) n }"

section \<open>_itoa\<close>

definition digit_byte :: "u32 \<Rightarrow> u32 \<Rightarrow> u8" where
  "digit_byte base rem =
     (if base = 10 then ucast (rem + 48)
      else if rem < 10 then ucast (rem + 48) else ucast (rem - 10 + 65))"

text \<open>The \<^verbatim>\<open>do ... while\<close> loop: the digits, least significant first.\<close>

function itoa_digits :: "u32 \<Rightarrow> u32 \<Rightarrow> nat \<Rightarrow> u8 list \<Rightarrow> (nat \<times> u8 list) option" where
  "itoa_digits base value p buf =
     (case aput buf p (digit_byte base (value mod base)) of
        None \<Rightarrow> None
      | Some buf' \<Rightarrow>
          if value div base \<noteq> 0 then itoa_digits base (value div base) (p + 1) buf'
          else Some (p + 1, buf'))"
  by pat_completeness auto
termination by (relation "measure (\<lambda>(_, _, p, buf). length buf - p)") (auto simp: aput_eq_Some)

declare itoa_digits.simps [simp del]

text \<open>The swap loop.\<close>

function itoa_reverse :: "nat \<Rightarrow> nat \<Rightarrow> u8 list \<Rightarrow> u8 list option" where
  "itoa_reverse str p buf =
     (if p > str then do {
        temp \<leftarrow> aget buf p;
        c \<leftarrow> aget buf str;
        buf \<leftarrow> aput buf p c;
        buf \<leftarrow> aput buf str temp;
        itoa_reverse (str + 1) (p - 1) buf
      } else Some buf)"
  by pat_completeness auto
termination by (relation "measure (\<lambda>(str, p, _). p - str)") auto

declare itoa_reverse.simps [simp del]

definition itoa_gen :: "u32 \<Rightarrow> nat \<Rightarrow> u32 \<Rightarrow> bool \<Rightarrow> u8 list \<Rightarrow> u8 list option" where
  "itoa_gen val str base not_signed buf =
     (if \<not> (base = 10 \<or> base = 16) then Some buf
      else do {
        (value, str, buf) \<leftarrow>
          (if base \<noteq> 16 \<and> \<not> not_signed \<and> sint val < 0
           then do { buf \<leftarrow> aput buf str 45; Some (- val, str + 1, buf) }
           else Some (val, str, buf));
        (p, buf) \<leftarrow> itoa_digits base value str buf;
        buf \<leftarrow> aput buf p 0;
        itoa_reverse str (p - 1) buf
      })"

section \<open>Strings in memory\<close>

definition cstr :: "u8 list \<Rightarrow> nat \<Rightarrow> u8 list \<Rightarrow> bool" where
  "cstr mem p s \<longleftrightarrow> 0 \<notin> set s \<and> (\<exists>pre post. mem = pre @ s @ 0 # post \<and> length pre = p)"

lemma cstrI: "0 \<notin> set s \<Longrightarrow> length pre = p \<Longrightarrow> cstr (pre @ s @ 0 # post) p s"
  by (auto simp: cstr_def)

lemma strlen_loop_cstr:
  "0 \<notin> set s \<Longrightarrow> strlen_loop (pre @ s @ 0 # post) (length pre) n = Some (n + length s)"
proof (induction s arbitrary: pre n)
  case Nil
  then show ?case by (subst strlen_loop.simps) simp
next
  case (Cons c s)
  have "strlen_loop ((pre @ [c]) @ s @ 0 # post) (length (pre @ [c])) (n + 1) = Some (n + 1 + length s)"
    using Cons.prems by (intro Cons.IH) simp
  then show ?case using Cons.prems by (subst strlen_loop.simps) simp
qed

lemma strlen_cstr: "cstr mem p s \<Longrightarrow> strlen mem p = Some (length s)"
  using strlen_loop_cstr by (auto simp: cstr_def strlen_def)

section \<open>Digits\<close>

text \<open>Digits of a number, least significant first, and the number they stand for.\<close>

function lsd :: "nat \<Rightarrow> nat \<Rightarrow> nat list" where
  "lsd b n = n mod b # (if n div b = 0 \<or> b < 2 then [] else lsd b (n div b))"
  by pat_completeness auto
termination
proof (relation "measure snd")
  fix b n :: nat
  assume "\<not> (n div b = 0 \<or> b < 2)"
  then have "1 < b" "0 < n" by (auto intro: gr0I)
  then show "((b, n div b), b, n) \<in> measure snd" by simp
qed simp

declare lsd.simps [simp del]

definition digit_char :: "nat \<Rightarrow> u8" where
  "digit_char d = (if d < 10 then of_nat (d + 48) else of_nat (d - 10 + 65))"

definition char_digit :: "u8 \<Rightarrow> nat" where
  "char_digit c = (if c < 58 then unat c - 48 else unat c - 65 + 10)"

definition text_of :: "nat \<Rightarrow> nat \<Rightarrow> u8 list" where
  "text_of b n = rev (map digit_char (lsd b n))"

definition read_text :: "nat \<Rightarrow> u8 list \<Rightarrow> nat" where
  "read_text b s = foldl (\<lambda>a c. a * b + char_digit c) 0 s"

lemma lsd_digits: "2 \<le> b \<Longrightarrow> d \<in> set (lsd b n) \<Longrightarrow> d < b"
proof (induction b n rule: lsd.induct)
  case (1 b n)
  then show ?case using lsd.simps [of b n] by (auto split: if_splits)
qed

lemma length_lsd: "2 \<le> b \<Longrightarrow> n < b ^ k \<Longrightarrow> 0 < k \<Longrightarrow> length (lsd b n) \<le> k"
proof (induction k arbitrary: n)
  case (Suc k)
  show ?case
  proof (cases "n div b = 0")
    case True
    then show ?thesis by (simp add: lsd.simps [of b n])
  next
    case False
    have "n div b < b ^ k" using Suc.prems by (simp add: less_mult_imp_div_less mult.commute)
    moreover have "0 < k" using False calculation by (cases k) auto
    ultimately show ?thesis using Suc.IH [of "n div b"] Suc.prems(1) by (simp add: lsd.simps [of b n])
  qed
qed simp

lemma char_digit_char [simp]: "d < 16 \<Longrightarrow> char_digit (digit_char d) = d"
proof -
  assume "d < 16"
  then have "d \<in> set [0..<16]" by simp
  then show ?thesis by (simp add: upt_rec digit_char_def char_digit_def) (elim disjE; simp)
qed

lemma digit_char_nonzero [simp]: "d < 16 \<Longrightarrow> digit_char d \<noteq> 0"
proof -
  assume "d < 16"
  then have "d \<in> set [0..<16]" by simp
  then show ?thesis by (simp add: upt_rec digit_char_def) (elim disjE; simp)
qed

lemma read_text_of:
  assumes "2 \<le> b" "b \<le> 16"
  shows "read_text b (text_of b n) = n"
proof -
  have "foldr (\<lambda>d a. a * b + char_digit (digit_char d)) (lsd b n) 0 = n"
    using assms
  proof (induction b n rule: lsd.induct)
    case (1 b n)
    have "n mod b < 16" using 1(2,3) mod_less_divisor [of b n] by linarith
    then show ?case
      using 1 div_mult_mod_eq [of n b] by (cases "n div b = 0") (simp_all add: lsd.simps [of b n])
  qed
  then show ?thesis by (simp add: read_text_def text_of_def foldl_conv_foldr rev_map foldr_map comp_def)
qed

section \<open>What _itoa writes\<close>

lemma aput_append [simp]: "length pre = p \<Longrightarrow> aput (pre @ x # post) p y = Some (pre @ y # post)"
  by auto

lemma aget_append [simp]: "length pre = p \<Longrightarrow> aget (pre @ x # post) p = Some x"
  by auto

lemma ucast_of_nat: "(ucast (of_nat n :: u32) :: u8) = of_nat n"
  by (rule bit_word_eqI) (simp add: bit_simps)

lemma digit_byte_nat:
  assumes "base = 10 \<or> base = 16"
  shows "digit_byte base (value mod base) = digit_char (unat value mod unat base)"
proof -
  define r where "r = value mod base"
  have u: "unat r = unat value mod unat base" unfolding r_def by (rule unat_mod)
  define k where "k = unat r"
  have r: "r = of_nat k" by (simp add: k_def)
  have "unat value mod unat base < unat base" using assms by auto
  then have k: "k < 16" "base = 10 \<longrightarrow> k < 10" using assms u by (auto simp: k_def)
  have lt: "(of_nat k :: u32) < 10 \<longleftrightarrow> k < 10"
    using k(1) by (simp add: word_less_nat_alt unat_of_nat)
  have "k < 10 \<Longrightarrow> digit_byte base (of_nat k) = digit_char k"
    using ucast_of_nat [of "k + 48"] lt by (auto simp: digit_byte_def digit_char_def)
  moreover have "\<not> k < 10 \<Longrightarrow> digit_byte base (of_nat k) = digit_char k"
    using ucast_of_nat [of "k - 10 + 65"] lt k(2) by (auto simp: digit_byte_def digit_char_def of_nat_diff)
  ultimately have "digit_byte base (of_nat k) = digit_char k" by blast
  then have "digit_byte base r = digit_char (unat r)" by (simp only: r [symmetric] k_def [symmetric])
  then show ?thesis unfolding u [symmetric] by (simp only: r_def)
qed

lemma itoa_digits_text:
  assumes "base = 10 \<or> base = 16"
  shows "length xs = length (lsd (unat base) (unat v)) \<Longrightarrow>
    itoa_digits base v (length pre) (pre @ xs @ post) =
      Some (length pre + length xs, pre @ map digit_char (lsd (unat base) (unat v)) @ post)"
proof (induction "unat v" arbitrary: v pre xs rule: less_induct)
  case less
  have b: "2 \<le> unat base" using assms by auto
  obtain x ys where xs: "xs = x # ys" using less.prems by (cases xs) (simp_all add: lsd.simps [of "unat base" "unat v"])
  have d: "unat (v div base) = unat v div unat base" by (rule unat_div)
  show ?case
  proof (cases "v div base = 0")
    case True
    then have "unat v div unat base = 0" using d by (metis unat_0)
    then show ?thesis
      using True less.prems xs
      by (subst itoa_digits.simps) (simp add: digit_byte_nat [OF assms] lsd.simps [of "unat base" "unat v"])
  next
    case False
    then have nz: "unat v div unat base \<noteq> 0" using d by (metis unat_eq_zero)
    then have "unat v \<noteq> 0" by (intro notI) simp
    then have lt: "unat (v div base) < unat v" unfolding d using b by (intro div_less_dividend) simp_all
    have l: "lsd (unat base) (unat v) = unat v mod unat base # lsd (unat base) (unat (v div base))"
      using nz b unfolding d by (subst lsd.simps) simp
    have "itoa_digits base (v div base) (length (pre @ [digit_char (unat v mod unat base)]))
        ((pre @ [digit_char (unat v mod unat base)]) @ ys @ post) =
      Some (length (pre @ [digit_char (unat v mod unat base)]) + length ys,
        (pre @ [digit_char (unat v mod unat base)]) @ map digit_char (lsd (unat base) (unat (v div base))) @ post)"
      using less.prems xs l by (intro less.hyps [OF lt]) simp
    then show ?thesis
      using False xs l by (subst itoa_digits.simps) (simp add: digit_byte_nat [OF assms])
  qed
qed

lemma itoa_reverse_rev:
  "length pre = str \<Longrightarrow> itoa_reverse str (str + length xs - 1) (pre @ xs @ post) = Some (pre @ rev xs @ post)"
proof (induction "length xs" arbitrary: str pre xs post rule: less_induct)
  case less
  show ?case
  proof (cases "length xs < 2")
    case True
    then have "xs = [] \<or> (\<exists>x. xs = [x])" by (cases xs) auto
    then show ?thesis by (subst itoa_reverse.simps) auto
  next
    case False
    then obtain a ys b where xs: "xs = a # ys @ [b]"
      by (metis append_butlast_last_id length_0_conv length_Cons less_2_cases_iff list.exhaust)
    have ih: "itoa_reverse (Suc str) (Suc str + length ys - 1) ((pre @ [b]) @ ys @ (a # post)) =
        Some ((pre @ [b]) @ rev ys @ (a # post))"
      using less.prems xs by (intro less.hyps) simp_all
    have g: "aget (pre @ a # ys @ b # post) (Suc (str + length ys)) = Some b"
      "aput (pre @ a # ys @ b # post) (Suc (str + length ys)) a = Some (pre @ a # ys @ a # post)"
      using aget_append [of "pre @ a # ys" "Suc (str + length ys)" b post]
        aput_append [of "pre @ a # ys" "Suc (str + length ys)" b post a] less.prems by simp_all
    have "str = length pre" using less.prems by simp
    then show ?thesis
      using ih g xs by (subst itoa_reverse.simps) (simp add: nth_append list_update_append)
  qed
qed

text \<open>The text of a value: hexadecimal is unsigned, decimal is signed unless told otherwise.\<close>

definition itoa_text :: "u32 \<Rightarrow> u32 \<Rightarrow> bool \<Rightarrow> u8 list" where
  "itoa_text val base not_signed =
     (if base \<noteq> 16 \<and> \<not> not_signed \<and> sint val < 0
      then 45 # text_of (unat base) (unat (- val))
      else text_of (unat base) (unat val))"

lemma length_text_of [simp]: "length (text_of b n) = length (lsd b n)"
  by (simp add: text_of_def)

lemma itoa_tail:
  assumes "base = 10 \<or> base = 16" and "length xs = Suc (length (text_of (unat base) (unat value)))"
  shows "do { (p, buf) \<leftarrow> itoa_digits base value (length pre) (pre @ xs @ post);
              buf \<leftarrow> aput buf p 0; itoa_reverse (length pre) (p - 1) buf } =
    Some (pre @ text_of (unat base) (unat value) @ 0 # post)"
proof -
  obtain ys y where xs: "xs = ys @ [y]" using assms(2) by (cases xs rule: rev_cases) auto
  let ?ds = "map digit_char (lsd (unat base) (unat value))"
  have d: "itoa_digits base value (length pre) (pre @ ys @ (y # post)) =
      Some (length pre + length ys, pre @ ?ds @ y # post)"
    using assms xs by (intro itoa_digits_text) simp_all
  have "aput (pre @ ?ds @ y # post) (length pre + length ys) 0 = Some (pre @ ?ds @ 0 # post)"
    using aput_append [of "pre @ ?ds" "length pre + length ys" y post 0] assms(2) xs by simp
  moreover have "itoa_reverse (length pre) (length pre + length ?ds - 1) (pre @ ?ds @ 0 # post) =
      Some (pre @ rev ?ds @ 0 # post)"
    by (rule itoa_reverse_rev) simp
  ultimately show ?thesis using d xs assms(2) by (simp add: text_of_def)
qed

lemma itoa_gen_text:
  assumes b: "base = 10 \<or> base = 16" and xs: "length xs = Suc (length (itoa_text val base ns))"
  shows "itoa_gen val (length pre) base ns (pre @ xs @ post) = Some (pre @ itoa_text val base ns @ 0 # post)"
proof (cases "base \<noteq> 16 \<and> \<not> ns \<and> sint val < 0")
  case True
  obtain y ys where ys: "xs = y # ys" using xs by (cases xs) auto
  have "do { (p, buf) \<leftarrow> itoa_digits base (- val) (length (pre @ [45])) ((pre @ [45]) @ ys @ post);
              buf \<leftarrow> aput buf p 0; itoa_reverse (length (pre @ [45])) (p - 1) buf } =
    Some ((pre @ [45]) @ text_of (unat base) (unat (- val)) @ 0 # post)"
    using xs ys True by (intro itoa_tail [OF b]) (simp add: itoa_text_def)
  then show ?thesis using True b ys by (simp add: itoa_gen_def itoa_text_def)
next
  case False
  then show ?thesis
    using itoa_tail [OF b, of xs val pre post] xs b
    unfolding itoa_gen_def itoa_text_def if_not_P [OF False] by simp
qed

lemma nonzero_text: "2 \<le> b \<Longrightarrow> b \<le> 16 \<Longrightarrow> 0 \<notin> set (text_of b n)"
  using lsd_digits [of b _ n] by (fastforce simp: text_of_def dest: digit_char_nonzero)

section \<open>_lltoa and ptrtoa\<close>

text \<open>
  The two padding loops: \<open>shift_right tmp p len\<close> is \<^verbatim>\<open>while(len--) *tmp-- = *p--\<close>
  and \<open>zero_fill p len\<close> is \<^verbatim>\<open>while(len--) *p++ = '0'\<close>; both return the final pointers.
  A pointer that is decremented below the buffer is an \<open>int\<close>.
\<close>

fun shift_right :: "int \<Rightarrow> int \<Rightarrow> nat \<Rightarrow> u8 list \<Rightarrow> (int \<times> int \<times> u8 list) option" where
  "shift_right tmp p 0 buf = Some (tmp, p, buf)"
| "shift_right tmp p (Suc len) buf =
     (if p < 0 \<or> tmp < 0 then None
      else do { c \<leftarrow> aget buf (nat p); buf \<leftarrow> aput buf (nat tmp) c; shift_right (tmp - 1) (p - 1) len buf })"

fun zero_fill :: "int \<Rightarrow> nat \<Rightarrow> u8 list \<Rightarrow> u8 list option" where
  "zero_fill p 0 buf = Some buf"
| "zero_fill p (Suc len) buf =
     (if p < 0 then None else do { buf \<leftarrow> aput buf (nat p) 48; zero_fill (p + 1) len buf })"

text \<open>
  The block that appears three times: move the \<open>len\<close> characters at \<open>p\<close> to the end of a
  field of \<open>n\<close> and fill the front with zeros (a negative count would not stop).
\<close>

definition pad_field :: "nat \<Rightarrow> nat \<Rightarrow> nat \<Rightarrow> u8 list \<Rightarrow> u8 list option" where
  "pad_field n p len buf =
     do {
       let tmp = int p + int n - 1;
       let p' = int p + int len - 1;
       buf \<leftarrow> aput buf (nat (tmp + 1)) 0;
       (tmp, p', buf) \<leftarrow> shift_right tmp p' len buf;
       l \<leftarrow> strlen buf (nat (tmp + 1));
       if l \<le> n then zero_fill (p' + 1) (n - l) buf else None
     }"

text \<open>The 64-bit value is printed as two 32-bit values; the lower one is padded to eight digits.\<close>

definition lltoa_halves :: "u64 \<Rightarrow> nat \<Rightarrow> u32 \<Rightarrow> u8 list \<Rightarrow> u8 list option" where
  "lltoa_halves value p base buf =
     (let upper_dword = (ucast (drop_bit 32 value) :: u32)
      in do {
        (p, buf) \<leftarrow>
          (if upper_dword \<noteq> 0
           then do { buf \<leftarrow> itoa_gen upper_dword p base True buf; l \<leftarrow> strlen buf p; Some (p + l, buf) }
           else Some (p, buf));
        buf \<leftarrow> itoa_gen (ucast value) p base True buf;
        len \<leftarrow> strlen buf p;
        if upper_dword \<noteq> 0 \<and> len \<noteq> 8 then pad_field 8 p len buf else Some buf
      })"

text \<open>\<open>config_64\<close> is the build option \<^verbatim>\<open>CONFIG_64\<close>.\<close>

definition lltoa_gen :: "bool \<Rightarrow> u64 \<Rightarrow> nat \<Rightarrow> u32 \<Rightarrow> bool \<Rightarrow> u8 list \<Rightarrow> u8 list option" where
  "lltoa_gen config_64 value str base maxfill buf =
     (if \<not> (base = 10 \<or> base = 16) then Some buf
      else if \<not> config_64 \<and> base = 10 then Some buf
      else do {
        (value, p, str, buf) \<leftarrow>
          (if base \<noteq> 16 \<and> sint value < 0
           then do { buf \<leftarrow> aput buf str 45; Some (- value, str + 1, str + 1, buf) }
           else Some (value, str, str, buf));
        buf \<leftarrow> lltoa_halves value p base buf;
        if maxfill \<and> base = 16
        then do {
          len \<leftarrow> strlen buf str;
          if len < 16 then pad_field 16 str len buf else Some buf
        }
        else Some buf
      })"

text \<open>On the 32-bit build \<^verbatim>\<open>sizeof(long) * 2\<close> is 8.\<close>

definition ptrtoa :: "u32 \<Rightarrow> nat \<Rightarrow> u8 list \<Rightarrow> u8 list option" where
  "ptrtoa val str buf =
     do {
       buf \<leftarrow> itoa_gen val str 16 True buf;
       len \<leftarrow> strlen buf str;
       if len < 8 then pad_field 8 str len buf else Some buf
     }"

lemma shift_right_moves:
  "length s = len \<Longrightarrow> length pre = p \<Longrightarrow> length xs = k \<Longrightarrow>
   \<exists>ys. shift_right (int (p + len + k) - 1) (int (p + len) - 1) len (pre @ s @ xs @ post) =
     Some (int (p + k) - 1, int p - 1, pre @ ys @ s @ post) \<and> length ys = k"
proof (induction s arbitrary: len xs post rule: rev_induct)
  case Nil
  then show ?case by auto
next
  case (snoc c s)
  let ?xs = "c # xs"
  obtain ys y where ys: "?xs = ys @ [y]" by (metis list.distinct(1) rev_exhaust)
  have len: "len = Suc (length s)" using snoc.prems(1) by simp
  have l: "length ys = k" using arg_cong [OF ys, of length] snoc.prems(3) by simp
  have g: "aget (pre @ (s @ [c]) @ xs @ post) (p + length s) = Some c"
    using aget_append [of "pre @ s" "p + length s" c "xs @ post"] snoc.prems(2) by simp
  have "aput (pre @ s @ ?xs @ post) (p + length s + k) c = Some (pre @ s @ ys @ c # post)"
    using aput_append [of "pre @ s @ ys" "p + length s + k" y post c] snoc.prems(2) l unfolding ys by simp
  moreover obtain zs where zs: "shift_right (int (p + length s + k) - 1) (int (p + length s) - 1) (length s) (pre @ s @ ys @ (c # post)) =
     Some (int (p + k) - 1, int p - 1, pre @ zs @ s @ (c # post))" "length zs = k"
    using snoc.IH [OF refl snoc.prems(2) l, of "c # post"] by blast
  ultimately have "shift_right (int (p + len + k) - 1) (int (p + len) - 1) len (pre @ (s @ [c]) @ xs @ post) =
     Some (int (p + k) - 1, int p - 1, pre @ zs @ (s @ [c]) @ post)"
    using g by (simp add: len nat_add_distrib algebra_simps)
  then show ?case using zs(2) by blast
qed

lemma zero_fill_zeros:
  "length pre = p \<Longrightarrow> length xs = n \<Longrightarrow> zero_fill (int p) n (pre @ xs @ post) = Some (pre @ replicate n 48 @ post)"
proof (induction n arbitrary: p pre xs)
  case (Suc n)
  then obtain x ys where xs: "xs = x # ys" by (cases xs) auto
  have "zero_fill (int (Suc p)) n ((pre @ [48]) @ ys @ post) = Some ((pre @ [48]) @ replicate n 48 @ post)"
    using Suc.prems xs by (intro Suc.IH) simp_all
  then show ?case using Suc.prems xs by (simp add: add.commute list_update_append)
qed simp

lemma pad_field_text:
  assumes "0 \<notin> set s" and "length s \<le> n" and "length pre = p" and "length (s @ xs) = Suc n"
  shows "pad_field n p (length s) (pre @ s @ xs @ post) =
     Some (pre @ replicate (n - length s) 48 @ s @ 0 # post)"
proof -
  obtain ys y where xs: "xs = ys @ [y]" using assms(2,4) by (cases xs rule: rev_cases) auto
  have k: "length ys = n - length s" using assms(4) xs by simp
  have n: "int (p + length s + (n - length s)) = int p + int n" "int (p + (n - length s)) = int p + int n - int (length s)"
    using assms(2) by simp_all
  have a: "aput (pre @ s @ xs @ post) (p + n) 0 = Some (pre @ s @ ys @ 0 # post)"
    using aput_append [of "pre @ s @ ys" "p + n" y post 0] assms xs k by simp
  obtain zs where zs: "shift_right (int p + int n - 1) (int (p + length s) - 1) (length s) (pre @ s @ ys @ 0 # post) =
     Some (int (p + (n - length s)) - 1, int p - 1, pre @ zs @ s @ 0 # post)" "length zs = n - length s"
    using shift_right_moves [OF refl assms(3) k, of s "0 # post"] unfolding n(1) by blast
  have sl: "strlen (pre @ zs @ s @ 0 # post) (p + (n - length s)) = Some (length s)"
    using strlen_cstr [OF cstrI [of s "pre @ zs" "p + (n - length s)" post]] assms(1,3) zs(2) by simp
  have "zero_fill (int p) (n - length s) (pre @ zs @ (s @ 0 # post)) =
     Some (pre @ replicate (n - length s) 48 @ (s @ 0 # post))"
    by (rule zero_fill_zeros [OF assms(3) zs(2)])
  moreover have "nat (int p + int n) = p + n" "nat (1 + (int (p + (n - length s)) - 1)) = p + (n - length s)" by simp_all
  ultimately show ?thesis using a zs(1) sl assms(2) by (simp add: pad_field_def add.commute)
qed

lemma length_text:
  "length (text_of 16 (unat (v :: u32))) \<le> 8" "length (text_of 10 (unat (v :: u32))) \<le> 10"
proof -
  have "unat v < 2 ^ 32" using unsigned_less [of v] by simp
  then have "unat v < 16 ^ 8" "unat v < 10 ^ 10" by simp_all
  then show "length (text_of 16 (unat v)) \<le> 8" "length (text_of 10 (unat v)) \<le> 10"
    using length_lsd [of 16 "unat v" 8] length_lsd [of 10 "unat v" 10] by simp_all
qed

lemma itoa_gen_hex:
  assumes "length xs = Suc (length (text_of 16 (unat val)))" and "length pre = p"
  shows "itoa_gen val p 16 ns (pre @ xs @ post) = Some (pre @ text_of 16 (unat val) @ 0 # post)"
  using itoa_gen_text [of 16 xs val ns pre post] assms by (simp add: itoa_text_def)

text \<open>A hexadecimal field of fixed width, as the padding leaves it.\<close>

definition hex_field :: "nat \<Rightarrow> nat \<Rightarrow> u8 list" where
  "hex_field n v = replicate (n - length (text_of 16 v)) 48 @ text_of 16 v"

lemma ptrtoa_text:
  assumes "length pre = p" and "length xs = 9"
  shows "ptrtoa val p (pre @ xs @ post) = Some (pre @ hex_field 8 (unat val) @ 0 # post)"
proof -
  let ?t = "text_of 16 (unat val)"
  have l: "length ?t \<le> 8" by (rule length_text)
  define ys zs where "ys = take (Suc (length ?t)) xs" and "zs = drop (Suc (length ?t)) xs"
  have xs: "xs = ys @ zs" "length ys = Suc (length ?t)" using assms(2) l by (simp_all add: ys_def zs_def)
  have i: "itoa_gen val p 16 True (pre @ xs @ post) = Some (pre @ ?t @ (0 # zs) @ post)"
    using itoa_gen_hex [OF xs(2) assms(1), of True "zs @ post"] xs(1) by simp
  have s: "strlen (pre @ ?t @ (0 # zs) @ post) p = Some (length ?t)"
    using strlen_cstr [OF cstrI [OF nonzero_text [of 16 "unat val"] assms(1), of "zs @ post"]] by simp
  have z: "length (?t @ (0 # zs)) = Suc 8" using xs assms(2) by simp
  show ?thesis
  proof (cases "length ?t < 8")
    case True
    then show ?thesis
      using i s pad_field_text [OF nonzero_text l assms(1) z, of post] by (simp add: ptrtoa_def hex_field_def)
  next
    case False
    then have "length ?t = 8" "zs = []" using l z by simp_all
    then show ?thesis using i s by (simp add: ptrtoa_def hex_field_def)
  qed
qed

text \<open>The text of a 64-bit value is the text of its upper half and the lower half as a field of eight.\<close>

fun digs :: "nat \<Rightarrow> nat \<Rightarrow> nat \<Rightarrow> nat list" where
  "digs b 0 n = []"
| "digs b (Suc k) n = n mod b # digs b k (n div b)"

lemma digs_0: "digs b k 0 = replicate k 0"
  by (induction k) simp_all

lemma lsd_split: "2 \<le> b \<Longrightarrow> n div b ^ k \<noteq> 0 \<Longrightarrow> lsd b n = digs b k n @ lsd b (n div b ^ k)"
proof (induction k arbitrary: n)
  case (Suc k)
  have d: "n div b div b ^ k = n div b ^ Suc k" by (simp add: div_mult2_eq)
  then have "n div b \<noteq> 0" using Suc.prems(2) by (metis div_0)
  then show ?case using Suc d by (subst lsd.simps) simp
qed simp

lemma digs_lsd: "2 \<le> b \<Longrightarrow> n < b ^ k \<Longrightarrow> 0 < k \<Longrightarrow> digs b k n = lsd b n @ replicate (k - length (lsd b n)) 0"
proof (induction k arbitrary: n)
  case (Suc k)
  show ?case
  proof (cases "n div b = 0")
    case True
    then show ?thesis by (simp add: lsd.simps [of b n] digs_0)
  next
    case False
    have "n div b < b ^ k" using Suc.prems by (simp add: less_mult_imp_div_less mult.commute)
    moreover have "0 < k" using False calculation by (cases k) auto
    ultimately show ?thesis using Suc.IH [of "n div b"] Suc.prems(1) False by (simp add: lsd.simps [of b n])
  qed
qed simp

lemma digs_mod: "0 < b \<Longrightarrow> digs b k (n mod b ^ k) = digs b k n"
proof (induction k arbitrary: n)
  case (Suc k)
  have "n mod b ^ Suc k mod b = n mod b" by (simp add: mod_mod_cancel)
  moreover have "n mod b ^ Suc k div b = n div b mod b ^ k"
    using Suc.prems by (simp add: mod_mult2_eq)
  ultimately show ?case using Suc by simp
qed simp

lemma hex_field_digs:
  "n < 16 ^ k \<Longrightarrow> 0 < k \<Longrightarrow> hex_field k n = rev (map digit_char (digs 16 k n))"
  by (simp add: hex_field_def text_of_def digs_lsd) (simp add: digit_char_def)

lemma text_halves:
  assumes "n div 2 ^ 32 \<noteq> 0"
  shows "text_of 16 n = text_of 16 (n div 2 ^ 32) @ hex_field 8 (n mod 2 ^ 32)"
proof -
  have "lsd 16 n = digs 16 8 n @ lsd 16 (n div 16 ^ 8)" using assms by (intro lsd_split) simp_all
  moreover have "hex_field 8 (n mod 16 ^ 8) = rev (map digit_char (digs 16 8 (n mod 16 ^ 8)))"
    by (rule hex_field_digs) simp_all
  ultimately show ?thesis using digs_mod [of 16 8 n] by (simp add: text_of_def)
qed

lemma split_at: "n \<le> length xs \<Longrightarrow> \<exists>ys zs. xs = ys @ zs \<and> length ys = n"
  by (intro exI [of _ "take n xs"] exI [of _ "drop n xs"]) simp

lemma halves_unat:
  fixes v :: u64
  shows "unat (ucast (drop_bit 32 v) :: u32) = unat v div 2 ^ 32" "unat (ucast v :: u32) = unat v mod 2 ^ 32"
proof -
  have "unat v < 2 ^ 64" using unsigned_less [of v] by simp
  then have "unat v div 2 ^ 32 < 2 ^ 32" by (simp add: less_mult_imp_div_less)
  moreover have "unat (drop_bit 32 v) = unat v div 2 ^ 32"
    by (simp only: unat_drop_bit_eq drop_bit_eq_div [where 'a = nat])
  ultimately show "unat (ucast (drop_bit 32 v) :: u32) = unat v div 2 ^ 32" "unat (ucast v :: u32) = unat v mod 2 ^ 32"
    by (simp_all add: unsigned_ucast_eq take_bit_eq_mod)
qed

lemma length_text64: "length (text_of 16 (unat (v :: u64))) \<le> 16"
proof -
  have "unat v < 16 ^ 16" using unsigned_less [of v] by simp
  then show ?thesis using length_lsd [of 16 "unat v" 16] by simp
qed

lemma lltoa_halves_text:
  assumes p: "length pre = p" and xs: "length xs = 17"
  shows "\<exists>zs. lltoa_halves v p 16 (pre @ xs @ post) = Some (pre @ text_of 16 (unat v) @ 0 # zs @ post) \<and>
     length (text_of 16 (unat v)) + length zs = 16"
proof -
  define up where "up = (ucast (drop_bit 32 v) :: u32)"
  let ?lo = "text_of 16 (unat (ucast v :: u32))" and ?up = "text_of 16 (unat up)"
  have lo8: "length ?lo \<le> 8" and up8: "length ?up \<le> 8" by (rule length_text)+
  have up: "unat up = unat v div 2 ^ 32" unfolding up_def by (rule halves_unat)
  note lo = halves_unat(2) [of v] and run = lltoa_halves_def [of v p 16, folded up_def]
  show ?thesis
  proof (cases "up = 0")
    case True
    then have "unat v div 2 ^ 32 = 0" using up by simp
    then have T: "?lo = text_of 16 (unat v)" using div_mult_mod_eq [of "unat v" "2 ^ 32"] lo by simp
    obtain ys zs where ys: "xs = ys @ zs" "length ys = Suc (length ?lo)"
      using split_at [of "Suc (length ?lo)" xs] lo8 xs by auto
    show ?thesis
      using True T ys xs itoa_gen_hex [OF ys(2) p, of True "zs @ post"]
        strlen_cstr [OF cstrI [OF nonzero_text p, of 16 "unat v" "zs @ post"]]
      by (intro exI [of _ zs]) (simp add: run)
  next
    case False
    then have nz: "unat v div 2 ^ 32 \<noteq> 0" using up by (metis unat_eq_zero)
    have T: "text_of 16 (unat v) = ?up @ hex_field 8 (unat (ucast v :: u32))"
      using text_halves [OF nz] up lo by simp
    obtain ys ws where ys: "xs = ys @ ws" "length ys = Suc (length ?up)"
      using split_at [of "Suc (length ?up)" xs] up8 xs by auto
    have w: "length (0 # ws) = 17 - length ?up" using ys xs by simp
    then have "9 \<le> length (0 # ws)" using up8 by linarith
    then obtain ws1 zs where ws1: "0 # ws = ws1 @ zs" "length ws1 = 9" using split_at by blast
    obtain cs ds where cs: "ws1 = cs @ ds" "length cs = Suc (length ?lo)"
      using split_at [of "Suc (length ?lo)" ws1] ws1(2) lo8 by auto
    have z: "length zs + length ?up = 8" using w arg_cong [OF ws1(1), of length] ws1(2) up8 by simp
    have p2: "length (pre @ ?up) = p + length ?up" using p by simp
    have eq: "0 # ws @ post = cs @ ds @ zs @ post" using ws1(1) cs(1) by (metis append_Cons append_assoc)
    have a: "itoa_gen up p 16 True (pre @ xs @ post) = Some ((pre @ ?up) @ cs @ (ds @ zs @ post))"
      using itoa_gen_hex [OF ys(2) p, of True "ws @ post"] ys(1) eq by simp
    have b: "strlen ((pre @ ?up) @ cs @ (ds @ zs @ post)) p = Some (length ?up)"
      using strlen_cstr [OF cstrI [OF nonzero_text p, of 16 "unat up" "ws @ post"]] eq by simp
    have c: "itoa_gen (ucast v) (p + length ?up) 16 True ((pre @ ?up) @ cs @ (ds @ zs @ post)) =
       Some ((pre @ ?up) @ ?lo @ (0 # ds) @ (zs @ post))"
      using itoa_gen_hex [OF cs(2) p2, of True "ds @ zs @ post"] by simp
    have d: "strlen ((pre @ ?up) @ ?lo @ (0 # ds) @ (zs @ post)) (p + length ?up) = Some (length ?lo)"
      using strlen_cstr [OF cstrI [OF nonzero_text p2, of 16 "unat (ucast v :: u32)" "ds @ zs @ post"]] by simp
    have l: "length (?lo @ (0 # ds)) = Suc 8" using cs ws1(2) by simp
    have field: "length (hex_field 8 (unat (ucast v :: u32))) = 8" using lo8 by (simp add: hex_field_def)
    have "(if length ?lo \<noteq> 8 then pad_field 8 (p + length ?up) (length ?lo) ((pre @ ?up) @ ?lo @ (0 # ds) @ (zs @ post))
        else Some ((pre @ ?up) @ ?lo @ (0 # ds) @ (zs @ post))) =
      Some ((pre @ ?up) @ hex_field 8 (unat (ucast v :: u32)) @ 0 # zs @ post)"
    proof -
      have "length ?lo \<noteq> 8 \<or> ds = []" using l by (cases ds) auto
      then show ?thesis
        using pad_field_text [OF nonzero_text lo8 p2 l, of "zs @ post"] by (auto simp: hex_field_def)
    qed
    then have "lltoa_halves v p 16 (pre @ xs @ post) =
        Some ((pre @ ?up) @ hex_field 8 (unat (ucast v :: u32)) @ 0 # zs @ post)"
      using a b c d False by (cases "length ?lo = 8") (simp_all add: run)
    then show ?thesis using z T field by (intro exI [of _ zs]) simp
  qed
qed

lemma lltoa_hex:
  assumes p: "length pre = p" and xs: "length xs = 17"
  shows "lltoa_gen c v p 16 True (pre @ xs @ post) = Some (pre @ hex_field 16 (unat v) @ 0 # post)"
proof -
  let ?t = "text_of 16 (unat v)"
  obtain zs where b: "lltoa_halves v p 16 (pre @ xs @ post) = Some (pre @ ?t @ 0 # zs @ post)" "length ?t + length zs = 16"
    using lltoa_halves_text [OF assms] by blast
  note t16 = length_text64 [of v]
  have s: "strlen (pre @ ?t @ 0 # zs @ post) p = Some (length ?t)"
    using strlen_cstr [OF cstrI [OF nonzero_text p]] by simp
  have run: "lltoa_gen c v p 16 True (pre @ xs @ post) =
    (if length ?t < 16 then pad_field 16 p (length ?t) (pre @ ?t @ 0 # zs @ post) else Some (pre @ ?t @ 0 # zs @ post))"
    using b(1) s by (simp add: lltoa_gen_def)
  have l: "length (?t @ 0 # zs) = Suc 16" using b(2) by simp
  have "length ?t < 16 \<or> zs = []" using b(2) by (cases zs) auto
  then show ?thesis
    unfolding run using pad_field_text [OF nonzero_text t16 p l, of post] b(2) by (auto simp: hex_field_def)
qed

section \<open>Properties\<close>

text \<open>The number a printed string stands for, an optional minus sign first.\<close>

definition read_signed :: "nat \<Rightarrow> u8 list \<Rightarrow> int" where
  "read_signed b s = (if s \<noteq> [] \<and> hd s = 45 then - int (read_text b (tl s)) else int (read_text b s))"

lemma sint_u32: "sint v = uint v \<or> sint v = uint v - 2 ^ 32" for v :: u32
proof -
  have "uint v mod 4294967296 = uint v" using uint_lt2p [of v] by simp
  then show ?thesis by (simp add: sint_uint signed_take_bit_eq_take_bit_minus take_bit_eq_mod)
qed

lemma sint_minus: "sint (v :: u32) < 0 \<Longrightarrow> int (unat (- v)) = - sint v"
proof -
  assume neg: "sint v < 0"
  then have s: "sint v = uint v - 2 ^ 32" using sint_u32 [of v] uint_ge_0 [of v] by linarith
  have "uint v \<noteq> 0" using neg by (metis sint_0 uint_0_iff order_less_irrefl)
  moreover have "uint v mod 4294967296 = uint v" using uint_lt2p [of v] by simp
  ultimately have "uint (- v) = 2 ^ 32 - uint v"
    by (simp add: uint_word_ariths zmod_zminus1_eq_if)
  then show ?thesis using s by simp
qed

lemma sint_nonneg: "\<not> sint (v :: u32) < 0 \<Longrightarrow> int (unat v) = sint v"
  using sint_u32 [of v] uint_lt2p [of v] by fastforce

lemma hd_text: "2 \<le> b \<Longrightarrow> b \<le> 16 \<Longrightarrow> text_of b n \<noteq> [] \<and> hd (text_of b n) \<noteq> 45"
proof -
  assume b: "2 \<le> b" "b \<le> 16"
  have ne: "text_of b n \<noteq> []" by (simp add: text_of_def lsd.simps [of b n])
  have "digit_char d \<noteq> 45" if "d < 16" for d
  proof -
    have "char_digit 45 = 0" by (simp add: char_digit_def)
    moreover have "digit_char 0 = 48" by (simp add: digit_char_def)
    ultimately show ?thesis using char_digit_char [OF that] by fastforce
  qed
  moreover have "hd (text_of b n) \<in> set (text_of b n)" using ne by simp
  ultimately have "hd (text_of b n) \<noteq> 45"
    using lsd_digits [of b _ n] b by (fastforce simp: text_of_def)
  then show ?thesis using ne by simp
qed

lemma read_zeros: "read_text b (replicate k 48 @ s) = read_text b s"
proof -
  have "foldl (\<lambda>a c. a * b + char_digit c) 0 (replicate k 48) = 0"
    by (induction k) (simp_all add: char_digit_def)
  then show ?thesis by (simp add: read_text_def)
qed

lemma read_hex_field: "read_text 16 (hex_field n v) = v"
  by (simp add: hex_field_def read_zeros read_text_of)

lemma hex_field_nonzero: "0 \<notin> set (hex_field n v)"
  using nonzero_text [of 16 v] by (simp add: hex_field_def)

text \<open>(C37) Decimal printing: given twelve bytes at \<open>str\<close>, \<^verbatim>\<open>_itoa\<close> writes at most eleven characters and
  a terminating zero, changes no other byte, and reading the text back gives the signed value, the most negative
  one included; with \<open>not_signed\<close> it gives the unsigned value.\<close>

theorem itoa_decimal:
  assumes "length pre = str" and "length xs = 12"
  shows "\<exists>s zs. itoa_gen val str 10 ns (pre @ xs @ post) = Some (pre @ s @ 0 # zs @ post) \<and>
     length s + length zs = 11 \<and> strlen (pre @ s @ 0 # zs @ post) str = Some (length s) \<and>
     (if ns then int (read_text 10 s) = uint val else read_signed 10 s = sint val)"
proof -
  let ?s = "itoa_text val 10 ns"
  have l: "length ?s \<le> 11" using length_text(2) [of val] length_text(2) [of "- val"] by (simp add: itoa_text_def)
  obtain ys zs where ys: "xs = ys @ zs" "length ys = Suc (length ?s)"
    using split_at [of "Suc (length ?s)" xs] l assms(2) by auto
  have "itoa_gen val str 10 ns (pre @ xs @ post) = Some (pre @ ?s @ 0 # zs @ post)"
    using itoa_gen_text [of 10 ys val ns pre "zs @ post"] ys assms(1) by simp
  moreover have "0 \<notin> set ?s" using nonzero_text [of 10] by (simp add: itoa_text_def)
  then have "strlen (pre @ ?s @ 0 # zs @ post) str = Some (length ?s)"
    using strlen_cstr [OF cstrI] assms(1) by blast
  moreover have "if ns then int (read_text 10 ?s) = uint val else read_signed 10 ?s = sint val"
    using hd_text [of 10 "unat val"] sint_minus [of val] sint_nonneg [of val]
    by (simp add: itoa_text_def read_signed_def read_text_of)
  ultimately show ?thesis using ys assms(2) by (intro exI [of _ ?s] exI [of _ zs]) simp
qed

theorem itoa_decimal_witness:
  "\<exists>s zs. itoa_gen 0x80000000 0 10 False ([] @ replicate 12 0 @ []) = Some ([] @ s @ 0 # zs @ []) \<and>
     read_signed 10 s = -2147483648"
  using itoa_decimal [of "[]" 0 "replicate 12 0" "0x80000000" False "[]"] by auto

text \<open>Pointer printing: given nine bytes, \<^verbatim>\<open>ptrtoa\<close> writes exactly eight hexadecimal digits and a
  terminating zero, changes no other byte, and the digits read back as the pointer, so distinct pointers print
  differently.\<close>

theorem ptrtoa_roundtrip:
  assumes "length pre = str" and "length xs = 9"
  shows "\<exists>s. ptrtoa val str (pre @ xs @ post) = Some (pre @ s @ 0 # post) \<and> length s = 8 \<and>
     0 \<notin> set s \<and> read_text 16 s = unat val"
proof -
  have "length (hex_field 8 (unat val)) = 8" using length_text(1) [of val] by (simp add: hex_field_def)
  then show ?thesis
    using ptrtoa_text [OF assms, of val post] by (auto simp: read_hex_field hex_field_nonzero)
qed

theorem ptrtoa_roundtrip_witness:
  "\<exists>s. ptrtoa 0xC0DE 1 ([7] @ replicate 9 1 @ [8]) = Some ([7] @ s @ 0 # [8]) \<and> read_text 16 s = 0xC0DE"
  using ptrtoa_roundtrip [of "[7]" 1 "replicate 9 1" "0xC0DE" "[8]"] by auto

text \<open>64-bit printing: given seventeen bytes, \<^verbatim>\<open>_lltoa\<close> with base 16 and \<^verbatim>\<open>maxfill\<close> writes exactly
  sixteen hexadecimal digits and a terminating zero, and they read back as the value.\<close>

theorem lltoa_roundtrip:
  assumes "length pre = str" and "length xs = 17"
  shows "\<exists>s. lltoa_gen config_64 val str 16 True (pre @ xs @ post) = Some (pre @ s @ 0 # post) \<and> length s = 16 \<and>
     0 \<notin> set s \<and> read_text 16 s = unat val"
proof -
  have "length (hex_field 16 (unat val)) = 16" using length_text64 [of val] by (simp add: hex_field_def)
  then show ?thesis
    using lltoa_hex [OF assms, of config_64 val post] by (auto simp: read_hex_field hex_field_nonzero)
qed

theorem lltoa_roundtrip_witness:
  "\<exists>s. lltoa_gen False 0x1000000AB 0 16 True ([] @ replicate 17 9 @ []) = Some ([] @ s @ 0 # []) \<and>
     read_text 16 s = 0x1000000AB"
  using lltoa_roundtrip [of "[]" 0 "replicate 17 9" False "0x1000000AB" "[]"] by auto

section \<open>strncmp\<close>

lemma strncmp_prefix:
  "length s = n \<Longrightarrow> length t = n \<Longrightarrow> p + n \<le> length mem \<Longrightarrow> q + n \<le> length mem \<Longrightarrow>
   s = take n (drop p mem) \<Longrightarrow> t = take n (drop q mem) \<Longrightarrow>
   \<exists>r. strncmp mem p q n = Some r \<and> (r = 0 \<longleftrightarrow> s = t) \<and>
     (\<forall>k < n. take k s = take k t \<and> s ! k \<noteq> t ! k \<longrightarrow> r = (if sint (s ! k) < sint (t ! k) then -1 else 1))"
proof (induction n arbitrary: p q s t)
  case (Suc n)
  have pq: "p < length mem" "q < length mem" using Suc.prems by simp_all
  have st: "s = mem ! p # take n (drop (Suc p) mem)" "t = mem ! q # take n (drop (Suc q) mem)"
    using Suc.prems(5,6) pq by (simp_all add: Cons_nth_drop_Suc [symmetric])
  show ?case
  proof (cases "mem ! p = mem ! q")
    case True
    obtain r where r: "strncmp mem (Suc p) (Suc q) n = Some r"
      "r = 0 \<longleftrightarrow> take n (drop (Suc p) mem) = take n (drop (Suc q) mem)"
      "\<forall>k < n. take k (take n (drop (Suc p) mem)) = take k (take n (drop (Suc q) mem)) \<and>
         take n (drop (Suc p) mem) ! k \<noteq> take n (drop (Suc q) mem) ! k \<longrightarrow>
         r = (if sint (take n (drop (Suc p) mem) ! k) < sint (take n (drop (Suc q) mem) ! k) then -1 else 1)"
      using Suc.IH [OF _ _ _ _ refl refl, of "Suc p" "Suc q"] Suc.prems by auto
    have "r = (if sint (s ! k) < sint (t ! k) then -1 else 1)"
      if "k < Suc n" "take k s = take k t" "s ! k \<noteq> t ! k" for k
      using that r(3) True st by (cases k) auto
    then show ?thesis using r(1,2) True pq st by (intro exI [of _ r]) auto
  next
    case False
    then have "sint (mem ! p) \<noteq> sint (mem ! q)" using signed_word_eqI by blast
    define r where "r = (if sint (mem ! p) < sint (mem ! q) then -1 else 1 :: int)"
    have "r = (if sint (s ! k) < sint (t ! k) then -1 else 1)" if "k < Suc n" "take k s = take k t" for k
      using that False st by (cases k) (simp_all add: r_def)
    moreover have "strncmp mem p q (Suc n) = Some r" "r \<noteq> 0" "s \<noteq> t"
      using \<open>sint (mem ! p) \<noteq> sint (mem ! q)\<close> pq st False by (auto simp: r_def)
    ultimately show ?thesis by blast
  qed
qed simp

text \<open>\<^verbatim>\<open>strncmp\<close> (also used as \<^verbatim>\<open>memcmp\<close>): on two ranges of \<open>n\<close> bytes it returns 0 exactly when
  all \<open>n\<close> bytes are equal, and otherwise the order of the first differing bytes as signed characters. It reads past
  a terminating zero, unlike the C library function of this name.\<close>

theorem strncmp_spec:
  assumes "p + n \<le> length mem" and "q + n \<le> length mem"
  shows "\<exists>r. strncmp mem p q n = Some r \<and>
     (r = 0 \<longleftrightarrow> take n (drop p mem) = take n (drop q mem)) \<and>
     (\<forall>k < n. take k (drop p mem) = take k (drop q mem) \<and> mem ! (p + k) \<noteq> mem ! (q + k) \<longrightarrow>
        r = (if sint (mem ! (p + k)) < sint (mem ! (q + k)) then -1 else 1))"
proof -
  have l: "length (take n (drop p mem)) = n" "length (take n (drop q mem)) = n" using assms by simp_all
  obtain r where r: "strncmp mem p q n = Some r" "r = 0 \<longleftrightarrow> take n (drop p mem) = take n (drop q mem)"
    "\<forall>k < n. take k (take n (drop p mem)) = take k (take n (drop q mem)) \<and>
       take n (drop p mem) ! k \<noteq> take n (drop q mem) ! k \<longrightarrow>
       r = (if sint (take n (drop p mem) ! k) < sint (take n (drop q mem) ! k) then -1 else 1)"
    using strncmp_prefix [OF l assms refl refl] by blast
  have "take k (take n xs) = take k xs" if "k < n" for k and xs :: "u8 list" using that by simp
  moreover have "take n (drop p mem) ! k = mem ! (p + k)" "take n (drop q mem) ! k = mem ! (q + k)" if "k < n" for k
    using that assms by simp_all
  ultimately show ?thesis using r by (intro exI [of _ r]) simp
qed

theorem strncmp_spec_witness:
  "\<exists>r. strncmp [65, 0, 66, 65, 0, 0xC3] 0 3 3 = Some r \<and> r = 1"
proof -
  let ?m = "[65, 0, 66, 65, 0, 0xC3] :: u8 list"
  obtain r where r: "strncmp ?m 0 3 3 = Some r"
    "\<forall>k < 3. take k (drop 0 ?m) = take k (drop 3 ?m) \<and> ?m ! (0 + k) \<noteq> ?m ! (3 + k) \<longrightarrow>
       r = (if sint (?m ! (0 + k)) < sint (?m ! (3 + k)) then -1 else 1)"
    using strncmp_spec [of 0 3 ?m 3] by auto
  show ?thesis using r(1) r(2) [rule_format, of 2] by simp
qed

end
