(* ===== verification/Vga.thy ===== *)
theory Vga
  imports Spinlock Cstring
begin

text \<open>
  The text console of \<^verbatim>\<open>system.c\<close>: \<^verbatim>\<open>vga_init\<close>, \<^verbatim>\<open>print_vga\<close> and
  \<^verbatim>\<open>print_vga_fixed\<close>. The frame buffer is memory of 16-bit cells at 32-bit addresses, so that
  every write carries its address; a C string is the list of its bytes before the zero.
\<close>

section \<open>State and operations\<close>

definition VIDEO_VIRT_BUFFER :: u32 where "VIDEO_VIRT_BUFFER = KERNEL_VIRT_ADDR + 0xb8000"

lemma VIDEO_VIRT_BUFFER_val: "VIDEO_VIRT_BUFFER = 0x800b8000"
  by (simp add: VIDEO_VIRT_BUFFER_def KERNEL_VIRT_ADDR_def)

record vga =
  vga_buf_ptr :: u32
  spinlock_vga :: u32
  vmem :: "u32 \<Rightarrow> u16"

definition vga_init :: "vga \<Rightarrow> vga" where
  "vga_init v = v\<lparr>spinlock_vga := 0, vga_buf_ptr := VIDEO_VIRT_BUFFER\<rparr>"

text \<open>\<^verbatim>\<open>char\<close> is signed, so the character is sign-extended before the attribute is ored in.\<close>

definition vga_cell :: "u8 \<Rightarrow> u16" where
  "vga_cell c = push_bit 8 0xF OR scast c"

definition vga_put :: "u32 \<Rightarrow> u16 \<Rightarrow> vga \<Rightarrow> vga" where
  "vga_put a x v = v\<lparr>vmem := (vmem v)(a := x)\<rparr>"

fun print_vga_loop :: "u8 list \<Rightarrow> vga \<Rightarrow> vga" where
  "print_vga_loop [] v = v"
| "print_vga_loop (c # cs) v =
     (if c = 10
      then print_vga_loop cs
             (v\<lparr>vga_buf_ptr := vga_buf_ptr v + 2 * ((160 - (vga_buf_ptr v - VIDEO_VIRT_BUFFER) mod 160) div 2)\<rparr>)
      else if vga_buf_ptr v \<ge> VIDEO_VIRT_BUFFER + 160 * 25 then v
      else let v = vga_put (vga_buf_ptr v) (vga_cell c) v
           in print_vga_loop cs (v\<lparr>vga_buf_ptr := vga_buf_ptr v + 2\<rparr>))"

definition print_vga :: "u8 list \<Rightarrow> vga \<Rightarrow> vga option" where
  "print_vga cs v =
     do {
       l \<leftarrow> spinlock_lock (spinlock_vga v);
       let v = print_vga_loop cs (v\<lparr>spinlock_vga := l\<rparr>);
       Some (v\<lparr>spinlock_vga := spinlock_unlock (spinlock_vga v)\<rparr>)
     }"

fun print_vga_fixed_loop :: "u8 list \<Rightarrow> u32 \<Rightarrow> int \<Rightarrow> int \<Rightarrow> vga \<Rightarrow> vga" where
  "print_vga_fixed_loop [] p col row v = v"
| "print_vga_fixed_loop (c # cs) p col row v =
     (if row > 25 then v
      else let v = vga_put p (vga_cell c) v
           in if col + 2 = 160 then print_vga_fixed_loop cs (p + 2) 0 (row + 1) v
              else print_vga_fixed_loop cs (p + 2) (col + 2) row v)"

definition print_vga_fixed :: "u8 list \<Rightarrow> int \<Rightarrow> int \<Rightarrow> vga \<Rightarrow> vga" where
  "print_vga_fixed cs col row v =
     print_vga_fixed_loop cs (VIDEO_VIRT_BUFFER + of_int col + of_int (row * 160)) col row v"

section \<open>Where the console writes\<close>

text \<open>The screen: 25 rows of 160 bytes.\<close>

definition screen :: "u32 set" where
  "screen = {VIDEO_VIRT_BUFFER ..< VIDEO_VIRT_BUFFER + 4000}"

lemma vga_put_simps [simp]:
  "vmem (vga_put a x v) = (vmem v)(a := x)" "vga_buf_ptr (vga_put a x v) = vga_buf_ptr v"
  "spinlock_vga (vga_put a x v) = spinlock_vga v"
  by (simp_all add: vga_put_def)

lemma print_vga_loop_lock [simp]: "spinlock_vga (print_vga_loop cs v) = spinlock_vga v"
  by (induction cs v rule: print_vga_loop.induct) (simp_all add: Let_def)

lemma print_vga_unlocked:
  "spinlock_vga v = 0 \<Longrightarrow> print_vga cs v = Some ((print_vga_loop cs (v\<lparr>spinlock_vga := 1\<rparr>))\<lparr>spinlock_vga := 0\<rparr>)"
  by (simp add: print_vga_def Let_def spinlock_unlock_def)

text \<open>The pointer as a byte offset into the frame buffer; it moves by at most a row per character.\<close>

definition vga_off :: "vga \<Rightarrow> nat" where
  "vga_off v = unat (vga_buf_ptr v - VIDEO_VIRT_BUFFER)"

lemma next_row:
  fixes n :: nat
  shows "(n div 160 + 1) * 160 = n + (160 - n mod 160)" "n \<le> (n div 160 + 1) * 160" "(n div 160 + 1) * 160 \<le> n + 160"
proof -
  define q r where "q = n div 160" and "r = n mod 160"
  have a: "q * 160 + r = n" "r < 160" by (simp_all add: q_def r_def)
  show "(n div 160 + 1) * 160 = n + (160 - n mod 160)" using a by (fold q_def r_def) simp
  show "n \<le> (n div 160 + 1) * 160" using a by (fold q_def) simp
  show "(n div 160 + 1) * 160 \<le> n + 160" using a by (fold q_def) simp
qed

lemma newline_advance:
  assumes "vga_off v + 160 < 2 ^ 31" and "even (vga_off v)"
  shows "vga_off (v\<lparr>vga_buf_ptr := vga_buf_ptr v + 2 * ((160 - (vga_buf_ptr v - VIDEO_VIRT_BUFFER) mod 160) div 2)\<rparr>) =
     (vga_off v div 160 + 1) * 160"
proof -
  let ?o = "vga_buf_ptr v - VIDEO_VIRT_BUFFER"
  have m: "unat (?o mod 160) = vga_off v mod 160" by (simp add: unat_mod vga_off_def)
  have "unat (160 - ?o mod 160) = 160 - vga_off v mod 160"
    using m by (subst unat_sub) (simp_all add: word_le_nat_alt)
  then have d: "unat ((160 - ?o mod 160) div 2) = (160 - vga_off v mod 160) div 2" by (simp add: unat_div)
  have "even (160 - vga_off v mod 160)" using assms(2) by (simp add: dvd_mod)
  then have "unat (2 * ((160 - ?o mod 160) div 2)) = 160 - vga_off v mod 160"
    using d by (simp add: unat_word_ariths)
  moreover have "vga_off v mod 160 < 160" by simp
  ultimately have "unat (?o + 2 * ((160 - ?o mod 160) div 2)) = vga_off v + (160 - vga_off v mod 160)"
    using assms(1) by (subst word_add_no_wrap) (auto simp: vga_off_def)
  then show ?thesis unfolding next_row(1) by (simp add: vga_off_def algebra_simps)
qed

lemma char_advance:
  assumes "vga_off v + 2 < 2 ^ 32"
  shows "vga_off (v\<lparr>vga_buf_ptr := vga_buf_ptr v + 2\<rparr>) = vga_off v + 2"
proof -
  have "unat ((vga_buf_ptr v - VIDEO_VIRT_BUFFER) + 2) = vga_off v + 2"
    using assms by (subst word_add_no_wrap) (simp_all add: vga_off_def)
  then show ?thesis by (simp add: vga_off_def algebra_simps)
qed

text \<open>Below \<open>2 ^ 31 - 0xb8000\<close> the address is the offset above the base, so comparisons agree.\<close>

lemma vga_ptr:
  assumes "vga_off v < 2 ^ 30"
  shows "unat (vga_buf_ptr v) = unat VIDEO_VIRT_BUFFER + vga_off v"
proof -
  have "unat (VIDEO_VIRT_BUFFER + (vga_buf_ptr v - VIDEO_VIRT_BUFFER)) = unat VIDEO_VIRT_BUFFER + vga_off v"
    using assms by (subst word_add_no_wrap) (simp_all add: vga_off_def VIDEO_VIRT_BUFFER_val)
  then show ?thesis by simp
qed

lemma vga_on_screen:
  assumes "vga_off v < 2 ^ 30"
  shows "VIDEO_VIRT_BUFFER + 160 * 25 \<le> vga_buf_ptr v \<longleftrightarrow> 4000 \<le> vga_off v"
    "vga_buf_ptr v \<in> screen \<longleftrightarrow> vga_off v < 4000"
  using vga_ptr [OF assms] by (auto simp: screen_def word_le_nat_alt word_less_nat_alt VIDEO_VIRT_BUFFER_val)

lemma print_vga_loop_safe:
  "vga_off v + 160 * length cs < 2 ^ 30 \<Longrightarrow> even (vga_off v) \<Longrightarrow>
   (\<forall>a. a \<notin> screen \<longrightarrow> vmem (print_vga_loop cs v) a = vmem v a) \<and>
   even (vga_off (print_vga_loop cs v)) \<and> vga_off v \<le> vga_off (print_vga_loop cs v) \<and>
   vga_off (print_vga_loop cs v) \<le> vga_off v + 160 * length cs"
proof (induction cs v rule: print_vga_loop.induct)
  case (2 c cs v)
  let ?nl = "v\<lparr>vga_buf_ptr := vga_buf_ptr v + 2 * ((160 - (vga_buf_ptr v - VIDEO_VIRT_BUFFER) mod 160) div 2)\<rparr>"
  let ?put = "vga_put (vga_buf_ptr v) (vga_cell c) v"
  let ?ch = "?put\<lparr>vga_buf_ptr := vga_buf_ptr ?put + 2\<rparr>"
  have small: "vga_off v < 2 ^ 30" using 2(3) by simp
  show ?case
  proof (cases "c = 10")
    case True
    have nl: "vga_off ?nl = (vga_off v div 160 + 1) * 160" using 2(3,4) by (intro newline_advance) simp_all
    have b: "vga_off v \<le> vga_off ?nl" "vga_off ?nl \<le> vga_off v + 160"
      unfolding nl by (rule next_row)+
    have "even (vga_off ?nl)" unfolding nl by simp
    then show ?thesis using 2(1) [OF True] 2(3) True b by force
  next
    case False
    show ?thesis
    proof (cases "4000 \<le> vga_off v")
      case True
      then show ?thesis using False 2(4) vga_on_screen(1) [OF small] by simp
    next
      case F: False
      have adv: "vga_off ?ch = vga_off v + 2"
        using char_advance [of ?put] 2(3) by (simp add: vga_off_def)
      have "\<not> VIDEO_VIRT_BUFFER + 160 * 25 \<le> vga_buf_ptr v" using F vga_on_screen(1) [OF small] by simp
      note ih = 2(2) [OF False this refl]
      have "vmem ?ch a = vmem v a" if "a \<notin> screen" for a
        using that F vga_on_screen(2) [OF small] by auto
      then show ?thesis
        using ih 2(3,4) False F adv vga_on_screen(1) [OF small] by (simp add: Let_def)
    qed
  qed
qed simp

lemma print_vga_loop_text:
  "10 \<notin> set cs \<Longrightarrow> vga_off v + 2 * length cs \<le> 4000 \<Longrightarrow>
   print_vga_loop (cs @ ds) v = print_vga_loop ds (print_vga_loop cs v) \<and>
   vga_off (print_vga_loop cs v) = vga_off v + 2 * length cs \<and>
   (\<forall>i < length cs. vmem (print_vga_loop cs v) (vga_buf_ptr v + of_nat (2 * i)) = vga_cell (cs ! i)) \<and>
   (\<forall>a. (\<forall>i < length cs. a \<noteq> vga_buf_ptr v + of_nat (2 * i)) \<longrightarrow> vmem (print_vga_loop cs v) a = vmem v a)"
proof (induction cs arbitrary: v)
  case (Cons c cs)
  let ?put = "vga_put (vga_buf_ptr v) (vga_cell c) v"
  let ?ch = "?put\<lparr>vga_buf_ptr := vga_buf_ptr v + 2\<rparr>"
  have "\<not> VIDEO_VIRT_BUFFER + 160 * 25 \<le> vga_buf_ptr v" using Cons.prems(2) vga_on_screen(1) [of v] by simp
  then have step: "print_vga_loop (c # xs) v = print_vga_loop xs ?ch" for xs
    using Cons.prems(1) by (simp add: Let_def)
  have adv: "vga_off ?ch = vga_off v + 2" using char_advance [of ?put] Cons.prems(2) by (simp add: vga_off_def)
  then have ih: "print_vga_loop (cs @ ds) ?ch = print_vga_loop ds (print_vga_loop cs ?ch)"
    "vga_off (print_vga_loop cs ?ch) = vga_off v + 2 + 2 * length cs"
    "\<forall>i < length cs. vmem (print_vga_loop cs ?ch) (vga_buf_ptr v + 2 + of_nat (2 * i)) = vga_cell (cs ! i)"
    "\<forall>a. (\<forall>i < length cs. a \<noteq> vga_buf_ptr v + 2 + of_nat (2 * i)) \<longrightarrow> vmem (print_vga_loop cs ?ch) a = vmem ?ch a"
    using Cons.IH [of ?ch] Cons.prems by simp_all
  have nx: "vga_buf_ptr v + of_nat (2 * Suc i) = vga_buf_ptr v + 2 + of_nat (2 * i)" for i by simp
  have ne: "vga_buf_ptr v \<noteq> vga_buf_ptr v + 2 + of_nat (2 * i)" if "i < length cs" for i
  proof
    assume "vga_buf_ptr v = vga_buf_ptr v + 2 + of_nat (2 * i)"
    then have "(of_nat (2 * Suc i) :: u32) = 0" unfolding nx [symmetric] by (metis add_cancel_right_right)
    moreover have "unat (of_nat (2 * Suc i) :: u32) = 2 * Suc i"
      using that Cons.prems(2) by (subst unat_of_nat) simp
    ultimately show False by simp
  qed
  have first: "vmem (print_vga_loop cs ?ch) (vga_buf_ptr v) = vga_cell c" using ih(4) ne by simp
  have "vmem (print_vga_loop cs ?ch) (vga_buf_ptr v + of_nat (2 * i)) = vga_cell ((c # cs) ! i)"
    if "i < length (c # cs)" for i
  proof (cases i)
    case (Suc j)
    then show ?thesis using ih(3) that unfolding Suc nx by simp
  qed (use first in simp)
  moreover have "vmem (print_vga_loop cs ?ch) a = vmem v a"
    if a: "\<forall>i < length (c # cs). a \<noteq> vga_buf_ptr v + of_nat (2 * i)" for a
  proof -
    have "\<forall>i < length cs. a \<noteq> vga_buf_ptr v + 2 + of_nat (2 * i)" using a nx by (metis Suc_less_eq length_Cons)
    moreover have "a \<noteq> vga_buf_ptr v" using a by force
    ultimately show ?thesis using ih(4) by simp
  qed
  ultimately show ?case
    unfolding append_Cons step using ih(1,2) by simp
qed simp

section \<open>Properties\<close>

text \<open>A console ready for use, as \<^verbatim>\<open>vga_init\<close> leaves it.\<close>

definition blank :: vga where
  "blank = vga_init \<lparr>vga_buf_ptr = 0, spinlock_vga = 1, vmem = (\<lambda>_. 0)\<rparr>"

lemma blank_simps [simp]: "spinlock_vga blank = 0" "vga_off blank = 0" "vga_buf_ptr blank = VIDEO_VIRT_BUFFER"
  "vmem blank = (\<lambda>_. 0)"
  by (simp_all add: blank_def vga_init_def vga_off_def)

text \<open>(C38) \<^verbatim>\<open>print_vga\<close> is confined to the screen: whatever string it prints, with whatever newlines, while
  the pointer is within the frame buffer window it writes only to the 4000 bytes of the screen, returns, and leaves
  its lock free.\<close>

theorem print_vga_confined:
  assumes "spinlock_vga v = 0" and "even (vga_off v)" and "vga_off v + 160 * length cs < 2 ^ 30"
  shows "\<exists>v'. print_vga cs v = Some v' \<and> spinlock_vga v' = 0 \<and> (\<forall>a. a \<notin> screen \<longrightarrow> vmem v' a = vmem v a) \<and>
     even (vga_off v') \<and> vga_off v \<le> vga_off v'"
proof -
  have "vga_off (v\<lparr>spinlock_vga := 1\<rparr>) = vga_off v" "\<And>w l. vga_off (w\<lparr>spinlock_vga := l\<rparr>) = vga_off w"
    by (simp_all add: vga_off_def)
  then show ?thesis
    using print_vga_loop_safe [of "v\<lparr>spinlock_vga := 1\<rparr>" cs] print_vga_unlocked [OF assms(1)] assms(2,3) by simp
qed

theorem print_vga_confined_witness:
  "\<exists>v'. print_vga (replicate 2000 65 @ [10, 66]) blank = Some v' \<and> (\<forall>a. a \<notin> screen \<longrightarrow> vmem v' a = 0)"
  using print_vga_confined [of blank "replicate 2000 65 @ [10, 66]"] by auto

text \<open>Printing a line: a text without newline that fits on the screen, followed by a newline, appears in
  consecutive cells from the current position with the bright white attribute, nothing else changes, and the position moves to the start
  of the next row.\<close>

theorem print_vga_line:
  assumes "spinlock_vga v = 0" and "even (vga_off v)" and "10 \<notin> set cs" and "vga_off v + 2 * length cs \<le> 4000"
  shows "\<exists>v'. print_vga (cs @ [10]) v = Some v' \<and>
     vga_off v' = ((vga_off v + 2 * length cs) div 160 + 1) * 160 \<and>
     (\<forall>i < length cs. vmem v' (vga_buf_ptr v + of_nat (2 * i)) = vga_cell (cs ! i)) \<and>
     (\<forall>a. (\<forall>i < length cs. a \<noteq> vga_buf_ptr v + of_nat (2 * i)) \<longrightarrow> vmem v' a = vmem v a)"
proof -
  let ?v = "v\<lparr>spinlock_vga := 1\<rparr>"
  have [simp]: "vga_off (w\<lparr>spinlock_vga := l\<rparr>) = vga_off w" for w l by (simp add: vga_off_def)
  note t = print_vga_loop_text [OF assms(3), of ?v "[10]"]
  let ?w = "print_vga_loop cs ?v"
  have "even (vga_off ?w)" "vga_off ?w + 160 < 2 ^ 31" using t assms(2,4) by simp_all
  note n = newline_advance [OF this(2,1)]
  then show ?thesis using t print_vga_unlocked [OF assms(1), of "cs @ [10]"] assms(4) by simp
qed

theorem print_vga_line_witness:
  "\<exists>v'. print_vga ([72, 105] @ [10]) blank = Some v' \<and> vga_off v' = 160 \<and>
     vmem v' (VIDEO_VIRT_BUFFER + of_nat (2 * 1)) = vga_cell 105"
proof -
  obtain v' where v: "print_vga ([72, 105] @ [10]) blank = Some v'" "vga_off v' = 160"
    "\<forall>i < length [72, 105 :: u8]. vmem v' (vga_buf_ptr blank + of_nat (2 * i)) = vga_cell ([72, 105] ! i)"
    using print_vga_line [of blank "[72, 105]"] by auto
  show ?thesis using v(1,2) v(3) [rule_format, of 1] by auto
qed

section \<open>print_vga_fixed\<close>

lemma print_fixed_text:
  "0 \<le> col \<Longrightarrow> col + 2 * int (length cs) < 160 \<Longrightarrow> row \<le> 25 \<Longrightarrow>
   (\<forall>i < length cs. vmem (print_vga_fixed_loop cs p col row v) (p + of_nat (2 * i)) = vga_cell (cs ! i)) \<and>
   (\<forall>a. (\<forall>i < length cs. a \<noteq> p + of_nat (2 * i)) \<longrightarrow> vmem (print_vga_fixed_loop cs p col row v) a = vmem v a)"
proof (induction cs arbitrary: p col v)
  case (Cons c cs)
  have step: "print_vga_fixed_loop (c # cs) p col row v = print_vga_fixed_loop cs (p + 2) (col + 2) row (vga_put p (vga_cell c) v)"
    using Cons.prems by (simp add: Let_def)
  let ?w = "print_vga_fixed_loop cs (p + 2) (col + 2) row (vga_put p (vga_cell c) v)"
  have ih: "\<forall>i < length cs. vmem ?w (p + 2 + of_nat (2 * i)) = vga_cell (cs ! i)"
    "\<forall>a. (\<forall>i < length cs. a \<noteq> p + 2 + of_nat (2 * i)) \<longrightarrow> vmem ?w a = vmem (vga_put p (vga_cell c) v) a"
    using Cons.IH [of "col + 2" "p + 2"] Cons.prems by simp_all
  have nx: "p + of_nat (2 * Suc i) = p + 2 + of_nat (2 * i)" for i by simp
  have ne: "p \<noteq> p + 2 + of_nat (2 * i)" if "i < length cs" for i
  proof
    assume "p = p + 2 + of_nat (2 * i)"
    then have "(of_nat (2 * Suc i) :: u32) = 0" unfolding nx [symmetric] by (metis add_cancel_right_right)
    moreover have "unat (of_nat (2 * Suc i) :: u32) = 2 * Suc i"
      using that Cons.prems(1,2) by (subst unat_of_nat) simp
    ultimately show False by simp
  qed
  have first: "vmem ?w p = vga_cell c" using ih(2) ne by simp
  have "vmem ?w (p + of_nat (2 * i)) = vga_cell ((c # cs) ! i)" if "i < length (c # cs)" for i
  proof (cases i)
    case (Suc j)
    then show ?thesis using ih(1) that unfolding Suc nx by simp
  qed (use first in simp)
  moreover have "vmem ?w a = vmem v a" if a: "\<forall>i < length (c # cs). a \<noteq> p + of_nat (2 * i)" for a
  proof -
    have "\<forall>i < length cs. a \<noteq> p + 2 + of_nat (2 * i)" using a nx by (metis Suc_less_eq length_Cons)
    moreover have "a \<noteq> p" using a by force
    ultimately show ?thesis using ih(2) by simp
  qed
  ultimately show ?case unfolding step by blast
qed simp

text \<open>\<^verbatim>\<open>print_vga_fixed\<close> tests \<^verbatim>\<open>row > 25\<close> where the rows are 0 to 24: a character at row 25
  is written, and its cell lies past the end of the screen.\<close>

theorem print_vga_fixed_row25:
  assumes "c \<noteq> 0" and "0 \<le> col" and "col < 160"
  shows "\<exists>a. a \<notin> screen \<and> vmem (print_vga_fixed [c] col 25 v) a = vga_cell c"
proof -
  let ?a = "VIDEO_VIRT_BUFFER + of_int col + of_int (25 * 160)"
  have "vmem (print_vga_fixed [c] col 25 v) ?a = vga_cell c" by (simp add: print_vga_fixed_def Let_def)
  moreover have "?a \<notin> screen"
  proof -
    have "uint (of_int col :: u32) = col" using assms(2,3) by (simp add: uint_word_of_int)
    then have "unat (of_int col :: u32) = nat col" by (simp flip: nat_uint_eq)
    then have "unat ?a = unat VIDEO_VIRT_BUFFER + nat col + 4000"
      using assms(3) by (simp add: unat_word_ariths VIDEO_VIRT_BUFFER_val)
    then show ?thesis by (simp add: screen_def word_less_nat_alt VIDEO_VIRT_BUFFER_val)
  qed
  ultimately show ?thesis by blast
qed

theorem print_vga_fixed_row25_witness:
  "\<exists>a. a \<notin> screen \<and> vmem (print_vga_fixed [65] 0 25 blank) a = vga_cell 65"
  by (rule print_vga_fixed_row25) simp_all

end
