(* ===== verification/Keyboard.thy ===== *)
theory Keyboard
  imports Ring_Buffer Vga
begin

text \<open>
  The keyboard driver of \<^verbatim>\<open>keyboard.c\<close>: the set 2 scan code table, the decoder
  \<^verbatim>\<open>kbd_process_scan_code\<close> with its state, and the interrupt handler with the ring buffer and the window of
  recent characters. The decoder is a refinement of a keyboard whose keys go up and down. The
  byte the handler reads from port 0x60 is an argument.
\<close>

section \<open>State\<close>

text \<open>The one-bit fields of type \<^verbatim>\<open>bool\<close> (a typedef of \<^verbatim>\<open>int\<close>) are only tested for zero.\<close>

record keyboard_scancode_state =
  lshift_down :: bool
  rshift_down :: bool
  lctrl_down :: bool
  rctrl_down :: bool
  lalt_down :: bool
  ralt_down :: bool
  caps :: bool
  break_code :: bool
  break_nested_code :: bool
  e0_code :: bool
  e0_nested_code :: bool
  e1_code :: bool
  e1_nested_code :: bool
  lwin_down :: bool
  rwin_down :: bool
  prev_code :: u8

definition conversion_scan_ascii :: "u8 list" where
  "conversion_scan_ascii =
   [ 0, 0, 0, 0, 0, 0, 0, 0, 0, 0, 0, 0, 0, 9, 96, 0,
     0, 0, 0, 0, 0, 113, 49, 0, 0, 0, 122, 115, 97, 119, 50, 0,
     0, 99, 120, 100, 101, 52, 51, 0, 0, 32, 118, 102, 116, 114, 53, 0,
     0, 110, 98, 104, 103, 121, 54, 0, 0, 0, 109, 106, 117, 55, 56, 0,
     0, 44, 107, 105, 111, 48, 57, 0, 0, 46, 47, 108, 59, 112, 45, 0,
     0, 0, 39, 0, 91, 61, 0, 0, 0, 0, 10, 93, 0, 92, 0, 0,
     0, 0, 0, 0, 0, 0, 0, 0, 0, 0, 0, 0, 0, 0, 0, 0,
     0, 0, 0, 0, 0, 0, 27 ]"

definition SC_E0 :: u8 where "SC_E0 = 0xe0"
definition SC_E1 :: u8 where "SC_E1 = 0xe1"
definition SC_BREAK :: u8 where "SC_BREAK = 0xf0"
definition SC_KEY_LSHIFT :: u8 where "SC_KEY_LSHIFT = 0x12"
definition SC_KEY_RSHIFT :: u8 where "SC_KEY_RSHIFT = 0x59"
definition SC_KEY_CAPS :: u8 where "SC_KEY_CAPS = 0x58"

text \<open>\<^verbatim>\<open>KEY_F1\<close> is \<^verbatim>\<open>SPECIAL_KEY_CODE_START\<close>; the other special keys follow it.\<close>

definition SPECIAL_KEY_CODE_START :: u8 where "SPECIAL_KEY_CODE_START = 0x80"
definition KEY_CAPS :: u8 where "KEY_CAPS = SPECIAL_KEY_CODE_START + 13"
definition KEY_LSHIFT :: u8 where "KEY_LSHIFT = SPECIAL_KEY_CODE_START + 14"
definition KEY_RSHIFT :: u8 where "KEY_RSHIFT = SPECIAL_KEY_CODE_START + 15"

lemmas scan_codes [flag_simps] = SC_E0_def SC_E1_def SC_BREAK_def SC_KEY_LSHIFT_def SC_KEY_RSHIFT_def
  SC_KEY_CAPS_def

lemmas key_codes [flag_simps] = SPECIAL_KEY_CODE_START_def KEY_CAPS_def KEY_LSHIFT_def KEY_RSHIFT_def

section \<open>The decoder\<close>

text \<open>The body of \<^verbatim>\<open>switch\<close>; the assignment to \<^verbatim>\<open>prev_code\<close> after it is in the caller.\<close>

definition kbd_switch :: "u8 \<Rightarrow> keyboard_scancode_state \<Rightarrow> (u8 \<times> keyboard_scancode_state) option" where
  "kbd_switch scan_code st =
     (if scan_code = SC_E0 then
        Some (0, if \<not> e0_code st then st\<lparr>e0_code := True\<rparr> else st\<lparr>e0_nested_code := True\<rparr>)
      else if scan_code = SC_E1 then
        Some (0, if \<not> e1_code st then st\<lparr>e1_code := True\<rparr> else st\<lparr>e1_nested_code := True\<rparr>)
      else if scan_code = SC_BREAK then Some (0, st\<lparr>break_code := True\<rparr>)
      else if scan_code = SC_KEY_LSHIFT then
        Some (if break_code st then 0 else KEY_LSHIFT, st\<lparr>lshift_down := \<not> break_code st, break_code := False\<rparr>)
      else if scan_code = SC_KEY_RSHIFT then
        Some (if break_code st then 0 else KEY_RSHIFT, st\<lparr>rshift_down := \<not> break_code st, break_code := False\<rparr>)
      else if scan_code = SC_KEY_CAPS then
        Some (if break_code st then 0 else KEY_CAPS,
              st\<lparr>caps := (if break_code st then caps st else \<not> caps st), break_code := False\<rparr>)
      else do {
        key_code \<leftarrow> aget conversion_scan_ascii (unat scan_code);
        if key_code \<noteq> 0
        then if break_code st then Some (0, st\<lparr>break_code := False\<rparr>)
             else if 97 \<le> key_code \<and> key_code \<le> 122
             then let up = ((lshift_down st \<or> rshift_down st) \<noteq> caps st)
                  in Some (if up then key_code - 32 else key_code, st)
             else Some (key_code, st)
        else Some (0, st)
      })"

definition kbd_process_scan_code :: "u8 \<Rightarrow> keyboard_scancode_state \<Rightarrow> (u8 \<times> keyboard_scancode_state) option" where
  "kbd_process_scan_code scan_code st =
     do { (key_code, st) \<leftarrow> kbd_switch scan_code st; Some (key_code, st\<lparr>prev_code := scan_code\<rparr>) }"

section \<open>The interrupt handler\<close>

text \<open>\<open>dbg_r\<close> and \<open>dbg_s\<close> are the static variables \<^verbatim>\<open>r\<close> and \<^verbatim>\<open>s\<close> of the debug block.\<close>

record keyboard =
  kbd_state :: keyboard_scancode_state
  ring_buffer_kbd :: ring_buffer
  dbg_r :: nat
  dbg_s :: "u8 list"
  kbd_vga :: vga
  spinlock_kbd :: u32

definition zero_state :: keyboard_scancode_state where
  "zero_state = \<lparr>lshift_down = False, rshift_down = False, lctrl_down = False, rctrl_down = False,
     lalt_down = False, ralt_down = False, caps = False, break_code = False, break_nested_code = False,
     e0_code = False, e0_nested_code = False, e1_code = False, e1_nested_code = False,
     lwin_down = False, rwin_down = False, prev_code = 0\<rparr>"

text \<open>\<^verbatim>\<open>keyboard_init\<close>, less the port writes; \<open>buf\<close> is \<^verbatim>\<open>kbd_buffer\<close>.\<close>

definition keyboard_init :: "u8 list \<Rightarrow> keyboard \<Rightarrow> keyboard option" where
  "keyboard_init buf k =
     do { (_, rb) \<leftarrow> ring_buffer_init buf 10 (ring_buffer_kbd k);
          Some (k\<lparr>spinlock_kbd := 0, ring_buffer_kbd := rb, kbd_state := zero_state\<rparr>) }"

definition shift_window :: "u8 list \<Rightarrow> u8 list option" where
  "shift_window s = fold (\<lambda>i s. do { s \<leftarrow> s; c \<leftarrow> aget s i; aput s (i - 1) c }) [1..<6] (Some s)"

definition show_key :: "u8 \<Rightarrow> keyboard \<Rightarrow> keyboard option" where
  "show_key key_code k =
     do {
       k \<leftarrow> (if dbg_r k = 6
             then do { s \<leftarrow> shift_window (dbg_s k); s \<leftarrow> aput s 5 key_code; Some (k\<lparr>dbg_s := s\<rparr>) }
             else do {
               s \<leftarrow> aput (dbg_s k) (dbg_r k) key_code;
               s \<leftarrow> aput s (dbg_r k + 1) 0;
               Some (k\<lparr>dbg_s := s, dbg_r := dbg_r k + 1\<rparr>)
             });
       l \<leftarrow> strlen (dbg_s k) 0;
       Some (k\<lparr>kbd_vga := print_vga_fixed (take l (dbg_s k)) 130 0 (kbd_vga k)\<rparr>)
     }"

definition keyboard_handle_interrupt :: "u8 \<Rightarrow> keyboard \<Rightarrow> (u8 \<times> keyboard) option" where
  "keyboard_handle_interrupt scan_code k =
     do {
       (key_code, st) \<leftarrow> kbd_process_scan_code scan_code (kbd_state k);
       rb \<leftarrow> (if SPECIAL_KEY_CODE_START \<le> key_code
              then do { (_, rb) \<leftarrow> ring_buffer_put_elem 0 (ring_buffer_kbd k); Some rb }
              else Some (ring_buffer_kbd k));
       (_, rb) \<leftarrow> ring_buffer_put_elem key_code rb;
       let k = k\<lparr>kbd_state := st, ring_buffer_kbd := rb\<rparr>;
       k \<leftarrow> (if 48 \<le> key_code \<and> key_code \<le> 122 then show_key key_code k else Some k);
       Some (key_code, k)
     }"

section \<open>Table and decoder, case by case\<close>

lemma table_length [simp]: "length conversion_scan_ascii = 119"
  by (simp add: conversion_scan_ascii_def)

definition plain :: "u8 \<Rightarrow> bool" where
  "plain c \<longleftrightarrow> c \<le> 0x76 \<and> c \<noteq> SC_KEY_LSHIFT \<and> c \<noteq> SC_KEY_RSHIFT \<and> c \<noteq> SC_KEY_CAPS"

definition mapped :: "u8 \<Rightarrow> bool" where
  "mapped c \<longleftrightarrow> plain c \<and> conversion_scan_ascii ! unat c \<noteq> 0"

definition ascii_of :: "bool \<Rightarrow> u8 \<Rightarrow> u8" where
  "ascii_of up c =
     (let a = conversion_scan_ascii ! unat c in if 97 \<le> a \<and> a \<le> 122 \<and> up then a - 32 else a)"

lemma table_access: "(c :: u8) \<le> 0x76 \<Longrightarrow> aget conversion_scan_ascii (unat c) = Some (conversion_scan_ascii ! unat c)"
  by (rule aget_in) (simp add: word_le_nat_alt)

lemma table_outside: "\<not> (c :: u8) \<le> 0x76 \<Longrightarrow> aget conversion_scan_ascii (unat c) = None"
  by (rule aget_out) (simp add: word_le_nat_alt)

lemma decode_mapped:
  assumes "mapped c"
  shows "kbd_process_scan_code c st =
    Some (if break_code st then 0 else ascii_of ((lshift_down st \<or> rshift_down st) \<noteq> caps st) c,
      st\<lparr>break_code := False, prev_code := c\<rparr>)"
proof -
  have "c \<noteq> SC_E0" "c \<noteq> SC_E1" "c \<noteq> SC_BREAK" using assms by (auto simp: mapped_def plain_def flag_simps)
  then show ?thesis
    using assms unfolding kbd_process_scan_code_def kbd_switch_def
    by (cases "break_code st") (auto simp: mapped_def plain_def table_access ascii_of_def Let_def)
qed

lemma decode_silent:
  assumes "plain c" and "conversion_scan_ascii ! unat c = 0"
  shows "kbd_process_scan_code c st = Some (0, st\<lparr>prev_code := c\<rparr>)" "ascii_of up c = 0"
proof -
  have "c \<noteq> SC_E0" "c \<noteq> SC_E1" "c \<noteq> SC_BREAK" using assms by (auto simp: plain_def flag_simps)
  then show "kbd_process_scan_code c st = Some (0, st\<lparr>prev_code := c\<rparr>)"
    using assms by (simp add: kbd_process_scan_code_def kbd_switch_def table_access plain_def)
  show "ascii_of up c = 0" using assms(2) by (simp add: ascii_of_def)
qed

lemma decode_special:
  "kbd_process_scan_code SC_BREAK st = Some (0, st\<lparr>break_code := True, prev_code := SC_BREAK\<rparr>)"
  "kbd_process_scan_code SC_KEY_LSHIFT st = Some (if break_code st then 0 else KEY_LSHIFT,
     st\<lparr>lshift_down := \<not> break_code st, break_code := False, prev_code := SC_KEY_LSHIFT\<rparr>)"
  "kbd_process_scan_code SC_KEY_RSHIFT st = Some (if break_code st then 0 else KEY_RSHIFT,
     st\<lparr>rshift_down := \<not> break_code st, break_code := False, prev_code := SC_KEY_RSHIFT\<rparr>)"
  "kbd_process_scan_code SC_KEY_CAPS st = Some (if break_code st then 0 else KEY_CAPS,
     st\<lparr>caps := (if break_code st then caps st else \<not> caps st), break_code := False, prev_code := SC_KEY_CAPS\<rparr>)"
  by (simp_all add: kbd_process_scan_code_def kbd_switch_def scan_codes)

section \<open>A keyboard of keys that go up and down\<close>

datatype key = LShift | RShift | Caps | Char u8

datatype key_event = Press key | Release key

record modifiers =
  lshift :: bool
  rshift :: bool
  capslock :: bool

text \<open>Any key of the table may be pressed, also one without a character; the release of a key without a character is left out.\<close>

fun valid_event :: "key_event \<Rightarrow> bool" where
  "valid_event (Press (Char c)) = plain c"
| "valid_event (Release (Char c)) = mapped c"
| "valid_event _ = True"

fun scan_of :: "key \<Rightarrow> u8" where
  "scan_of LShift = SC_KEY_LSHIFT"
| "scan_of RShift = SC_KEY_RSHIFT"
| "scan_of Caps = SC_KEY_CAPS"
| "scan_of (Char c) = c"

fun event_codes :: "key_event \<Rightarrow> u8 list" where
  "event_codes (Press k) = [scan_of k]"
| "event_codes (Release k) = [SC_BREAK, scan_of k]"

text \<open>What a key means: shifts count while they are down, caps lock toggles on each press.\<close>

fun press :: "key \<Rightarrow> modifiers \<Rightarrow> u8 \<times> modifiers" where
  "press LShift m = (KEY_LSHIFT, m\<lparr>lshift := True\<rparr>)"
| "press RShift m = (KEY_RSHIFT, m\<lparr>rshift := True\<rparr>)"
| "press Caps m = (KEY_CAPS, m\<lparr>capslock := \<not> capslock m\<rparr>)"
| "press (Char c) m = (ascii_of ((lshift m \<or> rshift m) \<noteq> capslock m) c, m)"

fun release :: "key \<Rightarrow> modifiers \<Rightarrow> modifiers" where
  "release LShift m = m\<lparr>lshift := False\<rparr>"
| "release RShift m = m\<lparr>rshift := False\<rparr>"
| "release _ m = m"

fun key_outputs :: "key_event list \<Rightarrow> modifiers \<Rightarrow> u8 list \<times> modifiers" where
  "key_outputs [] m = ([], m)"
| "key_outputs (Press k # es) m =
     (let (c, m) = press k m; (cs, m) = key_outputs es m in (c # cs, m))"
| "key_outputs (Release k # es) m =
     (let (cs, m) = key_outputs es (release k m) in (0 # 0 # cs, m))"

fun kbd_run :: "u8 list \<Rightarrow> keyboard_scancode_state \<Rightarrow> (u8 list \<times> keyboard_scancode_state) option" where
  "kbd_run [] st = Some ([], st)"
| "kbd_run (c # cs) st =
     do { (k, st) \<leftarrow> kbd_process_scan_code c st; (ks, st) \<leftarrow> kbd_run cs st; Some (k # ks, st) }"

definition modifiers_of :: "keyboard_scancode_state \<Rightarrow> modifiers" where
  "modifiers_of st = \<lparr>lshift = lshift_down st, rshift = rshift_down st, capslock = caps st\<rparr>"

lemma kbd_run_append:
  "kbd_run (cs @ ds) st =
     do { (ks, st) \<leftarrow> kbd_run cs st; (ls, st) \<leftarrow> kbd_run ds st; Some (ks @ ls, st) }"
  by (induction cs arbitrary: st) (auto split: Option.bind_splits)

lemma press_decodes:
  "valid_event (Press k) \<Longrightarrow> \<not> break_code st \<Longrightarrow>
   \<exists>st'. kbd_process_scan_code (scan_of k) st = Some (fst (press k (modifiers_of st)), st') \<and>
     modifiers_of st' = snd (press k (modifiers_of st)) \<and> \<not> break_code st'"
proof (cases k)
  case (Char c)
  then show "valid_event (Press k) \<Longrightarrow> \<not> break_code st \<Longrightarrow> ?thesis"
    by (cases "mapped c") (auto simp: decode_mapped decode_silent modifiers_of_def mapped_def)
qed (auto simp: decode_special modifiers_of_def)

lemma release_decodes:
  "valid_event (Release k) \<Longrightarrow>
   \<exists>st'. kbd_run [SC_BREAK, scan_of k] st = Some ([0, 0], st') \<and>
     modifiers_of st' = release k (modifiers_of st) \<and> \<not> break_code st'"
  by (cases k) (auto simp: decode_special decode_mapped modifiers_of_def)

lemma kbd_refines:
  "\<forall>e \<in> set es. valid_event e \<Longrightarrow> \<not> break_code st \<Longrightarrow>
   \<exists>st'. kbd_run (concat (map event_codes es)) st = Some (fst (key_outputs es (modifiers_of st)), st') \<and>
     modifiers_of st' = snd (key_outputs es (modifiers_of st)) \<and> \<not> break_code st'"
proof (induction es arbitrary: st)
  case (Cons e es)
  show ?case
  proof (cases e)
    case (Press k)
    then obtain st1 where "kbd_process_scan_code (scan_of k) st = Some (fst (press k (modifiers_of st)), st1)"
      "modifiers_of st1 = snd (press k (modifiers_of st))" "\<not> break_code st1"
      using press_decodes [of k st] Cons.prems by auto
    then show ?thesis using Cons.IH [of st1] Cons.prems Press by (auto simp: Let_def case_prod_beta)
  next
    case (Release k)
    then obtain st1 where "kbd_run [SC_BREAK, scan_of k] st = Some ([0, 0], st1)"
      "modifiers_of st1 = release k (modifiers_of st)" "\<not> break_code st1"
      using release_decodes [of k st] Cons.prems by auto
    then show ?thesis
      using Cons.IH [of st1] Cons.prems Release kbd_run_append [of "[SC_BREAK, scan_of k]" _ st]
      by (auto simp: Let_def case_prod_beta simp del: kbd_run.simps)
  qed
qed simp

section \<open>Properties of the decoder\<close>



text \<open>Where the table ends: the decoder reads outside the table exactly for the scan codes above 0x76 other
  than 0xe0, 0xe1 and 0xf0, among them NumLock, F11, ScrollLock and F7; all others are decoded.\<close>

theorem kbd_table_bounds:
  "kbd_process_scan_code c st = None \<longleftrightarrow> 0x76 < c \<and> c \<noteq> SC_E0 \<and> c \<noteq> SC_E1 \<and> c \<noteq> SC_BREAK"
proof (cases "c \<le> 0x76")
  case True
  then show ?thesis
    by (auto simp: kbd_process_scan_code_def kbd_switch_def table_access Let_def not_less split: if_splits)
next
  case False
  then have "c \<noteq> SC_KEY_LSHIFT" "c \<noteq> SC_KEY_RSHIFT" "c \<noteq> SC_KEY_CAPS" by (auto simp: scan_codes)
  then show ?thesis
    using False by (auto simp: kbd_process_scan_code_def kbd_switch_def table_outside not_less)
qed

text \<open>A lost key press: releasing a key that is not in the table (left control, 0x14, for example) leaves
  \<^verbatim>\<open>break_code\<close> set, so the next press of any mapped key is taken for a release and reports nothing.\<close>

theorem kbd_lost_press:
  assumes "u \<le> 0x76" and "conversion_scan_ascii ! unat u = 0"
    and "u \<notin> {SC_KEY_LSHIFT, SC_KEY_RSHIFT, SC_KEY_CAPS}" and "mapped c"
  shows "\<exists>st'. kbd_run [SC_BREAK, u, c] st = Some ([0, 0, 0], st')"
proof -
  have "u \<noteq> SC_E0" "u \<noteq> SC_E1" "u \<noteq> SC_BREAK" using assms(1) by (auto simp: scan_codes)
  then have "kbd_process_scan_code u st = Some (0, st\<lparr>prev_code := u\<rparr>)" for st
    using decode_silent [of u] assms(1-3) by (simp add: plain_def)
  then show ?thesis using decode_mapped [OF assms(4)] by (simp add: decode_special)
qed

theorem kbd_lost_press_witness:
  "\<exists>st'. kbd_run [SC_BREAK, 0x14, 0x1c] zero_state = Some ([0, 0, 0], st')"
  by (rule kbd_lost_press) (simp_all add: mapped_def plain_def flag_simps conversion_scan_ascii_def)

section \<open>The window of recent characters\<close>

definition printable :: "u8 \<Rightarrow> bool" where
  "printable c \<longleftrightarrow> 48 \<le> c \<and> c \<le> 122"

text \<open>The last six of a history.\<close>

definition last_six :: "'a list \<Rightarrow> 'a list" where
  "last_six xs = drop (length xs - 6) xs"

definition window_ok :: "u8 list \<Rightarrow> keyboard \<Rightarrow> bool" where
  "window_ok hist k \<longleftrightarrow> dbg_r k = length (last_six hist) \<and> length (dbg_s k) = 7 \<and> 0 \<notin> set hist \<and>
     take (dbg_r k + 1) (dbg_s k) = last_six hist @ [0]"

lemma length_last_six: "length (last_six xs) = min 6 (length xs)"
  by (auto simp: last_six_def)

lemma last_six_snoc:
  "last_six (xs @ [x]) = (if length (last_six xs) = 6 then tl (last_six xs) else last_six xs) @ [x]"
proof (cases "length xs < 6")
  case True
  then show ?thesis by (simp add: last_six_def)
next
  case False
  then have "Suc (length xs) - 6 = Suc (length xs - 6)" by simp
  then have "drop (Suc (length xs) - 6) xs = tl (drop (length xs - 6) xs)"
    by (simp only: drop_Suc tl_drop)
  then show ?thesis using False by (simp add: last_six_def)
qed

lemma set_last_six: "set (last_six xs) \<subseteq> set xs"
  by (simp add: last_six_def set_drop_subset)

lemma shift_window_six: "shift_window [a, b, c, d, e, f, z] = Some [b, c, d, e, f, f, z]"
  by (simp add: shift_window_def upt_rec)

lemma six: "length xs = 6 \<Longrightarrow> \<exists>a b c d e f. xs = [a, b, c, d, e, f]"
  by (auto simp: length_Suc_conv eval_nat_numeral)

lemma show_key_window:
  assumes ok: "window_ok hist k" and c: "c \<noteq> 0"
  shows "\<exists>k'. show_key c k = Some k' \<and> window_ok (hist @ [c]) k' \<and> kbd_state k' = kbd_state k \<and>
     ring_buffer_kbd k' = ring_buffer_kbd k \<and>
     kbd_vga k' = print_vga_fixed (last_six (hist @ [c])) 130 0 (kbd_vga k)"
proof -
  let ?ws = "last_six hist"
  have s: "dbg_s k = ?ws @ 0 # drop (dbg_r k + 1) (dbg_s k)"
    using ok append_take_drop_id [of "dbg_r k + 1" "dbg_s k"] unfolding window_ok_def by (metis append.assoc append_Cons append_Nil)
  define rest where "rest = drop (dbg_r k + 1) (dbg_s k)"
  have s: "dbg_s k = ?ws @ 0 # rest" using s by (simp add: rest_def)
  have r: "dbg_r k = length ?ws" "length (dbg_s k) = 7" "0 \<notin> set hist" using ok by (simp_all add: window_ok_def)
  have l6: "length ?ws \<le> 6" by (simp add: length_last_six)
  have nz: "0 \<notin> set (last_six (hist @ [c]))" using set_last_six [of "hist @ [c]"] r(3) c by auto
  obtain rest' where upd: "(if dbg_r k = 6
       then do { s \<leftarrow> shift_window (dbg_s k); s \<leftarrow> aput s 5 c; Some (k\<lparr>dbg_s := s\<rparr>) }
       else do { s \<leftarrow> aput (dbg_s k) (dbg_r k) c; s \<leftarrow> aput s (dbg_r k + 1) 0;
                 Some (k\<lparr>dbg_s := s, dbg_r := dbg_r k + 1\<rparr>) }) =
       Some (k\<lparr>dbg_s := last_six (hist @ [c]) @ 0 # rest', dbg_r := length (last_six (hist @ [c]))\<rparr>)"
       "length (last_six (hist @ [c]) @ 0 # rest') = 7"
  proof (cases "length ?ws = 6")
    case True
    then obtain a1 a2 a3 a4 a5 a6 where w: "?ws = [a1, a2, a3, a4, a5, a6]" using six by blast
    then have "rest = []" using s r(2) by simp
    then have "dbg_s k = [a1, a2, a3, a4, a5, a6, 0]" using s w by simp
    then show ?thesis using that [of "[]"] r(1) w by (simp add: shift_window_six last_six_snoc)
  next
    case False
    then have "rest \<noteq> []" using s r(2) l6 by auto
    then obtain x xs where x: "rest = x # xs" by (cases rest) auto
    have "aput (dbg_s k) (dbg_r k) c = Some (?ws @ c # x # xs)" using s x r(1) by simp
    moreover have "aput (?ws @ c # x # xs) (dbg_r k + 1) 0 = Some (?ws @ c # 0 # xs)"
      using aput_append [of "?ws @ [c]" "dbg_r k + 1" x xs 0] r(1) by simp
    ultimately show ?thesis using that [of xs] False r(1,2) s x by (simp add: last_six_snoc)
  qed
  have "strlen (last_six (hist @ [c]) @ 0 # rest') 0 = Some (length (last_six (hist @ [c])))"
    using strlen_cstr [OF cstrI [OF nz, of "[]" 0 rest']] by simp
  then have "show_key c k = Some (k\<lparr>dbg_s := last_six (hist @ [c]) @ 0 # rest',
     dbg_r := length (last_six (hist @ [c])), kbd_vga := print_vga_fixed (last_six (hist @ [c])) 130 0 (kbd_vga k)\<rparr>)"
    unfolding show_key_def upd(1) by simp
  then show ?thesis using upd(2) r(3) c by (simp add: window_ok_def)
qed

section \<open>Runs of the handler\<close>

fun irq_run :: "u8 list \<Rightarrow> keyboard \<Rightarrow> (u8 list \<times> keyboard) option" where
  "irq_run [] k = Some ([], k)"
| "irq_run (c # cs) k =
     do { (x, k) \<leftarrow> keyboard_handle_interrupt c k; (xs, k) \<leftarrow> irq_run cs k; Some (x # xs, k) }"

definition kbd_decodable :: "u8 \<Rightarrow> bool" where
  "kbd_decodable c \<longleftrightarrow> c \<le> 0x76 \<or> c = SC_E0 \<or> c = SC_E1 \<or> c = SC_BREAK"

text \<open>The cells of the window: row 0, byte columns 130 to 141.\<close>

definition window_cells :: "u32 set" where
  "window_cells = {VIDEO_VIRT_BUFFER + 130 + of_nat (2 * i) |i. i < 6}"

text \<open>The window shows the characters \<open>ws\<close>, white on black, and behind them what was there at the start.\<close>

definition window_shows :: "u8 list \<Rightarrow> (u32 \<Rightarrow> u16) \<Rightarrow> (u32 \<Rightarrow> u16) \<Rightarrow> bool" where
  "window_shows ws before now \<longleftrightarrow>
     (\<forall>i < 6. now (VIDEO_VIRT_BUFFER + 130 + of_nat (2 * i)) =
        (if i < length ws then vga_cell (ws ! i) else before (VIDEO_VIRT_BUFFER + 130 + of_nat (2 * i))))"

lemma window_printed:
  assumes "length ws \<le> 6"
  shows "a \<notin> window_cells \<Longrightarrow> vmem (print_vga_fixed ws 130 0 v) a = vmem v a"
    "window_shows us b (vmem v) \<Longrightarrow> length us \<le> length ws \<Longrightarrow> window_shows ws b (vmem (print_vga_fixed ws 130 0 v))"
proof -
  have p: "\<forall>i < length ws. vmem (print_vga_fixed ws 130 0 v) (VIDEO_VIRT_BUFFER + 130 + of_nat (2 * i)) = vga_cell (ws ! i)"
    "\<forall>a. (\<forall>i < length ws. a \<noteq> VIDEO_VIRT_BUFFER + 130 + of_nat (2 * i)) \<longrightarrow> vmem (print_vga_fixed ws 130 0 v) a = vmem v a"
    using print_fixed_text [of 130 ws 0 "VIDEO_VIRT_BUFFER + 130" v] assms by (simp_all add: print_vga_fixed_def)
  then show "vmem (print_vga_fixed ws 130 0 v) a = vmem v a" if "a \<notin> window_cells" for a
    using that assms unfolding window_cells_def by fastforce
  have ne: "VIDEO_VIRT_BUFFER + 130 + of_nat (2 * i) \<noteq> VIDEO_VIRT_BUFFER + 130 + of_nat (2 * j)" if "i < 6" "j < 6" "i \<noteq> j" for i j
  proof
    assume "VIDEO_VIRT_BUFFER + 130 + of_nat (2 * i) = VIDEO_VIRT_BUFFER + 130 + of_nat (2 * j)"
    then have "unat (of_nat (2 * i) :: u32) = unat (of_nat (2 * j) :: u32)" by simp
    then show False using that by (simp add: unat_of_nat del: of_nat_mult)
  qed
  assume us: "window_shows us b (vmem v)" "length us \<le> length ws"
  have "vmem (print_vga_fixed ws 130 0 v) (VIDEO_VIRT_BUFFER + 130 + of_nat (2 * i)) =
      (if i < length ws then vga_cell (ws ! i) else b (VIDEO_VIRT_BUFFER + 130 + of_nat (2 * i)))" if i: "i < 6" for i
  proof (cases "i < length ws")
    case True
    then show ?thesis using p(1) by simp
  next
    case False
    then have "\<forall>j < length ws. VIDEO_VIRT_BUFFER + 130 + of_nat (2 * i) \<noteq> VIDEO_VIRT_BUFFER + 130 + of_nat (2 * j)"
      using ne [OF i] assms by fastforce
    then have "vmem (print_vga_fixed ws 130 0 v) (VIDEO_VIRT_BUFFER + 130 + of_nat (2 * i)) = vmem v (VIDEO_VIRT_BUFFER + 130 + of_nat (2 * i))"
      using p(2) by blast
    then show ?thesis using us False i by (simp add: window_shows_def)
  qed
  then show "window_shows ws b (vmem (print_vga_fixed ws 130 0 v))" unfolding window_shows_def by blast
qed

lemma decodable_runs: "kbd_decodable c \<Longrightarrow> \<exists>x st'. kbd_process_scan_code c st = Some (x, st')"
  by (auto simp: kbd_decodable_def kbd_process_scan_code_def kbd_switch_def table_access Let_def)

lemma put_wf_ex: "rb_wf rb \<Longrightarrow> \<exists>c rb'. ring_buffer_put_elem e rb = Some (c, rb') \<and> rb_wf rb'"
  using put_total [of rb e] put_wf(1) by blast

lemma handler_step:
  assumes "kbd_decodable c" and "rb_wf (ring_buffer_kbd k)" and "window_ok hist k"
  shows "\<exists>x st' k'. kbd_process_scan_code c (kbd_state k) = Some (x, st') \<and>
     keyboard_handle_interrupt c k = Some (x, k') \<and> kbd_state k' = st' \<and> rb_wf (ring_buffer_kbd k') \<and>
     window_ok (hist @ filter printable [x]) k' \<and>
     (\<forall>a. a \<notin> window_cells \<longrightarrow> vmem (kbd_vga k') a = vmem (kbd_vga k) a) \<and>
     (\<forall>b. window_shows (last_six hist) b (vmem (kbd_vga k)) \<longrightarrow>
        window_shows (last_six (hist @ filter printable [x])) b (vmem (kbd_vga k')))"
proof -
  obtain x st' where d: "kbd_process_scan_code c (kbd_state k) = Some (x, st')"
    using decodable_runs [OF assms(1)] by blast
  obtain rb1 where rb1: "(if SPECIAL_KEY_CODE_START \<le> x
      then do { (_, rb) \<leftarrow> ring_buffer_put_elem 0 (ring_buffer_kbd k); Some rb }
      else Some (ring_buffer_kbd k)) = Some rb1" "rb_wf rb1"
    using put_wf_ex [OF assms(2), of 0] assms(2) by (cases "SPECIAL_KEY_CODE_START \<le> x") auto
  obtain c2 rb2 where rb2: "ring_buffer_put_elem x rb1 = Some (c2, rb2)" "rb_wf rb2"
    using put_wf_ex [OF rb1(2)] by blast
  let ?k = "k\<lparr>kbd_state := st', ring_buffer_kbd := rb2\<rparr>"
  have ok: "window_ok hist ?k" using assms(3) by (auto simp: window_ok_def)
  show ?thesis
  proof (cases "printable x")
    case True
    then have "x \<noteq> 0" by (auto simp: printable_def)
    obtain k' where k': "show_key x ?k = Some k'" "window_ok (hist @ [x]) k'" "kbd_state k' = st'"
      "ring_buffer_kbd k' = rb2" "kbd_vga k' = print_vga_fixed (last_six (hist @ [x])) 130 0 (kbd_vga k)"
      using show_key_window [OF ok \<open>x \<noteq> 0\<close>] by auto
    have l: "length (last_six (hist @ [x])) \<le> 6" "length (last_six hist) \<le> length (last_six (hist @ [x]))"
      by (simp_all add: length_last_six)
    have "vmem (kbd_vga k') a = vmem (kbd_vga k) a" if "a \<notin> window_cells" for a
      unfolding k'(5) by (rule window_printed(1) [OF l(1) that])
    moreover have "window_shows (last_six (hist @ [x])) b (vmem (kbd_vga k'))" if "window_shows (last_six hist) b (vmem (kbd_vga k))" for b
      unfolding k'(5) by (rule window_printed(2) [OF l(1) that l(2)])
    ultimately show ?thesis
      using d rb1(1) rb2 k' True by (auto simp: keyboard_handle_interrupt_def printable_def Let_def)
  next
    case False
    then show ?thesis
      using d rb1(1) rb2 ok by (auto simp: keyboard_handle_interrupt_def printable_def Let_def)
  qed
qed

lemma irq_run_ok:
  "\<forall>c \<in> set cs. kbd_decodable c \<Longrightarrow> rb_wf (ring_buffer_kbd k) \<Longrightarrow> window_ok hist k \<Longrightarrow>
   \<exists>xs k'. irq_run cs k = Some (xs, k') \<and> kbd_run cs (kbd_state k) = Some (xs, kbd_state k') \<and>
     rb_wf (ring_buffer_kbd k') \<and> window_ok (hist @ filter printable xs) k' \<and>
     (\<forall>a. a \<notin> window_cells \<longrightarrow> vmem (kbd_vga k') a = vmem (kbd_vga k) a) \<and>
     (\<forall>b. window_shows (last_six hist) b (vmem (kbd_vga k)) \<longrightarrow>
        window_shows (last_six (hist @ filter printable xs)) b (vmem (kbd_vga k')))"
proof (induction cs arbitrary: k hist)
  case (Cons c cs)
  obtain x st1 k1 where s: "kbd_process_scan_code c (kbd_state k) = Some (x, st1)"
    "keyboard_handle_interrupt c k = Some (x, k1)" "kbd_state k1 = st1" "rb_wf (ring_buffer_kbd k1)"
    "window_ok (hist @ filter printable [x]) k1" "\<forall>a. a \<notin> window_cells \<longrightarrow> vmem (kbd_vga k1) a = vmem (kbd_vga k) a"
    "\<forall>b. window_shows (last_six hist) b (vmem (kbd_vga k)) \<longrightarrow>
        window_shows (last_six (hist @ filter printable [x])) b (vmem (kbd_vga k1))"
    using handler_step [of c k hist] Cons.prems by auto
  then obtain xs k2 where "irq_run cs k1 = Some (xs, k2)" "kbd_run cs (kbd_state k1) = Some (xs, kbd_state k2)"
    "rb_wf (ring_buffer_kbd k2)" "window_ok ((hist @ filter printable [x]) @ filter printable xs) k2"
    "\<forall>a. a \<notin> window_cells \<longrightarrow> vmem (kbd_vga k2) a = vmem (kbd_vga k1) a"
    "\<forall>b. window_shows (last_six (hist @ filter printable [x])) b (vmem (kbd_vga k1)) \<longrightarrow>
        window_shows (last_six ((hist @ filter printable [x]) @ filter printable xs)) b (vmem (kbd_vga k2))"
    using Cons.IH [OF _ s(4,5)] Cons.prems(1) by auto
  then show ?case using s by (auto split: if_splits)
qed simp

text \<open>(C23) The interrupt handler: after \<^verbatim>\<open>keyboard_init\<close>, for every sequence of decodable scan codes
  the handler returns and stays inside all its buffers, reports what the decoder reports, and keeps the last six characters between
  0 and z that were typed in its buffer; the six window cells of the screen show exactly these characters, white on black, from the
  left, the cells not yet used are as they were, and no other cell of the screen has changed.\<close>

theorem keyboard_handler_correct:
  assumes "keyboard_init buf k0 = Some k" and "length buf = 10"
    and "dbg_r k0 = 0" and "dbg_s k0 = replicate 7 0" and "\<forall>c \<in> set cs. kbd_decodable c"
  shows "\<exists>xs k'. irq_run cs k = Some (xs, k') \<and> kbd_run cs zero_state = Some (xs, kbd_state k') \<and>
     take (dbg_r k') (dbg_s k') = last_six (filter printable xs) \<and>
     window_shows (last_six (filter printable xs)) (vmem (kbd_vga k0)) (vmem (kbd_vga k')) \<and>
     (\<forall>a. a \<notin> window_cells \<longrightarrow> vmem (kbd_vga k') a = vmem (kbd_vga k0) a)"
proof -
  have k: "kbd_state k = zero_state" "dbg_r k = 0" "dbg_s k = replicate 7 0" "kbd_vga k = kbd_vga k0"
    "rb_wf (ring_buffer_kbd k)"
    using assms(1-4) by (auto simp: keyboard_init_def ring_buffer_init_def rb_wf_def)
  have "window_ok [] k" using k by (simp add: window_ok_def last_six_def eval_nat_numeral)
  from irq_run_ok [OF assms(5) k(5) this] obtain xs k' where r: "irq_run cs k = Some (xs, k')"
    "kbd_run cs zero_state = Some (xs, kbd_state k')" "window_ok (filter printable xs) k'"
    "\<forall>a. a \<notin> window_cells \<longrightarrow> vmem (kbd_vga k') a = vmem (kbd_vga k0) a"
    "window_shows (last_six []) (vmem (kbd_vga k0)) (vmem (kbd_vga k0)) \<longrightarrow>
       window_shows (last_six (filter printable xs)) (vmem (kbd_vga k0)) (vmem (kbd_vga k'))"
    using k(1,4) by auto
  have start: "window_shows (last_six []) (vmem (kbd_vga k0)) (vmem (kbd_vga k0))" by (simp add: window_shows_def last_six_def)
  have "take (dbg_r k') (dbg_s k') = take (dbg_r k') (take (dbg_r k' + 1) (dbg_s k'))" by simp
  also have "\<dots> = last_six (filter printable xs)" using r(3) by (auto simp: window_ok_def simp del: take_take)
  finally show ?thesis using r start by blast
qed

definition idle_keyboard :: keyboard where
  "idle_keyboard = \<lparr>kbd_state = zero_state\<lparr>caps := True\<rparr>, ring_buffer_kbd = fresh 1, dbg_r = 0,
     dbg_s = replicate 7 0, kbd_vga = blank, spinlock_kbd = 1\<rparr>"

theorem keyboard_handler_correct_witness:
  "\<exists>k xs k'. keyboard_init (replicate 10 7) idle_keyboard = Some k \<and> irq_run [0x1c, 0xf0, 0x1c, 0x32] k = Some (xs, k') \<and>
     xs = [97, 0, 0, 98] \<and> take (dbg_r k') (dbg_s k') = [97, 98] \<and>
     vmem (kbd_vga k') 0x800b8082 = 0xf61 \<and> vmem (kbd_vga k') 0x800b8084 = 0xf62 \<and> vmem (kbd_vga k') 0x800b8086 = vmem blank 0x800b8086"
proof -
  have d: "\<forall>c \<in> set [0x1c, 0xf0, 0x1c, 0x32]. kbd_decodable c" by (simp add: kbd_decodable_def scan_codes)
  obtain k where k: "keyboard_init (replicate 10 7) idle_keyboard = Some k"
    by (simp add: keyboard_init_def ring_buffer_init_def)
  from keyboard_handler_correct [OF k _ _ _ d] obtain xs k' where r: "irq_run [0x1c, 0xf0, 0x1c, 0x32] k = Some (xs, k')"
    "kbd_run [0x1c, 0xf0, 0x1c, 0x32] zero_state = Some (xs, kbd_state k')"
    "take (dbg_r k') (dbg_s k') = last_six (filter printable xs)"
    "window_shows (last_six (filter printable xs)) (vmem blank) (vmem (kbd_vga k'))"
    by (auto simp: idle_keyboard_def)
  have "xs = [97, 0, 0, 98]"
    using r(2) by (simp add: kbd_process_scan_code_def kbd_switch_def zero_state_def scan_codes
        conversion_scan_ascii_def aget_def)
  then have w: "last_six (filter printable xs) = [97, 98]" by (simp add: last_six_def printable_def)
  have c: "vga_cell 97 = 0xf61" "vga_cell 98 = 0xf62" by (simp_all add: vga_cell_def)
  have "vmem (kbd_vga k') 0x800b8082 = 0xf61" "vmem (kbd_vga k') 0x800b8084 = 0xf62" "vmem (kbd_vga k') 0x800b8086 = vmem blank 0x800b8086"
    using r(4) [unfolded w window_shows_def, rule_format, of 0] r(4) [unfolded w window_shows_def, rule_format, of 1]
      r(4) [unfolded w window_shows_def, rule_format, of 2] c by (simp_all add: VIDEO_VIRT_BUFFER_val)
  then show ?thesis using k r(1,3) w \<open>xs = [97, 0, 0, 98]\<close> by auto
qed

end
