(* ===== verification/Printf.thy ===== *)
theory Printf
  imports Vga
begin

text \<open>
  Formatted output: \<^verbatim>\<open>sprintf\<close> of \<^verbatim>\<open>util.c\<close> and \<^verbatim>\<open>printf\<close> of \<^verbatim>\<open>debug.c\<close>. The two functions
  convert in the same way and differ in where the characters go, so the conversion of one
  item is a definition of its own. The argument area is a list of bytes that \<^verbatim>\<open>va_arg\<close> walks by the size of the
  type; a string argument is an address, and \<open>mem\<close> gives the characters before its zero. The local
  \<^verbatim>\<open>str\<close> holds anything at the start.
\<close>

section \<open>Arguments\<close>

fun le_value :: "u8 list \<Rightarrow> nat" where
  "le_value [] = 0"
| "le_value (b # bs) = unat b + 256 * le_value bs"

definition va_arg :: "nat \<Rightarrow> u8 list \<Rightarrow> nat \<Rightarrow> (nat \<times> nat) option" where
  "va_arg size_of args a =
     (if a + size_of \<le> length args then Some (le_value (take size_of (drop a args)), a + size_of) else None)"

section \<open>One conversion\<close>

text \<open>
  \<open>fp\<close> is the position of \<open>p\<close> in the format, \<open>ap\<close> of \<^verbatim>\<open>list\<close> in the arguments;
  \<open>ptr_text\<close> is what \<^verbatim>\<open>ptr\<close> points to up to the zero, \<^const>\<open>None\<close> while it is not initialised.
\<close>

record fmt_state =
  fp :: nat
  ap :: nat
  fstr :: "u8 list"
  ptr_text :: "u8 list option"

definition at_str :: "fmt_state \<Rightarrow> fmt_state option" where
  "at_str st = do { l \<leftarrow> strlen (fstr st) 0; Some (st\<lparr>ptr_text := Some (take l (fstr st))\<rparr>) }"

definition format_number ::
  "u8 list \<Rightarrow> u8 list \<Rightarrow> (u32 \<Rightarrow> u8 list option) \<Rightarrow> u8 \<Rightarrow> fmt_state \<Rightarrow> fmt_state option"
where
  "format_number fmt args mem c st =
     (if c = 105 \<or> c = 100 \<or> c = 120 then do {
        (v, a) \<leftarrow> va_arg 4 args (ap st);
        s \<leftarrow> itoa_gen (of_nat v) 0 (if c = 120 then 16 else 10) False (fstr st);
        at_str (st\<lparr>ap := a, fstr := s\<rparr>)
      }
      else if c = 112 then do {
        (v, a) \<leftarrow> va_arg 4 args (ap st);
        s \<leftarrow> ptrtoa (of_nat v) 0 (fstr st);
        at_str (st\<lparr>ap := a, fstr := s\<rparr>)
      }
      else if c = 117 then do {
        (v, a) \<leftarrow> va_arg 4 args (ap st);
        s \<leftarrow> itoa_gen (of_nat v) 0 10 True (fstr st);
        at_str (st\<lparr>ap := a, fstr := s\<rparr>)
      }
      else if c = 108 then do {
        d \<leftarrow> aget fmt (fp st + 1);
        if d = 108 then do {
          let st = st\<lparr>fp := fp st + 1\<rparr>;
          (v, a) \<leftarrow> va_arg 8 args (ap st);
          e \<leftarrow> aget fmt (fp st + 1);
          if e = 120 then do {
            s \<leftarrow> lltoa_gen False (of_nat v) 0 16 True (fstr st);
            at_str (st\<lparr>fp := fp st + 1, ap := a, fstr := s\<rparr>)
          }
          else do {
            s \<leftarrow> lltoa_gen False (of_nat v) 0 10 False (fstr st);
            at_str (st\<lparr>ap := a, fstr := s\<rparr>)
          }
        }
        else do {
          (v, a) \<leftarrow> va_arg 4 args (ap st);
          s \<leftarrow> itoa_gen (of_nat v) 0 (if d = 120 then 16 else 10) False (fstr st);
          at_str (st\<lparr>fp := (if d = 120 then fp st + 1 else fp st), ap := a, fstr := s\<rparr>)
        }
      }
      else if c = 115 then do {
        (v, a) \<leftarrow> va_arg 4 args (ap st);
        s \<leftarrow> mem (of_nat v);
        Some (st\<lparr>ap := a, ptr_text := Some s\<rparr>)
      }
      else Some st)"

text \<open>One turn of \<^verbatim>\<open>while(*p)\<close> for the character \<open>c\<close> at \<open>p\<close>: the characters written and the next state.\<close>

definition format_step ::
  "u8 list \<Rightarrow> u8 list \<Rightarrow> (u32 \<Rightarrow> u8 list option) \<Rightarrow> u8 \<Rightarrow> fmt_state \<Rightarrow> (u8 list \<times> fmt_state) option"
where
  "format_step fmt args mem c st =
     (if c = 37 then do {
        let st = st\<lparr>fp := fp st + 1\<rparr>;
        d \<leftarrow> aget fmt (fp st);
        if d = 37 \<or> d = 0 then Some ([37], st\<lparr>fp := fp st + 1\<rparr>)
        else if d = 99 then do {
          (v, a) \<leftarrow> va_arg 1 args (ap st);
          Some ([of_nat v], st\<lparr>fp := fp st + 1, ap := a\<rparr>)
        }
        else do {
          st \<leftarrow> format_number fmt args mem d st;
          s \<leftarrow> ptr_text st;
          Some (s, st\<lparr>fp := fp st + 1, ptr_text := Some []\<rparr>)
        }
      }
      else Some ([c], st\<lparr>fp := fp st + 1\<rparr>))"

lemma at_str_fp: "at_str st = Some st' \<Longrightarrow> fp st' = fp st"
  by (auto simp: at_str_def bind_eq_Some_conv)

lemma format_number_fp: "format_number fmt args mem c st = Some st' \<Longrightarrow> fp st \<le> fp st'"
  by (auto simp: format_number_def bind_eq_Some_conv Let_def dest!: at_str_fp split: if_splits)

lemma format_step_fp: "format_step fmt args mem c st = Some (out, st') \<Longrightarrow> fp st < fp st'"
  by (auto simp: format_step_def bind_eq_Some_conv Let_def dest!: format_number_fp split: if_splits)

section \<open>sprintf\<close>

fun put_all :: "u8 list \<Rightarrow> nat \<Rightarrow> u8 list \<Rightarrow> u8 list option" where
  "put_all [] b buf = Some buf"
| "put_all (c # cs) b buf = do { buf \<leftarrow> aput buf b c; put_all cs (b + 1) buf }"

function sprintf_loop ::
  "u8 list \<Rightarrow> u8 list \<Rightarrow> (u32 \<Rightarrow> u8 list option) \<Rightarrow> fmt_state \<Rightarrow> nat \<Rightarrow> u8 list \<Rightarrow> (nat \<times> u8 list) option"
where
  "sprintf_loop fmt args mem st b buf =
     (case aget fmt (fp st) of
        None \<Rightarrow> None
      | Some c \<Rightarrow>
          if c = 0 then Some (b, buf)
          else (case format_step fmt args mem c st of
                  None \<Rightarrow> None
                | Some (out, st') \<Rightarrow>
                    (case put_all out b buf of
                       None \<Rightarrow> None
                     | Some buf' \<Rightarrow> sprintf_loop fmt args mem st' (b + length out) buf')))"
  by pat_completeness auto
termination
  by (relation "measure (\<lambda>(fmt, _, _, st, _, _). length fmt - fp st)")
    (auto simp: aget_eq_Some dest!: format_step_fp intro: diff_less_mono2)

declare sprintf_loop.simps [simp del]

definition sprintf ::
  "u8 list \<Rightarrow> u8 list \<Rightarrow> (u32 \<Rightarrow> u8 list option) \<Rightarrow> u8 list \<Rightarrow> nat \<Rightarrow> u8 list \<Rightarrow> u8 list option"
where
  "sprintf fmt args mem str b buf =
     do { (b, buf) \<leftarrow> sprintf_loop fmt args mem \<lparr>fp = 0, ap = 0, fstr = str, ptr_text = None\<rparr> b buf;
          aput buf b 0 }"

section \<open>printf\<close>

text \<open>
  The debug console: \<open>dbg_page\<close> is the memory from \<^verbatim>\<open>kernel_debug_buffer\<close> on, one page, \<open>cur_dbg\<close> the offset
  of \<^verbatim>\<open>cur_debug_mem\<close> in it. A write past the page is \<^const>\<open>None\<close>.
\<close>

record debug =
  dbg_page :: "u8 list"
  cur_dbg :: nat
  lock_debug_mem :: u32
  debug_level_for_vga :: int
  dbg_vga :: vga

definition DEBUG_BUFFER_SIZE :: nat where "DEBUG_BUFFER_SIZE = 4096"
definition KERNEL_DEBUG :: int where "KERNEL_DEBUG = 1"
definition KERNEL_INFO :: int where "KERNEL_INFO = 2"

definition debug_init :: "u8 list \<Rightarrow> debug \<Rightarrow> debug" where
  "debug_init page d = d\<lparr>dbg_page := page, cur_dbg := 0, debug_level_for_vga := KERNEL_DEBUG, lock_debug_mem := 0\<rparr>"

definition show_debug :: "int \<Rightarrow> debug \<Rightarrow> debug option" where
  "show_debug level d =
     (if debug_level_for_vga d \<le> level
      then do {
        l \<leftarrow> strlen (dbg_page d) (cur_dbg d);
        v \<leftarrow> print_vga (take l (drop (cur_dbg d) (dbg_page d))) (dbg_vga d);
        Some (d\<lparr>dbg_vga := v\<rparr>)
      }
      else Some d)"

definition write_to_buf :: "int \<Rightarrow> nat \<Rightarrow> u8 \<Rightarrow> debug \<Rightarrow> (nat \<times> debug) option" where
  "write_to_buf level addr ch d =
     do {
       (addr, d) \<leftarrow>
         (if addr = DEBUG_BUFFER_SIZE - 1
          then do {
            page \<leftarrow> aput (dbg_page d) (addr + 1) 0;
            d \<leftarrow> show_debug level (d\<lparr>dbg_page := page\<rparr>);
            Some (0, d\<lparr>cur_dbg := 0\<rparr>)
          }
          else Some (addr, d));
       page \<leftarrow> aput (dbg_page d) addr ch;
       Some (addr + 1, d\<lparr>dbg_page := page\<rparr>)
     }"

fun write_all :: "int \<Rightarrow> u8 list \<Rightarrow> nat \<Rightarrow> debug \<Rightarrow> (nat \<times> debug) option" where
  "write_all level [] addr d = Some (addr, d)"
| "write_all level (c # cs) addr d =
     do { (addr, d) \<leftarrow> write_to_buf level addr c d; write_all level cs addr d }"

function printf_loop ::
  "int \<Rightarrow> u8 list \<Rightarrow> u8 list \<Rightarrow> (u32 \<Rightarrow> u8 list option) \<Rightarrow> fmt_state \<Rightarrow> nat \<Rightarrow> debug \<Rightarrow> (nat \<times> debug) option"
where
  "printf_loop level fmt args mem st buf d =
     (case aget fmt (fp st) of
        None \<Rightarrow> None
      | Some c \<Rightarrow>
          if c = 0 then Some (buf, d)
          else (case format_step fmt args mem c st of
                  None \<Rightarrow> None
                | Some (out, st') \<Rightarrow>
                    (case write_all level out buf d of
                       None \<Rightarrow> None
                     | Some (buf', d') \<Rightarrow> printf_loop level fmt args mem st' buf' d')))"
  by pat_completeness auto
termination
  by (relation "measure (\<lambda>(_, fmt, _, _, st, _, _). length fmt - fp st)")
    (auto simp: aget_eq_Some dest!: format_step_fp intro: diff_less_mono2)

declare printf_loop.simps [simp del]

definition printf ::
  "int \<Rightarrow> u8 list \<Rightarrow> u8 list \<Rightarrow> (u32 \<Rightarrow> u8 list option) \<Rightarrow> u8 list \<Rightarrow> debug \<Rightarrow> debug option"
where
  "printf level fmt args mem str d =
     do {
       l \<leftarrow> spinlock_lock (lock_debug_mem d);
       let d = d\<lparr>lock_debug_mem := l\<rparr>;
       (buf, d) \<leftarrow> printf_loop level fmt args mem \<lparr>fp = 0, ap = 0, fstr = str, ptr_text = None\<rparr> (cur_dbg d) d;
       (buf, d) \<leftarrow> write_to_buf level buf 0 d;
       d \<leftarrow> show_debug level d;
       Some (d\<lparr>cur_dbg := buf, lock_debug_mem := spinlock_unlock (lock_debug_mem d)\<rparr>)
     }"

end
