(* ===== verification/Printf_Props.thy ===== *)
theory Printf_Props
  imports Printf
begin

text \<open>
  What formatted output means: a format is a list of items, \<open>render\<close> is the text it stands for, and
  \<^verbatim>\<open>sprintf\<close> and \<^verbatim>\<open>printf\<close> write exactly that text. Two conversions the code does not do as
  intended are shown at the end.
\<close>

section \<open>Formats as lists of items\<close>

datatype item = Chr u8 | Percent | Dec u32 | Unsigned u32 | Hex u32 | LHex u32 | Ptr u32 | LLHex u64 | Str u32

fun le_bytes :: "nat \<Rightarrow> nat \<Rightarrow> u8 list" where
  "le_bytes 0 n = []"
| "le_bytes (Suc k) n = of_nat (n mod 256) # le_bytes k (n div 256)"

fun fmt_of :: "item \<Rightarrow> u8 list" where
  "fmt_of (Chr c) = [c]"
| "fmt_of Percent = [37, 37]"
| "fmt_of (Dec v) = [37, 100]"
| "fmt_of (Unsigned v) = [37, 117]"
| "fmt_of (Hex v) = [37, 120]"
| "fmt_of (LHex v) = [37, 108, 120]"
| "fmt_of (Ptr v) = [37, 112]"
| "fmt_of (LLHex v) = [37, 108, 108, 120]"
| "fmt_of (Str a) = [37, 115]"

fun arg_of :: "item \<Rightarrow> u8 list" where
  "arg_of (Chr c) = []"
| "arg_of Percent = []"
| "arg_of (Dec v) = le_bytes 4 (unat v)"
| "arg_of (Unsigned v) = le_bytes 4 (unat v)"
| "arg_of (Hex v) = le_bytes 4 (unat v)"
| "arg_of (LHex v) = le_bytes 4 (unat v)"
| "arg_of (Ptr v) = le_bytes 4 (unat v)"
| "arg_of (LLHex v) = le_bytes 8 (unat v)"
| "arg_of (Str a) = le_bytes 4 (unat a)"

fun render :: "(u32 \<Rightarrow> u8 list option) \<Rightarrow> item \<Rightarrow> u8 list" where
  "render mem (Chr c) = [c]"
| "render mem Percent = [37]"
| "render mem (Dec v) = itoa_text v 10 False"
| "render mem (Unsigned v) = itoa_text v 10 True"
| "render mem (Hex v) = text_of 16 (unat v)"
| "render mem (LHex v) = text_of 16 (unat v)"
| "render mem (Ptr v) = hex_field 8 (unat v)"
| "render mem (LLHex v) = hex_field 16 (unat v)"
| "render mem (Str a) = (case mem a of None \<Rightarrow> [] | Some s \<Rightarrow> s)"

fun item_ok :: "(u32 \<Rightarrow> u8 list option) \<Rightarrow> item \<Rightarrow> bool" where
  "item_ok mem (Chr c) = (c \<noteq> 0 \<and> c \<noteq> 37)"
| "item_ok mem (Str a) = (\<exists>s. mem a = Some s \<and> 0 \<notin> set s)"
| "item_ok mem _ = True"

definition fmt_string :: "item list \<Rightarrow> u8 list" where
  "fmt_string its = concat (map fmt_of its) @ [0]"

definition arg_bytes :: "item list \<Rightarrow> u8 list" where
  "arg_bytes its = concat (map arg_of its)"

definition rendered :: "(u32 \<Rightarrow> u8 list option) \<Rightarrow> item list \<Rightarrow> u8 list" where
  "rendered mem its = concat (map (render mem) its)"

section \<open>Arguments\<close>

lemma length_le_bytes [simp]: "length (le_bytes k n) = k"
  by (induction k arbitrary: n) simp_all

lemma le_value_bytes: "n < 256 ^ k \<Longrightarrow> le_value (le_bytes k n) = n"
proof (induction k arbitrary: n)
  case (Suc k)
  have "n div 256 < 256 ^ k" using Suc.prems by (simp add: less_mult_imp_div_less mult.commute)
  moreover have "unat (of_nat (n mod 256) :: u8) = n mod 256" by (simp add: unat_of_nat)
  ultimately show ?case using Suc.IH by simp
qed simp

lemma va_arg_bytes:
  assumes "n < 256 ^ k" and "length apre = a"
  shows "va_arg k (apre @ le_bytes k n @ apost) a = Some (n, a + k)"
  using assms le_value_bytes by (auto simp: va_arg_def)

lemma va_arg4: "length apre = a \<Longrightarrow> va_arg 4 (apre @ le_bytes 4 (unat v) @ apost) a = Some (unat v, a + 4)" for v :: u32
  using va_arg_bytes [of "unat v" 4] unsigned_less [of v] by simp

lemma va_arg8: "length apre = a \<Longrightarrow> va_arg 8 (apre @ le_bytes 8 (unat v) @ apost) a = Some (unat v, a + 8)" for v :: u64
  using va_arg_bytes [of "unat v" 8] unsigned_less [of v] by simp

section \<open>Conversions into the local buffer\<close>

lemma at_str_text:
  assumes "fstr st = s @ 0 # post" and "0 \<notin> set s"
  shows "at_str st = Some (st\<lparr>ptr_text := Some s\<rparr>)"
  using strlen_cstr [OF cstrI [of s "[]" 0 post]] assms by (simp add: at_str_def)

lemma itoa_text_length: "length (itoa_text v 10 ns) \<le> 11" "length (itoa_text v 16 ns) \<le> 11"
  using length_text(1) [of v] length_text(2) [of v] length_text(2) [of "- v"] by (auto simp: itoa_text_def)

lemma itoa_text_nonzero: "base = 10 \<or> base = 16 \<Longrightarrow> 0 \<notin> set (itoa_text v base ns)"
  using nonzero_text by (auto simp: itoa_text_def)

lemma itoa_str:
  assumes "length buf = 20" and "base = 10 \<or> base = 16"
  shows "\<exists>rest. itoa_gen v 0 base ns buf = Some (itoa_text v base ns @ 0 # rest) \<and>
     length (itoa_text v base ns @ 0 # rest) = 20"
proof -
  let ?t = "itoa_text v base ns"
  have l: "length ?t \<le> 11" using assms(2) itoa_text_length by auto
  have "length (take (Suc (length ?t)) buf) = Suc (length ?t)" using l assms(1) by simp
  then show ?thesis
    using itoa_gen_text [OF assms(2), of "take (Suc (length ?t)) buf" v ns "[]" "drop (Suc (length ?t)) buf"] l assms(1)
    by auto
qed

lemma ptrtoa_str:
  assumes "length buf = 20"
  shows "\<exists>rest. ptrtoa v 0 buf = Some (hex_field 8 (unat v) @ 0 # rest) \<and> length (hex_field 8 (unat v) @ 0 # rest) = 20"
  using ptrtoa_text [of "[]" 0 "take 9 buf" v "drop 9 buf"] assms length_text(1) [of v]
  by (auto simp: hex_field_def)

lemma lltoa_str:
  assumes "length buf = 20"
  shows "\<exists>rest. lltoa_gen False v 0 16 True buf = Some (hex_field 16 (unat v) @ 0 # rest) \<and>
     length (hex_field 16 (unat v) @ 0 # rest) = 20"
  using lltoa_hex [of "[]" 0 "take 17 buf" False v "drop 17 buf"] assms length_text64 [of v]
  by (auto simp: hex_field_def)


section \<open>One item\<close>

definition fmt_ready :: "nat \<Rightarrow> nat \<Rightarrow> fmt_state \<Rightarrow> bool" where
  "fmt_ready p a st \<longleftrightarrow> fp st = p \<and> ap st = a \<and> length (fstr st) = 20"

lemma hex_field_text_nonzero: "0 \<notin> set (hex_field n v)"
  by (rule hex_field_nonzero)

lemma number_ok:
  assumes st: "fmt_ready (Suc p) a st" and fmt: "fmt = pre @ 37 # cs @ post" "length pre = p"
    and args: "args = apre @ arg_of it @ apost" "length apre = a"
    and it: "fmt_of it = 37 # cs" "it \<noteq> Percent" "item_ok mem it"
  shows "\<exists>st'. format_number fmt args mem (hd cs) st = Some st' \<and> ptr_text st' = Some (render mem it) \<and>
     fmt_ready (p + length cs) (a + length (arg_of it)) st'"
proof -
  have len: "length (fstr st) = 20" "fp st = Suc p" "ap st = a" using st by (simp_all add: fmt_ready_def)
  have nth: "aget fmt (Suc (p + k)) = aget (cs @ post) k" for k
    using fmt by (simp add: aget_def nth_append)
  note va4 = va_arg4 [OF args(2)] and va8 = va_arg8 [OF args(2)]
  show ?thesis
  proof (cases it)
    case (Dec v)
    then show ?thesis
      using itoa_str [OF len(1), of 10 v False] va4 [of v] it args(1) len itoa_text_nonzero [of 10 v False]
      by (auto simp: format_number_def fmt_ready_def at_str_text)
  next
    case (Unsigned v)
    then show ?thesis
      using itoa_str [OF len(1), of 10 v True] va4 [of v] it args(1) len itoa_text_nonzero [of 10 v True]
      by (auto simp: format_number_def fmt_ready_def at_str_text)
  next
    case (Hex v)
    then show ?thesis
      using itoa_str [OF len(1), of 16 v False] va4 [of v] it args(1) len itoa_text_nonzero [of 16 v False]
      by (auto simp: format_number_def fmt_ready_def at_str_text itoa_text_def)
  next
    case (LHex v)
    then have "cs = [108, 120]" using it by simp
    moreover from this have "aget fmt (Suc (Suc p)) = Some 120" using nth [of 1] by (simp add: aget_def)
    ultimately show ?thesis
      using itoa_str [OF len(1), of 16 v False] va4 [of v] LHex args(1) len itoa_text_nonzero [of 16 v False]
      by (auto simp: format_number_def fmt_ready_def at_str_text itoa_text_def)
  next
    case (Ptr v)
    then show ?thesis
      using ptrtoa_str [OF len(1), of v] va4 [of v] it args(1) len hex_field_nonzero
      by (auto simp: format_number_def fmt_ready_def at_str_text)
  next
    case (LLHex v)
    then have "cs = [108, 108, 120]" using it by simp
    moreover from this have "aget fmt (Suc (Suc p)) = Some 108" "aget fmt (Suc (Suc (Suc p))) = Some 120"
      using nth [of 1] nth [of 2] by (simp_all add: aget_def numeral_2_eq_2 numeral_3_eq_3)
    ultimately show ?thesis
      using lltoa_str [OF len(1), of v] va8 [of v] LLHex args(1) len hex_field_nonzero
      by (auto simp: format_number_def fmt_ready_def at_str_text Let_def)
  next
    case (Str b)
    then obtain s where "mem b = Some s" using it by auto
    then show ?thesis
      using va4 [of b] Str it args(1) len
      by (auto simp: format_number_def fmt_ready_def)
  qed (use it in simp_all)
qed

lemma step_ok:
  assumes st: "fmt_ready p a st" and fmt: "fmt = pre @ fmt_of it @ post" "length pre = p"
    and args: "args = apre @ arg_of it @ apost" "length apre = a" and it: "item_ok mem it"
  shows "\<exists>st'. format_step fmt args mem (hd (fmt_of it)) st = Some (render mem it, st') \<and>
     fmt_ready (p + length (fmt_of it)) (a + length (arg_of it)) st'"
proof (cases "\<exists>c. it = Chr c \<or> it = Percent")
  case True
  have "aget fmt (Suc p) = Some 37" if "it = Percent"
    using fmt that by (simp add: aget_def nth_append)
  then show ?thesis using True it st by (auto simp: format_step_def fmt_ready_def)
next
  case False
  then obtain cs where cs: "fmt_of it = 37 # cs" "cs \<noteq> []" "hd cs \<notin> {0, 37, 99}" by (cases it) auto
  define st1 where "st1 = st\<lparr>fp := Suc p\<rparr>"
  have st1: "fmt_ready (Suc p) a st1" using st by (simp add: st1_def fmt_ready_def)
  have f: "fmt = pre @ 37 # cs @ post" using fmt(1) cs(1) by simp
  obtain st' where st': "format_number fmt args mem (hd cs) st1 = Some st'" "ptr_text st' = Some (render mem it)"
      "fmt_ready (p + length cs) (a + length (arg_of it)) st'"
    using number_ok [OF st1 f fmt(2) args cs(1) _ it] False by blast
  have "aget fmt (Suc p) = Some (hd cs)" using f fmt(2) cs(2) by (cases cs) (simp_all add: aget_def nth_append)
  moreover have "st\<lparr>fp := fp st + 1\<rparr> = st1" "fp st1 = Suc p" using st by (simp_all add: fmt_ready_def st1_def)
  ultimately show ?thesis
    using st' cs by (simp add: format_step_def Let_def) (simp add: fmt_ready_def)
qed

lemma fmt_of_first: "fmt_of it \<noteq> []"
  by (cases it) auto

lemma first_char: "item_ok mem it \<Longrightarrow> hd (fmt_of it) \<noteq> 0"
  by (cases it) auto

section \<open>sprintf\<close>

lemma put_all_text:
  "length xs = length cs \<Longrightarrow> put_all cs (length pre) (pre @ xs @ post) = Some (pre @ cs @ post)"
proof (induction cs arbitrary: pre xs)
  case (Cons c cs)
  then obtain y ys where xs: "xs = y # ys" by (cases xs) auto
  have "put_all cs (length (pre @ [c])) ((pre @ [c]) @ ys @ post) = Some ((pre @ [c]) @ cs @ post)"
    using Cons.prems xs by (intro Cons.IH) simp
  then show ?case using xs by simp
qed simp

lemma sprintf_loop_text:
  "fmt_ready (length pre) (length apre) st \<Longrightarrow> fmt = pre @ concat (map fmt_of its) @ [0] \<Longrightarrow>
   args = apre @ concat (map arg_of its) \<Longrightarrow> \<forall>it \<in> set its. item_ok mem it \<Longrightarrow>
   length xs = length (rendered mem its) \<Longrightarrow>
   sprintf_loop fmt args mem st (length bpre) (bpre @ xs @ bpost) =
     Some (length bpre + length (rendered mem its), bpre @ rendered mem its @ bpost)"
proof (induction its arbitrary: pre apre st xs bpre)
  case Nil
  then show ?case by (subst sprintf_loop.simps) (simp add: rendered_def fmt_ready_def aget_def)
next
  case (Cons it its)
  let ?r = "render mem it"
  obtain ys zs where xs: "xs = ys @ zs" "length ys = length ?r"
    using Cons.prems(5) split_at [of "length ?r" xs] by (auto simp: rendered_def)
  have ok: "item_ok mem it" using Cons.prems(4) by simp
  have f: "fmt = pre @ fmt_of it @ concat (map fmt_of its) @ [0]" "args = apre @ arg_of it @ concat (map arg_of its)"
    using Cons.prems(2,3) by simp_all
  obtain st' where st': "format_step fmt args mem (hd (fmt_of it)) st = Some (?r, st')"
      "fmt_ready (length pre + length (fmt_of it)) (length apre + length (arg_of it)) st'"
    using step_ok [OF Cons.prems(1) f(1) refl f(2) refl ok] by blast
  have c: "aget fmt (fp st) = Some (hd (fmt_of it))"
    using f(1) fmt_of_first [of it] Cons.prems(1) by (cases "fmt_of it") (simp_all add: fmt_ready_def aget_def nth_append)
  have p: "put_all ?r (length bpre) (bpre @ xs @ bpost) = Some (bpre @ ?r @ zs @ bpost)"
    using put_all_text [of ys ?r bpre "zs @ bpost"] xs by simp
  have "sprintf_loop fmt args mem st' (length (bpre @ ?r)) ((bpre @ ?r) @ zs @ bpost) =
      Some (length (bpre @ ?r) + length (rendered mem its), (bpre @ ?r) @ rendered mem its @ bpost)"
    by (rule Cons.IH [of "pre @ fmt_of it" "apre @ arg_of it"])
      (use st'(2) f Cons.prems xs in \<open>simp_all add: rendered_def\<close>)
  then show ?case
    using st'(1) c p first_char [OF ok] by (subst sprintf_loop.simps) (simp add: rendered_def)
qed

text \<open>(C27) \<^verbatim>\<open>sprintf\<close>: for every format made of characters and the conversions \<^verbatim>\<open>%%\<close>, \<^verbatim>\<open>%d\<close>, \<^verbatim>\<open>%u\<close>,
  \<^verbatim>\<open>%x\<close>, \<^verbatim>\<open>%lx\<close>, \<^verbatim>\<open>%p\<close>, \<^verbatim>\<open>%llx\<close> and \<^verbatim>\<open>%s\<close> with their arguments, it returns, having written exactly the text
  the format stands for and a zero from \<open>buf\<close> on and nothing else, whenever that fits.\<close>

theorem sprintf_renders:
  assumes "\<forall>it \<in> set its. item_ok mem it" and "length str = 20" and "b + length (rendered mem its) < length buf"
  shows "sprintf (fmt_string its) (arg_bytes its) mem str b buf =
     Some (take b buf @ rendered mem its @ 0 # drop (b + length (rendered mem its) + 1) buf)"
proof -
  let ?t = "rendered mem its"
  define xs where "xs = take (length ?t) (drop b buf)"
  define c where "c = buf ! (b + length ?t)"
  define rest where "rest = drop (b + length ?t + 1) buf"
  have "drop (b + length ?t) buf = c # rest" using assms(3) by (simp add: c_def rest_def Cons_nth_drop_Suc)
  then have "drop (length ?t) (drop b buf) = c # rest" by (simp add: add.commute)
  then have buf: "buf = take b buf @ xs @ c # rest" unfolding xs_def by (metis append_take_drop_id)
  have l: "length xs = length ?t" "length (take b buf) = b" using assms(3) by (simp_all add: xs_def)
  have "sprintf_loop (fmt_string its) (arg_bytes its) mem \<lparr>fp = 0, ap = 0, fstr = str, ptr_text = None\<rparr> b
      (take b buf @ xs @ c # rest) = Some (b + length ?t, take b buf @ ?t @ c # rest)"
    using sprintf_loop_text [of "[]" "[]" "\<lparr>fp = 0, ap = 0, fstr = str, ptr_text = None\<rparr>" _ its _ mem xs "take b buf" "c # rest"]
      assms l by (simp add: fmt_ready_def fmt_string_def arg_bytes_def)
  moreover have "aput (take b buf @ ?t @ c # rest) (b + length ?t) 0 = Some (take b buf @ ?t @ 0 # rest)"
    using aput_append [of "take b buf @ ?t" "b + length ?t" c rest 0] l by simp
  ultimately show ?thesis
    unfolding sprintf_def buf [symmetric] by (simp add: rest_def)
qed


section \<open>printf\<close>

lemma write_all_text:
  "dbg_page d = pre @ xs @ post \<Longrightarrow> length xs = length cs \<Longrightarrow> length pre + length cs \<le> 4095 \<Longrightarrow>
   write_all level cs (length pre) d = Some (length pre + length cs, d\<lparr>dbg_page := pre @ cs @ post\<rparr>)"
proof (induction cs arbitrary: pre xs d)
  case Nil
  then show ?case by simp
next
  case (Cons c cs)
  then obtain y ys where xs: "xs = y # ys" by (cases xs) auto
  have w: "write_to_buf level (length pre) c d = Some (Suc (length pre), d\<lparr>dbg_page := (pre @ [c]) @ ys @ post\<rparr>)"
    using Cons.prems xs by (simp add: write_to_buf_def DEBUG_BUFFER_SIZE_def)
  have "write_all level cs (length (pre @ [c])) (d\<lparr>dbg_page := (pre @ [c]) @ ys @ post\<rparr>) =
      Some (length (pre @ [c]) + length cs, d\<lparr>dbg_page := (pre @ [c]) @ ys @ post\<rparr>\<lparr>dbg_page := (pre @ [c]) @ cs @ post\<rparr>)"
    by (rule Cons.IH [where xs = ys]) (use Cons.prems xs in simp_all)
  then show ?case using w by simp
qed

lemma write_all_overrun:
  "length (dbg_page d) = 4096 \<Longrightarrow> addr \<le> 4095 \<Longrightarrow> 4095 < addr + length cs \<Longrightarrow> write_all level cs addr d = None"
proof (induction cs arbitrary: addr d)
  case (Cons c cs)
  show ?case
  proof (cases "addr = 4095")
    case True
    then show ?thesis using Cons.prems by (simp add: write_to_buf_def DEBUG_BUFFER_SIZE_def)
  next
    case False
    then have "write_to_buf level addr c d = Some (addr + 1, d\<lparr>dbg_page := (dbg_page d)[addr := c]\<rparr>)"
      using Cons.prems by (simp add: write_to_buf_def DEBUG_BUFFER_SIZE_def)
    then show ?thesis using Cons False by simp
  qed
qed simp

lemma printf_loop_step:
  assumes st: "fmt_ready (length pre) (length apre) st" and ok: "item_ok mem it"
    and f: "fmt = pre @ fmt_of it @ concat (map fmt_of its) @ [0]" "args = apre @ arg_of it @ concat (map arg_of its)"
  shows "\<exists>st'. fmt_ready (length (pre @ fmt_of it)) (length (apre @ arg_of it)) st' \<and>
     printf_loop level fmt args mem st buf d =
       (case write_all level (render mem it) buf d of None \<Rightarrow> None
        | Some (buf', d') \<Rightarrow> printf_loop level fmt args mem st' buf' d')"
proof -
  obtain st' where st': "format_step fmt args mem (hd (fmt_of it)) st = Some (render mem it, st')"
      "fmt_ready (length pre + length (fmt_of it)) (length apre + length (arg_of it)) st'"
    using step_ok [OF st f(1) refl f(2) refl ok] by blast
  have c: "aget fmt (fp st) = Some (hd (fmt_of it))"
    using f(1) fmt_of_first [of it] st by (cases "fmt_of it") (simp_all add: fmt_ready_def aget_def nth_append)
  show ?thesis
    using st' c first_char [OF ok] by (intro exI [of _ st']) (subst printf_loop.simps, simp)
qed

lemma printf_loop_text:
  "fmt_ready (length pre) (length apre) st \<Longrightarrow> fmt = pre @ concat (map fmt_of its) @ [0] \<Longrightarrow>
   args = apre @ concat (map arg_of its) \<Longrightarrow> \<forall>it \<in> set its. item_ok mem it \<Longrightarrow>
   dbg_page d = bpre @ xs @ bpost \<Longrightarrow> length xs = length (rendered mem its) \<Longrightarrow>
   length bpre + length (rendered mem its) \<le> 4095 \<Longrightarrow>
   printf_loop level fmt args mem st (length bpre) d =
     Some (length bpre + length (rendered mem its), d\<lparr>dbg_page := bpre @ rendered mem its @ bpost\<rparr>)"
proof (induction its arbitrary: pre apre st xs bpre d)
  case Nil
  then show ?case by (subst printf_loop.simps) (simp add: rendered_def fmt_ready_def aget_def)
next
  case (Cons it its)
  let ?r = "render mem it"
  obtain ys zs where xs: "xs = ys @ zs" "length ys = length ?r"
    using Cons.prems(6) split_at [of "length ?r" xs] by (auto simp: rendered_def)
  have ok: "item_ok mem it" using Cons.prems(4) by simp
  have f: "fmt = pre @ fmt_of it @ concat (map fmt_of its) @ [0]" "args = apre @ arg_of it @ concat (map arg_of its)"
    using Cons.prems(2,3) by simp_all
  obtain st' where st': "fmt_ready (length (pre @ fmt_of it)) (length (apre @ arg_of it)) st'"
     "printf_loop level fmt args mem st (length bpre) d =
       (case write_all level ?r (length bpre) d of None \<Rightarrow> None
        | Some (buf', d') \<Rightarrow> printf_loop level fmt args mem st' buf' d')"
    using printf_loop_step [OF Cons.prems(1) ok f] by blast
  have w: "write_all level ?r (length bpre) d = Some (length (bpre @ ?r), d\<lparr>dbg_page := (bpre @ ?r) @ zs @ bpost\<rparr>)"
    using write_all_text [of d bpre ys "zs @ bpost" ?r level] xs Cons.prems by (simp add: rendered_def)
  have "printf_loop level fmt args mem st' (length (bpre @ ?r)) (d\<lparr>dbg_page := (bpre @ ?r) @ zs @ bpost\<rparr>) =
      Some (length (bpre @ ?r) + length (rendered mem its),
        d\<lparr>dbg_page := (bpre @ ?r) @ zs @ bpost\<rparr>\<lparr>dbg_page := (bpre @ ?r) @ rendered mem its @ bpost\<rparr>)"
    by (rule Cons.IH [OF st'(1), where xs = zs]) (use f Cons.prems xs in \<open>simp_all add: rendered_def\<close>)
  then show ?case using st'(2) w by (simp add: rendered_def)
qed

lemma printf_loop_overrun:
  "fmt_ready (length pre) (length apre) st \<Longrightarrow> fmt = pre @ concat (map fmt_of its) @ [0] \<Longrightarrow>
   args = apre @ concat (map arg_of its) \<Longrightarrow> \<forall>it \<in> set its. item_ok mem it \<Longrightarrow>
   length (dbg_page d) = 4096 \<Longrightarrow> addr \<le> 4095 \<Longrightarrow> 4095 < addr + length (rendered mem its) \<Longrightarrow>
   printf_loop level fmt args mem st addr d = None"
proof (induction its arbitrary: pre apre st addr d)
  case Nil
  then show ?case by (simp add: rendered_def)
next
  case (Cons it its)
  let ?r = "render mem it"
  have ok: "item_ok mem it" using Cons.prems(4) by simp
  have f: "fmt = pre @ fmt_of it @ concat (map fmt_of its) @ [0]" "args = apre @ arg_of it @ concat (map arg_of its)"
    using Cons.prems(2,3) by simp_all
  obtain st' where st': "fmt_ready (length (pre @ fmt_of it)) (length (apre @ arg_of it)) st'"
     "printf_loop level fmt args mem st addr d =
       (case write_all level ?r addr d of None \<Rightarrow> None
        | Some (buf', d') \<Rightarrow> printf_loop level fmt args mem st' buf' d')"
    using printf_loop_step [OF Cons.prems(1) ok f] by blast
  show ?case
  proof (cases "4095 < addr + length ?r")
    case True
    then show ?thesis using st'(2) write_all_overrun [OF Cons.prems(5,6) True] by simp
  next
    case False
    define pre0 xs post0 where "pre0 = take addr (dbg_page d)" and "xs = take (length ?r) (drop addr (dbg_page d))"
      and "post0 = drop (addr + length ?r) (dbg_page d)"
    have pg: "dbg_page d = pre0 @ xs @ post0"
      unfolding pre0_def xs_def post0_def by (metis append_take_drop_id drop_drop add.commute)
    have l: "length pre0 = addr" "length xs = length ?r" using Cons.prems(5,6) False by (simp_all add: pre0_def xs_def)
    have w: "write_all level ?r addr d = Some (addr + length ?r, d\<lparr>dbg_page := pre0 @ ?r @ post0\<rparr>)"
      using write_all_text [OF pg l(2)] False l(1) by simp
    have lp: "length (pre0 @ ?r @ post0) = 4096" using arg_cong [OF pg, of length] l Cons.prems(5) by simp
    have "printf_loop level fmt args mem st' (addr + length ?r) (d\<lparr>dbg_page := pre0 @ ?r @ post0\<rparr>) = None"
      by (rule Cons.IH [OF st'(1)]) (use f Cons.prems False lp in \<open>simp_all add: rendered_def\<close>)
    then show ?thesis using st'(2) w by simp
  qed
qed

lemma render_nonzero: "item_ok mem it \<Longrightarrow> 0 \<notin> set (render mem it)"
  using itoa_text_nonzero [of 10] nonzero_text [of 16] hex_field_nonzero by (cases it) auto

lemma rendered_nonzero: "\<forall>it \<in> set its. item_ok mem it \<Longrightarrow> 0 \<notin> set (rendered mem its)"
  using render_nonzero by (fastforce simp: rendered_def)

lemma printf_renders:
  assumes "\<forall>it \<in> set its. item_ok mem it" and "length str = 20" and "length (dbg_page d) = 4096"
    and "cur_dbg d \<le> 4095" and "lock_debug_mem d = 0" and "spinlock_vga (dbg_vga d) = 0"
  shows "printf level (fmt_string its) (arg_bytes its) mem str d =
    (let n = length (rendered mem its)
     in if cur_dbg d + n + 1 \<le> 4095
        then Some (d\<lparr>dbg_page := take (cur_dbg d) (dbg_page d) @ rendered mem its @ 0 # drop (cur_dbg d + n + 1) (dbg_page d),
                     cur_dbg := cur_dbg d + n + 1,
                     dbg_vga := (if debug_level_for_vga d \<le> level then the (print_vga (rendered mem its) (dbg_vga d))
                                 else dbg_vga d)\<rparr>)
        else None)"
proof -
  let ?t = "rendered mem its" and ?c = "cur_dbg d"
  define n where "n = length ?t"
  define d1 where "d1 = d\<lparr>lock_debug_mem := 1\<rparr>"
  let ?st = "\<lparr>fp = 0, ap = 0, fstr = str, ptr_text = None\<rparr>"
  have st: "fmt_ready (length ([] :: u8 list)) (length ([] :: u8 list)) ?st" using assms(2) by (simp add: fmt_ready_def)
  have f: "fmt_string its = [] @ concat (map fmt_of its) @ [0]" "arg_bytes its = [] @ concat (map arg_of its)"
    by (simp_all add: fmt_string_def arg_bytes_def)
  have run: "printf level (fmt_string its) (arg_bytes its) mem str d = do {
       (buf, d) \<leftarrow> printf_loop level (fmt_string its) (arg_bytes its) mem ?st ?c d1;
       (buf, d) \<leftarrow> write_to_buf level buf 0 d;
       d \<leftarrow> show_debug level d;
       Some (d\<lparr>cur_dbg := buf, lock_debug_mem := spinlock_unlock (lock_debug_mem d)\<rparr>)
     }"
    using assms(5) by (simp add: printf_def d1_def)
  show ?thesis
  proof (cases "?c + n \<le> 4095")
    case False
    then have "printf_loop level (fmt_string its) (arg_bytes its) mem ?st ?c d1 = None"
      using printf_loop_overrun [OF st f assms(1), of d1 ?c level] assms(3,4) by (simp add: d1_def n_def)
    then show ?thesis using False run by (simp add: n_def)
  next
    case True
    define pre xs post where "pre = take ?c (dbg_page d)" and "xs = take n (drop ?c (dbg_page d))"
      and "post = drop (?c + n) (dbg_page d)"
    have dp: "dbg_page d1 = dbg_page d" by (simp add: d1_def)
    have pg: "dbg_page d1 = pre @ xs @ post"
      unfolding pre_def xs_def post_def by (metis (no_types, lifting) append_take_drop_id drop_drop add.commute dp)
    have l: "length pre = ?c" "length xs = n" using assms(3,4) True by (simp_all add: pre_def xs_def)
    have loop: "printf_loop level (fmt_string its) (arg_bytes its) mem ?st ?c d1 =
        Some (?c + n, d1\<lparr>dbg_page := pre @ ?t @ post\<rparr>)"
      using printf_loop_text [OF st f assms(1) pg, of level] l True by (simp add: n_def)
    show ?thesis
    proof (cases "?c + n + 1 \<le> 4095")
      case False
      then have "?c + n = 4095" using True by simp
      moreover have "length (pre @ ?t @ post) = 4096" using assms(3) True l(1) by (simp add: post_def n_def)
      ultimately have "write_to_buf level (?c + n) 0 (d1\<lparr>dbg_page := pre @ ?t @ post\<rparr>) = None"
        by (simp add: write_to_buf_def DEBUG_BUFFER_SIZE_def)
      then show ?thesis using run loop False by (simp add: n_def)
    next
      case ok: True
      define d2 where "d2 = d1\<lparr>dbg_page := pre @ ?t @ 0 # drop 1 post\<rparr>"
      have "post \<noteq> []" using assms(3) ok by (simp add: post_def)
      then obtain x where post: "post = x # drop 1 post" by (cases post) auto
      have "aput (pre @ ?t @ post) (?c + n) 0 = Some (pre @ ?t @ 0 # drop 1 post)"
        using aput_append [of "pre @ ?t" "?c + n" x "drop 1 post" 0] l post by (metis (no_types, lifting) append_assoc length_append n_def)
      then have w: "write_to_buf level (?c + n) 0 (d1\<lparr>dbg_page := pre @ ?t @ post\<rparr>) = Some (?c + n + 1, d2)"
        using ok by (simp add: write_to_buf_def DEBUG_BUFFER_SIZE_def d2_def)
      have s: "strlen (dbg_page d2) (cur_dbg d2) = Some n"
        using strlen_cstr [OF cstrI [OF rendered_nonzero [OF assms(1)] l(1), of "drop 1 post"]] by (simp add: d2_def d1_def n_def)
      have tk: "take n (drop (cur_dbg d2) (dbg_page d2)) = ?t" using l(1) by (simp add: d2_def d1_def n_def)
      obtain v where v: "print_vga ?t (dbg_vga d) = Some v" using print_vga_unlocked [OF assms(6)] by blast
      have sh: "show_debug level d2 =
          Some (d2\<lparr>dbg_vga := (if debug_level_for_vga d \<le> level then v else dbg_vga d)\<rparr>)"
        using s tk v by (simp add: show_debug_def) (simp add: d2_def d1_def)
      have "drop 1 post = drop (?c + n + 1) (dbg_page d)" by (simp add: post_def)
      then show ?thesis
        using run loop w sh ok v by (simp add: n_def [symmetric]) (simp add: d2_def d1_def pre_def spinlock_unlock_def assms(5))
    qed
  qed
qed

text \<open>(C28) \<^verbatim>\<open>printf\<close>: while the text and its zero stay below the last byte of the debug page, it returns with the
  text and a zero appended to the buffer and nothing else changed, the position after the zero, both locks free, and the text
  printed on the console exactly if the level is high enough; otherwise it writes the byte after the page.\<close>

theorem printf_appends:
  assumes "\<forall>it \<in> set its. item_ok mem it" and "length str = 20" and "length (dbg_page d) = 4096"
    and "cur_dbg d \<le> 4095" and "lock_debug_mem d = 0" and "spinlock_vga (dbg_vga d) = 0"
  shows "printf level (fmt_string its) (arg_bytes its) mem str d =
    (let n = length (rendered mem its)
     in if cur_dbg d + n + 1 \<le> 4095
        then Some (d\<lparr>dbg_page := take (cur_dbg d) (dbg_page d) @ rendered mem its @ 0 # drop (cur_dbg d + n + 1) (dbg_page d),
                     cur_dbg := cur_dbg d + n + 1,
                     dbg_vga := (if debug_level_for_vga d \<le> level then the (print_vga (rendered mem its) (dbg_vga d))
                                 else dbg_vga d)\<rparr>)
        else None)"
  by (rule printf_renders [OF assms])

section \<open>Witnesses\<close>

definition strings :: "u32 \<Rightarrow> u8 list option" where
  "strings = Map.empty(0x80101000 \<mapsto> [120, 105, 115])"

text \<open>\<^verbatim>\<open>"%s=%d%%"\<close> with a string and 42.\<close>

definition demo :: "item list" where
  "demo = [Str 0x80101000, Chr 61, Dec 42, Percent]"

lemma demo_ok: "\<forall>it \<in> set demo. item_ok strings it"
  by (simp add: demo_def strings_def)

lemma demo_text: "rendered strings demo = [120, 105, 115, 61, 52, 50, 37]"
  by (simp add: rendered_def demo_def strings_def itoa_text_def text_of_def lsd.simps digit_char_def)

theorem sprintf_renders_witness:
  "sprintf (fmt_string demo) (arg_bytes demo) strings (replicate 20 9) 1 (replicate 10 7) =
     Some [7, 120, 105, 115, 61, 52, 50, 37, 0, 7]"
  using sprintf_renders [OF demo_ok, of "replicate 20 9" 1 "replicate 10 7"]
  by (simp add: demo_text)

definition debug0 :: debug where
  "debug0 = debug_init (replicate 4096 0) \<lparr>dbg_page = [], cur_dbg = 9, lock_debug_mem = 1, debug_level_for_vga = 9, dbg_vga = blank\<rparr>"

theorem printf_appends_witness:
  "printf 1 (fmt_string demo) (arg_bytes demo) strings (replicate 20 9) (debug0\<lparr>cur_dbg := 4090\<rparr>) = None \<and>
   (\<exists>d'. printf 1 (fmt_string demo) (arg_bytes demo) strings (replicate 20 9) debug0 = Some d' \<and> cur_dbg d' = 8)"
proof -
  have d: "length (dbg_page debug0) = 4096" "cur_dbg debug0 = 0" "lock_debug_mem debug0 = 0" "spinlock_vga (dbg_vga debug0) = 0"
    by (simp_all add: debug0_def debug_init_def)
  show ?thesis
    using printf_appends [OF demo_ok, of "replicate 20 9" debug0 1]
      printf_appends [OF demo_ok, of "replicate 20 9" "debug0\<lparr>cur_dbg := 4090\<rparr>" 1] d
    by (simp add: demo_text Let_def)
qed

section \<open>Where the code and its intent part\<close>

lemma run_step:
  assumes "aget fmt (fp st) = Some c" "c \<noteq> 0" "format_step fmt args mem c st = Some (out, st')"
    and "length xs = length out"
  shows "sprintf_loop fmt args mem st (length bpre) (bpre @ xs @ post) =
     sprintf_loop fmt args mem st' (length (bpre @ out)) ((bpre @ out) @ post)"
  using assms put_all_text [OF assms(4), of bpre post] by (subst sprintf_loop.simps) simp

lemma run_end: "aget fmt (fp st) = Some 0 \<Longrightarrow> sprintf_loop fmt args mem st b buf = Some (b, buf)"
  by (subst sprintf_loop.simps) simp

lemma format_d:
  assumes "length (fstr st) = 20" and "va_arg 4 args (ap st) = Some (n, a)" and "c = 100 \<or> c = 108"
    and "c = 108 \<Longrightarrow> aget fmt (fp st + 1) = Some 100"
  shows "\<exists>st'. format_number fmt args mem c st = Some st' \<and> ptr_text st' = Some (itoa_text (of_nat n) 10 False) \<and>
     fp st' = fp st \<and> ap st' = a \<and> length (fstr st') = 20"
  using itoa_str [OF assms(1), of 10 "of_nat n" False] assms itoa_text_nonzero [of 10 "of_nat n" False]
  by (auto simp: format_number_def at_str_text)

lemma le_bytes4:
  "le_bytes 4 n = [of_nat (n mod 256), of_nat (n div 256 mod 256), of_nat (n div 256 div 256 mod 256),
     of_nat (n div 256 div 256 div 256 mod 256)]"
proof -
  have four: "(4 :: nat) = Suc (Suc (Suc (Suc 0)))" by simp
  show ?thesis unfolding four le_bytes.simps ..
qed

lemma le_bytes4_small: "n < 256 \<Longrightarrow> le_bytes 4 n = [of_nat n, 0, 0, 0]"
  by (simp add: le_bytes4)

lemma second_arg_shifted:
  fixes c v :: u32
  assumes "unat c < 256"
  shows "va_arg 4 (le_bytes 4 (unat c) @ le_bytes 4 (unat v)) 1 = Some (unat v mod 256 * 2 ^ 24, 5)"
proof -
  have "unat (of_nat (unat v mod 256) :: u8) = unat v mod 256" by (simp add: unat_of_nat)
  moreover have "drop 1 (le_bytes 4 (unat c) @ le_bytes 4 (unat v)) = 0 # 0 # 0 # le_bytes 4 (unat v)"
    unfolding le_bytes4_small [OF assms] by simp
  ultimately show ?thesis by (simp add: va_arg_def) (simp add: le_bytes4)
qed

lemma split_one: "n < length xs \<Longrightarrow> \<exists>ys z zs. xs = ys @ z # zs \<and> length ys = n"
  using id_take_nth_drop [of n xs] by (metis length_take less_imp_le min.absorb2)

lemma split_buffer: "length buf = 20 \<Longrightarrow> n + 1 < 20 \<Longrightarrow> \<exists>xs y z rest. buf = xs @ [y] @ z # rest \<and> length xs = n"
proof -
  assume a: "length buf = 20" "n + 1 < 20"
  then obtain ws z rest where b: "buf = ws @ z # rest" "length ws = Suc n" using split_one [of "n + 1" buf] by auto
  then obtain xs y where "ws = xs @ [y]" by (cases ws rule: rev_cases) auto
  then show ?thesis using b by auto
qed

text \<open>Two conversions go wrong: \<^verbatim>\<open>%ld\<close> (and likewise \<^verbatim>\<open>%lld\<close>) leaves \<open>p\<close> at the
  \<^verbatim>\<open>l\<close>, so the letter \<^verbatim>\<open>d\<close> is printed after the number; and \<^verbatim>\<open>%c\<close> advances the argument by one byte where the
  caller pushed four, so a following \<^verbatim>\<open>%d\<close> prints the low byte of its argument shifted left by 24.\<close>

theorem sprintf_deviations:
  fixes c v :: u32
  assumes "length str = 20" and "length buf = 20" and "unat c < 256"
  shows "(\<exists>rest. sprintf [37, 108, 100, 0] (le_bytes 4 (unat v)) mem str 0 buf =
      Some (itoa_text v 10 False @ 100 # 0 # rest)) \<and>
    (\<exists>rest. sprintf [37, 99, 37, 100, 0] (le_bytes 4 (unat c) @ le_bytes 4 (unat v)) mem str 0 buf =
      Some (of_nat (unat c) # itoa_text (of_nat (unat v mod 256 * 2 ^ 24)) 10 False @ 0 # rest))"
proof
  define st where "st = \<lparr>fp = 0, ap = 0, fstr = str, ptr_text = None\<rparr>"
  let ?f = "[37, 108, 100, 0] :: u8 list" and ?a = "le_bytes 4 (unat v)" and ?t = "itoa_text v 10 False"
  have va: "va_arg 4 ?a 0 = Some (unat v, 4)" using va_arg4 [of "[]" 0 v "[]"] by simp
  obtain st1 where st1: "format_number ?f ?a mem 108 (st\<lparr>fp := 1\<rparr>) = Some st1" "ptr_text st1 = Some ?t" "fp st1 = 1"
    using format_d [of "st\<lparr>fp := 1\<rparr>" ?a "unat v" 4 108 ?f mem] va assms(1) by (auto simp: st_def)
  have s1: "format_step ?f ?a mem 37 st = Some (?t, st1\<lparr>fp := 2, ptr_text := Some []\<rparr>)"
    using st1 by (simp add: format_step_def st_def Let_def aget_def)
  obtain xs y z rest where buf: "buf = xs @ [y] @ z # rest" "length xs = length ?t"
    using split_buffer [OF assms(2), of "length ?t"] itoa_text_length(1) [of v False] by auto
  have "sprintf_loop ?f ?a mem st (length ([] :: u8 list)) ([] @ xs @ [y] @ z # rest) =
      Some (length ?t + 1, ?t @ [100] @ z # rest)"
    using run_step [of ?f st 37 ?a mem ?t _ xs "[]" "[y] @ z # rest", OF _ _ s1 buf(2)]
      run_step [of ?f "st1\<lparr>fp := 2, ptr_text := Some []\<rparr>" 100 ?a mem "[100]" _ "[y]" ?t "z # rest"]
    by (simp add: st_def aget_def format_step_def run_end)
  then show "\<exists>rest. sprintf ?f ?a mem str 0 buf = Some (?t @ 100 # 0 # rest)"
    using aput_append [of "?t @ [100]" "length ?t + 1" z rest 0] by (simp add: sprintf_def st_def buf)
next
  define st where "st = \<lparr>fp = 0, ap = 0, fstr = str, ptr_text = None\<rparr>"
  let ?n = "unat v mod 256 * 2 ^ 24"
  let ?f = "[37, 99, 37, 100, 0] :: u8 list" and ?a = "le_bytes 4 (unat c) @ le_bytes 4 (unat v)" and ?t = "itoa_text (of_nat ?n) 10 False"
  have vc: "va_arg 1 ?a 0 = Some (unat c, 1)"
  proof -
    have "unat (of_nat (unat c) :: u8) = unat c" unfolding unat_of_nat using assms(3) by simp
    then show ?thesis unfolding le_bytes4_small [OF assms(3)] by (simp add: va_arg_def)
  qed
  have s1: "format_step ?f ?a mem 37 st = Some ([of_nat (unat c)], st\<lparr>fp := 2, ap := 1\<rparr>)"
    using vc by (simp add: format_step_def st_def Let_def aget_def)
  obtain st2 where st2: "format_number ?f ?a mem 100 (st\<lparr>fp := 3, ap := 1\<rparr>) = Some st2" "ptr_text st2 = Some ?t" "fp st2 = 3"
    using format_d [of "st\<lparr>fp := 3, ap := 1\<rparr>" ?a ?n 5 100 ?f mem] second_arg_shifted [OF assms(3), of v] assms(1)
    by (auto simp: st_def)
  have s2: "format_step ?f ?a mem 37 (st\<lparr>fp := 2, ap := 1\<rparr>) = Some (?t, st2\<lparr>fp := 4, ptr_text := Some []\<rparr>)"
    using st2 by (simp add: format_step_def st_def Let_def aget_def)
  obtain y buf' where b1: "buf = y # buf'" "length buf' = 19" using assms(2) by (cases buf) auto
  obtain xs z rest where buf: "buf' = xs @ z # rest" "length xs = length ?t"
    using split_one [of "length ?t" buf'] itoa_text_length(1) [of "of_nat ?n" False] b1(2) by auto
  have "sprintf_loop ?f ?a mem st (length ([] :: u8 list)) ([] @ [y] @ xs @ z # rest) =
      Some (length ?t + 1, [of_nat (unat c)] @ ?t @ z # rest)"
    using run_step [of ?f st 37 ?a mem "[of_nat (unat c)]" _ "[y]" "[]" "xs @ z # rest", OF _ _ s1]
      run_step [of ?f "st\<lparr>fp := 2, ap := 1\<rparr>" 37 ?a mem ?t _ xs "[of_nat (unat c)]" "z # rest", OF _ _ s2 buf(2)]
    by (simp add: st_def aget_def run_end)
  then show "\<exists>rest. sprintf ?f ?a mem str 0 buf = Some (of_nat (unat c) # ?t @ 0 # rest)"
    using aput_append [of "of_nat (unat c) # ?t" "length ?t + 1" z rest 0] by (simp add: sprintf_def st_def b1 buf)
qed

theorem sprintf_deviations_witness:
  "\<exists>rest. sprintf [37, 108, 100, 0] (le_bytes 4 42) strings (replicate 20 0) 0 (replicate 20 1) =
     Some ([52, 50, 100, 0] @ rest)"
  using sprintf_deviations [of "replicate 20 0" "replicate 20 1" 65 42 strings]
  by (simp add: itoa_text_def text_of_def lsd.simps digit_char_def)

end
