(* ===== verification/Interrupts.thy ===== *)
theory Interrupts
  imports Traps_Props Keyboard Printf_Props
begin

text \<open>
  Interrupts: the routing of the ISA lines through the I/O APIC (\<^verbatim>\<open>interrupt.c\<close>), the local APIC
  (\<^verbatim>\<open>apic.c\<close>), the 8259 and 8254 set-up of \<^verbatim>\<open>system.c\<close>, and the handler with its
  acknowledgement (\<^verbatim>\<open>sendEOI\<close>, \<^verbatim>\<open>common_interrupt_handler\<close> of \<^verbatim>\<open>setup32.c\<close>). Writes to
  device registers are logged in order; a read from a device is a function of that log and the address.
\<close>

section \<open>State\<close>

record ioapic =
  ioapic_id :: u8
  base_register :: u32
  gsi_base :: u32
  max_redir_entries :: u8

record interrupt =
  orig_irq :: u8
  irq_bus :: u8
  irq_gsi :: u32
  overriden :: u8
  polarity :: u8
  trigger :: u8

record bus =
  bus_id :: u8
  bus_type :: u8

datatype mmio_write = W8 u32 u8 | W32 u32 u32

text \<open>\<open>interrupts_set\<close> says that \<^verbatim>\<open>interrupts[0]\<close> points to \<^verbatim>\<open>interrupts_cpu_0\<close>; before it is \<^verbatim>\<open>NULL\<close>.\<close>

record irqs =
  mach :: machine
  kbd :: keyboard
  ioapics :: "ioapic list"
  interrupts_set :: bool
  interrupts_cpu_0 :: "interrupt list"
  buses :: "bus list"
  ioapic_initialized :: bool
  lapic_present :: u32
  lapic_base_register :: u32
  lapic_id :: u32
  lapic_calibration_tick :: u32
  lapic_calibration_mode :: bool
  lapic_timer_enabled :: bool
  timer_counter :: "u32 list"
  seconds :: "u32 list"
  mmio :: "mmio_write list"

type_synonym device = "mmio_write list \<Rightarrow> u32 \<Rightarrow> u32"

definition mmio_put :: "mmio_write \<Rightarrow> irqs \<Rightarrow> irqs" where
  "mmio_put w s = s\<lparr>mmio := mmio s @ [w]\<rparr>"

definition log_irq :: "string \<Rightarrow> u32 list \<Rightarrow> irqs \<Rightarrow> irqs" where
  "log_irq fmt args s = s\<lparr>mach := log_printf fmt args (mach s)\<rparr>"

definition IRQ_POL_ACTIVE_HIGH :: u8 where "IRQ_POL_ACTIVE_HIGH = 1"
definition IRQ_POL_ACTIVE_LOW :: u8 where "IRQ_POL_ACTIVE_LOW = 3"
definition IRQ_TRIGGER_MODE_EDGE :: u8 where "IRQ_TRIGGER_MODE_EDGE = 1"
definition IRQ_TRIGGER_MODE_LEVEL :: u8 where "IRQ_TRIGGER_MODE_LEVEL = 3"
definition DEFAULT_ISA_IRQ_POLARITY :: u8 where "DEFAULT_ISA_IRQ_POLARITY = IRQ_POL_ACTIVE_HIGH"
definition DEFAULT_ISA_IRQ_TRIGGER_MODE :: u8 where "DEFAULT_ISA_IRQ_TRIGGER_MODE = IRQ_TRIGGER_MODE_EDGE"

lemmas irq_modes [flag_simps] = IRQ_POL_ACTIVE_HIGH_def IRQ_POL_ACTIVE_LOW_def IRQ_TRIGGER_MODE_EDGE_def
  IRQ_TRIGGER_MODE_LEVEL_def DEFAULT_ISA_IRQ_POLARITY_def DEFAULT_ISA_IRQ_TRIGGER_MODE_def

section \<open>The table of interrupts\<close>

definition upd_int :: "nat \<Rightarrow> (interrupt \<Rightarrow> interrupt) \<Rightarrow> irqs \<Rightarrow> irqs option" where
  "upd_int i f s = do { x \<leftarrow> aget (interrupts_cpu_0 s) i; xs \<leftarrow> aput (interrupts_cpu_0 s) i (f x); Some (s\<lparr>interrupts_cpu_0 := xs\<rparr>) }"

fun init_ints :: "nat list \<Rightarrow> irqs \<Rightarrow> irqs option" where
  "init_ints [] s = Some s"
| "init_ints (i # is) s =
     do {
       s \<leftarrow> upd_int i (\<lambda>x. x\<lparr>orig_irq := of_nat i, irq_bus := 0, irq_gsi := of_nat i,
              polarity := DEFAULT_ISA_IRQ_POLARITY, trigger := DEFAULT_ISA_IRQ_TRIGGER_MODE\<rparr>) s;
       init_ints is s
     }"

definition interrupts_init :: "irqs \<Rightarrow> irqs option" where
  "interrupts_init s =
     do {
       bs \<leftarrow> aput (buses s) 0 \<lparr>bus_id = 0, bus_type = 0\<rparr>;
       init_ints [0..<16] (s\<lparr>buses := bs, interrupts_set := True\<rparr>)
     }"

definition interrupt_set_override :: "u8 \<Rightarrow> u8 \<Rightarrow> u32 \<Rightarrow> u8 \<Rightarrow> u8 \<Rightarrow> irqs \<Rightarrow> irqs option" where
  "interrupt_set_override b source gsi pol trig s =
     do {
       s \<leftarrow> (if ucast source \<noteq> gsi
              then do {
                s \<leftarrow> upd_int (unat source) (\<lambda>x. x\<lparr>overriden := 1\<rparr>) s;
                upd_int (unat gsi) (\<lambda>x. x\<lparr>orig_irq := source\<rparr>) s
              }
              else Some s);
       s \<leftarrow> upd_int (unat gsi) (\<lambda>x. x\<lparr>irq_bus := b\<rparr>) s;
       s \<leftarrow> upd_int (unat gsi) (\<lambda>x. x\<lparr>polarity := (if pol = 0 then DEFAULT_ISA_IRQ_POLARITY else pol)\<rparr>) s;
       upd_int (unat gsi) (\<lambda>x. x\<lparr>trigger := (if trig = 0 then DEFAULT_ISA_IRQ_TRIGGER_MODE else trig)\<rparr>) s
     }"

section \<open>I/O APIC registers\<close>

text \<open>\<open>data\<close> is the memory from the pointer on.\<close>

definition load32 :: "nat \<Rightarrow> u8 list \<Rightarrow> u32 option" where
  "load32 k xs = (if k + 4 \<le> length xs then Some (of_nat (le_value (take 4 (drop k xs)))) else None)"

definition store32 :: "nat \<Rightarrow> u32 \<Rightarrow> u8 list \<Rightarrow> u8 list option" where
  "store32 k w xs =
     (if k + 4 \<le> length xs then Some (take k xs @ le_bytes 4 (unat w) @ drop (k + 4) xs) else None)"

definition ioapic_write :: "u8 \<Rightarrow> u8 \<Rightarrow> u8 list \<Rightarrow> u8 \<Rightarrow> irqs \<Rightarrow> irqs option" where
  "ioapic_write ix reg data size_of s =
     do {
       io \<leftarrow> aget (ioapics s) (unat ix);
       let s = mmio_put (W8 (base_register io) reg) s;
       w \<leftarrow> load32 0 data;
       let s = mmio_put (W32 (base_register io + 0x10) w) s;
       if size_of = 8
       then do { w \<leftarrow> load32 1 data; Some (mmio_put (W32 (base_register io + 0x11) w) s) }
       else Some s
     }"

definition ioapic_read :: "device \<Rightarrow> u8 \<Rightarrow> u8 \<Rightarrow> u8 \<Rightarrow> u8 list \<Rightarrow> irqs \<Rightarrow> (u8 list \<times> irqs) option" where
  "ioapic_read dev ix reg size_of data s =
     do {
       io \<leftarrow> aget (ioapics s) (unat ix);
       let s = mmio_put (W8 (base_register io) reg) s;
       data \<leftarrow> store32 0 (dev (mmio s) (base_register io + 0x10)) data;
       if size_of = 8
       then do { data \<leftarrow> store32 1 (dev (mmio s) (base_register io + 0x11)) data; Some (data, s) }
       else Some (data, s)
     }"

definition ioapic_read_id :: "device \<Rightarrow> u8 \<Rightarrow> u8 list \<Rightarrow> irqs \<Rightarrow> (u8 \<times> irqs) option" where
  "ioapic_read_id dev ix temp s =
     do {
       (temp, s) \<leftarrow> ioapic_read dev ix 0 4 temp s;
       t \<leftarrow> load32 0 temp;
       Some (ucast (drop_bit 24 t AND 0xf), s)
     }"

definition ioapic_read_version :: "device \<Rightarrow> u8 \<Rightarrow> u8 list \<Rightarrow> irqs \<Rightarrow> (u8 \<times> u8 \<times> irqs) option" where
  "ioapic_read_version dev ix temp s =
     do {
       (temp, s) \<leftarrow> ioapic_read dev ix 1 4 temp s;
       t \<leftarrow> load32 0 temp;
       Some (ucast (t AND 0xff), ucast ((drop_bit 16 t AND 0xff) + 1), s)
     }"

definition ioapic_allocate ::
  "kernel_layout \<Rightarrow> u32 \<Rightarrow> device \<Rightarrow> u8 list \<Rightarrow> u8 \<Rightarrow> u32 \<Rightarrow> u32 \<Rightarrow> irqs \<Rightarrow> irqs option"
where
  "ioapic_allocate lay cpu dev temp ix base gsib s =
     do {
       io \<leftarrow> aget (ioapics s) (unat ix);
       ios \<leftarrow> aput (ioapics s) (unat ix) (io\<lparr>ioapic_id := ix, base_register := base, gsi_base := gsib\<rparr>);
       let s = s\<lparr>ioapics := ios\<rparr>;
       p \<leftarrow> map_kernel_with_pagetable lay cpu base base PAGE_SIZE PTE_WRITE 0 (paging_of (mach s));
       let s = s\<lparr>mach := (mach s)\<lparr>paging_of := p\<rparr>\<rparr>;
       (hw_id, s) \<leftarrow> ioapic_read_id dev ix temp s;
       (version, redirs, s) \<leftarrow> ioapic_read_version dev ix temp s;
       io \<leftarrow> aget (ioapics s) (unat ix);
       ios \<leftarrow> aput (ioapics s) (unat ix) (io\<lparr>max_redir_entries := redirs\<rparr>);
       Some (log_irq ''IOAPIC: id %d, version %d, max_redir_entries: %d\<newline>'' [ucast hw_id, ucast version, ucast redirs]
               (s\<lparr>ioapics := ios\<rparr>))
     }"

section \<open>Redirection entries\<close>

text \<open>\<^verbatim>\<open>struct ioapic_entry\<close>: the bit fields in the order the compiler packs them.\<close>

record ioapic_entry =
  vector :: u8
  delivery_mode :: u8
  destination_mode :: u8
  destination_status :: u8
  e_polarity :: u8
  remote_irr :: u8
  e_trigger :: u8
  mask_bit :: u8
  destination :: u8

definition bit_field :: "nat \<Rightarrow> nat \<Rightarrow> u8 \<Rightarrow> u32" where
  "bit_field pos width x = push_bit pos (take_bit width (ucast x))"

definition entry_low :: "ioapic_entry \<Rightarrow> u32" where
  "entry_low e =
     bit_field 0 8 (vector e) OR bit_field 8 4 (delivery_mode e) OR bit_field 12 1 (destination_mode e) OR
     bit_field 13 1 (destination_status e) OR bit_field 14 1 (e_polarity e) OR bit_field 15 1 (remote_irr e) OR
     bit_field 16 1 (e_trigger e) OR bit_field 17 1 (mask_bit e)"

definition entry_high :: "ioapic_entry \<Rightarrow> u32" where
  "entry_high e = bit_field 24 8 (destination e)"

definition LAPIC_LVT_TIMER_REG :: u32 where "LAPIC_LVT_TIMER_REG = 0x320"

definition isa_entry :: "nat \<Rightarrow> interrupt \<Rightarrow> u32 \<Rightarrow> ioapic_entry" where
  "isa_entry i x dest =
     \<lparr>vector = ucast (of_nat i + LAPIC_LVT_TIMER_REG + 1), delivery_mode = 0, destination_mode = 0, destination_status = 0,
      e_polarity = (if polarity x = IRQ_POL_ACTIVE_LOW then 1 else 0), remote_irr = 0,
      e_trigger = (if trigger x = IRQ_TRIGGER_MODE_LEVEL then 1 else 0), mask_bit = 0, destination = ucast dest\<rparr>"

fun setisa_loop :: "nat list \<Rightarrow> irqs \<Rightarrow> irqs option" where
  "setisa_loop [] s = Some s"
| "setisa_loop (i # is) s =
     do {
       x \<leftarrow> (if interrupts_set s then aget (interrupts_cpu_0 s) i else None);
       if overriden x \<noteq> 0 \<or> orig_irq x = 0 then setisa_loop is s
       else do {
         let e = isa_entry i x (lapic_id s);
         s \<leftarrow> ioapic_write 0 (of_nat (0x10 + i * 2)) (le_bytes 4 (unat (entry_low e)) @ le_bytes 4 (unat (entry_high e))) 32 s;
         s \<leftarrow> ioapic_write 0 (of_nat (0x11 + i * 2)) (le_bytes 4 (unat (entry_high e))) 32 s;
         setisa_loop is s
       }
     }"

definition ioapic_setisa_irqs :: "irqs \<Rightarrow> irqs option" where
  "ioapic_setisa_irqs s = setisa_loop [0..<16] s"

definition ioapic_init :: "irqs \<Rightarrow> irqs option" where
  "ioapic_init s = ioapic_setisa_irqs (s\<lparr>ioapic_initialized := True\<rparr>)"

section \<open>Local APIC\<close>

definition LAPIC_ID_REG :: u32 where "LAPIC_ID_REG = 0x20"
definition LAPIC_SPURIOUS_REG :: u32 where "LAPIC_SPURIOUS_REG = 0xf0"
definition LAPIC_INITIAL_COUNTER_REG :: u32 where "LAPIC_INITIAL_COUNTER_REG = 0x380"
definition LAPIC_DIVIDE_CONFIGURATION_REG :: u32 where "LAPIC_DIVIDE_CONFIGURATION_REG = 0x3e0"
definition LAPIC_IDT_VECTOR :: u32 where "LAPIC_IDT_VECTOR = 32"
definition LAPIC_DIVIDE_CONFIG_VALUE :: u32 where "LAPIC_DIVIDE_CONFIG_VALUE = 10"
definition LAPIC_COUNTER_VALUE :: u32 where "LAPIC_COUNTER_VALUE = 1024"

definition lapic_read_register :: "device \<Rightarrow> u32 \<Rightarrow> irqs \<Rightarrow> u32" where
  "lapic_read_register dev reg s = dev (mmio s) (lapic_base_register s + reg)"

definition lapic_write_register :: "u32 \<Rightarrow> u32 \<Rightarrow> irqs \<Rightarrow> irqs" where
  "lapic_write_register reg val s = mmio_put (W32 (lapic_base_register s + reg) val) s"

text \<open>\<open>pit_wait_ms\<close> is the wait of \<^verbatim>\<open>system.c\<close> with the interrupts it lets in.\<close>

definition calibrate_lapic_timer :: "(nat \<Rightarrow> irqs \<Rightarrow> irqs option) \<Rightarrow> irqs \<Rightarrow> irqs option" where
  "calibrate_lapic_timer pit_wait_ms s =
     do {
       let s = lapic_write_register LAPIC_LVT_TIMER_REG (LAPIC_IDT_VECTOR OR 0x20000) s;
       let s = lapic_write_register LAPIC_DIVIDE_CONFIGURATION_REG LAPIC_DIVIDE_CONFIG_VALUE s;
       let s = s\<lparr>lapic_calibration_mode := True\<rparr>;
       let s = lapic_write_register LAPIC_INITIAL_COUNTER_REG LAPIC_COUNTER_VALUE s;
       s \<leftarrow> pit_wait_ms 1 s;
       let s = lapic_write_register LAPIC_INITIAL_COUNTER_REG 0 s;
       let s = s\<lparr>lapic_calibration_mode := False, lapic_timer_enabled := True\<rparr>;
       Some (lapic_write_register LAPIC_INITIAL_COUNTER_REG LAPIC_COUNTER_VALUE s)
     }"

text \<open>\<open>edx\<close> is what \<^verbatim>\<open>cpuid\<close> returned, \<open>msr\<close> the low half of MSR 0x1b.\<close>

definition init_lapic ::
  "kernel_layout \<Rightarrow> u32 \<Rightarrow> device \<Rightarrow> u32 \<Rightarrow> u32 \<Rightarrow> (nat \<Rightarrow> irqs \<Rightarrow> irqs option) \<Rightarrow> irqs \<Rightarrow> irqs option"
where
  "init_lapic lay cpu dev edx msr pit_wait_ms s =
     (let present = drop_bit 9 (edx AND 0x200);
          s = log_irq ''Local APIC present: %d '' [present] s
      in if present = 0 then Some s
         else do {
           let s = s\<lparr>lapic_base_register := msr AND 0xfffff000\<rparr>;
           p \<leftarrow> map_kernel_with_pagetable lay cpu (lapic_base_register s) (lapic_base_register s) PAGE_SIZE PTE_WRITE 0
                  (paging_of (mach s));
           let s = log_irq ''Local APIC address: %p '' [msr] (s\<lparr>mach := (mach s)\<lparr>paging_of := p\<rparr>\<rparr>);
           let s = s\<lparr>lapic_id := signed_drop_bit 24 (lapic_read_register dev LAPIC_ID_REG s)\<rparr>;
           let s = log_irq ''Local APIC id: %x\<newline>'' [lapic_id s] s;
           let s = lapic_write_register LAPIC_SPURIOUS_REG (lapic_read_register dev LAPIC_SPURIOUS_REG s OR 0x100) s;
           calibrate_lapic_timer pit_wait_ms (s\<lparr>lapic_present := present\<rparr>)
         })"

definition lapic_switch :: "device \<Rightarrow> bool \<Rightarrow> irqs \<Rightarrow> irqs" where
  "lapic_switch dev enable s =
     (let v = lapic_read_register dev LAPIC_SPURIOUS_REG s
      in lapic_write_register LAPIC_SPURIOUS_REG (if enable then v OR 0x1ff else v AND NOT 0x1ff) s)"

section \<open>The 8259 and the 8254\<close>

definition outs :: "(u16 \<times> u8) list \<Rightarrow> irqs \<Rightarrow> irqs" where
  "outs ps s = s\<lparr>mach := fold (\<lambda>(port, x). outb x port) ps (mach s)\<rparr>"

definition init_pic_8259 :: "irqs \<Rightarrow> irqs" where
  "init_pic_8259 =
     outs [(0x21, 0xff), (0xa1, 0xff), (0x20, 0x11), (0x21, 0x20), (0x21, 0x4), (0x21, 0x1),
           (0xa0, 0x11), (0xa1, 0x28), (0xa1, 0x2), (0xa1, 0x1), (0x21, 0), (0xa1, 0)]"

definition PIT_FREQUENCY :: u16 where "PIT_FREQUENCY = 1000"

definition init_pit_frequency :: "irqs \<Rightarrow> irqs" where
  "init_pit_frequency = outs [(0x43, 0x34), (0x40, ucast PIT_FREQUENCY), (0x40, ucast (drop_bit 8 PIT_FREQUENCY))]"

text \<open>
  The 8042: before a command its input buffer must be empty; a pending byte is read away. \<open>ins\<close> are the bytes the
  port reads return, in order.
\<close>

fun wait_8042 :: "u8 list \<Rightarrow> u8 list option" where
  "wait_8042 [] = None"
| "wait_8042 (status # ins) =
     (if status AND 2 = 0 then Some ins
      else (case ins of [] \<Rightarrow> None | _ # ins \<Rightarrow> wait_8042 ins))"

definition keyboard_enable_interrupt :: "u8 list \<Rightarrow> irqs \<Rightarrow> irqs option" where
  "keyboard_enable_interrupt ins s = do { _ \<leftarrow> wait_8042 ins; Some (outs [(0x64, 0x60), (0x60, 0x1)] s) }"

definition keyboard_controller_init :: "u8 list \<Rightarrow> irqs \<Rightarrow> irqs option" where
  "keyboard_controller_init ins s = do { _ \<leftarrow> wait_8042 ins; Some (outs [(0x64, 0x60), (0x60, 0x60), (0x64, 0xae)] s) }"

definition devices_init :: "u8 list \<Rightarrow> u8 list \<Rightarrow> irqs \<Rightarrow> irqs option" where
  "devices_init buf ins s =
     do { k \<leftarrow> keyboard_init buf (kbd s); keyboard_controller_init ins (s\<lparr>kbd := k\<rparr>) }"

definition interrupts_enable ::
  "kernel_layout \<Rightarrow> u32 \<Rightarrow> device \<Rightarrow> u32 \<Rightarrow> u32 \<Rightarrow> (nat \<Rightarrow> irqs \<Rightarrow> irqs option) \<Rightarrow> u8 list \<Rightarrow> irqs \<Rightarrow> irqs option"
where
  "interrupts_enable lay cpu dev edx msr pit_wait_ms ins s =
     do {
       s \<leftarrow> init_lapic lay cpu dev edx msr pit_wait_ms s;
       keyboard_enable_interrupt ins (if lapic_present s = 0 then init_pit_frequency (init_pic_8259 s) else s)
     }"

section \<open>Acknowledging and handling\<close>

definition sendEOI :: "u32 \<Rightarrow> irqs \<Rightarrow> irqs" where
  "sendEOI intno s =
     (if ioapic_initialized s \<or> intno = 0 \<and> lapic_present s \<noteq> 0
      then mmio_put (W32 (lapic_base_register s + 0xb0) 0) s
      else if sint (ucast intno :: u8) < 8 then outs [(0x20, 0x20)] s
      else outs [(0xa0, 0x20), (0x20, 0x20)] s)"

definition PIT_HZ :: u32 where "PIT_HZ = 1193182 div 1000"

definition upd_counter :: "nat \<Rightarrow> u32 list \<Rightarrow> u32 list option" where
  "upd_counter i xs = do { x \<leftarrow> aget xs i; aput xs i (x + 1) }"

text \<open>The timer branch, outside calibration: \<open>str\<close> is the uninitialised \<^verbatim>\<open>s\<close>.\<close>

definition timer_tick :: "nat \<Rightarrow> u8 list \<Rightarrow> irqs \<Rightarrow> irqs option" where
  "timer_tick cpu str s =
     do {
       cs \<leftarrow> upd_counter cpu (timer_counter s);
       let s = s\<lparr>timer_counter := cs\<rparr>;
       c \<leftarrow> aget cs cpu;
       if lapic_present s = 0 \<and> sint PIT_HZ \<le> sint c \<or>
          lapic_present s \<noteq> 0 \<and> sint (1000 * lapic_calibration_tick s) \<le> sint c
       then do {
         cs \<leftarrow> aput cs cpu 0;
         ss \<leftarrow> upd_counter cpu (seconds s);
         let s = s\<lparr>timer_counter := cs, seconds := ss\<rparr>;
         v \<leftarrow> aget ss cpu;
         str \<leftarrow> itoa_gen v 0 10 False str;
         l \<leftarrow> strlen str 0;
         Some (s\<lparr>kbd := (kbd s)\<lparr>kbd_vga := print_vga_fixed (take l str) 140 (int cpu) (kbd_vga (kbd s))\<rparr>\<rparr>)
       }
       else Some s
     }"

definition common_interrupt_handler :: "nat \<Rightarrow> u8 \<Rightarrow> u8 list \<Rightarrow> regs_frame \<Rightarrow> irqs \<Rightarrow> irqs option" where
  "common_interrupt_handler cpu scan_code str rf s =
     do {
       s \<leftarrow>
         (if code_nr rf = 0
          then do {
            ts \<leftarrow> upd_counter cpu (sched_tick (mach s));
            let s = s\<lparr>mach := (mach s)\<lparr>sched_tick := ts\<rparr>\<rparr>;
            if lapic_calibration_mode s then Some (s\<lparr>lapic_calibration_tick := lapic_calibration_tick s + 1\<rparr>)
            else timer_tick cpu str s
          }
          else if code_nr rf = 2
          then do { (_, k) \<leftarrow> keyboard_handle_interrupt scan_code (kbd s); Some (s\<lparr>kbd := k\<rparr>) }
          else Some s);
       Some (sendEOI (code_nr rf) s)
     }"

end
