(* ===== verification/Routing_Props.thy ===== *)
theory Routing_Props
  imports Interrupts
begin

text \<open>
  The I/O APIC as a device behind its register window, what the writes of \<^verbatim>\<open>ioapic_setisa_irqs\<close> leave in
  it, the effect of the firmware's overrides on the table of interrupts, and the two together.
\<close>

section \<open>What the I/O APIC sees\<close>

text \<open>The device: a register select and a register file behind the window; and a redirection entry as the hardware reads it.\<close>

record ioapic_dev =
  reg_select :: u8
  regs :: "u8 \<Rightarrow> u32"

fun dev_write :: "u32 \<Rightarrow> mmio_write \<Rightarrow> ioapic_dev \<Rightarrow> ioapic_dev" where
  "dev_write base (W8 a v) d = (if a = base then d\<lparr>reg_select := v\<rparr> else d)"
| "dev_write base (W32 a v) d = (if a = base + 0x10 then d\<lparr>regs := (regs d)(reg_select d := v)\<rparr> else d)"

definition dev_run :: "u32 \<Rightarrow> mmio_write list \<Rightarrow> ioapic_dev \<Rightarrow> ioapic_dev" where
  "dev_run base ws d = fold (dev_write base) ws d"

record hw_entry =
  hw_vector :: u8
  hw_delivery :: nat
  hw_logical :: bool
  hw_active_low :: bool
  hw_level :: bool
  hw_masked :: bool
  hw_dest :: u8

definition hw_redirection :: "u32 \<Rightarrow> u32 \<Rightarrow> hw_entry" where
  "hw_redirection lo hi =
     \<lparr>hw_vector = ucast lo, hw_delivery = unat (take_bit 3 (drop_bit 8 lo)), hw_logical = bit lo 11, hw_active_low = bit lo 13,
      hw_level = bit lo 15, hw_masked = bit lo 16, hw_dest = ucast (drop_bit 24 hi)\<rparr>"

text \<open>The fields of the C structure sit one bit too high from \<^verbatim>\<open>destination_mode\<close> on.\<close>

lemma bit_field_bit: "bit (bit_field p w x) n \<longleftrightarrow> p \<le> n \<and> n < p + w \<and> n < 32 \<and> bit x (n - p)"
  by (auto simp: bit_field_def bit_simps)

lemma isa_vector: "i < 16 \<Longrightarrow> ucast (of_nat i + LAPIC_LVT_TIMER_REG + 1 :: u32) = (0x21 + of_nat i :: u8)"
proof -
  assume "i < 16"
  moreover have "(801 + i) mod 256 = (33 + i) mod 256" using mod_mult_self1 [of "33 + i" 3 256] by (simp add: add.commute)
  ultimately show ?thesis
  by (simp add: word_unat_eq_iff LAPIC_LVT_TIMER_REG_def unsigned_ucast_eq unat_word_ariths unat_of_nat take_bit_eq_mod)
qed

lemma entry_low_bit:
  "bit (entry_low e) n \<longleftrightarrow>
     (if n < 8 then bit (vector e) n
      else if n < 12 then bit (delivery_mode e) (n - 8)
      else if n < 18 then bit ([destination_mode e, destination_status e, e_polarity e, remote_irr e, e_trigger e, mask_bit e] ! (n - 12)) 0
      else False)"
proof -
  consider "n < 8" | "8 \<le> n" "n < 12" | "n = 12" | "n = 13" | "n = 14" | "n = 15" | "n = 16" | "n = 17" | "18 \<le> n" by linarith
  then show ?thesis
    by cases (auto simp: entry_low_def bit_or_iff bit_field_bit dest: bit_imp_le_length)
qed

lemma isa_entry_hw:
  assumes "i < 16"
  shows "hw_redirection (entry_low (isa_entry i x dest)) (entry_high (isa_entry i x dest)) =
    \<lparr>hw_vector = 0x21 + of_nat i, hw_delivery = 0, hw_logical = False, hw_active_low = False, hw_level = False,
     hw_masked = (trigger x = IRQ_TRIGGER_MODE_LEVEL), hw_dest = ucast dest\<rparr>"
proof -
  let ?e = "isa_entry i x dest" and ?lo = "entry_low (isa_entry i x dest)"
  have v: "ucast ?lo = vector ?e"
    by (rule bit_word_eqI) (simp add: bit_ucast_iff entry_low_bit)
  have d: "take_bit 3 (drop_bit 8 ?lo) = 0"
    by (rule bit_word_eqI) (auto simp: bit_simps entry_low_bit isa_entry_def)
  have h: "ucast (drop_bit 24 (entry_high ?e)) = destination ?e"
    by (rule bit_word_eqI) (auto simp: entry_high_def bit_field_def bit_simps)
  show ?thesis
    using v d h by (simp add: hw_redirection_def entry_low_bit isa_vector [OF assms] isa_entry_def)
qed

section \<open>Writing the redirection table\<close>

definition routed :: "interrupt \<Rightarrow> bool" where
  "routed x \<longleftrightarrow> overriden x = 0 \<and> orig_irq x \<noteq> 0"

lemma load_bytes: "load32 0 (le_bytes 4 (unat w) @ xs) = Some w" for w :: u32
proof -
  have "unat w < 256 ^ 4" using unsigned_less [of w] by simp
  then show ?thesis using le_value_bytes [of "unat w" 4] by (simp add: load32_def del: le_bytes.simps)
qed

lemma ioapic_write_run:
  assumes "aget (ioapics s) 0 = Some io"
  shows "\<exists>ws. ioapic_write 0 reg (le_bytes 4 (unat w) @ xs) 32 s = Some (s\<lparr>mmio := mmio s @ ws\<rparr>) \<and>
     (\<forall>d. regs (dev_run (base_register io) ws d) = (regs d)(reg := w))"
  using assms by (auto simp: ioapic_write_def load_bytes mmio_put_def dev_run_def intro!: exI [of _ "[_, _]"])

lemma dev_run_append: "dev_run b (xs @ ys) d = dev_run b ys (dev_run b xs d)"
  by (simp add: dev_run_def)

definition pin_regs :: "nat \<Rightarrow> u32 \<times> u32 \<Rightarrow> (u8 \<Rightarrow> u32) \<Rightarrow> (u8 \<Rightarrow> u32)" where
  "pin_regs i lh r = r(of_nat (0x10 + i * 2) := fst lh, of_nat (0x11 + i * 2) := snd lh)"

definition route_all :: "interrupt list \<Rightarrow> u32 \<Rightarrow> nat list \<Rightarrow> (u8 \<Rightarrow> u32) \<Rightarrow> (u8 \<Rightarrow> u32)" where
  "route_all xs dest is r =
     fold (\<lambda>i r. if routed (xs ! i)
                 then pin_regs i (entry_low (isa_entry i (xs ! i) dest), entry_high (isa_entry i (xs ! i) dest)) r else r) is r"

lemma setisa_loop_ok:
  "interrupts_set s \<Longrightarrow> aget (ioapics s) 0 = Some io \<Longrightarrow> \<forall>i \<in> set is. i < length (interrupts_cpu_0 s) \<Longrightarrow>
   \<exists>ws. setisa_loop is s = Some (s\<lparr>mmio := mmio s @ ws\<rparr>) \<and>
     (\<forall>d. regs (dev_run (base_register io) ws d) = route_all (interrupts_cpu_0 s) (lapic_id s) is (regs d))"
proof (induction "is" arbitrary: s)
  case Nil
  show ?case by (rule exI [of _ "[]"]) (simp add: dev_run_def route_all_def)
next
  case (Cons i js)
  let ?x = "interrupts_cpu_0 s ! i"
  let ?e = "isa_entry i ?x (lapic_id s)"
  have x: "aget (interrupts_cpu_0 s) i = Some ?x" using Cons.prems(3) by simp
  show ?case
  proof (cases "routed ?x")
    case False
    then have c: "overriden ?x \<noteq> 0 \<or> orig_irq ?x = 0" by (auto simp: routed_def)
    have "setisa_loop (i # js) s = setisa_loop js s"
      by (simp only: setisa_loop.simps Cons.prems(1) x c if_True Option.bind.simps)
    moreover have "route_all (interrupts_cpu_0 s) (lapic_id s) (i # js) r = route_all (interrupts_cpu_0 s) (lapic_id s) js r" for r
      using False by (simp add: route_all_def)
    ultimately show ?thesis using Cons.IH [OF Cons.prems(1,2)] Cons.prems(3) by simp
  next
    case True
    obtain w1 where w1: "ioapic_write 0 (of_nat (0x10 + i * 2)) (le_bytes 4 (unat (entry_low ?e)) @ le_bytes 4 (unat (entry_high ?e))) 32 s =
        Some (s\<lparr>mmio := mmio s @ w1\<rparr>)" "\<And>d. regs (dev_run (base_register io) w1 d) = (regs d)(of_nat (0x10 + i * 2) := entry_low ?e)"
      using ioapic_write_run [OF Cons.prems(2)] by blast
    let ?s1 = "s\<lparr>mmio := mmio s @ w1\<rparr>"
    have io1: "aget (ioapics ?s1) 0 = Some io" using Cons.prems(2) by simp
    obtain w2 where w2: "ioapic_write 0 (of_nat (0x11 + i * 2)) (le_bytes 4 (unat (entry_high ?e))) 32 ?s1 =
        Some (?s1\<lparr>mmio := mmio ?s1 @ w2\<rparr>)" "\<And>d. regs (dev_run (base_register io) w2 d) = (regs d)(of_nat (0x11 + i * 2) := entry_high ?e)"
      using ioapic_write_run [OF io1, of "of_nat (0x11 + i * 2)" "entry_high ?e" "[]"] unfolding append_Nil2 by blast
    let ?s2 = "?s1\<lparr>mmio := mmio ?s1 @ w2\<rparr>"
    have p: "interrupts_set ?s2" "aget (ioapics ?s2) 0 = Some io" "\<forall>i \<in> set js. i < length (interrupts_cpu_0 ?s2)"
      using Cons.prems by simp_all
    obtain ws where ws: "setisa_loop js ?s2 = Some (?s2\<lparr>mmio := mmio ?s2 @ ws\<rparr>)"
      "\<And>d. regs (dev_run (base_register io) ws d) = route_all (interrupts_cpu_0 ?s2) (lapic_id ?s2) js (regs d)"
      using Cons.IH [OF p] by blast
    have "setisa_loop (i # js) s = Some (s\<lparr>mmio := mmio s @ (w1 @ w2 @ ws)\<rparr>)"
      using True x w1(1) w2(1) ws(1) Cons.prems(1) by (simp add: routed_def Let_def del: le_bytes.simps)
    moreover have "regs (dev_run (base_register io) (w1 @ w2 @ ws) d) = route_all (interrupts_cpu_0 s) (lapic_id s) (i # js) (regs d)" for d
      using True by (simp add: dev_run_append w1(2) w2(2) ws(2) route_all_def pin_regs_def)
    ultimately show ?thesis by blast
  qed
qed

lemma pin_reg_inj:
  "i < 16 \<Longrightarrow> j < 16 \<Longrightarrow> (of_nat (0x10 + i * 2) :: u8) = of_nat (0x10 + j * 2) \<longleftrightarrow> i = j"
  "i < 16 \<Longrightarrow> j < 16 \<Longrightarrow> (of_nat (0x11 + i * 2) :: u8) = of_nat (0x11 + j * 2) \<longleftrightarrow> i = j"
  "i < 16 \<Longrightarrow> j < 16 \<Longrightarrow> (of_nat (0x10 + i * 2) :: u8) \<noteq> of_nat (0x11 + j * 2)"
proof -
  assume b: "i < 16" "j < 16"
  have u: "unat (of_nat k :: u8) = k" if "k < 256" for k using that by (simp add: unat_of_nat)
  show "(of_nat (0x10 + i * 2) :: u8) = of_nat (0x10 + j * 2) \<longleftrightarrow> i = j"
    "(of_nat (0x11 + i * 2) :: u8) = of_nat (0x11 + j * 2) \<longleftrightarrow> i = j"
    using b by (simp_all only: word_unat_eq_iff) (simp_all add: u del: of_nat_add of_nat_mult)
  have "0x10 + i * 2 \<noteq> 0x11 + j * 2" by presburger
  then show "(of_nat (0x10 + i * 2) :: u8) \<noteq> of_nat (0x11 + j * 2)"
    using b by (simp only: word_unat_eq_iff) (simp add: u del: of_nat_add of_nat_mult)
qed

lemma route_all_pin:
  assumes "j < 16"
  shows "\<forall>i \<in> set is. i < 16 \<Longrightarrow>
    (route_all xs dest is r (of_nat (0x10 + j * 2)), route_all xs dest is r (of_nat (0x11 + j * 2))) =
    (if j \<in> set is \<and> routed (xs ! j)
     then (entry_low (isa_entry j (xs ! j) dest), entry_high (isa_entry j (xs ! j) dest))
     else (r (of_nat (0x10 + j * 2)), r (of_nat (0x11 + j * 2))))"
proof (induction "is" arbitrary: r rule: rev_induct)
  case (snoc i js)
  then have i: "i < 16" and IH: "(route_all xs dest js r (of_nat (0x10 + j * 2)), route_all xs dest js r (of_nat (0x11 + j * 2))) =
    (if j \<in> set js \<and> routed (xs ! j)
     then (entry_low (isa_entry j (xs ! j) dest), entry_high (isa_entry j (xs ! j) dest))
     else (r (of_nat (0x10 + j * 2)), r (of_nat (0x11 + j * 2))))" by simp_all
  note inj = pin_reg_inj [OF i assms] pin_reg_inj [OF assms i]
  have "route_all xs dest (js @ [i]) r =
     (if routed (xs ! i) then pin_regs i (entry_low (isa_entry i (xs ! i) dest), entry_high (isa_entry i (xs ! i) dest)) (route_all xs dest js r)
      else route_all xs dest js r)" by (simp add: route_all_def)
  then show ?case using IH inj
    by (cases "i = j"; cases "routed (xs ! i)") (auto simp: pin_regs_def simp del: of_nat_add of_nat_mult)
qed (simp add: route_all_def)


section \<open>Overrides\<close>

record src_override =
  ov_bus :: u8
  ov_source :: u8
  ov_gsi :: u32
  ov_polarity :: u8
  ov_trigger :: u8

fun apply_overrides :: "src_override list \<Rightarrow> irqs \<Rightarrow> irqs option" where
  "apply_overrides [] s = Some s"
| "apply_overrides (v # vs) s =
     do { s \<leftarrow> interrupt_set_override (ov_bus v) (ov_source v) (ov_gsi v) (ov_polarity v) (ov_trigger v) s; apply_overrides vs s }"

definition moves :: "src_override \<Rightarrow> bool" where
  "moves v \<longleftrightarrow> ucast (ov_source v) \<noteq> ov_gsi v"

text \<open>The effect of one override on the interrupt with number \<open>i\<close>.\<close>

definition overridden_by :: "src_override \<Rightarrow> nat \<Rightarrow> interrupt \<Rightarrow> interrupt" where
  "overridden_by v i x =
     (let x = (if moves v \<and> i = unat (ov_source v) then x\<lparr>overriden := 1\<rparr> else x)
      in if i = unat (ov_gsi v)
         then x\<lparr>orig_irq := (if moves v then ov_source v else orig_irq x), irq_bus := ov_bus v,
                polarity := (if ov_polarity v = 0 then DEFAULT_ISA_IRQ_POLARITY else ov_polarity v),
                trigger := (if ov_trigger v = 0 then DEFAULT_ISA_IRQ_TRIGGER_MODE else ov_trigger v)\<rparr>
         else x)"

definition in_table :: "nat \<Rightarrow> src_override \<Rightarrow> bool" where
  "in_table n v \<longleftrightarrow> unat (ov_source v) < n \<and> unat (ov_gsi v) < n"

lemma upd_int_in: "i < length (interrupts_cpu_0 s) \<Longrightarrow>
   upd_int i f s = Some (s\<lparr>interrupts_cpu_0 := (interrupts_cpu_0 s)[i := f (interrupts_cpu_0 s ! i)]\<rparr>)"
  by (simp add: upd_int_def)

lemma set_override_ok:
  assumes "in_table (length (interrupts_cpu_0 s)) v"
  shows "\<exists>xs. interrupt_set_override (ov_bus v) (ov_source v) (ov_gsi v) (ov_polarity v) (ov_trigger v) s =
      Some (s\<lparr>interrupts_cpu_0 := xs\<rparr>) \<and> length xs = length (interrupts_cpu_0 s) \<and>
     (\<forall>i < length xs. xs ! i = overridden_by v i (interrupts_cpu_0 s ! i))"
  using assms
  by (auto simp: interrupt_set_override_def upd_int_in in_table_def overridden_by_def moves_def nth_list_update Let_def)

lemma apply_overrides_ok:
  "\<forall>v \<in> set vs. in_table (length (interrupts_cpu_0 s)) v \<Longrightarrow>
   \<exists>xs. apply_overrides vs s = Some (s\<lparr>interrupts_cpu_0 := xs\<rparr>) \<and> length xs = length (interrupts_cpu_0 s) \<and>
     (\<forall>i < length xs. xs ! i = fold (\<lambda>v. overridden_by v i) vs (interrupts_cpu_0 s ! i))"
proof (induction vs arbitrary: s)
  case Nil
  show ?case by (rule exI [of _ "interrupts_cpu_0 s"]) simp
next
  case (Cons v vs)
  obtain ys where ys: "interrupt_set_override (ov_bus v) (ov_source v) (ov_gsi v) (ov_polarity v) (ov_trigger v) s =
      Some (s\<lparr>interrupts_cpu_0 := ys\<rparr>)" "length ys = length (interrupts_cpu_0 s)"
     "\<forall>i < length ys. ys ! i = overridden_by v i (interrupts_cpu_0 s ! i)"
    using set_override_ok [of s v] Cons.prems by auto
  obtain xs where xs: "apply_overrides vs (s\<lparr>interrupts_cpu_0 := ys\<rparr>) = Some (s\<lparr>interrupts_cpu_0 := xs\<rparr>)" "length xs = length ys"
     "\<forall>i < length xs. xs ! i = fold (\<lambda>v. overridden_by v i) vs (ys ! i)"
    using Cons.IH [of "s\<lparr>interrupts_cpu_0 := ys\<rparr>"] Cons.prems ys(2) by auto
  then show ?case using ys by (intro exI [of _ xs]) simp
qed

text \<open>What the overrides leave, by their last word on a line.\<close>

definition last_on :: "(src_override \<Rightarrow> bool) \<Rightarrow> src_override list \<Rightarrow> src_override option" where
  "last_on P vs = find P (rev vs)"

lemma fold_overridden:
  "overriden (fold (\<lambda>v. overridden_by v i) vs x) = (if \<exists>v \<in> set vs. moves v \<and> unat (ov_source v) = i then 1 else overriden x)"
  "orig_irq (fold (\<lambda>v. overridden_by v i) vs x) =
     (case last_on (\<lambda>v. moves v \<and> unat (ov_gsi v) = i) vs of None \<Rightarrow> orig_irq x | Some v \<Rightarrow> ov_source v)"
  "trigger (fold (\<lambda>v. overridden_by v i) vs x) =
     (case last_on (\<lambda>v. unat (ov_gsi v) = i) vs of None \<Rightarrow> trigger x
      | Some v \<Rightarrow> if ov_trigger v = 0 then DEFAULT_ISA_IRQ_TRIGGER_MODE else ov_trigger v)"
  by (induction vs rule: rev_induct) (auto simp: overridden_by_def last_on_def Let_def)

lemma init_ints_ok:
  "distinct is \<Longrightarrow> \<forall>i \<in> set is. i < length (interrupts_cpu_0 s) \<Longrightarrow>
   \<exists>xs. init_ints is s = Some (s\<lparr>interrupts_cpu_0 := xs\<rparr>) \<and> length xs = length (interrupts_cpu_0 s) \<and>
     (\<forall>i < length xs. overriden (xs ! i) = overriden (interrupts_cpu_0 s ! i) \<and>
        (i \<in> set is \<longrightarrow> orig_irq (xs ! i) = of_nat i \<and> trigger (xs ! i) = DEFAULT_ISA_IRQ_TRIGGER_MODE) \<and>
        (i \<notin> set is \<longrightarrow> xs ! i = interrupts_cpu_0 s ! i))"
proof (induction "is" arbitrary: s)
  case Nil
  show ?case by (rule exI [of _ "interrupts_cpu_0 s"]) simp
next
  case (Cons i js)
  let ?f = "\<lambda>x. x\<lparr>orig_irq := of_nat i, irq_bus := 0, irq_gsi := of_nat i,
              polarity := DEFAULT_ISA_IRQ_POLARITY, trigger := DEFAULT_ISA_IRQ_TRIGGER_MODE\<rparr>"
  let ?ys = "(interrupts_cpu_0 s)[i := ?f (interrupts_cpu_0 s ! i)]"
  have u: "upd_int i ?f s = Some (s\<lparr>interrupts_cpu_0 := ?ys\<rparr>)" using Cons.prems by (simp add: upd_int_in)
  obtain xs where xs: "init_ints js (s\<lparr>interrupts_cpu_0 := ?ys\<rparr>) = Some (s\<lparr>interrupts_cpu_0 := xs\<rparr>)" "length xs = length ?ys"
     "\<forall>k < length xs. overriden (xs ! k) = overriden (?ys ! k) \<and>
        (k \<in> set js \<longrightarrow> orig_irq (xs ! k) = of_nat k \<and> trigger (xs ! k) = DEFAULT_ISA_IRQ_TRIGGER_MODE) \<and>
        (k \<notin> set js \<longrightarrow> xs ! k = ?ys ! k)"
    using Cons.IH [of "s\<lparr>interrupts_cpu_0 := ?ys\<rparr>"] Cons.prems by auto
  show ?case using xs u Cons.prems by (intro exI [of _ xs]) (auto simp: nth_list_update)
qed

section \<open>From the firmware's overrides to the redirection table\<close>

definition line_moved :: "src_override list \<Rightarrow> nat \<Rightarrow> bool" where
  "line_moved vs i \<longleftrightarrow> (\<exists>v \<in> set vs. moves v \<and> unat (ov_source v) = i)"

definition source_line :: "src_override list \<Rightarrow> nat \<Rightarrow> u8" where
  "source_line vs i = (case last_on (\<lambda>v. moves v \<and> unat (ov_gsi v) = i) vs of None \<Rightarrow> of_nat i | Some v \<Rightarrow> ov_source v)"

definition level_line :: "src_override list \<Rightarrow> nat \<Rightarrow> bool" where
  "level_line vs i = (case last_on (\<lambda>v. unat (ov_gsi v) = i) vs of None \<Rightarrow> False | Some v \<Rightarrow> ov_trigger v = IRQ_TRIGGER_MODE_LEVEL)"

definition low_line :: "src_override list \<Rightarrow> nat \<Rightarrow> bool" where
  "low_line vs i = (case last_on (\<lambda>v. unat (ov_gsi v) = i) vs of None \<Rightarrow> False | Some v \<Rightarrow> ov_polarity v = IRQ_POL_ACTIVE_LOW)"

text \<open>
  The entry the overrides ask for on a pin: unmasked, with the polarity and the trigger of the last override of the line; and what
  the device makes of an entry the kernel writes: the polarity and the trigger sit one bit too high, so that the polarity is lost and
  a level trigger masks the pin. An entry arrives as asked for exactly if it is edge triggered and active high.
\<close>

definition asked :: "src_override list \<Rightarrow> u32 \<Rightarrow> nat \<Rightarrow> hw_entry" where
  "asked vs dest i =
     \<lparr>hw_vector = 0x21 + of_nat i, hw_delivery = 0, hw_logical = False, hw_active_low = low_line vs i, hw_level = level_line vs i,
      hw_masked = False, hw_dest = ucast dest\<rparr>"

definition shifted :: "hw_entry \<Rightarrow> hw_entry" where
  "shifted e = e\<lparr>hw_active_low := False, hw_level := False, hw_masked := hw_level e\<rparr>"

lemma shifted_asked:
  "shifted (asked vs dest i) = asked vs dest i \<longleftrightarrow> \<not> low_line vs i \<and> \<not> level_line vs i"
  "hw_vector (shifted (asked vs dest i)) = 0x21 + of_nat i" "hw_masked (shifted (asked vs dest i)) = level_line vs i"
  by (auto simp: shifted_def asked_def)

lemma interrupts_init_table:
  assumes "length (interrupts_cpu_0 s) = 24" and "\<forall>x \<in> set (interrupts_cpu_0 s). overriden x = 0" and "buses s \<noteq> []"
  shows "\<exists>xs. interrupts_init s =
       Some (s\<lparr>buses := (buses s)[0 := \<lparr>bus_id = 0, bus_type = 0\<rparr>], interrupts_set := True, interrupts_cpu_0 := xs\<rparr>) \<and>
     length xs = 24 \<and> (\<forall>i < 24. overriden (xs ! i) = 0) \<and>
     (\<forall>i < 16. orig_irq (xs ! i) = of_nat i \<and> trigger (xs ! i) = DEFAULT_ISA_IRQ_TRIGGER_MODE)"
proof -
  let ?s = "s\<lparr>buses := (buses s)[0 := \<lparr>bus_id = 0, bus_type = 0\<rparr>], interrupts_set := True\<rparr>"
  obtain xs where xs: "init_ints [0..<16] ?s = Some (?s\<lparr>interrupts_cpu_0 := xs\<rparr>)" "length xs = 24"
     "\<forall>i < 24. overriden (xs ! i) = 0"
     "\<forall>i < 16. orig_irq (xs ! i) = of_nat i \<and> trigger (xs ! i) = DEFAULT_ISA_IRQ_TRIGGER_MODE"
    using init_ints_ok [of "[0..<16]" ?s] assms(1,2) by (auto simp del: upt_rec_numeral)
  then show ?thesis using assms(3) by (intro exI [of _ xs]) (simp add: interrupts_init_def del: upt_rec_numeral)
qed

lemma overridden_pin:
  assumes "overriden x = 0" and "orig_irq x = of_nat i" and "trigger x = DEFAULT_ISA_IRQ_TRIGGER_MODE"
  shows "let y = fold (\<lambda>v. overridden_by v i) vs x in
     (routed y \<longleftrightarrow> \<not> line_moved vs i \<and> source_line vs i \<noteq> 0) \<and> (trigger y = IRQ_TRIGGER_MODE_LEVEL \<longleftrightarrow> level_line vs i)"
  using assms
  by (auto simp: routed_def line_moved_def source_line_def level_line_def fold_overridden irq_modes Let_def split: option.splits)

lemma overridden_table:
  assumes "length (interrupts_cpu_0 s) = 24" and "\<forall>x \<in> set (interrupts_cpu_0 s). overriden x = 0" and "buses s \<noteq> []"
    and "\<forall>v \<in> set vs. in_table 24 v"
  shows "\<exists>s2. Option.bind (interrupts_init s) (apply_overrides vs) = Some s2 \<and> interrupts_set s2 \<and> mmio s2 = mmio s \<and>
     ioapics s2 = ioapics s \<and> lapic_id s2 = lapic_id s \<and> length (interrupts_cpu_0 s2) = 24 \<and>
     (\<forall>i < 16. let x = interrupts_cpu_0 s2 ! i in
        (routed x \<longleftrightarrow> \<not> line_moved vs i \<and> source_line vs i \<noteq> 0) \<and> (trigger x = IRQ_TRIGGER_MODE_LEVEL \<longleftrightarrow> level_line vs i))"
proof -
  obtain t xs where t: "interrupts_init s = Some t" "t = s\<lparr>buses := (buses s)[0 := \<lparr>bus_id = 0, bus_type = 0\<rparr>],
      interrupts_set := True, interrupts_cpu_0 := xs\<rparr>" and xs: "length xs = 24" "\<forall>i < 24. overriden (xs ! i) = 0"
     "\<forall>i < 16. orig_irq (xs ! i) = of_nat i \<and> trigger (xs ! i) = DEFAULT_ISA_IRQ_TRIGGER_MODE"
    using interrupts_init_table [OF assms(1-3)] by blast
  obtain ys where "apply_overrides vs t = Some (t\<lparr>interrupts_cpu_0 := ys\<rparr>)" "length ys = 24"
     "\<forall>i < 24. ys ! i = fold (\<lambda>v. overridden_by v i) vs (xs ! i)"
    using apply_overrides_ok [of vs t] assms(4) xs(1) t(2) by auto
  then show ?thesis using t xs overridden_pin [of "xs ! i" i vs for i] by (simp add: Let_def)
qed

text \<open>The sixteen ISA pins as the device holds them after the writes \<open>ws\<close>.\<close>

definition programmed :: "src_override list \<Rightarrow> u32 \<Rightarrow> u32 \<Rightarrow> mmio_write list \<Rightarrow> bool" where
  "programmed vs dest base ws \<longleftrightarrow>
     (\<forall>d. \<forall>i < 16.
        let r = regs d; r' = regs (dev_run base ws d); lo = of_nat (0x10 + i * 2); hi = of_nat (0x11 + i * 2)
        in if line_moved vs i \<or> source_line vs i = 0 then r' lo = r lo \<and> r' hi = r hi
           else hw_redirection (r' lo) (r' hi) = shifted (asked vs dest i))"

lemma ioapic_init_programs:
  assumes "interrupts_set s" and "length (interrupts_cpu_0 s) = 24" and "aget (ioapics s) 0 = Some io"
    and pins: "\<forall>i < 16. let x = interrupts_cpu_0 s ! i in
        (routed x \<longleftrightarrow> \<not> line_moved vs i \<and> source_line vs i \<noteq> 0) \<and> (trigger x = IRQ_TRIGGER_MODE_LEVEL \<longleftrightarrow> level_line vs i)"
  shows "\<exists>ws. ioapic_init s = Some (s\<lparr>ioapic_initialized := True, mmio := mmio s @ ws\<rparr>) \<and>
     programmed vs (lapic_id s) (base_register io) ws"
proof -
  let ?s = "s\<lparr>ioapic_initialized := True\<rparr>"
  obtain ws where ws: "setisa_loop [0..<16] ?s = Some (?s\<lparr>mmio := mmio ?s @ ws\<rparr>)"
     "\<And>d. regs (dev_run (base_register io) ws d) = route_all (interrupts_cpu_0 ?s) (lapic_id ?s) [0..<16] (regs d)"
    using setisa_loop_ok [of ?s io "[0..<16]"] assms(1-3) by (auto simp del: upt_rec_numeral)
  have "programmed vs (lapic_id s) (base_register io) ws"
    unfolding programmed_def
  proof (intro allI impI)
    fix d :: ioapic_dev and i :: nat
    assume i: "i < 16"
    have "i \<in> set [0..<16]" "\<forall>k \<in> set [0..<16]. k < (16 :: nat)" using i by (simp_all del: upt_rec_numeral)
    then show "let r = regs d; r' = regs (dev_run (base_register io) ws d); lo = of_nat (0x10 + i * 2); hi = of_nat (0x11 + i * 2)
        in if line_moved vs i \<or> source_line vs i = 0 then r' lo = r lo \<and> r' hi = r hi
           else hw_redirection (r' lo) (r' hi) = shifted (asked vs (lapic_id s) i)"
      using route_all_pin [OF i, of "[0..<16]" "interrupts_cpu_0 s" "lapic_id s" "regs d"] pins i
        isa_entry_hw [OF i, of "interrupts_cpu_0 s ! i" "lapic_id s"]
      by (auto simp: ws(2) Let_def shifted_def asked_def simp del: of_nat_add of_nat_mult upt_rec_numeral split: if_splits)
  qed
  then show ?thesis using ws(1)
    by (intro exI [of _ ws]) (simp add: ioapic_init_def ioapic_setisa_irqs_def del: upt_rec_numeral)
qed

text \<open>From the firmware's source overrides to the I/O APIC: the table is filled, every override inside it is recorded and
  the redirection table written without leaving an array; of the sixteen pins exactly those are programmed whose
  line was not moved elsewhere and that do not carry the timer's line 0; a programmed pin delivers, fixed and physical to the local
  APIC, vector 33 + pin, as the device reads it edge triggered and active high whatever the override asked for, and
  it is masked exactly if the override asked for level triggering.\<close>

theorem isa_irqs_routed:
  assumes "length (interrupts_cpu_0 s) = 24" and "\<forall>x \<in> set (interrupts_cpu_0 s). overriden x = 0" and "buses s \<noteq> []"
    and "aget (ioapics s) 0 = Some io" and "\<forall>v \<in> set vs. in_table 24 v"
  shows "\<exists>s' ws. Option.bind (Option.bind (interrupts_init s) (apply_overrides vs)) ioapic_init = Some s' \<and>
     ioapic_initialized s' \<and> mmio s' = mmio s @ ws \<and>
     (\<forall>d. \<forall>i < 16.
        let r = regs d; r' = regs (dev_run (base_register io) ws d); lo = of_nat (0x10 + i * 2); hi = of_nat (0x11 + i * 2)
        in if line_moved vs i \<or> source_line vs i = 0 then r' lo = r lo \<and> r' hi = r hi
           else hw_redirection (r' lo) (r' hi) = shifted (asked vs (lapic_id s) i))"
proof -
  obtain s2 where s2: "Option.bind (interrupts_init s) (apply_overrides vs) = Some s2" "interrupts_set s2" "mmio s2 = mmio s"
     "ioapics s2 = ioapics s" "lapic_id s2 = lapic_id s" "length (interrupts_cpu_0 s2) = 24"
     and pins: "\<forall>i < 16. let x = interrupts_cpu_0 s2 ! i in
        (routed x \<longleftrightarrow> \<not> line_moved vs i \<and> source_line vs i \<noteq> 0) \<and> (trigger x = IRQ_TRIGGER_MODE_LEVEL \<longleftrightarrow> level_line vs i)"
    using overridden_table [OF assms(1-3,5)] by blast
  have io: "aget (ioapics s2) 0 = Some io" using assms(4) s2(4) by simp
  obtain ws where "ioapic_init s2 = Some (s2\<lparr>ioapic_initialized := True, mmio := mmio s @ ws\<rparr>)" "programmed vs (lapic_id s) (base_register io) ws"
    using ioapic_init_programs [OF s2(2,6) io pins] unfolding s2(3,5) by blast
  then show ?thesis
    unfolding s2(1) Option.bind.simps programmed_def
    by (intro exI [of _ "s2\<lparr>ioapic_initialized := True, mmio := mmio s @ ws\<rparr>"] exI [of _ ws]) simp
qed

text \<open>A machine as it comes up, and the overrides of a common board: the timer on pin 2, line 9 level triggered.\<close>

definition zero_interrupt :: interrupt where
  "zero_interrupt = \<lparr>orig_irq = 0, irq_bus = 0, irq_gsi = 0, overriden = 0, polarity = 0, trigger = 0\<rparr>"

definition boot_irqs :: irqs where
  "boot_irqs = \<lparr>mach = boot_machine, kbd = idle_keyboard\<lparr>ring_buffer_kbd := fresh 10\<rparr>,
     ioapics = [\<lparr>ioapic_id = 0, base_register = 0xfec00000, gsi_base = 0, max_redir_entries = 24\<rparr>],
     interrupts_set = False, interrupts_cpu_0 = replicate 24 zero_interrupt, buses = replicate 2 \<lparr>bus_id = 0, bus_type = 0\<rparr>,
     ioapic_initialized = False, lapic_present = 0, lapic_base_register = 0, lapic_id = 0, lapic_calibration_tick = 0,
     lapic_calibration_mode = False, lapic_timer_enabled = False, timer_counter = replicate 32 0, seconds = replicate 32 0,
     mmio = []\<rparr>"

definition board_overrides :: "src_override list" where
  "board_overrides =
     [\<lparr>ov_bus = 0, ov_source = 0, ov_gsi = 2, ov_polarity = 0, ov_trigger = 0\<rparr>,
      \<lparr>ov_bus = 0, ov_source = 9, ov_gsi = 9, ov_polarity = 1, ov_trigger = 3\<rparr>]"

lemma board_lines:
  "\<not> line_moved board_overrides 1" "source_line board_overrides 1 = 1" "\<not> level_line board_overrides 1"
  "\<not> line_moved board_overrides 9" "source_line board_overrides 9 = 9" "level_line board_overrides 9"
  "\<forall>v \<in> set board_overrides. in_table 24 v"
  by (simp_all add: line_moved_def source_line_def level_line_def board_overrides_def moves_def last_on_def
      IRQ_TRIGGER_MODE_LEVEL_def in_table_def)

text \<open>The keyboard's line 1 reaches vector 34; line 9 is masked.\<close>

theorem isa_irqs_routed_witness:
  "\<exists>s' ws. Option.bind (Option.bind (interrupts_init boot_irqs) (apply_overrides board_overrides)) ioapic_init = Some s' \<and>
     mmio s' = ws \<and>
     (\<forall>d. let r = regs (dev_run 0xfec00000 ws d)
          in hw_vector (hw_redirection (r 0x12) (r 0x13)) = 0x22 \<and> \<not> hw_masked (hw_redirection (r 0x12) (r 0x13)) \<and>
             hw_masked (hw_redirection (r 0x22) (r 0x23)))"
proof -
  have p: "length (interrupts_cpu_0 boot_irqs) = 24" "\<forall>x \<in> set (interrupts_cpu_0 boot_irqs). overriden x = 0"
    "buses boot_irqs \<noteq> []" "mmio boot_irqs = []"
    "aget (ioapics boot_irqs) 0 = Some \<lparr>ioapic_id = 0, base_register = 0xfec00000, gsi_base = 0, max_redir_entries = 24\<rparr>"
    by (simp_all add: boot_irqs_def zero_interrupt_def)
  obtain s' ws where r: "Option.bind (Option.bind (interrupts_init boot_irqs) (apply_overrides board_overrides)) ioapic_init = Some s'"
      "mmio s' = ws"
    and pins: "\<And>d i. i < 16 \<Longrightarrow>
        (let r = regs d; r' = regs (dev_run 0xfec00000 ws d); lo = of_nat (0x10 + i * 2); hi = of_nat (0x11 + i * 2)
        in if line_moved board_overrides i \<or> source_line board_overrides i = 0 then r' lo = r lo \<and> r' hi = r hi
           else hw_redirection (r' lo) (r' hi) = shifted (asked board_overrides (lapic_id boot_irqs) i))"
    using isa_irqs_routed [OF p(1-3,5) board_lines(7)] p(4) by auto
  show ?thesis
    using r pins [of 1] pins [of 9] board_lines(1-6)
    by (intro exI [of _ s'] exI [of _ ws]) (simp add: Let_def shifted_asked)
qed

end
