(* ===== verification/Irq_Props.thy ===== *)
theory Irq_Props
  imports Routing_Props
begin

text \<open>
  The interrupt handler: every interrupt is acknowledged once, the clock kept by the timer interrupts and its
  calibration, and what happens without a local APIC. The last section holds the witnesses.
\<close>

section \<open>Acknowledging\<close>

text \<open>
  The effect of \<^verbatim>\<open>sendEOI\<close>, by its own case distinction. Which of its cases a machine is in, and whether that is the controller
  that delivers its interrupts, is settled from the boot on below.
\<close>

definition eoi_effect :: "u32 \<Rightarrow> irqs \<Rightarrow> irqs \<Rightarrow> bool" where
  "eoi_effect n s s' \<longleftrightarrow>
     (if ioapic_initialized s \<or> n = 0 \<and> lapic_present s \<noteq> 0
      then mmio s' = mmio s @ [W32 (lapic_base_register s + 0xb0) 0] \<and> port_out (mach s') = port_out (mach s)
      else mmio s' = mmio s \<and>
        port_out (mach s') = port_out (mach s) @ (if n < 8 then [(0x20, 0x20)] else [(0xa0, 0x20), (0x20, 0x20)]))"

lemma sendEOI_logged:
  assumes "n < 16"
  shows "eoi_effect n s (sendEOI n s)" "kbd (sendEOI n s) = kbd s" "timer_counter (sendEOI n s) = timer_counter s"
    "seconds (sendEOI n s) = seconds s" "sched_tick (mach (sendEOI n s)) = sched_tick (mach s)"
    "lapic_present (sendEOI n s) = lapic_present s" "lapic_calibration_tick (sendEOI n s) = lapic_calibration_tick s"
    "lapic_calibration_mode (sendEOI n s) = lapic_calibration_mode s" "ioapic_initialized (sendEOI n s) = ioapic_initialized s"
    "lapic_base_register (sendEOI n s) = lapic_base_register s"
proof -
  have u: "unat n < 16" using assms by (simp add: word_less_nat_alt)
  then have c: "unat (ucast n :: u8) = unat n" by (simp add: unsigned_ucast_eq take_bit_eq_mod)
  have "sint (ucast n :: u8) = int (unat n)" using sint_unat [of "ucast n :: u8"] c u by simp
  then have "sint (ucast n :: u8) < 8 \<longleftrightarrow> unat n < 8" by linarith
  then have "sint (ucast n :: u8) < 8 \<longleftrightarrow> n < 8" by (simp add: word_less_nat_alt)
  then show "eoi_effect n s (sendEOI n s)" by (simp add: eoi_effect_def sendEOI_def mmio_put_def outs_def outb_def)
qed (simp_all add: sendEOI_def mmio_put_def outs_def outb_def)

section \<open>The timer\<close>

definition tick_hz :: "irqs \<Rightarrow> nat" where
  "tick_hz s = (if lapic_present s = 0 then 1193 else 1000 * unat (lapic_calibration_tick s))"

definition has_cpu :: "nat \<Rightarrow> irqs \<Rightarrow> bool" where
  "has_cpu cpu s \<longleftrightarrow> cpu < length (sched_tick (mach s)) \<and> cpu < length (timer_counter s) \<and> cpu < length (seconds s)"

text \<open>What a timer interrupt leaves alone.\<close>

definition same_setup :: "irqs \<Rightarrow> irqs \<Rightarrow> bool" where
  "same_setup s s' \<longleftrightarrow>
     lapic_present s' = lapic_present s \<and> lapic_calibration_tick s' = lapic_calibration_tick s \<and>
     lapic_calibration_mode s' = lapic_calibration_mode s \<and> ioapic_initialized s' = ioapic_initialized s \<and>
     lapic_base_register s' = lapic_base_register s \<and> length (sched_tick (mach s')) = length (sched_tick (mach s)) \<and>
     length (timer_counter s') = length (timer_counter s) \<and> length (seconds s') = length (seconds s) \<and>
     (\<exists>v. kbd s' = (kbd s)\<lparr>kbd_vga := v\<rparr>)"

lemma same_setup_refl: "same_setup s s"
  unfolding same_setup_def by (metis keyboard.surjective keyboard.update_convs(5))

lemma same_setup_trans: "same_setup s t \<Longrightarrow> same_setup t u \<Longrightarrow> same_setup s u"
  by (auto simp: same_setup_def)

lemma same_setup_keeps: "same_setup s t \<Longrightarrow> has_cpu cpu t \<longleftrightarrow> has_cpu cpu s" "same_setup s t \<Longrightarrow> tick_hz t = tick_hz s"
  by (simp_all add: same_setup_def has_cpu_def tick_hz_def)

lemma PIT_HZ_val: "unat PIT_HZ = 1193" "sint PIT_HZ = 1193"
  by (simp_all add: PIT_HZ_def)

lemma second_over:
  fixes c :: u32
  assumes "tick_hz s < 2 ^ 31" and "unat c < 2 ^ 31"
  shows "(lapic_present s = 0 \<and> sint PIT_HZ \<le> sint c \<or>
      lapic_present s \<noteq> 0 \<and> sint (1000 * lapic_calibration_tick s) \<le> sint c) \<longleftrightarrow> tick_hz s \<le> unat c"
proof -
  have c: "sint c = int (unat c)" using assms(2) by (intro sint_unat) simp
  show ?thesis
  proof (cases "lapic_present s = 0")
    case True
    have "(1193 :: int) \<le> int (unat c) \<longleftrightarrow> 1193 \<le> unat c" by linarith
    then show ?thesis using True by (simp add: PIT_HZ_val c tick_hz_def del: of_nat_unat)
  next
    case False
    then have b: "1000 * unat (lapic_calibration_tick s) < 2 ^ 31" using assms(1) by (simp add: tick_hz_def)
    then have u: "unat (1000 * lapic_calibration_tick s) = 1000 * unat (lapic_calibration_tick s)"
      by (simp add: unat_word_ariths)
    then have "sint (1000 * lapic_calibration_tick s) = int (1000 * unat (lapic_calibration_tick s))"
      using b sint_unat [of "1000 * lapic_calibration_tick s"] by simp
    then have "sint (1000 * lapic_calibration_tick s) \<le> sint c \<longleftrightarrow> 1000 * unat (lapic_calibration_tick s) \<le> unat c"
      unfolding c by (simp only: of_nat_le_iff)
    then show ?thesis using False by (simp add: tick_hz_def)
  qed
qed

lemma timer_tick_ok:
  assumes cpu: "has_cpu cpu s" and hz: "tick_hz s < 2 ^ 31" "unat (timer_counter s ! cpu) < tick_hz s" and str: "length str = 20"
  shows "\<exists>s'. timer_tick cpu str s = Some s' \<and> same_setup s s' \<and> mmio s' = mmio s \<and> mach s' = mach s \<and>
     unat (timer_counter s' ! cpu) = Suc (unat (timer_counter s ! cpu)) mod tick_hz s \<and>
     seconds s' ! cpu = seconds s ! cpu + (if Suc (unat (timer_counter s ! cpu)) = tick_hz s then 1 else 0) \<and>
     (\<forall>i. i \<noteq> cpu \<longrightarrow> timer_counter s' ! i = timer_counter s ! i \<and> seconds s' ! i = seconds s ! i)"
proof -
  let ?c = "timer_counter s ! cpu + 1"
  have l: "cpu < length (timer_counter s)" "cpu < length (seconds s)" using cpu by (simp_all add: has_cpu_def)
  have c: "unat ?c = Suc (unat (timer_counter s ! cpu))" using hz by (simp add: unat_word_ariths)
  define s1 where "s1 = s\<lparr>timer_counter := (timer_counter s)[cpu := ?c]\<rparr>"
  have over: "(lapic_present s = 0 \<and> sint PIT_HZ \<le> sint ?c \<or>
      lapic_present s \<noteq> 0 \<and> sint (1000 * lapic_calibration_tick s) \<le> sint ?c) \<longleftrightarrow> tick_hz s \<le> unat ?c"
    using second_over [of s ?c] hz c by simp
  show ?thesis
  proof (cases "tick_hz s \<le> unat ?c")
    case True
    then have e: "Suc (unat (timer_counter s ! cpu)) = tick_hz s" using c hz(2) by simp
    let ?v = "seconds s ! cpu + 1"
    obtain rest where t: "itoa_gen ?v 0 10 False str = Some (itoa_text ?v 10 False @ 0 # rest)"
      using itoa_str [OF str, of 10 ?v False] by blast
    have sl: "strlen (itoa_text ?v 10 False @ 0 # rest) 0 = Some (length (itoa_text ?v 10 False))"
      using strlen_cstr [OF cstrI [of "itoa_text ?v 10 False" "[]" 0 rest]] itoa_text_nonzero [of 10 ?v False] by simp
    define s' where "s' = s1\<lparr>timer_counter := (timer_counter s1)[cpu := 0], seconds := (seconds s)[cpu := ?v],
       kbd := (kbd s)\<lparr>kbd_vga := print_vga_fixed (itoa_text ?v 10 False) 140 (int cpu) (kbd_vga (kbd s))\<rparr>\<rparr>"
    have "timer_tick cpu str s = Some s'"
      using True over l t sl
      by (cases "lapic_present s = 0") (simp_all add: timer_tick_def upd_counter_def Let_def s'_def s1_def)
    moreover have "same_setup s s'" by (auto simp: s'_def s1_def same_setup_def)
    ultimately show ?thesis using e l by (auto simp: s'_def s1_def nth_list_update)
  next
    case False
    then have e: "Suc (unat (timer_counter s ! cpu)) < tick_hz s" using c by simp
    have "timer_tick cpu str s = Some s1"
      using False over l by (cases "lapic_present s = 0") (simp_all add: timer_tick_def upd_counter_def Let_def s1_def)
    moreover have "same_setup s s1" using same_setup_refl [of s] by (auto simp: s1_def same_setup_def)
    ultimately show ?thesis using e l c by (auto simp: s1_def nth_list_update)
  qed
qed

lemma timer_irq_ok:
  assumes rf: "code_nr rf = 0" and mode: "\<not> lapic_calibration_mode s"
    and cpu: "has_cpu cpu s" and hz: "tick_hz s < 2 ^ 31" "unat (timer_counter s ! cpu) < tick_hz s" and str: "length str = 20"
  shows "\<exists>s'. common_interrupt_handler cpu sc str rf s = Some s' \<and> same_setup s s' \<and> eoi_effect 0 s s' \<and>
     unat (timer_counter s' ! cpu) = Suc (unat (timer_counter s ! cpu)) mod tick_hz s \<and>
     seconds s' ! cpu = seconds s ! cpu + (if Suc (unat (timer_counter s ! cpu)) = tick_hz s then 1 else 0) \<and>
     (\<forall>i. i \<noteq> cpu \<longrightarrow> timer_counter s' ! i = timer_counter s ! i \<and> seconds s' ! i = seconds s ! i) \<and>
     sched_tick (mach s') = (sched_tick (mach s))[cpu := sched_tick (mach s) ! cpu + 1]"
proof -
  define s0 where "s0 = s\<lparr>mach := (mach s)\<lparr>sched_tick := (sched_tick (mach s))[cpu := sched_tick (mach s) ! cpu + 1]\<rparr>\<rparr>"
  have ss: "same_setup s s0" using same_setup_refl [of s] by (auto simp: s0_def same_setup_def)
  have l: "cpu < length (sched_tick (mach s))" using cpu by (simp add: has_cpu_def)
  have tc: "timer_counter s0 = timer_counter s" "seconds s0 = seconds s" "lapic_calibration_mode s0 = lapic_calibration_mode s"
    by (simp_all add: s0_def)
  obtain s1 where s1: "timer_tick cpu str s0 = Some s1" "same_setup s0 s1" "mmio s1 = mmio s0" "mach s1 = mach s0"
     "unat (timer_counter s1 ! cpu) = Suc (unat (timer_counter s ! cpu)) mod tick_hz s"
     "seconds s1 ! cpu = seconds s ! cpu + (if Suc (unat (timer_counter s ! cpu)) = tick_hz s then 1 else 0)"
     "\<forall>i. i \<noteq> cpu \<longrightarrow> timer_counter s1 ! i = timer_counter s ! i \<and> seconds s1 ! i = seconds s ! i"
    using timer_tick_ok [of cpu s0 str] same_setup_keeps [OF ss] cpu hz str tc by auto
  note eo = sendEOI_logged [of 0 s1, simplified]
  have run: "common_interrupt_handler cpu sc str rf s = Some (sendEOI 0 s1)"
    using l mode s1(1) tc(3) by (simp add: common_interrupt_handler_def rf upd_counter_def Let_def s0_def [symmetric])
  have "same_setup s1 (sendEOI 0 s1)" using eo same_setup_refl [of s1] by (auto simp: same_setup_def)
  then have st: "same_setup s (sendEOI 0 s1)" using ss s1(2) same_setup_trans by blast
  have "eoi_effect 0 s (sendEOI 0 s1)"
    using eo(1) s1(3,4) same_setup_trans [OF ss s1(2)] by (simp add: eoi_effect_def s0_def same_setup_def)
  then show ?thesis using run st s1 eo by (intro exI [of _ "sendEOI 0 s1"]) (simp add: s0_def)
qed

fun timer_irqs :: "nat \<Rightarrow> u8 list \<Rightarrow> regs_frame \<Rightarrow> nat \<Rightarrow> irqs \<Rightarrow> irqs option" where
  "timer_irqs cpu str rf 0 s = Some s"
| "timer_irqs cpu str rf (Suc n) s = do { s \<leftarrow> common_interrupt_handler cpu 0 str rf s; timer_irqs cpu str rf n s }"

lemma timer_irqs_ok:
  assumes rf: "code_nr rf = 0" and str: "length str = 20"
  shows "\<not> lapic_calibration_mode s \<Longrightarrow> has_cpu cpu s \<Longrightarrow> tick_hz s < 2 ^ 31 \<Longrightarrow> 0 < tick_hz s \<Longrightarrow>
    unat (timer_counter s ! cpu) = c mod tick_hz s \<Longrightarrow> seconds s ! cpu = s0 + of_nat (c div tick_hz s) \<Longrightarrow>
    \<exists>s'. timer_irqs cpu str rf n s = Some s' \<and> same_setup s s' \<and>
     unat (timer_counter s' ! cpu) = (c + n) mod tick_hz s \<and> seconds s' ! cpu = s0 + of_nat ((c + n) div tick_hz s) \<and>
     sched_tick (mach s') ! cpu = sched_tick (mach s) ! cpu + of_nat n \<and>
     (\<forall>i. i \<noteq> cpu \<longrightarrow> timer_counter s' ! i = timer_counter s ! i \<and> seconds s' ! i = seconds s ! i)"
proof (induction n arbitrary: s c)
  case 0
  then show ?case by (simp add: same_setup_refl)
next
  case (Suc n)
  have lt: "unat (timer_counter s ! cpu) < tick_hz s" using Suc.prems(4,5) by simp
  obtain s1 where s1: "common_interrupt_handler cpu 0 str rf s = Some s1" "same_setup s s1"
     "unat (timer_counter s1 ! cpu) = Suc (c mod tick_hz s) mod tick_hz s"
     "seconds s1 ! cpu = seconds s ! cpu + (if Suc (c mod tick_hz s) = tick_hz s then 1 else 0)"
     "\<forall>i. i \<noteq> cpu \<longrightarrow> timer_counter s1 ! i = timer_counter s ! i \<and> seconds s1 ! i = seconds s ! i"
     "sched_tick (mach s1) = (sched_tick (mach s))[cpu := sched_tick (mach s) ! cpu + 1]"
    using timer_irq_ok [OF rf Suc.prems(1,2,3) lt str, of 0] unfolding Suc.prems(5) by blast
  note k = same_setup_keeps [OF s1(2)]
  have m: "\<not> lapic_calibration_mode s1" using s1(2) Suc.prems(1) by (simp add: same_setup_def)
  have c: "unat (timer_counter s1 ! cpu) = Suc c mod tick_hz s1" using s1(3) by (simp add: k mod_Suc_eq)
  have d: "seconds s1 ! cpu = s0 + of_nat (Suc c div tick_hz s1)"
    using s1(4) Suc.prems(4,6) by (auto simp: k div_Suc mod_Suc)
  obtain s2 where s2: "timer_irqs cpu str rf n s1 = Some s2" "same_setup s1 s2"
     "unat (timer_counter s2 ! cpu) = (Suc c + n) mod tick_hz s1" "seconds s2 ! cpu = s0 + of_nat ((Suc c + n) div tick_hz s1)"
     "sched_tick (mach s2) ! cpu = sched_tick (mach s1) ! cpu + of_nat n"
     "\<forall>i. i \<noteq> cpu \<longrightarrow> timer_counter s2 ! i = timer_counter s1 ! i \<and> seconds s2 ! i = seconds s1 ! i"
    using Suc.IH [OF m _ _ _ c d] Suc.prems(2-4) k by auto
  have l: "cpu < length (sched_tick (mach s))" using Suc.prems(2) by (simp add: has_cpu_def)
  show ?case
    using s1 s2 same_setup_trans [OF s1(2) s2(2)] l by (intro exI [of _ s2]) (simp add: k)
qed

text \<open>(C35) The clock of a CPU: outside calibration every timer interrupt returns, and after \<open>n\<close> of them the CPU has counted
  exactly one second for every \<^verbatim>\<open>PIT_HZ\<close> interrupts (with a local APIC: for every 1000 times the calibrated
  ticks), the remainder is in its counter, its scheduler tick has advanced by \<open>n\<close>, and the clocks of all other CPUs are
  unchanged.\<close>

theorem timer_seconds:
  assumes "code_nr rf = 0" and "length str = 20" and "\<not> lapic_calibration_mode s" and "has_cpu cpu s"
    and "tick_hz s < 2 ^ 31" and "unat (timer_counter s ! cpu) < tick_hz s"
  shows "\<exists>s'. timer_irqs cpu str rf n s = Some s' \<and>
     unat (timer_counter s' ! cpu) = (unat (timer_counter s ! cpu) + n) mod tick_hz s \<and>
     seconds s' ! cpu = seconds s ! cpu + of_nat ((unat (timer_counter s ! cpu) + n) div tick_hz s) \<and>
     sched_tick (mach s') ! cpu = sched_tick (mach s) ! cpu + of_nat n \<and>
     (\<forall>i. i \<noteq> cpu \<longrightarrow> timer_counter s' ! i = timer_counter s ! i \<and> seconds s' ! i = seconds s ! i)"
  using timer_irqs_ok [OF assms(1-5), of "unat (timer_counter s ! cpu)" "seconds s ! cpu" n] assms(6) by auto

section \<open>Calibration\<close>

lemma calibration_irqs:
  assumes rf: "code_nr rf = 0"
  shows "lapic_calibration_mode s \<Longrightarrow> has_cpu cpu s \<Longrightarrow>
    \<exists>s'. timer_irqs cpu str rf n s = Some s' \<and> lapic_calibration_tick s' = lapic_calibration_tick s + of_nat n \<and>
      lapic_present s' = lapic_present s \<and> timer_counter s' = timer_counter s \<and> seconds s' = seconds s \<and> has_cpu cpu s'"
proof (induction n arbitrary: s)
  case (Suc n)
  have l: "cpu < length (sched_tick (mach s))" using Suc.prems(2) by (simp add: has_cpu_def)
  define s1 where "s1 = s\<lparr>mach := (mach s)\<lparr>sched_tick := (sched_tick (mach s))[cpu := sched_tick (mach s) ! cpu + 1]\<rparr>,
     lapic_calibration_tick := lapic_calibration_tick s + 1\<rparr>"
  note eo = sendEOI_logged [of 0 s1, simplified]
  have run: "common_interrupt_handler cpu 0 str rf s = Some (sendEOI 0 s1)"
    using l Suc.prems(1) by (simp add: common_interrupt_handler_def rf upd_counter_def Let_def s1_def)
  obtain s2 where "timer_irqs cpu str rf n (sendEOI 0 s1) = Some s2"
     "lapic_calibration_tick s2 = lapic_calibration_tick (sendEOI 0 s1) + of_nat n"
     "lapic_present s2 = lapic_present (sendEOI 0 s1)" "timer_counter s2 = timer_counter (sendEOI 0 s1)"
     "seconds s2 = seconds (sendEOI 0 s1)" "has_cpu cpu s2"
    using Suc.IH [of "sendEOI 0 s1"] Suc.prems eo by (auto simp: has_cpu_def s1_def)
  then show ?case using run eo by (auto simp: s1_def)
qed simp

lemma lapic_write_simps [simp]:
  "lapic_calibration_mode (lapic_write_register r v s) = lapic_calibration_mode s"
  "lapic_calibration_tick (lapic_write_register r v s) = lapic_calibration_tick s"
  "lapic_present (lapic_write_register r v s) = lapic_present s" "timer_counter (lapic_write_register r v s) = timer_counter s"
  "seconds (lapic_write_register r v s) = seconds s" "mach (lapic_write_register r v s) = mach s"
  "has_cpu cpu (lapic_write_register r v s) = has_cpu cpu s"
  by (simp_all add: lapic_write_register_def mmio_put_def has_cpu_def)

lemma calibrate_ok:
  assumes "code_nr rf = 0" and "has_cpu cpu s"
  shows "\<exists>s'. calibrate_lapic_timer (\<lambda>_. timer_irqs cpu str rf n) s = Some s' \<and> \<not> lapic_calibration_mode s' \<and>
     lapic_timer_enabled s' \<and> lapic_calibration_tick s' = lapic_calibration_tick s + of_nat n \<and>
     lapic_present s' = lapic_present s \<and> timer_counter s' = timer_counter s \<and> seconds s' = seconds s \<and> has_cpu cpu s'"
proof -
  define s1 where "s1 = lapic_write_register LAPIC_INITIAL_COUNTER_REG LAPIC_COUNTER_VALUE
     ((lapic_write_register LAPIC_DIVIDE_CONFIGURATION_REG LAPIC_DIVIDE_CONFIG_VALUE
        (lapic_write_register LAPIC_LVT_TIMER_REG (LAPIC_IDT_VECTOR OR 0x20000) s))\<lparr>lapic_calibration_mode := True\<rparr>)"
  have "lapic_calibration_mode s1" "has_cpu cpu s1" "lapic_calibration_tick s1 = lapic_calibration_tick s"
      "lapic_present s1 = lapic_present s" "timer_counter s1 = timer_counter s" "seconds s1 = seconds s"
    using assms(2) by (simp_all add: s1_def) (simp_all add: has_cpu_def)
  moreover obtain s2 where "timer_irqs cpu str rf n s1 = Some s2" "lapic_calibration_tick s2 = lapic_calibration_tick s1 + of_nat n"
     "lapic_present s2 = lapic_present s1" "timer_counter s2 = timer_counter s1" "seconds s2 = seconds s1" "has_cpu cpu s2"
    using calibration_irqs [OF assms(1)] calculation(1,2) by blast
  ultimately show ?thesis
    by (simp add: calibrate_lapic_timer_def Let_def s1_def [symmetric])
      (simp add: has_cpu_def lapic_write_register_def mmio_put_def)
qed

text \<open>Calibration and clock together: if \<open>n\<close> timer interrupts arrive during the millisecond of
  \<^verbatim>\<open>calibrate_lapic_timer\<close>, then it returns with the timer enabled, and of the timer interrupts that follow exactly every
  \<open>1000 n\<close>-th, the interrupts of one second at that rate, advances the seconds of the CPU.\<close>

theorem calibrated_clock:
  assumes "code_nr rf = 0" and "length str = 20" and "has_cpu cpu s" and "lapic_present s \<noteq> 0"
    and "lapic_calibration_tick s = 0" and "timer_counter s ! cpu = 0" and "0 < n" and "1000 * n < 2 ^ 31"
  shows "\<exists>s1 s2. calibrate_lapic_timer (\<lambda>_. timer_irqs cpu str rf n) s = Some s1 \<and> lapic_timer_enabled s1 \<and>
     timer_irqs cpu str rf k s1 = Some s2 \<and> seconds s2 ! cpu = seconds s ! cpu + of_nat (k div (1000 * n))"
proof -
  obtain s1 where s1: "calibrate_lapic_timer (\<lambda>_. timer_irqs cpu str rf n) s = Some s1" "\<not> lapic_calibration_mode s1"
     "lapic_timer_enabled s1" "lapic_calibration_tick s1 = of_nat n" "lapic_present s1 = lapic_present s"
     "timer_counter s1 = timer_counter s" "seconds s1 = seconds s" "has_cpu cpu s1"
    using calibrate_ok [OF assms(1,3)] assms(5) by fastforce
  have u: "unat (of_nat n :: u32) = n" using assms(8) by (simp add: unat_of_nat)
  have hz: "tick_hz s1 = 1000 * n" using assms(4) s1(4,5) by (simp add: tick_hz_def u)
  obtain s2 where "timer_irqs cpu str rf k s1 = Some s2" "seconds s2 ! cpu = seconds s1 ! cpu + of_nat (k div (1000 * n))"
    using timer_irqs_ok [OF assms(1,2) s1(2,8), of 0 "seconds s1 ! cpu" k] hz assms(6-8) s1(6) by auto
  then show ?thesis using s1 by auto
qed

section \<open>Every interrupt is acknowledged\<close>

definition handler_ready :: "nat \<Rightarrow> irqs \<Rightarrow> bool" where
  "handler_ready cpu s \<longleftrightarrow> has_cpu cpu s \<and> rb_wf (ring_buffer_kbd (kbd s)) \<and> (\<exists>hist. window_ok hist (kbd s))"

lemma timer_tick_returns:
  assumes cpu: "has_cpu cpu s" and str: "length str = 20"
  shows "\<exists>s'. timer_tick cpu str s = Some s' \<and> same_setup s s' \<and> mmio s' = mmio s \<and> mach s' = mach s"
proof -
  have l: "cpu < length (timer_counter s)" "cpu < length (seconds s)" using cpu by (simp_all add: has_cpu_def)
  let ?v = "seconds s ! cpu + 1"
  obtain rest where t: "itoa_gen ?v 0 10 False str = Some (itoa_text ?v 10 False @ 0 # rest)"
    using itoa_str [OF str, of 10 ?v False] by blast
  have "strlen (itoa_text ?v 10 False @ 0 # rest) 0 = Some (length (itoa_text ?v 10 False))"
    using strlen_cstr [OF cstrI [of "itoa_text ?v 10 False" "[]" 0 rest]] itoa_text_nonzero [of 10 ?v False] by simp
  then show ?thesis
    using l t same_setup_refl [of s] by (auto simp: timer_tick_def upd_counter_def Let_def same_setup_def)
qed

lemma ready_same_setup:
  assumes "same_setup s t" and "handler_ready cpu s"
  shows "handler_ready cpu t"
  using assms by (auto simp: handler_ready_def same_setup_keeps) (auto simp: same_setup_def window_ok_def)

lemma eoi_same:
  assumes "n < 16" and "mmio t = mmio s" and "port_out (mach t) = port_out (mach s)" and "lapic_present t = lapic_present s"
    and "ioapic_initialized t = ioapic_initialized s" and "lapic_base_register t = lapic_base_register s"
  shows "eoi_effect n s (sendEOI n t)"
  using sendEOI_logged(1) [OF assms(1), of t] assms(2-) by (simp add: eoi_effect_def)

text \<open>What \<^verbatim>\<open>sendEOI\<close> looks at.\<close>

definition same_route :: "irqs \<Rightarrow> irqs \<Rightarrow> bool" where
  "same_route s t \<longleftrightarrow> ioapic_initialized t = ioapic_initialized s \<and> lapic_present t = lapic_present s \<and>
     lapic_base_register t = lapic_base_register s"

lemma handler_returns:
  assumes "handler_ready cpu s" and "length str = 20" and "code_nr rf < 16" and "code_nr rf = 2 \<Longrightarrow> kbd_decodable sc"
  shows "\<exists>s'. common_interrupt_handler cpu sc str rf s = Some s' \<and> (\<forall>c. handler_ready c s \<longrightarrow> handler_ready c s') \<and>
     eoi_effect (code_nr rf) s s' \<and> same_route s s'"
proof -
  have cpu: "has_cpu cpu s" and l: "cpu < length (sched_tick (mach s))" using assms(1) by (simp_all add: handler_ready_def has_cpu_def)
  have ready: "handler_ready c (sendEOI (code_nr rf) t)" if "handler_ready c t" for c t
    using that sendEOI_logged [OF assms(3), of t] by (simp add: handler_ready_def has_cpu_def)
  have route: "same_route s (sendEOI (code_nr rf) t)" if "same_route s t" for t
    using that sendEOI_logged [OF assms(3), of t] by (simp add: same_route_def)
  consider "code_nr rf = 0" | "code_nr rf = 2" | "code_nr rf \<noteq> 0" "code_nr rf \<noteq> 2" by blast
  then show ?thesis
  proof cases
    case 1
    define s0 where "s0 = s\<lparr>mach := (mach s)\<lparr>sched_tick := (sched_tick (mach s))[cpu := sched_tick (mach s) ! cpu + 1]\<rparr>\<rparr>"
    have r0: "handler_ready c s0" if "handler_ready c s" for c using that by (simp add: s0_def handler_ready_def has_cpu_def)
    define s1 where "s1 = s0\<lparr>lapic_calibration_tick := lapic_calibration_tick s0 + 1\<rparr>"
    have r1: "handler_ready c s1" if "handler_ready c s" for c using r0 [OF that] by (simp add: s1_def handler_ready_def has_cpu_def)
    obtain s2 where s2: "timer_tick cpu str s0 = Some s2" "same_setup s0 s2" "mmio s2 = mmio s0" "mach s2 = mach s0"
      using timer_tick_returns [of cpu s0 str] r0 [OF assms(1)] assms(2) by (auto simp: handler_ready_def)
    define t where "t = (if lapic_calibration_mode s then s1 else s2)"
    have "handler_ready c t" if "handler_ready c s" for c using r1 [OF that] ready_same_setup [OF s2(2) r0 [OF that]] by (simp add: t_def)
    moreover have "same_route s t" using s2(2) by (simp add: t_def s1_def s0_def same_setup_def same_route_def)
    moreover have "common_interrupt_handler cpu sc str rf s = Some (sendEOI (code_nr rf) t)"
      using 1 l s2(1) by (simp add: common_interrupt_handler_def upd_counter_def Let_def s0_def t_def s1_def)
    moreover have "eoi_effect (code_nr rf) s (sendEOI (code_nr rf) t)"
      using s2(2-4) by (intro eoi_same assms(3)) (auto simp: t_def s1_def s0_def same_setup_def)
    ultimately show ?thesis using ready route by blast
  next
    case 2
    obtain hist where h: "window_ok hist (kbd s)" and rb: "rb_wf (ring_buffer_kbd (kbd s))"
      using assms(1) by (auto simp: handler_ready_def)
    obtain x k where k: "keyboard_handle_interrupt sc (kbd s) = Some (x, k)" "rb_wf (ring_buffer_kbd k)"
        "window_ok (hist @ filter printable [x]) k"
      using handler_step [OF assms(4) [OF 2] rb h] by blast
    let ?t = "s\<lparr>kbd := k\<rparr>"
    have "handler_ready c ?t" if "handler_ready c s" for c using k(2,3) that unfolding handler_ready_def has_cpu_def by auto
    moreover have "same_route s ?t" by (simp add: same_route_def)
    moreover have "common_interrupt_handler cpu sc str rf s = Some (sendEOI (code_nr rf) ?t)"
      using 2 k(1) by (simp add: common_interrupt_handler_def)
    moreover have "eoi_effect (code_nr rf) s (sendEOI (code_nr rf) ?t)" by (rule eoi_same [OF assms(3)]) simp_all
    ultimately show ?thesis using ready route by blast
  next
    case 3
    then have "common_interrupt_handler cpu sc str rf s = Some (sendEOI (code_nr rf) s)"
      by (simp add: common_interrupt_handler_def)
    moreover have "same_route s s" by (simp add: same_route_def)
    ultimately show ?thesis using ready route sendEOI_logged(1) [OF assms(3)] by blast
  qed
qed

lemma setisa_only_mmio: "setisa_loop is s = Some s' \<Longrightarrow> \<exists>ws. s' = s\<lparr>mmio := mmio s @ ws\<rparr>"
proof (induction "is" arbitrary: s)
  case Nil
  then show ?case by (auto intro: exI [of _ "[]"])
next
  case (Cons i js)
  have w: "\<exists>ws. t = s\<lparr>mmio := mmio s @ ws\<rparr>" if "ioapic_write 0 r d 32 s = Some t" for r d s t
    using that by (auto simp: ioapic_write_def mmio_put_def bind_eq_Some_conv Let_def)
  show ?case
    using Cons.prems by (auto simp: bind_eq_Some_conv Let_def split: if_splits dest!: w Cons.IH)
qed

subsection \<open>A machine with a local APIC\<close>

text \<open>Interrupts one after the other, each with its CPU, the byte of the keyboard, the timer's buffer and its frame.\<close>

type_synonym irq_event = "nat \<times> u8 \<times> u8 list \<times> regs_frame"

fun handle_irqs :: "irq_event list \<Rightarrow> irqs \<Rightarrow> irqs option" where
  "handle_irqs [] s = Some s"
| "handle_irqs ((cpu, sc, str, rf) # es) s = do { s \<leftarrow> common_interrupt_handler cpu sc str rf s; handle_irqs es s }"

fun irq_ok :: "irqs \<Rightarrow> irq_event \<Rightarrow> bool" where
  "irq_ok s (cpu, sc, str, rf) \<longleftrightarrow> handler_ready cpu s \<and> length str = 20 \<and> code_nr rf < 16 \<and> (code_nr rf = 2 \<longrightarrow> kbd_decodable sc)"

lemma handle_irqs_ok:
  "ioapic_initialized s \<Longrightarrow> lapic_base_register s = b \<Longrightarrow> \<forall>e \<in> set es. irq_ok s e \<Longrightarrow>
   \<exists>s'. handle_irqs es s = Some s' \<and> mmio s' = mmio s @ replicate (length es) (W32 (b + 0xb0) 0) \<and>
     port_out (mach s') = port_out (mach s) \<and> (\<forall>c. handler_ready c s \<longrightarrow> handler_ready c s')"
proof (induction es arbitrary: s)
  case (Cons e es)
  obtain cpu sc str rf where e: "e = (cpu, sc, str, rf)" by (cases e)
  have ok: "handler_ready cpu s" "length str = 20" "code_nr rf < 16" "code_nr rf = 2 \<Longrightarrow> kbd_decodable sc"
    using Cons.prems(3) by (simp_all add: e)
  obtain t where t: "common_interrupt_handler cpu sc str rf s = Some t" "\<And>c. handler_ready c s \<Longrightarrow> handler_ready c t"
    "eoi_effect (code_nr rf) s t" "same_route s t" using handler_returns [OF ok] by blast
  have w: "mmio t = mmio s @ [W32 (b + 0xb0) 0]" "port_out (mach t) = port_out (mach s)"
    using t(3) Cons.prems(1,2) by (simp_all add: eoi_effect_def)
  have "\<forall>e \<in> set es. irq_ok t e" using Cons.prems(3) t(2) by auto
  then obtain s' where "handle_irqs es t = Some s'" "mmio s' = mmio t @ replicate (length es) (W32 (b + 0xb0) 0)"
     "port_out (mach s') = port_out (mach t)" "\<forall>c. handler_ready c t \<longrightarrow> handler_ready c s'"
    using Cons.IH [of t] Cons.prems(1,2) t(4) by (auto simp: same_route_def)
  then show ?case using t(1,2) w by (simp add: e)
qed simp

lemma calibrate_route:
  assumes "calibrate_lapic_timer w s = Some t" and "\<And>a b. w 1 a = Some b \<Longrightarrow> same_route a b"
  shows "same_route s t"
proof -
  let ?a = "lapic_write_register LAPIC_INITIAL_COUNTER_REG LAPIC_COUNTER_VALUE
     ((lapic_write_register LAPIC_DIVIDE_CONFIGURATION_REG LAPIC_DIVIDE_CONFIG_VALUE
        (lapic_write_register LAPIC_LVT_TIMER_REG (LAPIC_IDT_VECTOR OR 0x20000) s))\<lparr>lapic_calibration_mode := True\<rparr>)"
  obtain b where b: "w 1 ?a = Some b" "t = lapic_write_register LAPIC_INITIAL_COUNTER_REG LAPIC_COUNTER_VALUE
     ((lapic_write_register LAPIC_INITIAL_COUNTER_REG 0 b)\<lparr>lapic_calibration_mode := False, lapic_timer_enabled := True\<rparr>)"
    using assms(1) unfolding calibrate_lapic_timer_def Let_def by (auto simp: bind_eq_Some_conv)
  have "same_route s ?a" "same_route b t" by (simp_all add: b(2) same_route_def lapic_write_register_def mmio_put_def)
  then show ?thesis using assms(2) [OF b(1)] by (simp add: same_route_def)
qed

lemma local_apic_enabled:
  assumes "bit edx 9" and "interrupts_enable lay c dev edx msr w ins s = Some t" and "\<And>a b. w 1 a = Some b \<Longrightarrow> same_route a b"
  shows "ioapic_initialized t = ioapic_initialized s" "lapic_present t \<noteq> 0" "lapic_base_register t = msr AND 0xfffff000"
proof -
  have present: "drop_bit 9 (edx AND 0x200) = 1"
  proof -
    have "(0x200 :: u32) = push_bit 9 1" by simp
    then show ?thesis using assms(1) by (intro bit_word_eqI) (auto simp: bit_simps)
  qed
  obtain a where a: "init_lapic lay c dev edx msr w s = Some a"
    "t = outs [(0x64, 0x60), (0x60, 0x1)] (if lapic_present a = 0 then init_pit_frequency (init_pic_8259 a) else a)"
    using assms(2) by (auto simp: interrupts_enable_def keyboard_enable_interrupt_def bind_eq_Some_conv)
  have "same_route a t" by (simp add: a(2) same_route_def outs_def init_pit_frequency_def init_pic_8259_def)
  moreover from a(1) obtain b where b: "calibrate_lapic_timer w b = Some a" "ioapic_initialized b = ioapic_initialized s" "lapic_present b = 1"
    "lapic_base_register b = msr AND 0xfffff000"
    unfolding init_lapic_def present Let_def
    by (fastforce simp: bind_eq_Some_conv log_irq_def lapic_write_register_def mmio_put_def)
  moreover have "same_route b a" by (rule calibrate_route [OF b(1) assms(3)])
  ultimately show "ioapic_initialized t = ioapic_initialized s" "lapic_present t \<noteq> 0" "lapic_base_register t = msr AND 0xfffff000"
    using b(2-4) by (auto simp: same_route_def)
qed


subsection \<open>A machine without a local APIC\<close>

text \<open>(C40) Without a local APIC: \<^verbatim>\<open>ioapic_init\<close>, which the kernel calls before, has set
  \<^verbatim>\<open>ioapic_initialized\<close> all the same; \<^verbatim>\<open>interrupts_enable\<close> programs the 8259, but the handler then acknowledges
  by writing memory at the address 0xb0 and never at the 8259, which delivers no further interrupt.\<close>

theorem pic_never_acknowledged:
  assumes "ioapic_init s = Some s1" and "lapic_present s = 0" and "lapic_base_register s = 0" and "\<not> bit edx 9"
    and "wait_8042 ins \<noteq> None" and "handler_ready cpu s" and "length str = 20" and "code_nr rf < 16"
    and "code_nr rf = 2 \<Longrightarrow> kbd_decodable sc"
  shows "\<exists>s2 s3. interrupts_enable lay c dev edx msr w ins s1 = Some s2 \<and> (0x20, 0x11) \<in> set (port_out (mach s2)) \<and>
     common_interrupt_handler cpu sc str rf s2 = Some s3 \<and> mmio s3 = mmio s2 @ [W32 0xb0 0] \<and>
     port_out (mach s3) = port_out (mach s2)"
proof -
  obtain ws where s1: "s1 = s\<lparr>ioapic_initialized := True, mmio := mmio s @ ws\<rparr>"
    using assms(1) setisa_only_mmio [of "[0..<16]" "s\<lparr>ioapic_initialized := True\<rparr>" s1]
    by (auto simp: ioapic_init_def ioapic_setisa_irqs_def)
  have "drop_bit 9 (edx AND 0x200) = 0"
  proof -
    have "edx AND 0x200 = 0" using assms(4) and_exp_eq_0_iff_not_bit [of edx 9] by simp
    then show ?thesis by simp
  qed
  then have l: "init_lapic lay c dev edx msr w s1 = Some (log_irq ''Local APIC present: %d '' [0] s1)"
    by (simp add: init_lapic_def Let_def)
  define s2 where "s2 = outs [(0x64, 0x60), (0x60, 0x1)] (init_pit_frequency (init_pic_8259 (log_irq ''Local APIC present: %d '' [0] s1)))"
  have e: "interrupts_enable lay c dev edx msr w ins s1 = Some s2"
    using assms(2,5) l by (auto simp: interrupts_enable_def keyboard_enable_interrupt_def s2_def s1 log_irq_def)
  have s2: "handler_ready cpu s2" "ioapic_initialized s2" "lapic_base_register s2 = 0" "(0x20, 0x11) \<in> set (port_out (mach s2))"
    using assms(3,6) by (simp_all add: s2_def s1 handler_ready_def has_cpu_def outs_def init_pit_frequency_def init_pic_8259_def
        log_irq_def log_printf_def outb_def)
  then show ?thesis
    using handler_returns [OF s2(1) assms(7-9)] e by (auto simp: eoi_effect_def)
qed


section \<open>Witnesses\<close>

lemma boot_irqs_ready: "handler_ready cpu (boot_irqs\<lparr>mmio := ws, ioapic_initialized := b\<rparr>) \<longleftrightarrow> cpu < 32"
proof -
  have "window_ok [] (idle_keyboard\<lparr>ring_buffer_kbd := fresh 10\<rparr>)"
    by (simp add: window_ok_def idle_keyboard_def last_six_def eval_nat_numeral)
  moreover have "rb_wf (fresh 10)" by (simp add: rb_wf_def fresh_def)
  ultimately show ?thesis
    by (auto simp: handler_ready_def has_cpu_def boot_irqs_def boot_machine_def)
qed

definition timer_frame :: regs_frame where
  "timer_frame = kernel_fault\<lparr>trap_nr := 0, code_nr := 0\<rparr>"

theorem timer_seconds_witness:
  "\<exists>s'. timer_irqs 3 (replicate 20 0) timer_frame 2400 boot_irqs = Some s' \<and> seconds s' ! 3 = 2 \<and> unat (timer_counter s' ! 3) = 14"
proof -
  have "code_nr timer_frame = 0" "has_cpu 3 boot_irqs" "tick_hz boot_irqs = 1193" "\<not> lapic_calibration_mode boot_irqs"
    "timer_counter boot_irqs ! 3 = 0" "seconds boot_irqs ! 3 = 0"
    by (simp_all add: timer_frame_def has_cpu_def boot_irqs_def boot_machine_def tick_hz_def)
  then show ?thesis using timer_seconds [of timer_frame "replicate 20 0" boot_irqs 3 2400] by auto
qed

theorem calibrated_clock_witness:
  "\<exists>s1 s2. calibrate_lapic_timer (\<lambda>_. timer_irqs 0 (replicate 20 0) timer_frame 7) (boot_irqs\<lparr>lapic_present := 1\<rparr>) = Some s1 \<and>
     timer_irqs 0 (replicate 20 0) timer_frame 14000 s1 = Some s2 \<and> seconds s2 ! 0 = 2"
proof -
  let ?s = "boot_irqs\<lparr>lapic_present := 1\<rparr>"
  have "code_nr timer_frame = 0" "has_cpu 0 ?s" "lapic_present ?s \<noteq> 0" "lapic_calibration_tick ?s = 0"
    "timer_counter ?s ! 0 = 0" "seconds ?s ! 0 = 0"
    by (simp_all add: timer_frame_def has_cpu_def boot_irqs_def boot_machine_def)
  then show ?thesis using calibrated_clock [of timer_frame "replicate 20 0" 0 ?s 7 14000] by auto
qed

text \<open>The board boots with a local APIC; then a timer interrupt on CPU 3 and a key on CPU 0.\<close>

lemma board_apic:
  "\<exists>ws s2. ioapic_init (boot_irqs\<lparr>interrupts_set := True\<rparr>) = Some (boot_irqs\<lparr>interrupts_set := True, ioapic_initialized := True, mmio := ws\<rparr>) \<and>
     interrupts_enable lay0 0 (\<lambda>_ _. 0) 0x200 0xfee00900 (\<lambda>_. Some) [0]
       (boot_irqs\<lparr>interrupts_set := True, ioapic_initialized := True, mmio := ws\<rparr>) = Some s2 \<and> (\<forall>cpu < 32. handler_ready cpu s2)"
proof -
  let ?s = "boot_irqs\<lparr>interrupts_set := True\<rparr>"
  obtain ws where s1: "ioapic_init ?s = Some (?s\<lparr>ioapic_initialized := True, mmio := ws\<rparr>)"
    using setisa_loop_ok [of "?s\<lparr>ioapic_initialized := True\<rparr>" _ "[0..<16]"]
    by (auto simp: ioapic_init_def ioapic_setisa_irqs_def boot_irqs_def simp del: upt_rec_numeral)
  let ?s1 = "?s\<lparr>ioapic_initialized := True, mmio := ws\<rparr>"
  have "unat (0xfee00000 :: u32) + unat PAGE_SIZE \<le> 2 ^ 32 - 4096" "KERNEL_VIRT_ADDR \<le> 0xfee00000"
    by (simp_all add: KERNEL_VIRT_ADDR_def PAGE_SIZE_def)
  then obtain p where p: "map_kernel_with_pagetable lay0 0 0xfee00000 0xfee00000 PAGE_SIZE PTE_WRITE 0 (paging_of (mach ?s1)) = Some p"
    using map_range [where v = "0xfee00000" and len = PAGE_SIZE and phys = "0xfee00000" and fl = PTE_WRITE, OF lay0_ok(1) refl _ _ lay0_ok(2,3)]
    by (auto simp: boot_irqs_def boot_machine_def)
  obtain s2 where s2: "interrupts_enable lay0 0 (\<lambda>_ _. 0) 0x200 0xfee00900 (\<lambda>_. Some) [0] ?s1 = Some s2 \<and> kbd s2 = kbd ?s1 \<and>
     sched_tick (mach s2) = sched_tick (mach ?s1) \<and> timer_counter s2 = timer_counter ?s1 \<and> seconds s2 = seconds ?s1"
    using p by (simp add: interrupts_enable_def init_lapic_def Let_def keyboard_enable_interrupt_def calibrate_lapic_timer_def
        log_irq_def log_printf_def lapic_write_register_def mmio_put_def outs_def outb_def)
  then have "handler_ready cpu s2" if "cpu < 32" for cpu
    using that boot_irqs_ready [of cpu True ws] by (simp add: handler_ready_def has_cpu_def)
  then show ?thesis using s1 s2 by blast
qed


theorem pic_never_acknowledged_witness:
  "\<exists>s1 s2 s3. ioapic_init (boot_irqs\<lparr>interrupts_set := True\<rparr>) = Some s1 \<and>
     interrupts_enable lay0 0 (\<lambda>_ _. 0) 0 0 (\<lambda>_. Some) [0] s1 = Some s2 \<and>
     common_interrupt_handler 0 0x1c (replicate 20 0) (timer_frame\<lparr>code_nr := 2\<rparr>) s2 = Some s3 \<and>
     port_out (mach s3) = port_out (mach s2)"
proof -
  let ?s = "boot_irqs\<lparr>interrupts_set := True\<rparr>"
  have r: "handler_ready 0 ?s" using boot_irqs_ready [of 0 False "[]"] by (simp add: boot_irqs_def handler_ready_def has_cpu_def)
  obtain ws where s1: "ioapic_init ?s = Some (?s\<lparr>ioapic_initialized := True, mmio := ws\<rparr>)"
    using setisa_loop_ok [of "?s\<lparr>ioapic_initialized := True\<rparr>" _ "[0..<16]"]
    by (auto simp: ioapic_init_def ioapic_setisa_irqs_def boot_irqs_def simp del: upt_rec_numeral)
  have k: "kbd_decodable 0x1c" by (simp add: kbd_decodable_def)
  have "\<exists>s2 s3. interrupts_enable lay0 0 (\<lambda>_ _. 0) 0 0 (\<lambda>_. Some) [0] (?s\<lparr>ioapic_initialized := True, mmio := ws\<rparr>) = Some s2 \<and>
     (0x20, 0x11) \<in> set (port_out (mach s2)) \<and>
     common_interrupt_handler 0 0x1c (replicate 20 0) (timer_frame\<lparr>code_nr := 2\<rparr>) s2 = Some s3 \<and> mmio s3 = mmio s2 @ [W32 0xb0 0] \<and>
     port_out (mach s3) = port_out (mach s2)"
    by (rule pic_never_acknowledged [OF s1]) (use r k in \<open>simp_all add: boot_irqs_def\<close>)
  then show ?thesis using s1 by blast
qed

end
