(* ===== verification/Klist.thy ===== *)
theory Klist
  imports Xis_Prelude
begin

text \<open>
  The intrusive doubly linked lists of \<^verbatim>\<open>util.h\<close> (\<^verbatim>\<open>struct list\<close> and the macros
  \<^verbatim>\<open>list_init\<close>, \<^verbatim>\<open>list_insert_tail\<close>, \<^verbatim>\<open>list_empty\<close>, \<^verbatim>\<open>list_prev_entry\<close>,
  \<^verbatim>\<open>list_next_entry\<close>, \<^verbatim>\<open>list_remove_entry\<close>) on an explicit store of \<^verbatim>\<open>prev\<close> and
  \<^verbatim>\<open>next\<close> pointers, the abstraction of a circular chain of nodes to a HOL list, and the
  interface \<open>tail_queues\<close> under which the page allocator uses them.
\<close>

section \<open>The store and the macros\<close>

record 'n store =
  lprev :: "'n \<Rightarrow> 'n"
  lnext :: "'n \<Rightarrow> 'n"

definition set_next :: "'n \<Rightarrow> 'n \<Rightarrow> 'n store \<Rightarrow> 'n store" where
  "set_next a b st = st\<lparr>lnext := (lnext st)(a := b)\<rparr>"

definition set_prev :: "'n \<Rightarrow> 'n \<Rightarrow> 'n store \<Rightarrow> 'n store" where
  "set_prev a b st = st\<lparr>lprev := (lprev st)(a := b)\<rparr>"

definition list_init :: "'n \<Rightarrow> 'n store \<Rightarrow> 'n store" where
  "list_init l st = set_prev l l (set_next l l st)"

text \<open>The four assignments of the macro, in its order.\<close>

definition list_insert_tail :: "'n \<Rightarrow> 'n \<Rightarrow> 'n store \<Rightarrow> 'n store" where
  "list_insert_tail h l st =
     (let st1 = set_next l h st;
          st2 = set_prev l (lprev st1 h) st1;
          st3 = set_next (lprev st2 h) l st2
      in set_prev h l st3)"

definition list_empty :: "'n \<Rightarrow> 'n store \<Rightarrow> bool" where
  "list_empty l st \<longleftrightarrow> lnext st l = l \<and> lnext st l = lprev st l"

definition list_next_entry :: "'n \<Rightarrow> 'n store \<Rightarrow> 'n option" where
  "list_next_entry l st = (if list_empty l st then None else Some (lnext st l))"

definition list_prev_entry :: "'n \<Rightarrow> 'n store \<Rightarrow> 'n option" where
  "list_prev_entry l st = (if list_empty l st then None else Some (lprev st l))"

definition list_remove_entry :: "'n \<Rightarrow> 'n store \<Rightarrow> 'n store" where
  "list_remove_entry l st =
     (if list_empty l st then st
      else let st1 = set_prev (lnext st l) (lprev st l) st;
               st2 = set_next (lprev st1 l) (lnext st1 l) st1;
               st3 = set_prev l l st2
           in set_next l l st3)"

section \<open>Chains\<close>

text \<open>
  \<open>linked st zs\<close> says that neighbours in \<open>zs\<close> point at each other; \<open>is_list st h xs\<close>
  that \<open>h\<close> heads a circular list whose entries, from \<open>next\<close> on, are \<open>xs\<close>.
\<close>

fun linked :: "'n store \<Rightarrow> 'n list \<Rightarrow> bool" where
  "linked st (a # b # zs) \<longleftrightarrow> lnext st a = b \<and> lprev st b = a \<and> linked st (b # zs)"
| "linked st _ \<longleftrightarrow> True"

definition is_list :: "'n store \<Rightarrow> 'n \<Rightarrow> 'n list \<Rightarrow> bool" where
  "is_list st h xs \<longleftrightarrow> distinct (h # xs) \<and> linked st (h # xs @ [h])"

lemma linked_append:
  "linked st (xs @ y # ys) \<longleftrightarrow> linked st (xs @ [y]) \<and> linked st (y # ys)"
proof (induction xs)
  case (Cons x xs)
  then show ?case by (cases xs) auto
qed simp

lemma linked_same:
  "linked st zs \<Longrightarrow> \<forall>a \<in> set (butlast zs). lnext st' a = lnext st a \<Longrightarrow>
   \<forall>a \<in> set (tl zs). lprev st' a = lprev st a \<Longrightarrow> linked st' zs"
proof (induction st zs rule: linked.induct)
  case (1 st a b zs)
  have "\<forall>c \<in> set (butlast (b # zs)). lnext st' c = lnext st c"
    and "\<forall>c \<in> set (tl (b # zs)). lprev st' c = lprev st c"
    and "lnext st' a = lnext st a" and "lprev st' b = lprev st b"
    using 1(3,4) by simp_all
  then show ?case using 1(1,2) by simp
qed simp_all

lemma set_next_simps [simp]:
  "lnext (set_next a b st) = (lnext st)(a := b)" "lprev (set_next a b st) = lprev st"
  by (simp_all add: set_next_def)

lemma set_prev_simps [simp]:
  "lprev (set_prev a b st) = (lprev st)(a := b)" "lnext (set_prev a b st) = lnext st"
  by (simp_all add: set_prev_def)

lemma is_list_init: "is_list (list_init h st) h []"
  by (simp add: is_list_def list_init_def)

lemma is_list_last_prev: "is_list st h xs \<Longrightarrow> lprev st h = last (h # xs)"
proof (cases xs rule: rev_cases)
  case (snoc ys y)
  moreover assume "is_list st h xs"
  ultimately show ?thesis using linked_append [of st "h # ys" y "[h]"] by (simp add: is_list_def)
qed (simp add: is_list_def)

lemma is_list_next: "is_list st h xs \<Longrightarrow> lnext st h = hd (xs @ [h])"
  by (cases xs) (auto simp: is_list_def)

lemma is_list_empty:
  assumes "is_list st h xs"
  shows "list_empty h st \<longleftrightarrow> xs = []"
proof (cases xs)
  case Nil
  then show ?thesis using is_list_last_prev [OF assms] is_list_next [OF assms]
    by (simp add: list_empty_def)
next
  case (Cons x ys)
  then have "lnext st h = x" and "x \<noteq> h"
    using is_list_next [OF assms] assms by (auto simp: is_list_def)
  then show ?thesis using Cons by (simp add: list_empty_def)
qed

lemma is_list_prev_entry:
  "is_list st h xs \<Longrightarrow> list_prev_entry h st = (if xs = [] then None else Some (last xs))"
  by (simp add: list_prev_entry_def is_list_empty is_list_last_prev)

lemma is_list_next_entry:
  "is_list st h xs \<Longrightarrow> list_next_entry h st = (if xs = [] then None else Some (hd xs))"
  by (simp add: list_next_entry_def is_list_empty is_list_next)

text \<open>Inserting at the tail: the new entry comes last.\<close>

lemma is_list_insert_tail:
  assumes l: "is_list st h xs" and new: "l \<notin> set (h # xs)"
  shows "is_list (list_insert_tail h l st) h (xs @ [l])"
proof -
  let ?st = "list_insert_tail h l st"
  obtain zs z where zs: "h # xs = zs @ [z]" by (metis neq_Nil_conv rev_exhaust)
  have d: "distinct (zs @ [z])" "l \<notin> set (zs @ [z])"
    using l new by (simp_all add: is_list_def flip: zs)
  have z: "lprev st h = z" using is_list_last_prev [OF l] zs by simp
  have hz: "l \<noteq> h" "z \<noteq> l" using new d by auto
  have chain: "linked st (zs @ z # [h])"
    using l zs unfolding is_list_def by (metis append.assoc append_Cons append_Nil)
  then have "linked st (zs @ [z])" by (simp add: linked_append [of st zs z "[h]"])
  moreover have "h \<notin> set (tl (zs @ [z]))" using zs d by (metis distinct.simps(2) list.sel(3))
  moreover have "l \<notin> set (tl (zs @ [z]))" using d(2) by (meson list.set_sel(2) snoc_eq_iff_butlast)
  ultimately have "linked ?st (zs @ [z])"
    by (intro linked_same [of st "zs @ [z]" ?st])
      (use d z hz in \<open>auto simp: list_insert_tail_def Let_def\<close>)
  moreover have "linked ?st [z, l, h]"
    using hz z by (simp add: list_insert_tail_def Let_def)
  ultimately have "linked ?st (zs @ [z, l, h])"
    using linked_append [of ?st zs z "[l, h]"] by simp
  moreover have "h # (xs @ [l]) @ [h] = zs @ [z, l, h]"
    using zs by (metis append.assoc append_Cons append_Nil)
  ultimately have "linked ?st (h # (xs @ [l]) @ [h])" by (simp only:)
  then show ?thesis using l new by (auto simp: is_list_def)
qed

text \<open>Removing an entry closes the gap it leaves.\<close>

lemma is_list_remove_entry:
  assumes l: "is_list st h (as @ l # bs)"
  shows "is_list (list_remove_entry l st) h (as @ bs)"
proof -
  let ?st = "list_remove_entry l st"
  obtain us p where us: "h # as = us @ [p]" by (metis neq_Nil_conv rev_exhaust)
  obtain n vs where vs: "bs @ [h] = n # vs" by (metis append_Cons append_Nil neq_Nil_conv)
  have d: "distinct (h # as @ l # bs)" using l by (simp add: is_list_def)
  have "linked st (h # (as @ l # bs) @ [h])" using l by (simp add: is_list_def)
  moreover have "h # (as @ l # bs) @ [h] = us @ p # l # n # vs"
    using us vs by (metis append.assoc append_Cons append_Nil)
  ultimately have chain: "linked st (us @ p # l # n # vs)" by (simp only:)
  then have left: "linked st (us @ [p])" and right: "linked st (n # vs)"
    and pl: "lprev st l = p" and nl: "lnext st l = n"
    by (simp_all add: linked_append [of st us p "l # n # vs"])
  have p: "p \<in> set (h # as)" and n: "n \<in> set (bs @ [h])" by (simp_all add: us vs)
  have ne: "l \<noteq> p" "l \<noteq> n" using d p n by auto
  then have st: "lnext ?st = (lnext st)(p := n, l := l)" "lprev ?st = (lprev st)(n := p, l := l)"
    using pl nl by (auto simp: list_remove_entry_def list_empty_def Let_def)
  have dus: "distinct (us @ [p])" "l \<notin> set (us @ [p])" using d us by (auto simp flip: us)
  have dvs: "distinct (n # vs)" "l \<notin> set (n # vs)" using d vs by (auto simp flip: vs)
  have "n \<notin> set (tl (us @ [p]))" using n d us by (auto simp flip: us)
  moreover have "l \<notin> set (tl (us @ [p]))" using dus(2) by (meson list.set_sel(2) snoc_eq_iff_butlast)
  ultimately have "linked ?st (us @ [p])"
    by (intro linked_same [OF left]) (use dus st in auto)
  moreover have "p \<notin> set (butlast (n # vs))" using p d by (auto simp flip: vs)
  then have "linked ?st (n # vs)"
    by (intro linked_same [OF right]) (use dvs st in \<open>auto dest: in_set_butlastD split: if_splits\<close>)
  ultimately have "linked ?st (us @ p # n # vs)"
    using st ne by (simp add: linked_append [of ?st us p "n # vs"])
  moreover have "h # (as @ bs) @ [h] = us @ p # n # vs"
    using us vs by (metis append.assoc append_Cons append_Nil)
  ultimately have "linked ?st (h # (as @ bs) @ [h])" by (simp only:)
  then show ?thesis using d by (simp add: is_list_def)
qed

text \<open>A list is untouched by writes to nodes that are not on it.\<close>

lemma is_list_frame:
  "is_list st h xs \<Longrightarrow> \<forall>a \<in> set (h # xs). lnext st' a = lnext st a \<and> lprev st' a = lprev st a \<Longrightarrow>
   is_list st' h xs"
  unfolding is_list_def by (auto intro!: linked_same [of st "h # xs @ [h]" st'] dest: in_set_butlastD)

lemma insert_tail_writes:
  assumes "is_list st h xs" and "l \<notin> set (h # xs)" and "a \<notin> set (h # l # xs)"
  shows "lnext (list_insert_tail h l st) a = lnext st a \<and> lprev (list_insert_tail h l st) a = lprev st a"
proof -
  have "lprev st h \<in> set (h # xs)" using is_list_last_prev [OF assms(1)] by (metis last_in_set list.discI)
  then show ?thesis using assms(2,3) by (auto simp: list_insert_tail_def Let_def)
qed

lemma is_list_neighbours:
  assumes "is_list st h xs" and "l \<in> set xs"
  shows "lprev st l \<in> set (h # xs)" "lnext st l \<in> set (h # xs)" "\<not> list_empty l st"
proof -
  obtain as bs where xs: "xs = as @ l # bs" using assms(2) by (meson split_list)
  obtain us p where us: "h # as = us @ [p]" by (metis neq_Nil_conv rev_exhaust)
  obtain n vs where vs: "bs @ [h] = n # vs" by (metis append_Cons append_Nil neq_Nil_conv)
  have "h # xs @ [h] = us @ p # l # n # vs"
    using us vs xs by (metis append.assoc append_Cons append_Nil)
  then have "linked st (us @ p # l # n # vs)" using assms(1) unfolding is_list_def by metis
  then have pn: "lprev st l = p" "lnext st l = n"
    by (simp_all add: linked_append [of st us p "l # n # vs"])
  moreover have "p \<in> set (h # as)" "n \<in> set (bs @ [h])" by (simp_all add: us vs)
  ultimately show "lprev st l \<in> set (h # xs)" "lnext st l \<in> set (h # xs)" by (auto simp: xs)
  have "n \<noteq> l" using \<open>n \<in> set (bs @ [h])\<close> assms(1) by (auto simp: is_list_def xs)
  then show "\<not> list_empty l st" by (simp add: list_empty_def pn)
qed

lemma remove_entry_writes:
  assumes "is_list st h xs" and "l \<in> set xs" and "a \<notin> set (h # xs)"
  shows "lnext (list_remove_entry l st) a = lnext st a \<and> lprev (list_remove_entry l st) a = lprev st a"
  using is_list_neighbours [OF assms(1,2)] assms(2,3)
  by (auto simp: list_remove_entry_def Let_def split: if_splits)

section \<open>The interface of a family of queues\<close>

text \<open>
  What a client of several intrusive lists over the same nodes relies on: \<open>rep s L\<close> says that
  in store \<open>s\<close> the list with head \<open>h\<close> holds the entries \<open>L h\<close>, no entry being on two lists.
\<close>

locale tail_queues =
  fixes heads :: "'h set"
    and rep :: "'s \<Rightarrow> ('h \<Rightarrow> 'n list) \<Rightarrow> bool"
    and insert_tail :: "'h \<Rightarrow> 'n \<Rightarrow> 's \<Rightarrow> 's"
    and remove_entry :: "'n \<Rightarrow> 's \<Rightarrow> 's"
    and empty_list :: "'h \<Rightarrow> 's \<Rightarrow> bool"
    and prev_entry :: "'h \<Rightarrow> 's \<Rightarrow> 'n option"
  assumes rep_insert: "rep s L \<Longrightarrow> h \<in> heads \<Longrightarrow> (\<And>k. n \<notin> set (L k)) \<Longrightarrow>
      rep (insert_tail h n s) (L(h := L h @ [n]))"
    and rep_remove: "rep s L \<Longrightarrow> n \<in> set (L h) \<Longrightarrow> rep (remove_entry n s) (L(h := remove1 n (L h)))"
    and rep_empty: "rep s L \<Longrightarrow> h \<in> heads \<Longrightarrow> empty_list h s \<longleftrightarrow> L h = []"
    and rep_prev: "rep s L \<Longrightarrow> h \<in> heads \<Longrightarrow>
      prev_entry h s = (if L h = [] then None else Some (last (L h)))"
    and rep_distinct: "rep s L \<Longrightarrow> distinct (L h)"
begin

text \<open>Taking the entry before the head removes the newest one: the lists are stacks to a client.\<close>

lemma rep_pop: "rep s L \<Longrightarrow> L h \<noteq> [] \<Longrightarrow> rep (remove_entry (last (L h)) s) (L(h := butlast (L h)))"
  using rep_remove [of s L "last (L h)" h] rep_distinct [of s L h] by (simp add: remove1_last)

lemma insert_then_prev:
  "rep s L \<Longrightarrow> h \<in> heads \<Longrightarrow> (\<And>k. n \<notin> set (L k)) \<Longrightarrow> prev_entry h (insert_tail h n s) = Some n"
  using rep_prev [OF rep_insert [of s L h n], of h] by simp

lemma insert_then_remove:
  "rep s L \<Longrightarrow> h \<in> heads \<Longrightarrow> (\<And>k. n \<notin> set (L k)) \<Longrightarrow> rep (remove_entry n (insert_tail h n s)) L"
  using rep_remove [OF rep_insert [of s L h n], of n h] by (simp add: remove1_append)

end

end
