(* ===== verification/Buddy_Spec.thy ===== *)
theory Buddy_Spec
  imports Xis_Prelude
begin

text \<open>
  The arithmetic of buddy blocks and the abstract state of the page allocator of
  \<^verbatim>\<open>memory.c\<close>: for every order a list of the base frames of the free blocks. It is stated
  without pointers, flags or locks; \<^verbatim>\<open>Buddy\<close> shows that the code implements it.
\<close>

section \<open>Blocks\<close>

definition MAX_ALLOC_ORDER :: nat where "MAX_ALLOC_ORDER = 17"

definition block :: "nat \<Rightarrow> nat \<Rightarrow> nat set" where
  "block k p = {p..<p + 2 ^ k}"

definition aligned :: "nat \<Rightarrow> nat \<Rightarrow> bool" where
  "aligned k p \<longleftrightarrow> 2 ^ k dvd p"

text \<open>The frame number of the buddy: \<^verbatim>\<open>pfn ^ (1 << order)\<close>.\<close>

definition buddy :: "nat \<Rightarrow> nat \<Rightarrow> nat" where
  "buddy k p = p XOR (2 ^ k)"

lemma buddy_eq: "buddy k p = (if bit p k then p - 2 ^ k else p + 2 ^ k)"
proof -
  have f: "buddy k p = flip_bit k p" by (simp add: buddy_def flip_bit_eq_xor push_bit_eq_mult)
  show ?thesis
  proof (cases "bit p k")
    case True
    have "p = set_bit k (unset_bit k p)" using True by (auto intro!: bit_eqI simp: bit_simps)
    also have "\<dots> = unset_bit k p + 2 ^ k" by (subst set_bit_eq) (simp add: bit_simps)
    finally show ?thesis using True f by (simp add: flip_bit_eq_if)
  next
    case False
    then show ?thesis using f by (simp add: flip_bit_eq_if set_bit_eq)
  qed
qed

lemma buddy_buddy [simp]: "buddy k (buddy k p) = p"
  by (simp add: buddy_def xor.assoc)

lemma aligned_0 [simp]: "aligned 0 p"
  by (simp add: aligned_def)

lemma aligned_mult: "aligned k p \<longleftrightarrow> (\<exists>m. p = m * 2 ^ k)"
  by (auto simp: aligned_def dvd_def mult.commute)

lemma aligned_mono: "aligned k p \<Longrightarrow> j \<le> k \<Longrightarrow> aligned j p"
  unfolding aligned_def by (meson dvd_trans le_imp_power_dvd)

lemma bit_mult_pow2: "bit (m * 2 ^ k :: nat) k = odd m"
  by (simp add: bit_iff_odd)

lemma buddy_of_mult: "buddy k (m * 2 ^ k) = (if odd m then (m - 1) * 2 ^ k else (m + 1) * 2 ^ k)"
  by (simp add: buddy_eq bit_mult_pow2 algebra_simps)

lemma buddy_neq: "buddy k p \<noteq> p"
proof
  assume "buddy k p = p"
  then have "p XOR (p XOR 2 ^ k) = p XOR p" by (simp add: buddy_def)
  then have "(2::nat) ^ k = 0" by (simp flip: xor.assoc)
  then show False by simp
qed

lemma buddy_aligned: "aligned k p \<Longrightarrow> aligned k (buddy k p)"
  unfolding aligned_mult by (metis buddy_of_mult)

text \<open>Two buddies make the block of the next order, based at the lower of the two.\<close>

lemma buddy_join:
  assumes "aligned k p"
  shows "block k p \<union> block k (buddy k p) = block (Suc k) (min p (buddy k p))"
    and "block k p \<inter> block k (buddy k p) = {}"
    and "aligned (Suc k) (min p (buddy k p))"
proof -
  obtain m where p: "p = m * 2 ^ k" using assms by (auto simp: aligned_mult)
  define a :: nat where "a = 2 ^ k"
  obtain n where n: "m = 2 * n \<or> m = 2 * n + 1" by (metis oddE evenE)
  have pa: "p = m * a" and ba: "buddy k p = (if odd m then (m - 1) * a else (m + 1) * a)"
    by (simp_all add: p a_def buddy_of_mult)
  have a0: "0 < a" by (simp add: a_def)
  have mn: "min p (buddy k p) = n * (2 * a)"
    using n pa ba by (auto simp: algebra_simps)
  show "aligned (Suc k) (min p (buddy k p))" by (auto simp: aligned_mult mn a_def)
  show "block k p \<inter> block k (buddy k p) = {}"
    using n pa ba a0 by (auto simp: block_def algebra_simps simp flip: a_def)
  have un: "block k x \<union> block k (x + a) = {x..<x + 2 * a}" for x
    by (auto simp: block_def simp flip: a_def)
  have whole: "block (Suc k) (n * (2 * a)) = {n * (2 * a)..<n * (2 * a) + 2 * a}"
    by (simp add: block_def a_def)
  have "p = n * (2 * a) \<and> buddy k p = n * (2 * a) + a \<or> p = n * (2 * a) + a \<and> buddy k p = n * (2 * a)"
    using n pa ba by (auto simp: algebra_simps)
  then show "block k p \<union> block k (buddy k p) = block (Suc k) (min p (buddy k p))"
    unfolding mn whole by (elim disjE conjE) (simp_all only: un Un_commute [of "block k (_ + a)"])
qed

text \<open>Aligned blocks are nested or disjoint.\<close>

lemma block_nested:
  assumes "aligned j p" and "aligned k q" and "j \<le> k" and "block j p \<inter> block k q \<noteq> {}"
  shows "block j p \<subseteq> block k q"
proof -
  obtain m n where p: "p = m * 2 ^ j" and q: "q = n * 2 ^ k" using assms(1,2) by (auto simp: aligned_mult)
  obtain c where kj: "k = j + c" using assms(3) by (auto simp: le_iff_add)
  define a :: nat where "a = 2 ^ j"
  define b :: nat where "b = 2 ^ c"
  have bl: "block j p = {m * a..<m * a + a}" "block k q = {n * b * a..<n * b * a + b * a}"
    by (simp_all add: block_def p q kj power_add a_def b_def algebra_simps)
  obtain x where "x \<in> block j p" "x \<in> block k q" using assms(4) by blast
  then have x: "m * a \<le> x" "x < m * a + a" "n * b * a \<le> x" "x < n * b * a + b * a"
    by (auto simp: bl)
  have "n * b * a < (m + 1) * a" "m * a < (n * b + b) * a" using x by (auto simp: algebra_simps)
  then have "n * b < m + 1" "m < n * b + b" by (metis mult_less_cancel2)+
  then have "n * b \<le> m" "m + 1 \<le> n * b + b" by simp_all
  then have "n * b * a \<le> m * a" "(m + 1) * a \<le> (n * b + b) * a"
    by (simp_all only: mult_le_mono1)
  then show ?thesis by (auto simp: bl algebra_simps)
qed

lemma block_bound: "block k r \<subseteq> {..<n} \<longleftrightarrow> r + 2 ^ k \<le> n"
proof
  assume "block k r \<subseteq> {..<n}"
  moreover have "r + 2 ^ k - 1 \<in> block k r" by (simp add: block_def Suc_leI le_diff_conv2)
  ultimately have "r + 2 ^ k - 1 < n" by blast
  then show "r + 2 ^ k \<le> n" by linarith
qed (auto simp: block_def)

lemma block_mem [simp]: "p \<in> block k p"
  by (simp add: block_def)

lemma block_nonempty [simp]: "block k p \<noteq> {}"
  by (simp add: block_def)

section \<open>Free lists\<close>

type_synonym free_lists = "nat \<Rightarrow> nat list"

definition free_set :: "free_lists \<Rightarrow> nat set" where
  "free_set L = {f. \<exists>k. \<exists>p \<in> set (L k). f \<in> block k p}"

text \<open>
  Well-formed lists over \<open>n\<close> frames: orders up to the maximum, bases aligned, blocks inside
  memory, no block listed twice and no two blocks overlapping.
\<close>

definition wf_lists :: "nat \<Rightarrow> free_lists \<Rightarrow> bool" where
  "wf_lists n L \<longleftrightarrow>
     (\<forall>k p. p \<in> set (L k) \<longrightarrow> k \<le> MAX_ALLOC_ORDER \<and> aligned k p \<and> p + 2 ^ k \<le> n) \<and>
     (\<forall>k. distinct (L k)) \<and>
     (\<forall>j p k q. p \<in> set (L j) \<and> q \<in> set (L k) \<and> (j, p) \<noteq> (k, q) \<longrightarrow> block j p \<inter> block k q = {})"

definition coalesced :: "free_lists \<Rightarrow> bool" where
  "coalesced L \<longleftrightarrow> (\<forall>k p. k < MAX_ALLOC_ORDER \<and> p \<in> set (L k) \<longrightarrow> buddy k p \<notin> set (L k))"

lemma wf_listsD:
  assumes "wf_lists n L" and "p \<in> set (L k)"
  shows "k \<le> MAX_ALLOC_ORDER" "aligned k p" "p + 2 ^ k \<le> n"
  using assms by (auto simp: wf_lists_def)

lemma wf_lists_distinct: "wf_lists n L \<Longrightarrow> distinct (L k)"
  by (simp add: wf_lists_def)

lemma wf_lists_disjoint:
  "wf_lists n L \<Longrightarrow> p \<in> set (L j) \<Longrightarrow> q \<in> set (L k) \<Longrightarrow> (j, p) \<noteq> (k, q) \<Longrightarrow> block j p \<inter> block k q = {}"
  unfolding wf_lists_def by blast

lemma wf_lists_unique: "wf_lists n L \<Longrightarrow> p \<in> set (L j) \<Longrightarrow> p \<in> set (L k) \<Longrightarrow> j = k"
  using wf_lists_disjoint [of n L p j p k] block_mem [of p] by blast

lemma free_setI: "p \<in> set (L k) \<Longrightarrow> f \<in> block k p \<Longrightarrow> f \<in> free_set L"
  by (auto simp: free_set_def)

lemma free_set_base: "p \<in> set (L k) \<Longrightarrow> p \<in> free_set L"
  using free_setI [of p L k p] by simp

lemma free_set_bound: "wf_lists n L \<Longrightarrow> f \<in> free_set L \<Longrightarrow> f < n"
  by (fastforce simp: free_set_def block_def dest: wf_listsD(3))

lemma free_set_append: "free_set (L(k := L k @ [p])) = free_set L \<union> block k p"
  by (auto simp: free_set_def split: if_splits)

lemma wf_lists_append:
  assumes wf: "wf_lists n L" and "k \<le> MAX_ALLOC_ORDER" and "aligned k p" and "p + 2 ^ k \<le> n"
    and new: "block k p \<inter> free_set L = {}"
  shows "wf_lists n (L(k := L k @ [p]))"
proof -
  have no: "block k p \<inter> block j q = {}" if "q \<in> set (L j)" for j q
    using new that by (auto simp: free_set_def)
  then have fresh: "p \<notin> set (L j)" for j using block_mem by blast
  show ?thesis
    unfolding wf_lists_def
  proof (intro conjI allI impI)
    fix i q j r assume *: "q \<in> set ((L(k := L k @ [p])) i) \<and> r \<in> set ((L(k := L k @ [p])) j) \<and> (i, q) \<noteq> (j, r)"
    show "block i q \<inter> block j r = {}"
    proof (cases "(i, q) = (k, p) \<or> (j, r) = (k, p)")
      case True
      then show ?thesis using * no by (auto simp: Int_commute split: if_splits)
    next
      case False
      then have "q \<in> set (L i)" "r \<in> set (L j)" using * by (auto split: if_splits)
      then show ?thesis using * wf_lists_disjoint [OF wf] by blast
    qed
  qed (use assms fresh wf_listsD [OF wf] wf_lists_distinct [OF wf] in \<open>auto split: if_splits\<close>)
qed

lemma wf_lists_remove: "wf_lists n L \<Longrightarrow> wf_lists n (L(k := remove1 p (L k)))"
  unfolding wf_lists_def by (auto dest!: notin_set_remove1 set_remove1_subset [THEN subsetD] split: if_splits)

lemma free_set_remove:
  assumes wf: "wf_lists n L" and p: "p \<in> set (L k)"
  shows "free_set (L(k := remove1 p (L k))) = free_set L - block k p"
proof -
  have "set ((L(k := remove1 p (L k))) j) = {q \<in> set (L j). (j, q) \<noteq> (k, p)}" for j
    using wf_lists_distinct [OF wf] by auto
  then show ?thesis
    using wf_lists_disjoint [OF wf p] p by (fastforce simp: free_set_def)
qed

lemma coalesced_remove: "coalesced L \<Longrightarrow> coalesced (L(k := remove1 p (L k)))"
  by (auto simp: coalesced_def dest: set_remove1_subset [THEN subsetD])

lemma coalesced_append:
  "coalesced L \<Longrightarrow> k = MAX_ALLOC_ORDER \<or> buddy k p \<notin> set (L k) \<Longrightarrow> coalesced (L(k := L k @ [p]))"
  by (auto simp: coalesced_def buddy_neq dest: arg_cong [of _ _ "buddy k"])

text \<open>
  Completeness of the coalesced form: an aligned run of free frames of a supported size lies
  inside one free block, so it is found by looking at the lists only.
\<close>

lemma coalesced_fits:
  assumes wf: "wf_lists n L" and co: "coalesced L"
  shows "k \<le> MAX_ALLOC_ORDER \<Longrightarrow> aligned k a \<Longrightarrow> block k a \<subseteq> free_set L \<Longrightarrow>
    \<exists>j \<ge> k. \<exists>p \<in> set (L j). block k a \<subseteq> block j p"
proof (induction k arbitrary: a)
  case 0
  then have "a \<in> free_set L" by auto
  then show ?case by (fastforce simp: free_set_def block_def)
next
  case (Suc k)
  define b where "b = a + 2 ^ k"
  have al: "aligned k a" using Suc.prems(2) by (rule aligned_mono) simp
  obtain m where m: "a = m * 2 ^ Suc k" using Suc.prems(2) by (auto simp: aligned_mult)
  then have "a = (2 * m) * 2 ^ k" by simp
  then have b: "b = buddy k a" using buddy_of_mult [of k "2 * m"] by (simp add: b_def algebra_simps)
  have mi: "min a b = a" by (simp add: b_def)
  have join: "block k a \<union> block k b = block (Suc k) a"
    using buddy_join(1) [OF al] by (simp add: mi flip: b)
  have inside: "block (Suc k) a \<subseteq> block j p"
    if "k < j" "p \<in> set (L j)" "block k c \<subseteq> block j p" "c \<in> {a, b}" for j p c
  proof (rule block_nested [OF Suc.prems(2) wf_listsD(2) [OF wf that(2)]])
    show "Suc k \<le> j" using that(1) by simp
    show "block (Suc k) a \<inter> block j p \<noteq> {}" using that join block_nonempty [of k c] by blast
  qed
  obtain i p where ip: "k \<le> i" "p \<in> set (L i)" "block k a \<subseteq> block i p"
    using Suc.IH [of a] Suc.prems al join by auto
  obtain j q where jq: "k \<le> j" "q \<in> set (L j)" "block k b \<subseteq> block j q"
    using Suc.IH [of b] Suc.prems buddy_aligned [OF al] join b by auto
  consider "k < i" | "k < j" | "i = k" "j = k" using ip(1) jq(1) by linarith
  then show ?case
  proof cases
    case 1
    then show ?thesis using inside [OF 1 ip(2,3)] ip(2) by (auto intro!: exI [of _ i] bexI [of _ p])
  next
    case 2
    then show ?thesis using inside [OF 2 jq(2,3)] jq(2) by (auto intro!: exI [of _ j] bexI [of _ q])
  next
    case 3
    have "block k x \<subseteq> block k y \<Longrightarrow> x = y" for x y by (fastforce simp: block_def)
    then have "p = a" "q = b" using ip(3) jq(3) 3 by auto
    then have "a \<in> set (L k)" "buddy k a \<in> set (L k)" using ip jq 3 b by auto
    then show ?thesis using co Suc.prems(1) by (auto simp: coalesced_def)
  qed
qed

section \<open>Giving blocks back and cutting blocks up\<close>

text \<open>
  The two list transformations of the allocator: \<open>coalesce\<close> adds a block, joining it with its
  free buddies as far up as it goes; \<open>carve j k p\<close> returns the upper halves of the order
  \<open>j\<close> block at \<open>p\<close> until an order \<open>k\<close> block is left.
\<close>

function coalesce :: "nat \<Rightarrow> nat \<Rightarrow> free_lists \<Rightarrow> free_lists" where
  "coalesce k p L =
     (if k < MAX_ALLOC_ORDER \<and> buddy k p \<in> set (L k)
      then coalesce (Suc k) (min p (buddy k p)) (L(k := remove1 (buddy k p) (L k)))
      else L(k := L k @ [p]))"
  by pat_completeness auto
termination by (relation "measure (\<lambda>(k, p, L). MAX_ALLOC_ORDER - k)") auto

declare coalesce.simps [simp del]

fun carve :: "nat \<Rightarrow> nat \<Rightarrow> nat \<Rightarrow> free_lists \<Rightarrow> free_lists" where
  "carve 0 k p L = L"
| "carve (Suc j) k p L = (if k \<le> j then carve j k p (coalesce j (buddy j p) L) else L)"

definition block_ok :: "nat \<Rightarrow> nat \<Rightarrow> nat \<Rightarrow> free_lists \<Rightarrow> bool" where
  "block_ok n k p L \<longleftrightarrow> k \<le> MAX_ALLOC_ORDER \<and> aligned k p \<and> p + 2 ^ k \<le> n \<and> block k p \<inter> free_set L = {}"

lemma block_okD:
  assumes "block_ok n k p L"
  shows "k \<le> MAX_ALLOC_ORDER" "aligned k p" "p + 2 ^ k \<le> n" "block k p \<inter> free_set L = {}"
  using assms by (auto simp: block_ok_def)

text \<open>Joining a block with its free buddy gives a block that is again outside the lists.\<close>

lemma block_ok_join:
  assumes wf: "wf_lists n L" and ok: "block_ok n k p L" and "k < MAX_ALLOC_ORDER"
    and q: "buddy k p \<in> set (L k)"
  shows "block_ok n (Suc k) (min p (buddy k p)) (L(k := remove1 (buddy k p) (L k)))"
    and "block (Suc k) (min p (buddy k p)) = block k p \<union> block k (buddy k p)"
proof -
  note j = buddy_join [OF block_okD(2) [OF ok]]
  show un: "block (Suc k) (min p (buddy k p)) = block k p \<union> block k (buddy k p)" by (simp add: j(1))
  have "min p (buddy k p) + 2 ^ Suc k \<le> n"
    using block_okD(3) [OF ok] wf_listsD(3) [OF wf q] by (simp only: un Un_subset_iff flip: block_bound)
  moreover have "block (Suc k) (min p (buddy k p)) \<inter> free_set (L(k := remove1 (buddy k p) (L k))) = {}"
    unfolding un free_set_remove [OF wf q] using block_okD(4) [OF ok] by blast
  ultimately show "block_ok n (Suc k) (min p (buddy k p)) (L(k := remove1 (buddy k p) (L k)))"
    using j(3) assms(3) by (simp add: block_ok_def)
qed

lemma coalesce_ok:
  "wf_lists n L \<Longrightarrow> block_ok n k p L \<Longrightarrow>
   wf_lists n (coalesce k p L) \<and> free_set (coalesce k p L) = free_set L \<union> block k p \<and>
   (coalesced L \<longrightarrow> coalesced (coalesce k p L))"
proof (induction k p L rule: coalesce.induct)
  case (1 k p L)
  let ?q = "buddy k p" and ?L = "L(k := remove1 (buddy k p) (L k))"
  show ?case
  proof (cases "k < MAX_ALLOC_ORDER \<and> ?q \<in> set (L k)")
    case True
    note join = block_ok_join [OF 1(2,3) conjunct1 [OF True] conjunct2 [OF True]]
    note ih = 1(1) [OF True wf_lists_remove [OF 1(2)] join(1)]
    have "free_set ?L = free_set L - block k ?q" "block k ?q \<subseteq> free_set L"
      using free_set_remove [OF 1(2)] True by (auto intro: free_setI)
    then have "free_set ?L \<union> block (Suc k) (min p ?q) = free_set L \<union> block k p"
      unfolding join(2) by blast
    moreover have "coalesce k p L = coalesce (Suc k) (min p ?q) ?L" using True by (subst coalesce.simps) simp
    ultimately show ?thesis using ih coalesced_remove [of L k ?q] by metis
  next
    case False
    from this have "coalesce k p L = L(k := L k @ [p])" by (subst coalesce.simps) (rule if_not_P)
    moreover have "coalesced L \<Longrightarrow> coalesced (L(k := L k @ [p]))"
      using coalesced_append [of L k p] block_okD(1) [OF 1(3)] False by fastforce
    ultimately show ?thesis
      using wf_lists_append [OF 1(2) block_okD [OF 1(3)]] free_set_append by metis
  qed
qed

text \<open>The upper half of a block that is outside the lists is outside them too, and so is the lower.\<close>

lemma block_ok_halves:
  assumes "block_ok n (Suc j) p L"
  shows "block_ok n j p L" "block_ok n j (buddy j p) L" "p < buddy j p"
    "block (Suc j) p = block j p \<union> block j (buddy j p)" "block j p \<inter> block j (buddy j p) = {}"
proof -
  obtain m where p: "p = m * 2 ^ Suc j" using block_okD(2) [OF assms] by (auto simp: aligned_mult)
  then have p': "p = (2 * m) * 2 ^ j" by simp
  have al: "aligned j p" unfolding aligned_mult using p' by blast
  have b: "buddy j p = p + 2 ^ j" using buddy_of_mult [of j "2 * m"] by (simp add: p' algebra_simps)
  then show "p < buddy j p" by simp
  then show un: "block (Suc j) p = block j p \<union> block j (buddy j p)"
    using buddy_join(1) [OF al] by (simp add: min_def)
  show "block j p \<inter> block j (buddy j p) = {}" by (rule buddy_join(2) [OF al])
  show "block_ok n j p L" "block_ok n j (buddy j p) L"
    using assms al buddy_aligned [OF al] un b by (auto simp: block_ok_def)
qed

lemma carve_ok:
  "wf_lists n L \<Longrightarrow> block_ok n j p L \<Longrightarrow> k \<le> j \<Longrightarrow>
   wf_lists n (carve j k p L) \<and> free_set (carve j k p L) = free_set L \<union> (block j p - block k p) \<and>
   block_ok n k p (carve j k p L) \<and> (coalesced L \<longrightarrow> coalesced (carve j k p L))"
proof (induction j arbitrary: L)
  case (Suc j)
  show ?case
  proof (cases "k \<le> j")
    case True
    note h = block_ok_halves [OF Suc.prems(2)]
    note c = coalesce_ok [OF Suc.prems(1) h(2)]
    let ?L = "coalesce j (buddy j p) L"
    have "block_ok n j p ?L" using h c by (auto simp: block_ok_def)
    note ih = Suc.IH [OF conjunct1 [OF c] this True]
    have "block k p \<subseteq> block j p" using True by (auto simp: block_def intro: order.strict_trans2)
    then have "block (Suc j) p - block k p = block j (buddy j p) \<union> (block j p - block k p)"
      using h(4,5) by blast
    then show ?thesis using ih c True by auto
  next
    case False
    then have "k = Suc j" using Suc.prems(3) by simp
    then show ?thesis using Suc.prems by simp
  qed
qed simp

end
