(* ===== verification/Buddy_Refine.thy ===== *)
theory Buddy_Refine
  imports Buddy
begin

text \<open>
  The allocator of \<^verbatim>\<open>Buddy\<close> implements the lists of \<^verbatim>\<open>Buddy_Spec\<close>: the intrusive lists are
  an instance of the queue interface, \<open>mm_inv\<close> ties flags, orders, counters and locks to the
  lists, and every operation returns, keeps \<open>mm_inv\<close> and changes the lists as
  \<open>coalesce\<close> and \<open>carve\<close> do.
\<close>

section \<open>The intrusive lists as queues\<close>

definition list_rep :: "page_node store \<Rightarrow> free_lists \<Rightarrow> bool" where
  "list_rep st L \<longleftrightarrow>
     (\<forall>k \<le> MAX_ALLOC_ORDER. is_list st (Head k) (map Page (L k))) \<and>
     (\<forall>k > MAX_ALLOC_ORDER. L k = []) \<and>
     (\<forall>j k p. p \<in> set (L j) \<and> p \<in> set (L k) \<longrightarrow> j = k)"

definition free_prev :: "nat \<Rightarrow> page_node store \<Rightarrow> nat option" where
  "free_prev h st = (case list_prev_entry (Head h) st of Some (Page p) \<Rightarrow> Some p | _ \<Rightarrow> None)"

lemma list_rep_is_list: "list_rep st L \<Longrightarrow> k \<le> MAX_ALLOC_ORDER \<Longrightarrow> is_list st (Head k) (map Page (L k))"
  by (simp add: list_rep_def)

lemma list_rep_unique: "list_rep st L \<Longrightarrow> p \<in> set (L j) \<Longrightarrow> p \<in> set (L k) \<Longrightarrow> j = k"
  unfolding list_rep_def by blast

lemma list_rep_order: "list_rep st L \<Longrightarrow> p \<in> set (L k) \<Longrightarrow> k \<le> MAX_ALLOC_ORDER"
  by (metis list_rep_def empty_iff list.set(1) not_le)

lemma list_rep_prev_entry:
  assumes "list_rep st L" and "k \<le> MAX_ALLOC_ORDER"
  shows "list_prev_entry (Head k) st = (if L k = [] then None else Some (Page (last (L k))))"
  using is_list_prev_entry [OF list_rep_is_list [OF assms]] by (simp add: last_map)

lemma list_rep_insert:
  assumes rep: "list_rep st L" and h: "h \<le> MAX_ALLOC_ORDER" and new: "\<And>k. n \<notin> set (L k)"
  shows "list_rep (list_insert_tail (Head h) (Page n) st) (L(h := L h @ [n]))"
proof -
  let ?st = "list_insert_tail (Head h) (Page n) st"
  have lh: "is_list st (Head h) (map Page (L h))" "Page n \<notin> set (Head h # map Page (L h))"
    using list_rep_is_list [OF rep h] new by auto
  have "is_list ?st (Head k) (map Page ((L(h := L h @ [n])) k))" if k: "k \<le> MAX_ALLOC_ORDER" for k
  proof (cases "k = h")
    case True
    then show ?thesis using is_list_insert_tail [OF lh] by simp
  next
    case False
    have "a \<notin> set (Head h # Page n # map Page (L h))" if "a \<in> set (Head k # map Page (L k))" for a
      using that False new list_rep_unique [OF rep] by auto
    then have "is_list ?st (Head k) (map Page (L k))"
      by (intro is_list_frame [OF list_rep_is_list [OF rep k]] ballI insert_tail_writes [OF lh])
    then show ?thesis using False by simp
  qed
  moreover have "j = k"
    if "p \<in> set ((L(h := L h @ [n])) j)" "p \<in> set ((L(h := L h @ [n])) k)" for j k p
    using that new list_rep_unique [OF rep, of p] by (auto split: if_splits)
  ultimately show ?thesis using rep h unfolding list_rep_def by (metis fun_upd_apply not_le)
qed

lemma list_rep_remove:
  assumes rep: "list_rep st L" and n: "n \<in> set (L h)"
  shows "list_rep (list_remove_entry (Page n) st) (L(h := remove1 n (L h)))"
proof -
  let ?st = "list_remove_entry (Page n) st"
  have h: "h \<le> MAX_ALLOC_ORDER" using rep n by (rule list_rep_order)
  have lh: "is_list st (Head h) (map Page (L h))" using list_rep_is_list [OF rep h] .
  have "is_list ?st (Head k) (map Page ((L(h := remove1 n (L h))) k))" if k: "k \<le> MAX_ALLOC_ORDER" for k
  proof (cases "k = h")
    case True
    obtain as bs where ab: "L h = as @ n # bs" using n by (meson split_list)
    have "distinct (L h)" using lh by (simp add: is_list_def distinct_map)
    then have "remove1 n (L h) = as @ bs" using ab by (simp add: remove1_append)
    then show ?thesis using is_list_remove_entry [of st "Head h" "map Page as" "Page n" "map Page bs"] lh ab True
      by simp
  next
    case False
    have "a \<notin> set (Head h # map Page (L h))" if "a \<in> set (Head k # map Page (L k))" for a
      using that False list_rep_unique [OF rep] by auto
    moreover have "Page n \<in> set (map Page (L h))" using n by simp
    ultimately have "is_list ?st (Head k) (map Page (L k))"
      by (intro is_list_frame [OF list_rep_is_list [OF rep k]] ballI remove_entry_writes [OF lh])
    then show ?thesis using False by simp
  qed
  moreover have "j = k"
    if "p \<in> set ((L(h := remove1 n (L h))) j)" "p \<in> set ((L(h := remove1 n (L h))) k)" for j k p
    using that list_rep_unique [OF rep, of p] set_remove1_subset [of n "L h"] by (auto split: if_splits)
  ultimately show ?thesis using rep h unfolding list_rep_def by (metis fun_upd_apply not_le)
qed

interpretation free_q: tail_queues "{..MAX_ALLOC_ORDER}" list_rep
  "\<lambda>h n. list_insert_tail (Head h) (Page n)" "\<lambda>n. list_remove_entry (Page n)"
  "\<lambda>h. list_empty (Head h)" free_prev
proof (unfold_locales, goal_cases)
  case (1 st L h n)
  then show ?case by (auto intro: list_rep_insert)
next
  case (2 st L n h)
  then show ?case by (rule list_rep_remove)
next
  case (3 st L h)
  then show ?case using is_list_empty [OF list_rep_is_list [of st L h]] by simp
next
  case (4 st L h)
  then show ?case by (simp add: free_prev_def list_rep_prev_entry)
next
  case (5 st L h)
  show ?case
  proof (cases "h \<le> MAX_ALLOC_ORDER")
    case True
    then show ?thesis using list_rep_is_list [OF 5] by (simp add: is_list_def distinct_map)
  next
    case False
    then show ?thesis using 5 by (simp add: list_rep_def)
  qed
qed

section \<open>The invariant\<close>

text \<open>
  \<open>d k\<close> is the drift of \<^verbatim>\<open>free_pages_count[k]\<close> against the length of the list:
  \<^verbatim>\<open>page_add_to_slot\<close> keeps it, \<^verbatim>\<open>page_alloc\<close> takes a block off its list without
  counting down.
\<close>

definition mm_core :: "(nat \<Rightarrow> u32) \<Rightarrow> mm \<Rightarrow> free_lists \<Rightarrow> bool" where
  "mm_core d s L \<longleftrightarrow>
     list_rep (links s) L \<and>
     wf_lists (Suc (kpage_last s)) L \<and>
     kpage_last s < length (kpages s) \<and>
     (\<forall>i < length (kpages s). klock (kpages s ! i) = 0) \<and>
     (\<forall>k. free_pages_count s k = of_nat (length (L k)) + d k) \<and>
     (\<forall>i < length (kpages s). kflags (kpages s ! i) AND KPAGE_FLAGS_FREE_BUDDY \<noteq> 0 \<longleftrightarrow> (\<exists>k. i \<in> set (L k))) \<and>
     (\<forall>k. \<forall>i \<in> set (L k). unat (korder (kpages s ! i)) = k)"

text \<open>\<open>mm_core\<close> also holds while the lock of an order is held; between operations none is.\<close>

definition mm_inv :: "(nat \<Rightarrow> u32) \<Rightarrow> mm \<Rightarrow> free_lists \<Rightarrow> bool" where
  "mm_inv d s L \<longleftrightarrow> mm_core d s L \<and> (\<forall>k. alloc_order_lock s k = 0)"

lemma mm_coreD:
  assumes "mm_core d s L"
  shows "list_rep (links s) L" "wf_lists (Suc (kpage_last s)) L" "kpage_last s < length (kpages s)"
    "i < length (kpages s) \<Longrightarrow> klock (kpages s ! i) = 0"
    "free_pages_count s k = of_nat (length (L k)) + d k"
    "i < length (kpages s) \<Longrightarrow> kflags (kpages s ! i) AND KPAGE_FLAGS_FREE_BUDDY \<noteq> 0 \<longleftrightarrow> (\<exists>k. i \<in> set (L k))"
    "i \<in> set (L k) \<Longrightarrow> unat (korder (kpages s ! i)) = k"
  using assms unfolding mm_core_def by blast+

lemma mm_coreI:
  assumes "list_rep (links s) L" "wf_lists (Suc (kpage_last s)) L" "kpage_last s < length (kpages s)"
    "\<And>i. i < length (kpages s) \<Longrightarrow> klock (kpages s ! i) = 0"
    "\<And>k. free_pages_count s k = of_nat (length (L k)) + d k"
    "\<And>i. i < length (kpages s) \<Longrightarrow> kflags (kpages s ! i) AND KPAGE_FLAGS_FREE_BUDDY \<noteq> 0 \<longleftrightarrow> (\<exists>k. i \<in> set (L k))"
    "\<And>i k. i \<in> set (L k) \<Longrightarrow> unat (korder (kpages s ! i)) = k"
  shows "mm_core d s L"
  using assms unfolding mm_core_def by blast

lemma mm_core_order_lock [simp]: "mm_core d (s\<lparr>alloc_order_lock := l\<rparr>) L \<longleftrightarrow> mm_core d s L"
  by (simp add: mm_core_def)

lemma mm_invD:
  assumes "mm_inv d s L"
  shows "mm_core d s L" "alloc_order_lock s k = 0"
  using assms by (simp_all add: mm_inv_def)

text \<open>Frames the operation leaves alone keep their descriptor; all keep the bits it does not use.\<close>

definition other_bits :: "kpage \<Rightarrow> u8 \<times> u32 \<times> u32" where
  "other_bits k = (kflags k AND NOT (KPAGE_FLAGS_FREE_BUDDY OR KPAGE_FLAGS_FREE_SUB), krefcount k, kvirt_addr k)"

definition framed :: "nat set \<Rightarrow> mm \<Rightarrow> mm \<Rightarrow> bool" where
  "framed F s t \<longleftrightarrow>
     length (kpages t) = length (kpages s) \<and> kpage_last t = kpage_last s \<and> console t = console s \<and>
     alloc_order_lock t = alloc_order_lock s \<and>
     map other_bits (kpages t) = map other_bits (kpages s) \<and>
     (\<forall>i < length (kpages s). i \<notin> F \<longrightarrow> kpages t ! i = kpages s ! i)"

lemma framed_refl [simp]: "framed F s s"
  by (simp add: framed_def)

lemma framed_trans: "framed F s t \<Longrightarrow> framed G t u \<Longrightarrow> framed (F \<union> G) s u"
  by (simp add: framed_def)

lemma framed_mono: "framed F s t \<Longrightarrow> F \<subseteq> G \<Longrightarrow> framed G s t"
  by (auto simp: framed_def)

lemma framedD:
  assumes "framed F s t"
  shows "length (kpages t) = length (kpages s)" "kpage_last t = kpage_last s" "console t = console s"
    "alloc_order_lock t = alloc_order_lock s"
    "i < length (kpages s) \<Longrightarrow> i \<notin> F \<Longrightarrow> kpages t ! i = kpages s ! i"
    "i < length (kpages s) \<Longrightarrow> other_bits (kpages t ! i) = other_bits (kpages s ! i)"
  using assms unfolding framed_def by (auto dest: arg_cong [of _ _ "\<lambda>xs. xs ! i"])

section \<open>The operations on a state without held locks\<close>

lemma kpage_upd_in:
  "i < length (kpages s) \<Longrightarrow> kpage_upd i f s = Some (s\<lparr>kpages := (kpages s)[i := f (kpages s ! i)]\<rparr>)"
  by (simp add: kpage_upd_def)

lemma lock_page_in:
  "i < length (kpages s) \<Longrightarrow> klock (kpages s ! i) = 0 \<Longrightarrow>
   lock_page i s = Some (s\<lparr>kpages := (kpages s)[i := (kpages s ! i)\<lparr>klock := 1\<rparr>]\<rparr>)"
  by (simp add: lock_page_def kpage_upd_in)

lemma unlock_page_in:
  "i < length (kpages s) \<Longrightarrow>
   unlock_page i s = Some (s\<lparr>kpages := (kpages s)[i := (kpages s ! i)\<lparr>klock := 0\<rparr>]\<rparr>)"
  by (simp add: unlock_page_def kpage_upd_in spinlock_unlock_def)

lemma lock_order_in:
  "alloc_order_lock s k = 0 \<Longrightarrow>
   lock_order k s = Some (s\<lparr>alloc_order_lock := (alloc_order_lock s)(k := 1)\<rparr>)"
  by (simp add: lock_order_def)

lemmas op_simps [step_defs] = kpage_upd_in lock_page_in unlock_page_in lock_order_in unlock_order_def
  spinlock_unlock_def

lemma bit_flags [simp]:
  "bit (4 :: u8) n \<longleftrightarrow> n = 2" "bit (8 :: u8) n \<longleftrightarrow> n = 3" "bit (16 :: u8) n \<longleftrightarrow> n = 4"
  "bit (12 :: u8) n \<longleftrightarrow> n = 2 \<or> n = 3"
proof -
  have "(4 :: u8) = 2 ^ 2" "(8 :: u8) = 2 ^ 3" "(16 :: u8) = 2 ^ 4" "(12 :: u8) = 2 ^ 2 OR 2 ^ 3" by simp_all
  then show "bit (4 :: u8) n \<longleftrightarrow> n = 2" "bit (8 :: u8) n \<longleftrightarrow> n = 3" "bit (16 :: u8) n \<longleftrightarrow> n = 4"
    "bit (12 :: u8) n \<longleftrightarrow> n = 2 \<or> n = 3"
    by (simp_all only: bit_exp_iff bit_or_iff possible_bit_word) auto
qed

lemma flag_masks: "(-5 :: u8) = NOT 4" "(-9 :: u8) = NOT 8" "(-13 :: u8) = NOT 12"
  by simp_all

lemmas bitwise = bit_and_iff bit_or_iff bit_not_iff bit_flags possible_bit_word bit_0_eq bot_fun_def bot_bool_def

lemma flag_bits [flag_simps]:
  fixes x :: u8
  shows "(x AND -5) AND 4 = 0" "((x AND -5) OR 8) AND 4 = 0"
    "((x AND -5) OR 16) AND 4 = 0" "(x AND -9) AND 4 = x AND 4"
    "(x AND -5) AND -13 = x AND -13" "((x AND -5) OR 8) AND -13 = x AND -13"
    "((x OR 4) AND -9) AND -13 = x AND -13" "(x AND -9) AND -13 = x AND -13"
    "(x OR 4) AND -13 = x AND -13"
  unfolding flag_masks by (rule bit_eqI, simp only: bitwise, fastforce)+

lemma flag_bits_set [flag_simps]: "((x OR 4) AND -9) AND (4 :: u8) \<noteq> 0"
proof -
  have "bit (((x OR 4) AND -9) AND (4 :: u8)) 2" unfolding flag_masks by (simp only: bitwise) simp
  then show ?thesis by fastforce
qed

lemma relock:
  "klock k = 0 \<Longrightarrow> (clear_flag f (k\<lparr>klock := 1\<rparr>))\<lparr>klock := 0\<rparr> = clear_flag f k"
  "klock k = 0 \<Longrightarrow> (set_flag g (clear_flag f (k\<lparr>klock := 1\<rparr>)))\<lparr>klock := 0\<rparr> = set_flag g (clear_flag f k)"
  "klock k = 0 \<Longrightarrow> (clear_flag g (set_flag f (k\<lparr>klock := 1, korder := o'\<rparr>)))\<lparr>klock := 0\<rparr> =
     clear_flag g (set_flag f (k\<lparr>korder := o'\<rparr>))"
  by (cases k; simp add: clear_flag_def set_flag_def)+

lemma clear_set_simps [simp]:
  "kflags (clear_flag f k) = kflags k AND NOT f" "kflags (set_flag f k) = kflags k OR f"
  "korder (clear_flag f k) = korder k" "korder (set_flag f k) = korder k"
  "klock (clear_flag f k) = klock k" "klock (set_flag f k) = klock k"
  "krefcount (clear_flag f k) = krefcount k" "krefcount (set_flag f k) = krefcount k"
  "kvirt_addr (clear_flag f k) = kvirt_addr k" "kvirt_addr (set_flag f k) = kvirt_addr k"
  by (simp_all add: clear_flag_def set_flag_def)

lemma slot_merge_code:
  assumes "klock (kpages s ! f) = 0" "klock (kpages s ! g) = 0" "f \<noteq> g"
    and "f < length (kpages s)" "g < length (kpages s)"
  shows "\<exists>s'. slot_merge k f g q s = Some s' \<and>
     links s' = list_remove_entry (Page q) (links s) \<and>
     free_pages_count s' = (free_pages_count s)(k := free_pages_count s k - 1) \<and>
     alloc_order_lock s' = alloc_order_lock s \<and> kpage_last s' = kpage_last s \<and> console s' = console s \<and>
     length (kpages s') = length (kpages s) \<and>
     (\<forall>i < length (kpages s). kpages s' ! i =
        (if i = f then clear_flag KPAGE_FLAGS_FREE_BUDDY (kpages s ! i)
         else if i = g then set_flag KPAGE_FLAGS_FREE_SUB (clear_flag KPAGE_FLAGS_FREE_BUDDY (kpages s ! i))
         else kpages s ! i))"
  using assms by (simp add: slot_merge_def op_simps Let_def relock nth_list_update)

lemma slot_insert_code:
  assumes "klock (kpages s ! p) = 0" "p < length (kpages s)"
  shows "\<exists>s'. slot_insert k p s = Some s' \<and>
     links s' = list_insert_tail (Head k) (Page p) (links s) \<and>
     free_pages_count s' = (free_pages_count s)(k := free_pages_count s k + 1) \<and>
     alloc_order_lock s' = alloc_order_lock s \<and> kpage_last s' = kpage_last s \<and> console s' = console s \<and>
     length (kpages s') = length (kpages s) \<and>
     (\<forall>i < length (kpages s). kpages s' ! i =
        (if i = p then clear_flag KPAGE_FLAGS_FREE_SUB (set_flag KPAGE_FLAGS_FREE_BUDDY
                         ((kpages s ! i)\<lparr>korder := of_nat k\<rparr>))
         else kpages s ! i))"
  using assms by (simp add: slot_insert_def op_simps Let_def relock nth_list_update)



lemma block_ok_base:
  assumes "block_ok n k p L"
  shows "p < n" "p \<notin> set (L j)"
proof -
  have "(1::nat) \<le> 2 ^ k" by simp
  then show "p < n" using block_okD(3) [OF assms] by linarith
  show "p \<notin> set (L j)" using block_okD(4) [OF assms] block_mem [of p k] free_set_base [of p L j] by blast
qed

lemma slot_merge_ok:
  assumes inv: "mm_core d s L" and ok: "block_ok (Suc (kpage_last s)) k p L" and q: "q \<in> set (L k)"
    and fg: "{f, g} = {p, q}" "f \<noteq> g"
  shows "\<exists>s'. slot_merge k f g q s = Some s' \<and> mm_core d s' (L(k := remove1 q (L k))) \<and> framed {p, q} s s'"
proof -
  note wf = mm_coreD(2) [OF inv]
  have p: "p < length (kpages s)" "p \<notin> set (L j)" for j
    using block_ok_base [OF ok] mm_coreD(3) [OF inv] by auto
  have ql: "q < length (kpages s)"
    using free_set_bound [OF wf free_set_base [of q L k, OF q]] mm_coreD(3) [OF inv] by simp
  have q': "q \<in> set (L j) \<longleftrightarrow> j = k" for j using wf_lists_unique [OF wf q] q by blast
  have mem: "i \<in> set ((L(k := remove1 q (L k))) j) \<longleftrightarrow> i \<in> set (L j) \<and> i \<noteq> q" for i j
    using wf_lists_distinct [OF wf, of k] q' by auto
  have lens: "f < length (kpages s)" "g < length (kpages s)" using fg(1) p ql by (auto simp: doubleton_eq_iff)
  obtain s' where s': "slot_merge k f g q s = Some s'"
     "links s' = list_remove_entry (Page q) (links s)"
     "free_pages_count s' = (free_pages_count s)(k := free_pages_count s k - 1)"
     "alloc_order_lock s' = alloc_order_lock s" "kpage_last s' = kpage_last s" "console s' = console s"
     "length (kpages s') = length (kpages s)"
     and ks: "\<And>i. i < length (kpages s) \<Longrightarrow> kpages s' ! i =
        (if i = f then clear_flag KPAGE_FLAGS_FREE_BUDDY (kpages s ! i)
         else if i = g then set_flag KPAGE_FLAGS_FREE_SUB (clear_flag KPAGE_FLAGS_FREE_BUDDY (kpages s ! i))
         else kpages s ! i)"
    using slot_merge_code [OF mm_coreD(4) [OF inv lens(1)] mm_coreD(4) [OF inv lens(2)] fg(2) lens, of k q] by metis
  have fgi: "i = f \<or> i = g \<longleftrightarrow> i = p \<or> i = q" for i using fg(1) by auto
  have "mm_core d s' (L(k := remove1 q (L k)))"
  proof (rule mm_coreI)
    show "list_rep (links s') (L(k := remove1 q (L k)))"
      using free_q.rep_remove [OF mm_coreD(1) [OF inv] q] by (simp add: s')
    show "wf_lists (Suc (kpage_last s')) (L(k := remove1 q (L k)))"
      using wf_lists_remove [OF wf] by (simp add: s')
    show "free_pages_count s' j = of_nat (length ((L(k := remove1 q (L k))) j)) + d j" for j
      using mm_coreD(5) [OF inv] length_remove1_in [OF q] by (simp add: s')
    show "klock (kpages s' ! i) = 0" if "i < length (kpages s')" for i
      using that ks [of i] mm_coreD(4) [OF inv, of i] s' by auto
    show "kflags (kpages s' ! i) AND KPAGE_FLAGS_FREE_BUDDY \<noteq> 0 \<longleftrightarrow> (\<exists>j. i \<in> set ((L(k := remove1 q (L k))) j))"
      if "i < length (kpages s')" for i
      unfolding mem using that ks [of i] mm_coreD(6) [OF inv, of i] s' fgi [of i] p(2)
      by (auto simp: flag_simps)
    show "unat (korder (kpages s' ! i)) = j" if "i \<in> set ((L(k := remove1 q (L k))) j)" for i j
    proof -
      have i: "i \<in> set (L j)" "i \<noteq> q" "i \<noteq> p" using that p(2) unfolding mem by auto
      then have "i < length (kpages s)"
        using free_set_bound [OF wf free_set_base [of i L j, OF i(1)]] mm_coreD(3) [OF inv] by simp
      then show ?thesis using ks [of i] fgi [of i] i mm_coreD(7) [OF inv i(1)] by auto
    qed
  qed (use s' mm_coreD(3) [OF inv] in simp_all)
  moreover have "framed {p, q} s s'"
    using s' ks fgi by (auto simp: framed_def other_bits_def flag_simps intro!: nth_equalityI)
  ultimately show ?thesis using s'(1) by blast
qed

lemma slot_insert_ok:
  assumes inv: "mm_core d s L" and ok: "block_ok (Suc (kpage_last s)) k p L"
  shows "\<exists>s'. slot_insert k p s = Some s' \<and> mm_core d s' (L(k := L k @ [p])) \<and> framed {p} s s'"
proof -
  note wf = mm_coreD(2) [OF inv]
  have p: "p < length (kpages s)" "p \<notin> set (L j)" for j
    using block_ok_base [OF ok] mm_coreD(3) [OF inv] by auto
  have k: "k \<le> MAX_ALLOC_ORDER" using block_okD(1) [OF ok] .
  have mem: "i \<in> set ((L(k := L k @ [p])) j) \<longleftrightarrow> i \<in> set (L j) \<or> i = p \<and> j = k" for i j by auto
  obtain s' where s': "slot_insert k p s = Some s'"
     "links s' = list_insert_tail (Head k) (Page p) (links s)"
     "free_pages_count s' = (free_pages_count s)(k := free_pages_count s k + 1)"
     "alloc_order_lock s' = alloc_order_lock s" "kpage_last s' = kpage_last s" "console s' = console s"
     "length (kpages s') = length (kpages s)"
     and ks: "\<And>i. i < length (kpages s) \<Longrightarrow> kpages s' ! i =
        (if i = p then clear_flag KPAGE_FLAGS_FREE_SUB (set_flag KPAGE_FLAGS_FREE_BUDDY
                         ((kpages s ! i)\<lparr>korder := of_nat k\<rparr>))
         else kpages s ! i)"
    using slot_insert_code [OF mm_coreD(4) [OF inv p(1)] p(1), of k] by metis
  have "mm_core d s' (L(k := L k @ [p]))"
  proof (rule mm_coreI)
    show "list_rep (links s') (L(k := L k @ [p]))"
      using free_q.rep_insert [OF mm_coreD(1) [OF inv]] k p(2) by (simp add: s')
    show "wf_lists (Suc (kpage_last s')) (L(k := L k @ [p]))"
      using wf_lists_append [OF wf block_okD [OF ok]] by (simp add: s')
    show "free_pages_count s' j = of_nat (length ((L(k := L k @ [p])) j)) + d j" for j
      using mm_coreD(5) [OF inv] by (simp add: s')
    show "klock (kpages s' ! i) = 0" if "i < length (kpages s')" for i
      using that ks [of i] mm_coreD(4) [OF inv, of i] s' by auto
    show "kflags (kpages s' ! i) AND KPAGE_FLAGS_FREE_BUDDY \<noteq> 0 \<longleftrightarrow> (\<exists>j. i \<in> set ((L(k := L k @ [p])) j))"
      if "i < length (kpages s')" for i
      unfolding mem using that ks [of i] mm_coreD(6) [OF inv, of i] s' by (auto simp: flag_simps)
    show "unat (korder (kpages s' ! i)) = j" if "i \<in> set ((L(k := L k @ [p])) j)" for i j
    proof (cases "i = p")
      case True
      then have "j = k" using that p(2) unfolding mem by auto
      then show ?thesis using ks [of p] p(1) True k by (simp add: MAX_ALLOC_ORDER_def unat_of_nat)
    next
      case False
      then have i: "i \<in> set (L j)" using that unfolding mem by auto
      then have "i < length (kpages s)"
        using free_set_bound [OF wf free_set_base [of i L j, OF i]] mm_coreD(3) [OF inv] by simp
      then show ?thesis using ks [of i] False i mm_coreD(7) [OF inv i(1)] by auto
    qed
  qed (use s' mm_coreD(3) [OF inv] in simp_all)
  moreover have "framed {p} s s'"
    using s' ks by (auto simp: framed_def other_bits_def flag_simps intro!: nth_equalityI)
  ultimately show ?thesis using s'(1) by blast
qed


text \<open>One turn of the loop does the matching branch.\<close>

lemma relock_order: "alloc_order_lock s k = 0 \<Longrightarrow> alloc_order_lock t = (alloc_order_lock s)(k := 1) \<Longrightarrow>
  (alloc_order_lock t)(k := 0) = alloc_order_lock s"
  by (auto simp: fun_eq_iff)

lemma slot_step_merge:
  assumes inv: "mm_inv d s L" and ok: "block_ok (Suc (kpage_last s)) k p L"
    and k: "k < MAX_ALLOC_ORDER" and q: "buddy k p \<in> set (L k)"
    and e: "e \<le> kpage_last s" "buddy k p \<le> e"
  shows "\<exists>s'. slot_step k p e s = Some (False, min p (buddy k p), s') \<and>
     mm_inv d s' (L(k := remove1 (buddy k p) (L k))) \<and> framed {p, buddy k p} s s'"
proof -
  let ?q = "buddy k p" and ?s = "s\<lparr>alloc_order_lock := (alloc_order_lock s)(k := 1)\<rparr>"
  note core = mm_invD(1) [OF inv] and unlocked = mm_invD(2) [OF inv]
  have ql: "?q < length (kpages s)" using e mm_coreD(3) [OF core] by simp
  have o: "unat (korder (kpages s ! ?q)) = k" by (rule mm_coreD(7) [OF core q])
  have fb: "kflags (kpages s ! ?q) AND KPAGE_FLAGS_FREE_BUDDY \<noteq> 0" using mm_coreD(6) [OF core ql] q by blast
  define f g where "f = min p ?q" and "g = max p ?q"
  have fg: "{f, g} = {p, ?q}" "f \<noteq> g" using buddy_neq [of k p] by (auto simp: f_def g_def min_def max_def)
  obtain s' where s': "slot_merge k f g ?q ?s = Some s'"
    "mm_core d s' (L(k := remove1 ?q (L k)))" "framed {p, ?q} ?s s'"
    using slot_merge_ok [of d ?s L k p ?q f g] core ok q fg by auto
  have "slot_step k p e s = Some (False, f, unlock_order k s')"
    using k e ql o fb s'(1) unlocked buddy_neq [of k p] unfolding f_def g_def
    by (cases "p < ?q") (auto simp: slot_step_def lock_order_in Let_def min_def max_def)
  moreover have "mm_inv d (unlock_order k s') (L(k := remove1 ?q (L k)))" "framed {p, ?q} s (unlock_order k s')"
    using s' unlocked relock_order [OF unlocked]
    by (auto simp: mm_inv_def unlock_order_def spinlock_unlock_def framed_def)
  ultimately show ?thesis unfolding f_def by blast
qed

lemma slot_step_insert:
  assumes inv: "mm_inv d s L" and ok: "block_ok (Suc (kpage_last s)) k p L"
    and no: "\<not> (k < MAX_ALLOC_ORDER \<and> buddy k p \<in> set (L k))"
    and e: "e \<le> kpage_last s" 
  shows "\<exists>f s'. slot_step k p e s = Some (True, f, s') \<and> mm_inv d s' (L(k := L k @ [p])) \<and> framed {p} s s'"
proof -
  let ?q = "buddy k p" and ?s = "s\<lparr>alloc_order_lock := (alloc_order_lock s)(k := 1)\<rparr>"
  note core = mm_invD(1) [OF inv] and unlocked = mm_invD(2) [OF inv]
  obtain s' where s': "slot_insert k p ?s = Some s'" "mm_core d s' (L(k := L k @ [p]))" "framed {p} ?s s'"
    using slot_insert_ok [of d ?s L k p] core ok by auto
  have nm: "\<not> (unat (korder (kpages s ! ?q)) = k \<and> kflags (kpages s ! ?q) AND KPAGE_FLAGS_FREE_BUDDY \<noteq> 0)"
    if "k < MAX_ALLOC_ORDER" "?q \<le> e"
    using that no e mm_coreD(3) [OF core] mm_coreD(6,7) [OF core, of ?q] by fastforce
  have ql: "?q \<le> e \<Longrightarrow> ?q < length (kpages s)" using e mm_coreD(3) [OF core] by simp
  have "\<exists>f. slot_step k p e s = Some (True, f, unlock_order k s')"
    using nm ql s'(1) unlocked block_okD(1) [OF ok]
    by (cases "k < MAX_ALLOC_ORDER \<and> ?q \<le> e")
      (auto simp add: slot_step_def lock_order_in Let_def)
  moreover have "mm_inv d (unlock_order k s') (L(k := L k @ [p]))" "framed {p} s (unlock_order k s')"
    using s' unlocked relock_order [OF unlocked]
    by (auto simp: mm_inv_def unlock_order_def spinlock_unlock_def framed_def)
  ultimately show ?thesis by blast
qed


section \<open>page_add_to_slot refines coalesce\<close>

lemma slot_loop_ok:
  "mm_inv d s L \<Longrightarrow> block_ok (Suc (kpage_last s)) k p L \<Longrightarrow> e \<le> kpage_last s \<Longrightarrow>
   \<forall>f \<in> free_set L. f \<le> e \<Longrightarrow>
   \<exists>s'. slot_loop k p e s = Some s' \<and> mm_inv d s' (coalesce k p L) \<and> framed (free_set L \<union> block k p) s s'"
proof (induction k p L arbitrary: s rule: coalesce.induct)
  case (1 k p L)
  let ?q = "buddy k p" and ?L = "L(k := remove1 (buddy k p) (L k))"
  note wf = mm_coreD(2) [OF mm_invD(1) [OF 1(2)]]
  have k: "k \<le> MAX_ALLOC_ORDER" using block_okD(1) [OF 1(3)] .
  show ?case
  proof (cases "k < MAX_ALLOC_ORDER \<and> ?q \<in> set (L k)")
    case True
    then have q: "k < MAX_ALLOC_ORDER" "?q \<in> set (L k)" by simp_all
    have "?q \<in> free_set L" by (rule free_set_base [of _ L k, OF q(2)])
    then have "?q \<le> e" using 1(5) by blast
    obtain s1 where s1: "slot_step k p e s = Some (False, min p ?q, s1)" "mm_inv d s1 ?L" "framed {p, ?q} s s1"
      using slot_step_merge [OF 1(2,3) q 1(4) \<open>?q \<le> e\<close>] by blast
    note last = framedD(2) [OF s1(3)]
    note join = block_ok_join [OF wf 1(3) q]
    have fr: "free_set ?L \<subseteq> free_set L" "block k ?q \<subseteq> free_set L"
      using free_set_remove [OF wf q(2)] q(2) by (auto intro: free_setI)
    have pre: "block_ok (Suc (kpage_last s1)) (Suc k) (min p ?q) ?L" "e \<le> kpage_last s1"
      "\<forall>f \<in> free_set ?L. f \<le> e"
      using join(1) 1(4,5) fr(1) last by auto
    obtain s2 where s2: "slot_loop (Suc k) (min p ?q) e s1 = Some s2"
      "mm_inv d s2 (coalesce (Suc k) (min p ?q) ?L)" "framed (free_set ?L \<union> block (Suc k) (min p ?q)) s1 s2"
      using 1(1) [OF True s1(2) pre] by blast
    have "slot_loop k p e s = Some s2" using s1(1) s2(1) k by (subst slot_loop.simps) simp
    moreover have "coalesce k p L = coalesce (Suc k) (min p ?q) ?L" using True by (subst coalesce.simps) simp
    moreover have "framed (free_set L \<union> block k p) s s2"
      by (rule framed_mono [OF framed_trans [OF s1(3) s2(3)]])
        (use fr join(2) block_mem [of p k] block_mem [of ?q k] in blast)
    ultimately show ?thesis using s2(2) by (metis (no_types, lifting))
  next
    case False
    then obtain f s1 where s1: "slot_step k p e s = Some (True, f, s1)" "mm_inv d s1 (L(k := L k @ [p]))" "framed {p} s s1"
      using slot_step_insert [OF 1(2,3)] 1(4) by blast
    have "slot_loop k p e s = Some s1" using s1(1) k by (subst slot_loop.simps) simp
    moreover have "coalesce k p L = L(k := L k @ [p])" using False by (subst coalesce.simps) (rule if_not_P)
    moreover have "framed (free_set L \<union> block k p) s s1" by (rule framed_mono [OF s1(3)]) auto
    ultimately show ?thesis using s1(2) by (metis (no_types, lifting))
  qed
qed

lemma page_add_to_slot_ok:
  assumes inv: "mm_inv d s L" and ok: "block_ok (Suc (kpage_last s)) k p L"
    and o: "unat (korder (kpages s ! p)) = k"
    and e: "\<And>e. end_kpage = Some e \<Longrightarrow> e \<le> kpage_last s \<and> (\<forall>f \<in> free_set L. f \<le> e)"
  shows "\<exists>s'. page_add_to_slot p end_kpage s = Some s' \<and> mm_inv d s' (coalesce k p L) \<and>
     framed (free_set L \<union> block k p) s s'"
proof -
  note core = mm_invD(1) [OF inv]
  have "p < length (kpages s)" using block_ok_base [OF ok] mm_coreD(3) [OF core] by simp
  moreover define e' where "e' = (case end_kpage of None \<Rightarrow> kpage_last s | Some e \<Rightarrow> e)"
  moreover have "e' \<le> kpage_last s" "\<forall>f \<in> free_set L. f \<le> e'"
    using e free_set_bound [OF mm_coreD(2) [OF core]] by (auto simp: e'_def less_Suc_eq_le split: option.splits)
  ultimately show ?thesis
    using slot_loop_ok [OF inv ok, of e'] o by (simp add: page_add_to_slot_def)
qed


section \<open>page_alloc refines carve\<close>

text \<open>Writes to the descriptor of a frame on no list, other than to its lock and list bit.\<close>

lemma mm_core_upd:
  assumes inv: "mm_core d s L" and p: "\<And>k. p \<notin> set (L k)"
    and f: "klock (f (kpages s ! p)) = klock (kpages s ! p)"
      "kflags (f (kpages s ! p)) AND KPAGE_FLAGS_FREE_BUDDY = kflags (kpages s ! p) AND KPAGE_FLAGS_FREE_BUDDY"
  shows "mm_core d (s\<lparr>kpages := (kpages s)[p := f (kpages s ! p)]\<rparr>) L" (is "mm_core d ?t L")
proof -
  show ?thesis
  proof (rule mm_coreI)
    show "klock (kpages ?t ! i) = 0" if "i < length (kpages ?t)" for i
      using that mm_coreD(4) [OF inv, of i] f(1) by (cases "i = p") auto
    show "kflags (kpages ?t ! i) AND KPAGE_FLAGS_FREE_BUDDY \<noteq> 0 \<longleftrightarrow> (\<exists>k. i \<in> set (L k))"
      if "i < length (kpages ?t)" for i
      using that mm_coreD(6) [OF inv, of i] f(2) by (cases "i = p") auto
    show "unat (korder (kpages ?t ! i)) = k" if "i \<in> set (L k)" for i k
    proof -
      have "i \<noteq> p" using that p by blast
      then show ?thesis using mm_coreD(7) [OF inv that] by simp
    qed
  qed (use mm_coreD(1,2,3,5) [OF inv] in simp_all)
qed

lemma split_loop_ok:
  "mm_inv d s L \<Longrightarrow> block_ok (Suc (kpage_last s)) j p L \<Longrightarrow> k \<le> j \<Longrightarrow>
   \<exists>s'. split_loop j k p s = Some s' \<and> mm_inv d s' (carve j k p L) \<and>
        framed (free_set L \<union> (block j p - block k p)) s s'"
proof (induction j arbitrary: s L)
  case (Suc j)
  show ?case
  proof (cases "k \<le> j")
    case True
    let ?b = "buddy j p" and ?L = "coalesce j (buddy j p) L"
    note core = mm_invD(1) [OF Suc.prems(1)]
    note h = block_ok_halves [OF Suc.prems(2)]
    note b = block_ok_base [OF h(2)]
    have bl: "?b < length (kpages s)" using b(1) mm_coreD(3) [OF core] by simp
    define g where "g = (\<lambda>x. clear_flag KPAGE_FLAGS_FREE_SUB (x\<lparr>korder := of_nat j\<rparr>))"
    define s1 where "s1 = s\<lparr>kpages := (kpages s)[?b := g (kpages s ! ?b)]\<rparr>"
    have "mm_core d s1 L"
      unfolding s1_def by (rule mm_core_upd [OF core b(2)]) (simp_all add: g_def flag_simps)
    then have s1: "mm_inv d s1 L" using Suc.prems(1) by (simp add: mm_inv_def s1_def)
    have f1: "framed {?b} s s1"
      using bl by (auto simp: framed_def s1_def g_def other_bits_def flag_simps nth_list_update intro!: nth_equalityI)
    have "j \<le> MAX_ALLOC_ORDER" using block_okD(1) [OF h(1)] .
    then have "unat (korder (kpages s1 ! ?b)) = j"
      using bl by (simp add: s1_def g_def MAX_ALLOC_ORDER_def unat_of_nat)
    then obtain s2 where s2: "page_add_to_slot ?b None s1 = Some s2" "mm_inv d s2 ?L" "framed (free_set L \<union> block j ?b) s1 s2"
      using page_add_to_slot_ok [OF s1, of j ?b None] h(2) by (auto simp: s1_def)
    have last: "kpage_last s2 = kpage_last s" using framedD(2) [OF f1] framedD(2) [OF s2(3)] by simp
    note c = coalesce_ok [OF mm_coreD(2) [OF core] h(2)]
    have ok: "block_ok (Suc (kpage_last s2)) j p ?L" using h c last by (auto simp: block_ok_def)
    obtain s3 where s3: "split_loop j k p s2 = Some s3" "mm_inv d s3 (carve j k p ?L)"
      "framed (free_set ?L \<union> (block j p - block k p)) s2 s3"
      using Suc.IH [OF s2(2) ok True] by blast
    have "split_loop (Suc j) k p s = Some s3"
      using s2(1) s3(1) True bl by (simp add: Let_def kpage_upd_in s1_def g_def less_Suc_eq_le)
    moreover have "framed (free_set L \<union> (block (Suc j) p - block k p)) s s3"
    proof (rule framed_mono [OF framed_trans [OF f1 framed_trans [OF s2(3) s3(3)]]])
      have "block k p \<subseteq> block j p" using True by (auto simp: block_def intro: order.strict_trans2)
      then show "{?b} \<union> (free_set L \<union> block j ?b \<union> (free_set ?L \<union> (block j p - block k p)))
        \<subseteq> free_set L \<union> (block (Suc j) p - block k p)"
        using c h(4,5) block_mem [of ?b j] by blast
    qed
    ultimately show ?thesis using s3(2) True by auto
  next
    case False
    then have "k = Suc j" using Suc.prems(3) by simp
    then show ?thesis using Suc.prems(1) by auto
  qed
qed auto


definition alloc_desc :: "nat \<Rightarrow> kpage \<Rightarrow> kpage" where
  "alloc_desc order k =
     (set_flag KPAGE_FLAGS_ALLOCATED (clear_flag KPAGE_FLAGS_FREE_BUDDY k))
       \<lparr>korder := of_nat order, krefcount := krefcount k + 1\<rparr>"

lemma alloc_desc_simps [simp]:
  "klock (alloc_desc o' k) = klock k" "korder (alloc_desc o' k) = of_nat o'"
  "krefcount (alloc_desc o' k) = krefcount k + 1" "kvirt_addr (alloc_desc o' k) = kvirt_addr k"
  "kflags (alloc_desc o' k) = (kflags k AND NOT KPAGE_FLAGS_FREE_BUDDY) OR KPAGE_FLAGS_ALLOCATED"
  by (simp_all add: alloc_desc_def)

lemma relock_alloc:
  "klock k = 0 \<Longrightarrow> k\<lparr>kflags := f, korder := o', krefcount := r, klock := 0\<rparr> =
     k\<lparr>kflags := f, korder := o', krefcount := r\<rparr>"
  by (cases k) simp

lemma take_page_code:
  assumes "klock (kpages s ! p) = 0" "p < length (kpages s)"
  shows "take_page order j (Page p) s = Some (p,
     s\<lparr>kpages := (kpages s)[p := alloc_desc order (kpages s ! p)],
       links := list_remove_entry (Page p) (links s),
       alloc_order_lock := (alloc_order_lock s)(j := 0)\<rparr>)"
  using assms
  by (simp add: take_page_def op_simps Let_def alloc_desc_def set_flag_def clear_flag_def relock_alloc)

lemma take_page_ok:
  assumes inv: "mm_inv d s L" and ne: "L j \<noteq> []"
    and p: "p = last (L j)"
  shows "\<exists>s'. take_page order j (Page p) (s\<lparr>alloc_order_lock := (alloc_order_lock s)(j := 1)\<rparr>) = Some (p, s') \<and>
     mm_inv (d(j := d j + 1)) s' (L(j := butlast (L j))) \<and>
     kpage_last s' = kpage_last s \<and> console s' = console s \<and>
     kpages s' = (kpages s)[p := alloc_desc order (kpages s ! p)]"
proof -
  note core = mm_invD(1) [OF inv]
  note wf = mm_coreD(2) [OF core]
  have pm: "p \<in> set (L j)" using ne p by simp
  have bl: "butlast (L j) = remove1 p (L j)" using remove1_last [OF wf_lists_distinct [OF wf] ne] p by simp
  have pl: "p < length (kpages s)"
    using free_set_bound [OF wf free_set_base [of p L j, OF pm]] mm_coreD(3) [OF core] by simp
  let ?L = "L(j := remove1 p (L j))"
  define s' where "s' = s\<lparr>kpages := (kpages s)[p := alloc_desc order (kpages s ! p)],
       links := list_remove_entry (Page p) (links s)\<rparr>"
  have mem: "i \<in> set (?L k) \<longleftrightarrow> i \<in> set (L k) \<and> i \<noteq> p" for i k
    using wf_lists_distinct [OF wf, of j] wf_lists_unique [OF wf pm, of k] by (cases "k = j") auto
  have "mm_core (d(j := d j + 1)) s' ?L"
  proof (rule mm_coreI)
    show "list_rep (links s') ?L"
      using free_q.rep_remove [OF mm_coreD(1) [OF core] pm] by (simp add: s'_def)
    show "wf_lists (Suc (kpage_last s')) ?L" using wf_lists_remove [OF wf] by (simp add: s'_def)
    show "free_pages_count s' k = of_nat (length (?L k)) + (d(j := d j + 1)) k" for k
      using mm_coreD(5) [OF core] length_remove1_in [OF pm] by (simp add: s'_def)
    show "klock (kpages s' ! i) = 0" if "i < length (kpages s')" for i
      using that mm_coreD(4) [OF core, of i] by (cases "i = p") (auto simp: s'_def)
    show "kflags (kpages s' ! i) AND KPAGE_FLAGS_FREE_BUDDY \<noteq> 0 \<longleftrightarrow> (\<exists>k. i \<in> set (?L k))"
      if "i < length (kpages s')" for i
      unfolding mem using that mm_coreD(6) [OF core, of i] by (cases "i = p") (auto simp: s'_def flag_simps)
    show "unat (korder (kpages s' ! i)) = k" if "i \<in> set (?L k)" for i k
      using that mm_coreD(7) [OF core, of i k] unfolding mem by (simp add: s'_def)
  qed (use mm_coreD(3) [OF core] in \<open>simp_all add: s'_def\<close>)
  then have "mm_inv (d(j := d j + 1)) s' ?L" using inv by (simp add: mm_inv_def s'_def)
  moreover have "(alloc_order_lock s)(j := 0) = alloc_order_lock s" using mm_invD(2) [OF inv] by auto
  then have "take_page order j (Page p) (s\<lparr>alloc_order_lock := (alloc_order_lock s)(j := 1)\<rparr>) = Some (p, s')"
    using take_page_code [of "s\<lparr>alloc_order_lock := (alloc_order_lock s)(j := 1)\<rparr>" p order j]
      mm_coreD(4) [OF core pl] pl by (simp add: s'_def)
  ultimately show ?thesis unfolding bl by (simp add: s'_def)
qed

text \<open>The free block the search finds: the last block of the first non-empty list.\<close>

lemma alloc_loop_none:
  "mm_inv d s L \<Longrightarrow> \<forall>j \<ge> a. L j = [] \<Longrightarrow>
   alloc_loop k a s = Some (None, s\<lparr>console := console s @ [''alloc failed\<newline>'']\<rparr>)"
proof (induction "Suc MAX_ALLOC_ORDER - a" arbitrary: a)
  case 0
  then show ?case by (subst alloc_loop.simps) simp
next
  case (Suc n)
  have a: "a \<le> MAX_ALLOC_ORDER" using Suc.hyps(2) by simp
  have "list_prev_entry (Head a) (links s) = None"
    using list_rep_prev_entry [OF mm_coreD(1) [OF mm_invD(1) [OF Suc.prems(1)]] a] Suc.prems(2) by simp
  moreover have "(alloc_order_lock s)(a := 0) = alloc_order_lock s" using mm_invD(2) [OF Suc.prems(1)] by auto
  ultimately show ?case
    using Suc.hyps(1) [of "Suc a"] Suc.hyps(2) Suc.prems a mm_invD(2) [OF Suc.prems(1), of a]
    by (subst alloc_loop.simps) (simp add: op_simps)
qed

lemma alloc_loop_skip:
  assumes inv: "mm_inv d s L" and aj: "a \<le> j" "j \<le> MAX_ALLOC_ORDER" and e: "\<And>i. a \<le> i \<Longrightarrow> i < j \<Longrightarrow> L i = []"
  shows "alloc_loop k a s = alloc_loop k j s"
  using aj e
proof (induction "j - a" arbitrary: a)
  case (Suc n)
  have a: "a \<le> MAX_ALLOC_ORDER" "a < j" using Suc by simp_all
  then have "list_prev_entry (Head a) (links s) = None"
    using list_rep_prev_entry [OF mm_coreD(1) [OF mm_invD(1) [OF inv]] a(1)] Suc.prems(3) by simp
  moreover have "(alloc_order_lock s)(a := 0) = alloc_order_lock s" using mm_invD(2) [OF inv] by auto
  ultimately have "alloc_loop k a s = alloc_loop k (Suc a) s"
    using a mm_invD(2) [OF inv, of a] by (subst alloc_loop.simps) (simp add: op_simps)
  then show ?case using Suc.hyps(1) [of "Suc a"] Suc.hyps(2) Suc.prems a by simp
qed simp

definition alloc_lists :: "nat \<Rightarrow> nat \<Rightarrow> free_lists \<Rightarrow> free_lists" where
  "alloc_lists k j L = carve j k (last (L j)) (L(j := butlast (L j)))"

lemma alloc_loop_found:
  assumes inv: "mm_inv d s L" and ne: "L j \<noteq> []" and j: "k \<le> j"
  shows "\<exists>s'. alloc_loop k j s = Some (Some (last (L j)), s') \<and>
     mm_inv (d(j := d j + 1)) s' (alloc_lists k j L) \<and>
     kpage_last s' = kpage_last s \<and> console s' = console s \<and> length (kpages s') = length (kpages s) \<and>
     kpages s' ! last (L j) = alloc_desc k (kpages s ! last (L j)) \<and>
     (\<forall>i < length (kpages s). i \<noteq> last (L j) \<longrightarrow> other_bits (kpages s' ! i) = other_bits (kpages s ! i) \<and>
        (i \<notin> free_set L \<longrightarrow> kpages s' ! i = kpages s ! i))"
proof -
  let ?p = "last (L j)" and ?L = "L(j := butlast (L j))"
  note core = mm_invD(1) [OF inv]
  note wf = mm_coreD(2) [OF core]
  have pm: "?p \<in> set (L j)" using ne by simp
  note pw = wf_listsD [OF wf pm]
  have bl: "butlast (L j) = remove1 ?p (L j)" using remove1_last [OF wf_lists_distinct [OF wf] ne] by simp
  have fs: "free_set ?L = free_set L - block j ?p" unfolding bl by (rule free_set_remove [OF wf pm])
  have pl: "?p < length (kpages s)"
    using free_set_bound [OF wf free_set_base [of ?p L j, OF pm]] mm_coreD(3) [OF core] by simp
  have le: "list_prev_entry (Head j) (links s) = Some (Page ?p)"
    using list_rep_prev_entry [OF mm_coreD(1) [OF core] pw(1)] ne by simp
  obtain s1 where s1: "take_page k j (Page ?p) (s\<lparr>alloc_order_lock := (alloc_order_lock s)(j := 1)\<rparr>) = Some (?p, s1)"
    "mm_inv (d(j := d j + 1)) s1 ?L" "kpage_last s1 = kpage_last s" "console s1 = console s"
    "kpages s1 = (kpages s)[?p := alloc_desc k (kpages s ! ?p)]"
    using take_page_ok [OF inv ne refl] by blast
  have ok: "block_ok (Suc (kpage_last s1)) j ?p ?L" using pw s1(3) fs by (auto simp: block_ok_def)
  obtain s2 where s2: "split_loop j k ?p s1 = Some s2" "mm_inv (d(j := d j + 1)) s2 (carve j k ?p ?L)"
    "framed (free_set ?L \<union> (block j ?p - block k ?p)) s1 s2"
    using split_loop_ok [OF s1(2) ok j] by blast
  have "alloc_loop k j s = Some (Some ?p, s2)"
    using pw(1) mm_invD(2) [OF inv, of j] le s1(1) s2(1) by (subst alloc_loop.simps) (simp add: op_simps)
  moreover have "kpages s2 ! ?p = alloc_desc k (kpages s ! ?p)"
    using framedD(5) [OF s2(3), of ?p] s1(5) pl fs by simp
  moreover have "other_bits (kpages s2 ! i) = other_bits (kpages s ! i) \<and>
        (i \<notin> free_set L \<longrightarrow> kpages s2 ! i = kpages s ! i)" if "i < length (kpages s)" "i \<noteq> ?p" for i
    using framedD(5,6) [OF s2(3), of i] s1(5) that fs free_setI [of ?p L j i, OF pm] by auto
  ultimately show ?thesis
    using s2(2) framedD(1-3) [OF s2(3)] s1 unfolding alloc_lists_def by auto
qed

text \<open>What the abstract step does to the set of free frames.\<close>

lemma alloc_lists_ok:
  assumes wf: "wf_lists n L" and ne: "L j \<noteq> []" and k: "k \<le> j"
  shows "wf_lists n (alloc_lists k j L)"
    "free_set (alloc_lists k j L) = free_set L - block k (last (L j))"
    "block k (last (L j)) \<subseteq> free_set L" "aligned k (last (L j))"
    "coalesced L \<Longrightarrow> coalesced (alloc_lists k j L)"
proof -
  let ?p = "last (L j)" and ?L = "L(j := butlast (L j))"
  have pm: "?p \<in> set (L j)" using ne by simp
  note pw = wf_listsD [OF wf pm]
  have bl: "butlast (L j) = remove1 ?p (L j)" using remove1_last [OF wf_lists_distinct [OF wf] ne] by simp
  have fs: "free_set ?L = free_set L - block j ?p" unfolding bl by (rule free_set_remove [OF wf pm])
  have wf': "wf_lists n ?L" unfolding bl by (rule wf_lists_remove [OF wf])
  have ok: "block_ok n j ?p ?L" using pw fs by (auto simp: block_ok_def)
  note c = carve_ok [OF wf' ok k]
  have in_free: "block j ?p \<subseteq> free_set L" using pm by (auto intro: free_setI)
  have sub: "block k ?p \<subseteq> block j ?p" using k by (auto simp: block_def intro: order.strict_trans2)
  show "wf_lists n (alloc_lists k j L)" using c by (simp add: alloc_lists_def)
  show "free_set (alloc_lists k j L) = free_set L - block k ?p"
    using c fs in_free sub by (auto simp: alloc_lists_def)
  show "block k ?p \<subseteq> free_set L" using in_free sub by blast
  show "aligned k ?p" using pw(2) k by (rule aligned_mono)
  show "coalesced L \<Longrightarrow> coalesced (alloc_lists k j L)"
    using c coalesced_remove [of L j ?p] unfolding alloc_lists_def bl by blast
qed

end
