(* ===== verification/Buddy_Props.thy ===== *)
theory Buddy_Props
  imports Buddy_Refine
begin

text \<open>
  What the page allocator promises its callers: \<^verbatim>\<open>page_add_to_slot\<close> and \<^verbatim>\<open>page_alloc\<close>
  on the set of free frames, the search for a block, the round trip, the counters, and the
  runs of a client that allocates and gives back in any order.
\<close>

section \<open>Starting state\<close>

text \<open>\<open>boot_mm n k\<close> is memory of \<open>n\<close> frames with order \<open>k\<close> in their descriptors, none given to the
  allocator yet.\<close>

definition boot_mm :: "nat \<Rightarrow> u8 \<Rightarrow> mm" where
  "boot_mm n k = \<lparr>kpages = replicate n \<lparr>korder = k, kflags = 0, krefcount = 0, kvirt_addr = 0, klock = 0\<rparr>,
     kpage_last = n - 1, links = \<lparr>lprev = id, lnext = id\<rparr>,
     free_pages_count = (\<lambda>_. 0), alloc_order_lock = (\<lambda>_. 0), console = []\<rparr>"

lemma boot_mm_inv: "0 < n \<Longrightarrow> mm_inv (\<lambda>_. 0) (boot_mm n k) (\<lambda>_. [])"
  by (simp add: mm_inv_def mm_core_def boot_mm_def list_rep_def wf_lists_def is_list_def)

lemma free_set_Nil [simp]: "free_set (\<lambda>_. []) = {}"
  by (simp add: free_set_def)

lemma coalesced_Nil [simp]: "coalesced (\<lambda>_. [])"
  by (simp add: coalesced_def)

section \<open>The search of page_alloc\<close>

text \<open>
  \<open>fits k L\<close>: some aligned run of \<open>2 ^ k\<close> frames is free. In coalesced lists this is the
  same as a non-empty list at an order the search visits.
\<close>

definition fits :: "nat \<Rightarrow> free_lists \<Rightarrow> bool" where
  "fits k L \<longleftrightarrow> k \<le> MAX_ALLOC_ORDER \<and> (\<exists>a. aligned k a \<and> block k a \<subseteq> free_set L)"

lemma fits_iff:
  assumes wf: "wf_lists n L" and co: "coalesced L"
  shows "fits k L \<longleftrightarrow> (\<exists>j \<ge> k. L j \<noteq> [])"
proof
  assume "fits k L"
  then show "\<exists>j \<ge> k. L j \<noteq> []" using coalesced_fits [OF wf co] by (fastforce simp: fits_def)
next
  assume "\<exists>j \<ge> k. L j \<noteq> []"
  then obtain j where j: "k \<le> j" "L j \<noteq> []" by blast
  then have "k \<le> MAX_ALLOC_ORDER" using wf_listsD(1) [OF wf, of "hd (L j)" j] by simp
  then show "fits k L" using alloc_lists_ok(3,4) [OF wf j(2,1)] unfolding fits_def by blast
qed

lemma page_alloc_fits:
  assumes inv: "mm_inv d s L" and co: "coalesced L" and fit: "fits k L"
  shows "\<exists>j p s' L'. page_alloc k s = Some (Some p, s') \<and> mm_inv (d(j := d j + 1)) s' L' \<and> coalesced L' \<and>
     k \<le> MAX_ALLOC_ORDER \<and> j \<le> MAX_ALLOC_ORDER \<and>
     aligned k p \<and> block k p \<subseteq> free_set L \<and> free_set L' = free_set L - block k p \<and>
     kpage_last s' = kpage_last s \<and> length (kpages s') = length (kpages s) \<and>
     kpages s' ! p = alloc_desc k (kpages s ! p) \<and>
     (\<forall>i < length (kpages s). i \<noteq> p \<longrightarrow> other_bits (kpages s' ! i) = other_bits (kpages s ! i) \<and>
        (i \<notin> free_set L \<longrightarrow> kpages s' ! i = kpages s ! i))"
proof -
  note wf = mm_coreD(2) [OF mm_invD(1) [OF inv]]
  define j where "j = (LEAST j. k \<le> j \<and> L j \<noteq> [])"
  have ex: "\<exists>j. k \<le> j \<and> L j \<noteq> []" using fit fits_iff [OF wf co] by blast
  then have j: "k \<le> j" "L j \<noteq> []" using LeastI_ex [OF ex] unfolding j_def by blast+
  have jm: "j \<le> MAX_ALLOC_ORDER" using wf_listsD(1) [OF wf, of "hd (L j)" j] j(2) by simp
  have "L i = []" if "k \<le> i" "i < j" for i using that not_less_Least [of i] unfolding j_def by blast
  then have "page_alloc k s = alloc_loop k j s"
    unfolding page_alloc_def by (intro alloc_loop_skip [OF inv j(1) jm])
  moreover obtain s' where s': "alloc_loop k j s = Some (Some (last (L j)), s')"
    "mm_inv (d(j := d j + 1)) s' (alloc_lists k j L)" "kpage_last s' = kpage_last s"
    "length (kpages s') = length (kpages s)"
    "kpages s' ! last (L j) = alloc_desc k (kpages s ! last (L j))"
    "\<forall>i < length (kpages s). i \<noteq> last (L j) \<longrightarrow> other_bits (kpages s' ! i) = other_bits (kpages s ! i) \<and>
        (i \<notin> free_set L \<longrightarrow> kpages s' ! i = kpages s ! i)"
    using alloc_loop_found [OF inv j(2,1)] by blast
  ultimately have eq: "page_alloc k s = Some (Some (last (L j)), s')" by simp
  note al = alloc_lists_ok [OF wf j(2,1)]
  have "k \<le> MAX_ALLOC_ORDER" using j(1) jm by simp
  then show ?thesis
    by (intro exI [of _ j] exI [of _ "last (L j)"] exI [of _ s'] exI [of _ "alloc_lists k j L"] conjI)
      (use eq s' al co jm in \<open>simp_all only: simp_thms\<close>)
qed

lemma page_alloc_full:
  assumes inv: "mm_inv d s L" and co: "coalesced L" and no: "\<not> fits k L"
  shows "page_alloc k s = Some (None, s\<lparr>console := console s @ [''alloc failed\<newline>'']\<rparr>)"
proof -
  have "\<forall>j \<ge> k. L j = []" using no fits_iff [OF mm_coreD(2) [OF mm_invD(1) [OF inv]] co] by blast
  then show ?thesis unfolding page_alloc_def by (rule alloc_loop_none [OF inv])
qed

lemma mm_inv_console: "mm_inv d s L \<Longrightarrow> mm_inv d (s\<lparr>console := c\<rparr>) L"
  by (simp add: mm_inv_def mm_core_def)

section \<open>The contract\<close>

text \<open>\<open>mm_free s F\<close>: the state is well formed, fully coalesced, and its free frames are \<open>F\<close>.\<close>

definition mm_free :: "mm \<Rightarrow> nat set \<Rightarrow> bool" where
  "mm_free s F \<longleftrightarrow> (\<exists>d L. mm_inv d s L \<and> coalesced L \<and> free_set L = F)"

lemma boot_mm_free: "0 < n \<Longrightarrow> mm_free (boot_mm n k) {}"
  using boot_mm_inv [of n k] coalesced_Nil free_set_Nil unfolding mm_free_def by blast

lemma boot_mm_simps [simp]:
  "p < n \<Longrightarrow> korder (kpages (boot_mm n k) ! p) = k" "kpage_last (boot_mm n k) = n - 1"
  "length (kpages (boot_mm n k)) = n"
  by (simp_all add: boot_mm_def)

lemma add_to_slot_free:
  assumes "mm_free s F" and "k = unat (korder (kpages s ! p))"
    and "k \<le> MAX_ALLOC_ORDER" "aligned k p" "p + 2 ^ k \<le> Suc (kpage_last s)" "block k p \<inter> F = {}"
  shows "\<exists>s'. page_add_to_slot p None s = Some s' \<and> mm_free s' (F \<union> block k p) \<and>
     framed (F \<union> block k p) s s'"
proof -
  obtain d L where L: "mm_inv d s L" "coalesced L" "free_set L = F"
    using assms(1) unfolding mm_free_def by blast
  have ok: "block_ok (Suc (kpage_last s)) k p L" using assms L(3) by (simp add: block_ok_def)
  obtain s' where s': "page_add_to_slot p None s = Some s'" "mm_inv d s' (coalesce k p L)" "framed (F \<union> block k p) s s'"
    using page_add_to_slot_ok [OF L(1) ok, of None] assms(2) L(3) by auto
  then show ?thesis
    using coalesce_ok [OF mm_coreD(2) [OF mm_invD(1) [OF L(1)]] ok] L unfolding mm_free_def by blast
qed

lemma allocated_bit: "(x AND NOT KPAGE_FLAGS_FREE_BUDDY OR KPAGE_FLAGS_ALLOCATED) AND KPAGE_FLAGS_ALLOCATED \<noteq> 0"
proof -
  have "bit ((x AND NOT KPAGE_FLAGS_FREE_BUDDY OR KPAGE_FLAGS_ALLOCATED) AND KPAGE_FLAGS_ALLOCATED) 4"
    unfolding kpage_flags by (simp only: bitwise) simp
  then show ?thesis by fastforce
qed

lemma alloc_free:
  assumes "mm_free s F" and "k \<le> MAX_ALLOC_ORDER" and "aligned k a" and "block k a \<subseteq> F"
  shows "\<exists>p s'. page_alloc k s = Some (Some p, s') \<and> aligned k p \<and> block k p \<subseteq> F \<and>
     mm_free s' (F - block k p) \<and> kpages s' ! p = alloc_desc k (kpages s ! p) \<and>
     kpage_last s' = kpage_last s \<and> length (kpages s') = length (kpages s) \<and>
     (\<forall>i < length (kpages s). i \<notin> F \<longrightarrow> kpages s' ! i = kpages s ! i)"
proof -
  obtain d L where L: "mm_inv d s L" "coalesced L" "free_set L = F"
    using assms(1) unfolding mm_free_def by blast
  have "fits k L" using assms(2-4) L(3) by (auto simp: fits_def)
  then obtain j p s' L' where r: "page_alloc k s = Some (Some p, s')" "mm_inv (d(j := d j + 1)) s' L'" "coalesced L'"
     "aligned k p" "block k p \<subseteq> free_set L" "free_set L' = free_set L - block k p"
     "kpages s' ! p = alloc_desc k (kpages s ! p)" "kpage_last s' = kpage_last s" "length (kpages s') = length (kpages s)"
     "\<forall>i < length (kpages s). i \<noteq> p \<longrightarrow> other_bits (kpages s' ! i) = other_bits (kpages s ! i) \<and>
        (i \<notin> free_set L \<longrightarrow> kpages s' ! i = kpages s ! i)"
    using page_alloc_fits [OF L(1,2)] by blast
  moreover have "p \<in> F" using r(5) L(3) block_mem by blast
  moreover have "mm_free s' (F - block k p)" using r(2,3,6) L(3) unfolding mm_free_def by blast
  ultimately show ?thesis using L(3) by (auto intro!: exI [of _ p] exI [of _ s'])
qed

lemma alloc_full:
  assumes "mm_free s F" and "MAX_ALLOC_ORDER < k \<or> (\<forall>a. aligned k a \<longrightarrow> \<not> block k a \<subseteq> F)"
  shows "page_alloc k s = Some (None, s\<lparr>console := console s @ [''alloc failed\<newline>'']\<rparr>)"
proof -
  obtain d L where L: "mm_inv d s L" "coalesced L" "free_set L = F"
    using assms(1) unfolding mm_free_def by blast
  have "\<not> fits k L" using assms(2) L(3) by (auto simp: fits_def)
  then show ?thesis using page_alloc_full [OF L(1,2)] by blast
qed

lemma mm_free_console: "mm_free s F \<Longrightarrow> mm_free (s\<lparr>console := c\<rparr>) F"
  using mm_inv_console unfolding mm_free_def by blast

lemma alloc_none:
  assumes "mm_free s F" and "MAX_ALLOC_ORDER < k \<or> (\<forall>a. aligned k a \<longrightarrow> \<not> block k a \<subseteq> F)"
  shows "\<exists>s'. page_alloc k s = Some (None, s') \<and> mm_free s' F \<and> kpages s' = kpages s \<and> kpage_last s' = kpage_last s \<and>
     console s' = console s @ [''alloc failed\<newline>'']"
  using alloc_full [OF assms] mm_free_console [OF assms(1)] by simp

text \<open>\<open>runs k F\<close>: the allocator can be asked for order \<open>k\<close>, and an aligned run of \<open>2 ^ k\<close> frames lies in \<open>F\<close>.\<close>

definition runs :: "nat \<Rightarrow> nat set \<Rightarrow> bool" where
  "runs k F \<longleftrightarrow> k \<le> MAX_ALLOC_ORDER \<and> (\<exists>a. aligned k a \<and> block k a \<subseteq> F)"

lemma alloc_cases:
  assumes "mm_free s F"
  obtains (full) "\<not> runs k F" "page_alloc k s = Some (None, s\<lparr>console := console s @ [''alloc failed\<newline>'']\<rparr>)"
  | (found) p s' where "runs k F" "page_alloc k s = Some (Some p, s')" "aligned k p" "block k p \<subseteq> F" "mm_free s' (F - block k p)"
proof (cases "runs k F")
  case True
  then obtain a where "k \<le> MAX_ALLOC_ORDER" "aligned k a" "block k a \<subseteq> F" by (auto simp: runs_def)
  from alloc_free [OF assms this] show ?thesis using found True by blast
next
  case False
  then have "MAX_ALLOC_ORDER < k \<or> (\<forall>a. aligned k a \<longrightarrow> \<not> block k a \<subseteq> F)" by (auto simp: runs_def)
  from alloc_full [OF assms this] show ?thesis using full False by blast
qed

text \<open>(C5) Giving a block back: for an aligned block that lies in memory and is not free,
  \<^verbatim>\<open>page_add_to_slot\<close> returns, afterwards exactly the frames of the block have become free,
  free blocks are again merged as far as possible, and frames that were and are not free keep
  their descriptors.\<close>

theorem page_add_to_slot_correct:
  assumes "mm_free s F" and "k = unat (korder (kpages s ! p))"
    and "k \<le> MAX_ALLOC_ORDER" "aligned k p" "p + 2 ^ k \<le> Suc (kpage_last s)" "block k p \<inter> F = {}"
  shows "\<exists>s'. page_add_to_slot p None s = Some s' \<and> mm_free s' (F \<union> block k p) \<and>
     framed (F \<union> block k p) s s'"
  using add_to_slot_free [OF assms] .

lemma aligned_base [simp]: "aligned k 0"
  by (simp add: aligned_def)

theorem page_add_to_slot_correct_witness:
  "\<exists>s'. page_add_to_slot 0 None (boot_mm 8 3) = Some s' \<and> mm_free s' ({} \<union> block 3 0) \<and>
     framed ({} \<union> block 3 0) (boot_mm 8 3) s'"
  by (rule page_add_to_slot_correct) (simp_all add: boot_mm_free MAX_ALLOC_ORDER_def)

text \<open>Eight free frames in one block, as \<^verbatim>\<open>page_add_to_slot\<close> leaves them.\<close>

lemma eight_free_lists:
  "\<exists>s L. mm_inv (\<lambda>_. 0) s L \<and> coalesced L \<and> free_set L = {..<8} \<and> kpage_last s = 7"
proof -
  have "block_ok (Suc (kpage_last (boot_mm 8 3))) 3 0 (\<lambda>_. [])"
    by (simp add: block_ok_def MAX_ALLOC_ORDER_def)
  from page_add_to_slot_ok [OF boot_mm_inv this, where end_kpage = None]
  obtain s where s: "mm_inv (\<lambda>_. 0) s (coalesce 3 0 (\<lambda>_. []))" "framed ({} \<union> block 3 0) (boot_mm 8 3) s" by auto
  have "wf_lists 8 (\<lambda>_. [])" by (simp add: wf_lists_def)
  then have "free_set (coalesce 3 0 (\<lambda>_. [])) = block 3 0" "coalesced (coalesce 3 0 (\<lambda>_. []))"
    using coalesce_ok [of 8 "\<lambda>_. []" 3 0] by (simp_all add: block_ok_def MAX_ALLOC_ORDER_def)
  moreover have "block 3 0 = {..<8}" by (auto simp: block_def)
  ultimately show ?thesis using s framedD(2) [OF s(2)] by auto
qed

lemma eight_free: "\<exists>s. mm_free s {..<8} \<and> kpage_last s = 7"
  using eight_free_lists unfolding mm_free_def by blast

text \<open>(C6) Allocation succeeds whenever it can: if some aligned run of \<open>2 ^ k\<close> free frames
  exists, \<^verbatim>\<open>page_alloc\<close> returns such a run, removes exactly these frames from the free ones, marks
  the first descriptor allocated with order \<open>k\<close> and one more reference, and leaves the descriptors of
  the frames that were not free alone.\<close>

theorem page_alloc_succeeds:
  assumes "mm_free s F" and "k \<le> MAX_ALLOC_ORDER" and "aligned k a" and "block k a \<subseteq> F"
  shows "\<exists>p s'. page_alloc k s = Some (Some p, s') \<and> aligned k p \<and> block k p \<subseteq> F \<and>
     mm_free s' (F - block k p) \<and>
     kflags (kpages s' ! p) AND KPAGE_FLAGS_ALLOCATED \<noteq> 0 \<and>
     korder (kpages s' ! p) = of_nat k \<and> krefcount (kpages s' ! p) = krefcount (kpages s ! p) + 1 \<and>
     (\<forall>i < length (kpages s). i \<notin> F \<longrightarrow> kpages s' ! i = kpages s ! i)"
  using alloc_free [OF assms] allocated_bit by fastforce

theorem page_alloc_succeeds_witness:
  "\<exists>s p s'. mm_free s {..<8} \<and> page_alloc 2 s = Some (Some p, s') \<and> mm_free s' ({..<8} - block 2 p)"
proof -
  obtain s where s: "mm_free s {..<8}" using eight_free by blast
  have "2 \<le> MAX_ALLOC_ORDER" "aligned 2 4" "block 2 4 \<subseteq> {..<8}"
    by (auto simp: MAX_ALLOC_ORDER_def aligned_def block_def)
  from page_alloc_succeeds [OF s this] show ?thesis using s by blast
qed

text \<open>(C7) Allocation fails exactly when it must: \<^verbatim>\<open>page_alloc\<close> returns a null pointer if and only if the order is too
  large or no aligned run of \<open>2 ^ k\<close> free frames exists; it has then printed its message and changed nothing else: not
  the descriptors, not the links of the lists, not the counters, not the locks; the free frames are the same.\<close>

theorem page_alloc_exhausted:
  assumes "mm_free s F"
  shows "(page_alloc k s = Some (None, s') \<longleftrightarrow>
       (MAX_ALLOC_ORDER < k \<or> (\<forall>a. aligned k a \<longrightarrow> \<not> block k a \<subseteq> F)) \<and> s' = s\<lparr>console := console s @ [''alloc failed\<newline>'']\<rparr>) \<and>
     (page_alloc k s = Some (None, s') \<longrightarrow> mm_free s' F)"
  by (rule alloc_cases [OF assms, of k]) (auto simp: runs_def mm_free_console [OF assms])

text \<open>Eight free frames: no block of sixteen, but one of eight.\<close>

theorem page_alloc_exhausted_witness:
  "\<exists>s s'. mm_free s {..<8} \<and> page_alloc 4 s = Some (None, s') \<and> mm_free s' {..<8} \<and> links s' = links s \<and>
     (\<forall>s'. page_alloc 3 s \<noteq> Some (None, s'))"
proof -
  obtain s where s: "mm_free s {..<8}" using eight_free by blast
  have no: "\<not> block 4 a \<subseteq> {..<8}" for a unfolding block_bound by simp
  have "aligned 3 0" "block 3 0 \<subseteq> {..<8}" "\<not> MAX_ALLOC_ORDER < 3" by (simp_all add: block_bound MAX_ALLOC_ORDER_def)
  then have "page_alloc 3 s \<noteq> Some (None, s')" for s' using page_alloc_exhausted [OF s, of 3] by blast
  then show ?thesis
    using page_alloc_exhausted [OF s, of 4 "s\<lparr>console := console s @ [''alloc failed\<newline>'']\<rparr>"] no s
    by (intro exI [of _ s] exI [of _ "s\<lparr>console := console s @ [''alloc failed\<newline>'']\<rparr>"]) simp
qed

section \<open>Runs of a client\<close>

text \<open>
  A client holds a set of blocks \<open>(k, p)\<close>; it allocates any order, and gives back what it
  holds, in any sequence.
\<close>

type_synonym client = "mm \<times> (nat \<times> nat) set"

inductive client_run :: "nat set \<Rightarrow> client \<Rightarrow> bool" for F where
  start: "mm_free s F \<Longrightarrow> F \<subseteq> {..kpage_last s} \<Longrightarrow> client_run F (s, {})"
| alloc: "client_run F (s, H) \<Longrightarrow> page_alloc k s = Some (Some p, s') \<Longrightarrow> client_run F (s', insert (k, p) H)"
| alloc_fails: "client_run F (s, H) \<Longrightarrow> page_alloc k s = Some (None, s') \<Longrightarrow> client_run F (s', H)"
| give_back: "client_run F (s, H) \<Longrightarrow> (k, p) \<in> H \<Longrightarrow> page_add_to_slot p None s = Some s' \<Longrightarrow>
    client_run F (s', H - {(k, p)})"

definition held :: "(nat \<times> nat) set \<Rightarrow> nat set" where
  "held H = (\<Union>(k, p) \<in> H. block k p)"

definition client_inv :: "nat set \<Rightarrow> mm \<Rightarrow> (nat \<times> nat) set \<Rightarrow> bool" where
  "client_inv F s H \<longleftrightarrow> mm_free s (F - held H) \<and> held H \<subseteq> F \<and> F \<subseteq> {..kpage_last s} \<and>
     (\<forall>(k, p) \<in> H. k \<le> MAX_ALLOC_ORDER \<and> aligned k p \<and> unat (korder (kpages s ! p)) = k) \<and>
     pairwise (\<lambda>(j, p) (k, q). block j p \<inter> block k q = {}) H"

lemma mm_free_length: "mm_free s F \<Longrightarrow> kpage_last s < length (kpages s)"
  using mm_coreD(3) mm_invD(1) unfolding mm_free_def by blast

lemma mm_free_unlocked:
  assumes "mm_free s F"
  shows "alloc_order_lock s j = 0" "i < length (kpages s) \<Longrightarrow> klock (kpages s ! i) = 0"
proof -
  obtain d L where "mm_inv d s L" using assms unfolding mm_free_def by blast
  from mm_invD [OF this] mm_coreD(4)
  show "alloc_order_lock s j = 0" "i < length (kpages s) \<Longrightarrow> klock (kpages s ! i) = 0" by blast+
qed

lemma block_in_memory:
  assumes "p + 2 ^ k \<le> Suc (kpage_last s)" and "kpage_last s < length (kpages s)"
  shows "p < length (kpages s)"
proof -
  have "(1::nat) \<le> 2 ^ k" by simp
  then show ?thesis using assms by linarith
qed

lemma heldI: "(k, p) \<in> H \<Longrightarrow> block k p \<subseteq> held H"
  by (auto simp: held_def)

lemma held_insert: "held (insert (k, p) H) = block k p \<union> held H"
  by (simp add: held_def)

lemma held_minus:
  assumes "pairwise (\<lambda>(j, p) (k, q). block j p \<inter> block k q = {}) H" and "(k, p) \<in> H"
  shows "held (H - {(k, p)}) = held H - block k p"
proof -
  have "block j q \<inter> block k p = {}" if "(j, q) \<in> H - {(k, p)}" for j q
    using assms that unfolding pairwise_def by fastforce
  then show ?thesis using assms(2) unfolding held_def by (fastforce simp: disjoint_iff)
qed

lemma client_base:
  assumes "client_inv F s H" and "(k, p) \<in> H"
  shows "p < length (kpages s)" "p \<notin> F - held H" "p \<in> held H"
proof -
  show p: "p \<in> held H" using heldI [OF assms(2)] block_mem [of p k] by blast
  then have "p \<le> kpage_last s" "mm_free s (F - held H)" using assms(1) unfolding client_inv_def by auto
  then show "p < length (kpages s)" using mm_free_length [of s] by fastforce
  show "p \<notin> F - held H" using p by simp
qed

lemma client_alloc:
  assumes inv: "client_inv F s H" and r: "page_alloc k s = Some (Some p, s')"
  shows "client_inv F s' (insert (k, p) H)"
proof -
  have free: "mm_free s (F - held H)" using inv by (simp add: client_inv_def)
  have "k \<le> MAX_ALLOC_ORDER \<and> (\<exists>a. aligned k a \<and> block k a \<subseteq> F - held H)"
    by (rule alloc_cases [OF free, of k]) (use r in \<open>auto simp: runs_def\<close>)
  then have k: "k \<le> MAX_ALLOC_ORDER" and ex: "\<exists>a. aligned k a \<and> block k a \<subseteq> F - held H" by simp_all
  then obtain a where "aligned k a" "block k a \<subseteq> F - held H" by blast
  from alloc_free [OF free k this] r have a: "aligned k p" "block k p \<subseteq> F - held H"
    "mm_free s' (F - held H - block k p)" "kpages s' ! p = alloc_desc k (kpages s ! p)" "kpage_last s' = kpage_last s"
    "\<And>i. i < length (kpages s) \<Longrightarrow> i \<notin> F - held H \<Longrightarrow> kpages s' ! i = kpages s ! i"
    by auto
  have sep: "block k p \<inter> held H = {}" using a(2) by blast
  have "block j q \<inter> block k p = {}" if "(j, q) \<in> H" for j q using sep heldI [OF that] by blast
  moreover have "kpages s' ! q = kpages s ! q" if "(j, q) \<in> H" for j q
    using client_base [OF inv that] a(6) by blast
  moreover have "unat (of_nat k :: u8) = k" using k by (simp add: MAX_ALLOC_ORDER_def unat_of_nat)
  ultimately show ?thesis
    using inv a(1-5) k unfolding client_inv_def held_insert
    by (auto simp: pairwise_insert Int_commute Diff_eq inf.assoc inf.commute inf.left_commute)
qed

lemma client_give_back:
  assumes inv: "client_inv F s H" and kp: "(k, p) \<in> H"
  shows "\<exists>s'. page_add_to_slot p None s = Some s' \<and> client_inv F s' (H - {(k, p)})"
proof -
  have c: "mm_free s (F - held H)" "held H \<subseteq> F" "F \<subseteq> {..kpage_last s}" "k \<le> MAX_ALLOC_ORDER" "aligned k p"
    "unat (korder (kpages s ! p)) = k" "pairwise (\<lambda>(j, p) (k, q). block j p \<inter> block k q = {}) H"
    using inv kp by (auto simp: client_inv_def)
  have b: "block k p \<subseteq> held H" by (rule heldI [OF kp])
  then have "block k p \<subseteq> {..<Suc (kpage_last s)}" using c(2,3) by (auto simp: lessThan_Suc_atMost)
  then have "p + 2 ^ k \<le> Suc (kpage_last s)" by (simp only: block_bound)
  then obtain s' where s': "page_add_to_slot p None s = Some s'" "mm_free s' (F - held H \<union> block k p)"
    "framed (F - held H \<union> block k p) s s'"
    using add_to_slot_free [OF c(1) c(6) [symmetric] c(4,5)] b by blast
  have "F - held (H - {(k, p)}) = F - held H \<union> block k p"
    using held_minus [OF c(7) kp] b c(2) by blast
  moreover have same: "kpages s' ! q = kpages s ! q" if "(j, q) \<in> H - {(k, p)}" for j q
  proof -
    have "block j q \<inter> block k p = {}" using c(7) kp that unfolding pairwise_def by fastforce
    then show ?thesis
      using framedD(5) [OF s'(3)] client_base [OF inv, of j q] that block_mem [of q j] by blast
  qed
  moreover have "\<forall>(j, q) \<in> H - {(k, p)}. j \<le> MAX_ALLOC_ORDER \<and> aligned j q \<and> unat (korder (kpages s' ! q)) = j"
    using inv same unfolding client_inv_def by fastforce
  moreover have "held (H - {(k, p)}) \<subseteq> F" using c(2) held_minus [OF c(7) kp] by blast
  ultimately show ?thesis
    using s'(1,2) c(3,7) framedD(2) [OF s'(3)] unfolding client_inv_def by (auto intro: pairwise_subset)
qed

lemma client_run_inv: "client_run F (s, H) \<Longrightarrow> client_inv F s H"
proof (induction "(s, H)" arbitrary: s H rule: client_run.induct)
  case (start s)
  then show ?case by (simp add: client_inv_def held_def)
next
  case (alloc s H k p s')
  then show ?case using client_alloc by blast
next
  case (alloc_fails s H k s')
  then have "mm_free s (F - held H)" by (simp add: client_inv_def)
  then have "mm_free s' (F - held H) \<and> kpages s' = kpages s \<and> kpage_last s' = kpage_last s"
    by (rule alloc_cases [where k = k]) (use alloc_fails(3) mm_free_console [OF \<open>mm_free s (F - held H)\<close>] in auto)
  then show ?case using alloc_fails(2) by (simp add: client_inv_def)
next
  case (give_back s H k p s')
  then show ?case using client_give_back [of F s H k p] by auto
qed

text \<open>(C3) Memory safety of the allocator: in every run of a client that only gives back blocks it
  holds, in any order and of any sizes, the held blocks are pairwise disjoint, lie inside the memory given to
  the allocator, and together with the free frames make up exactly that memory: no frame is handed out
  twice and none is lost.\<close>

theorem client_runs_safe:
  assumes "client_run F (s, H)"
  shows "(\<forall>(j, p) \<in> H. \<forall>(k, q) \<in> H. (j, p) \<noteq> (k, q) \<longrightarrow> block j p \<inter> block k q = {}) \<and>
     held H \<subseteq> F \<and> mm_free s (F - held H) \<and> (\<forall>(k, p) \<in> H. aligned k p)"
  using client_run_inv [OF assms] unfolding client_inv_def pairwise_def by fastforce

lemma two_blocks_run: "\<exists>s p q. client_run {..<8} (s, {(1, q), (2, p)})"
proof -
  obtain s where s: "mm_free s {..<8}" "kpage_last s = 7"
    using eight_free by blast
  then have run: "client_run {..<8} (s, {})" by (intro client_run.start) auto
  have "2 \<le> MAX_ALLOC_ORDER" "1 \<le> MAX_ALLOC_ORDER" "aligned 2 4" "block 2 4 \<subseteq> {..<8}"
    by (auto simp: MAX_ALLOC_ORDER_def aligned_def block_def)
  from alloc_free [OF s(1) this(1,3,4)] obtain p s1 where
    p: "page_alloc 2 s = Some (Some p, s1)" "aligned 2 p" "block 2 p \<subseteq> {..<8}" "mm_free s1 ({..<8} - block 2 p)" by blast
  have run1: "client_run {..<8} (s1, {(2, p)})" using client_run.alloc [OF run p(1)] .
  have b: "p + 4 \<le> 8" "4 dvd p" using p(2,3) by (simp_all add: block_bound aligned_def)
  then have "p = 0 \<or> p = 4" by presburger
  then have "\<exists>a. aligned 1 a \<and> block 1 a \<subseteq> {..<8} - block 2 p"
    by (elim disjE) (intro exI [of _ 4] exI [of _ 0]; simp add: aligned_def block_def, auto)+
  then obtain a where "aligned 1 a" "block 1 a \<subseteq> {..<8} - block 2 p" by blast
  from alloc_free [OF p(4) _ this] obtain q s2 where "page_alloc 1 s1 = Some (Some q, s2)"
    using \<open>1 \<le> MAX_ALLOC_ORDER\<close> by blast
  from client_run.alloc [OF run1 this] show ?thesis by blast
qed

theorem client_runs_safe_witness:
  "\<exists>s p q. client_run {..<8} (s, {(1, q), (2, p)}) \<and> mm_free s ({..<8} - held {(1, q), (2, p)}) \<and>
     block 1 q \<inter> block 2 p = {}"
proof -
  obtain s p q where r: "client_run {..<8} (s, {(1, q), (2, p)})" using two_blocks_run by blast
  show ?thesis using client_runs_safe [OF r] r by (intro exI [of _ s] exI [of _ p] exI [of _ q]) auto
qed

text \<open>(C4) Progress: in every such run each call returns. Whatever order \<open>k\<close> is asked for, \<^verbatim>\<open>page_alloc\<close> takes
  and releases its locks and ends; it returns a null pointer exactly when the order is too large or no aligned run of
  \<open>2 ^ k\<close> frames is left among those the client does not hold, and otherwise such a run; every held block can be given back; no
  lock is left taken.\<close>

theorem client_runs_progress:
  assumes "client_run F (s, H)"
  shows "(\<exists>r s'. page_alloc k s = Some (r, s') \<and>
       (r = None \<longleftrightarrow> MAX_ALLOC_ORDER < k \<or> (\<forall>a. aligned k a \<longrightarrow> \<not> block k a \<subseteq> F - held H)) \<and>
       (\<forall>p. r = Some p \<longrightarrow> aligned k p \<and> block k p \<subseteq> F - held H)) \<and>
     (\<forall>(j, p) \<in> H. page_add_to_slot p None s \<noteq> None) \<and>
     (\<forall>j. alloc_order_lock s j = 0) \<and> (\<forall>i < length (kpages s). klock (kpages s ! i) = 0)"
proof -
  have inv: "client_inv F s H" by (rule client_run_inv [OF assms])
  then have free: "mm_free s (F - held H)" by (simp add: client_inv_def)
  have "\<exists>r s'. page_alloc k s = Some (r, s') \<and>
       (r = None \<longleftrightarrow> MAX_ALLOC_ORDER < k \<or> (\<forall>a. aligned k a \<longrightarrow> \<not> block k a \<subseteq> F - held H)) \<and>
       (\<forall>p. r = Some p \<longrightarrow> aligned k p \<and> block k p \<subseteq> F - held H)"
    by (rule alloc_cases [OF free, of k]) (auto simp: runs_def)
  moreover have "page_add_to_slot p None s \<noteq> None" if "(j, p) \<in> H" for j p
    using client_give_back [OF inv that] by auto
  moreover have "(\<forall>j. alloc_order_lock s j = 0) \<and> (\<forall>i < length (kpages s). klock (kpages s ! i) = 0)"
    using mm_free_unlocked [OF free] by blast
  ultimately show ?thesis by blast
qed

theorem client_runs_progress_witness:
  "\<exists>s s' p q. client_run {..<8} (s, {(1, q), (2, p)}) \<and> page_alloc 3 s = Some (None, s') \<and> page_add_to_slot p None s \<noteq> None"
proof -
  obtain s p q where r: "client_run {..<8} (s, {(1, q), (2, p)})" using two_blocks_run by blast
  have "held {(1, q), (2, p)} \<noteq> {}" using block_mem [of q 1] by (auto simp: held_def)
  moreover have "held {(1, q), (2, p)} \<subseteq> {..<8}" using client_run_inv [OF r] by (simp add: client_inv_def)
  moreover have "block 3 a = {..<8}" if "block 3 a \<subseteq> {..<8}" for a
  proof -
    have "a + 2 ^ 3 \<le> 8" using that unfolding block_bound .
    then show ?thesis by (auto simp: block_def)
  qed
  ultimately have "\<not> block 3 a \<subseteq> {..<8} - held {(1, q), (2, p)}" for a by blast
  then have "\<exists>s'. page_alloc 3 s = Some (None, s')" using client_runs_progress [OF r, of 3] by auto
  then show ?thesis using client_runs_progress [OF r, of 3] r by auto
qed

section \<open>What the allocator does not keep\<close>

text \<open>The counter: \<^verbatim>\<open>page_alloc\<close> takes a block off a list and never counts
  \<^verbatim>\<open>free_pages_count\<close> down, so one successful call leaves a counter that is one more than the
  length of its list, even from a state where all counters are right.\<close>

theorem page_alloc_count_drift:
  assumes "mm_inv (\<lambda>_. 0) s L" and "coalesced L" and "fits k L"
  shows "\<exists>p s' L' j. page_alloc k s = Some (Some p, s') \<and> list_rep (links s') L' \<and>
     free_pages_count s' j = of_nat (length (L' j)) + 1"
proof -
  obtain j p s' L' where r: "page_alloc k s = Some (Some p, s')" "mm_inv ((\<lambda>_. 0)(j := 0 + 1)) s' L'"
    using page_alloc_fits [OF assms] by auto
  show ?thesis
    using r(1) mm_coreD(1,5) [OF mm_invD(1) [OF r(2)]] by (intro exI conjI) (assumption, assumption, simp)
qed

theorem page_alloc_count_drift_witness:
  "\<exists>s p s' L' j. page_alloc 2 s = Some (Some p, s') \<and> list_rep (links s') L' \<and>
     free_pages_count s' j = of_nat (length (L' j)) + 1"
proof -
  obtain s L where s: "mm_inv (\<lambda>_. 0) s L" "coalesced L" "free_set L = {..<8}"
    using eight_free_lists by blast
  have "aligned 2 4" "block 2 4 \<subseteq> {..<8}" "2 \<le> MAX_ALLOC_ORDER"
    by (auto simp: MAX_ALLOC_ORDER_def aligned_def block_def)
  then have "fits 2 L" using s(3) unfolding fits_def by blast
  then show ?thesis using page_alloc_count_drift [OF s(1,2)] by blast
qed

text \<open>Giving back an allocated block frees its frames again but undoes nothing else: the descriptor still
  says allocated, and the reference it took stays.\<close>

theorem alloc_then_give_back:
  assumes "mm_free s F" and "F \<subseteq> {..kpage_last s}" and "k \<le> MAX_ALLOC_ORDER" and "aligned k a" and "block k a \<subseteq> F"
  shows "\<exists>p s1 s2. page_alloc k s = Some (Some p, s1) \<and> page_add_to_slot p None s1 = Some s2 \<and> mm_free s2 F \<and>
     kflags (kpages s2 ! p) AND KPAGE_FLAGS_ALLOCATED \<noteq> 0 \<and>
     krefcount (kpages s2 ! p) = krefcount (kpages s ! p) + 1"
proof -
  from alloc_free [OF assms(1,3-5)] obtain p s1 where p: "page_alloc k s = Some (Some p, s1)" "aligned k p"
    "block k p \<subseteq> F" "mm_free s1 (F - block k p)" "kpages s1 ! p = alloc_desc k (kpages s ! p)"
    "kpage_last s1 = kpage_last s" "length (kpages s1) = length (kpages s)" by blast
  have "block k p \<subseteq> {..<Suc (kpage_last s1)}" using p(3,6) assms(2) by (auto simp: lessThan_Suc_atMost)
  then have b: "p + 2 ^ k \<le> Suc (kpage_last s1)" by (simp only: block_bound)
  have o: "k = unat (korder (kpages s1 ! p))" using p(5) assms(3) by (simp add: MAX_ALLOC_ORDER_def unat_of_nat)
  have "block k p \<inter> (F - block k p) = {}" by blast
  from add_to_slot_free [OF p(4) o assms(3) p(2) b this] obtain s2 where
    s2: "page_add_to_slot p None s1 = Some s2" "mm_free s2 F" "framed (F - block k p \<union> block k p) s1 s2"
    using Un_absorb2 [OF p(3)] by auto
  have "p < length (kpages s1)" using b mm_free_length [OF p(4)] by (rule block_in_memory)
  then have ob: "other_bits (kpages s2 ! p) = other_bits (kpages s1 ! p)" using framedD(6) [OF s2(3)] by blast
  have masks: "x AND KPAGE_FLAGS_ALLOCATED = (x AND NOT (KPAGE_FLAGS_FREE_BUDDY OR KPAGE_FLAGS_FREE_SUB)) AND KPAGE_FLAGS_ALLOCATED" for x
    unfolding kpage_flags by (rule bit_eqI, simp only: bitwise, fastforce)
  have "kflags (kpages s2 ! p) AND NOT (KPAGE_FLAGS_FREE_BUDDY OR KPAGE_FLAGS_FREE_SUB) =
        kflags (kpages s1 ! p) AND NOT (KPAGE_FLAGS_FREE_BUDDY OR KPAGE_FLAGS_FREE_SUB)"
    using ob by (simp only: other_bits_def prod.inject)
  then have "kflags (kpages s2 ! p) AND KPAGE_FLAGS_ALLOCATED = kflags (kpages s1 ! p) AND KPAGE_FLAGS_ALLOCATED"
    by (simp only: masks [of "kflags (kpages s2 ! p)"] masks [of "kflags (kpages s1 ! p)"])
  then have "kflags (kpages s2 ! p) AND KPAGE_FLAGS_ALLOCATED \<noteq> 0" using p(5) allocated_bit by simp
  moreover have "krefcount (kpages s2 ! p) = krefcount (kpages s ! p) + 1" using ob p(5) by (simp add: other_bits_def)
  ultimately show ?thesis using p(1) s2(1,2) by blast
qed

theorem alloc_then_give_back_witness:
  "\<exists>s p s1 s2. page_alloc 2 s = Some (Some p, s1) \<and> page_add_to_slot p None s1 = Some s2 \<and> mm_free s2 {..<8} \<and>
     kflags (kpages s2 ! p) AND KPAGE_FLAGS_ALLOCATED \<noteq> 0"
proof -
  obtain s where s: "mm_free s {..<8}" "kpage_last s = 7" using eight_free by blast
  have "{..<8} \<subseteq> {..kpage_last s}" "2 \<le> MAX_ALLOC_ORDER" "aligned 2 4" "block 2 4 \<subseteq> {..<8}"
    using s(2) by (auto simp: MAX_ALLOC_ORDER_def aligned_def block_def)
  from alloc_then_give_back [OF s(1) this] show ?thesis by blast
qed

text \<open>\<^verbatim>\<open>page_free_linear\<close> takes the linear addresses \<^verbatim>\<open>page_alloc_kmap_linear\<close> returns, which are at
  or above \<^verbatim>\<open>KERNEL_VIRT_ADDR\<close>, but uses their page number as the frame number: on a machine with at most
  2 GB every such call reads outside \<^verbatim>\<open>kpages\<close>.\<close>

theorem page_free_linear_outside:
  assumes "length (kpages s) \<le> 2 ^ 19" and "KERNEL_VIRT_ADDR \<le> addr"
  shows "page_free_linear addr s = None"
proof -
  have "2 ^ 31 \<le> unat addr" using assms(2) by (simp add: KERNEL_VIRT_ADDR_def word_le_nat_alt)
  then have "2 ^ 31 div 2 ^ 12 \<le> unat addr div 2 ^ 12" by (rule div_le_mono)
  then have "length (kpages s) \<le> unat (drop_bit PAGE_SHIFT addr)"
    using assms(1) by (simp add: PAGE_SHIFT_def unat_drop_bit_eq drop_bit_eq_div [where 'a = nat])
  then show ?thesis by (simp add: page_free_linear_def page_add_to_slot_def)
qed

theorem page_free_linear_outside_witness: "page_free_linear (KERNEL_VIRT_ADDR + 0x5000) (boot_mm 8 3) = None"
  by (rule page_free_linear_outside) (simp_all add: KERNEL_VIRT_ADDR_def)

end
