(* ===== verification/Mem_Init.thy ===== *)
theory Mem_Init
  imports Buddy_Props Paging_Refine Printf_Props
begin

text \<open>
  \<^verbatim>\<open>mem_init\<close> of \<^verbatim>\<open>memory.c\<close>: from the memory map of the firmware (E820) it sizes and maps the
  \<^verbatim>\<open>kpage\<close> array, marks every frame, gives the free ones to the page allocator and takes them out of the
  kernel's linear mapping. The map is a list of entries; \<^verbatim>\<open>_end_kernel_mapped_memory\<close> and
  \<^verbatim>\<open>init_ap_size\<close> come from the linker.
\<close>

section \<open>State\<close>

record e820_map =
  e820_base :: u64
  e820_length :: u64
  e820_type :: u32
  e820_ACPI :: u32

record mem_state =
  mmgr :: mm
  mpaging :: paging
  total_memory :: u64
  total_effective_memory :: u64
  nr_kpages :: u64
  kpages_addr :: u32
  end_kernel_data :: u32
  end_kernel_mapped_memory :: u32

definition MAX_SUPPORTED_MEMORY :: u64 where "MAX_SUPPORTED_MEMORY = 4 * 1024 * 1024 * 1024"
definition AP_INIT_PHYS_TEXT :: u32 where "AP_INIT_PHYS_TEXT = 0x7c00"
definition BASE_WRITE_PAGE :: u32 where "BASE_WRITE_PAGE = 0x2000"

definition page_base64 :: "u64 \<Rightarrow> u64" where
  "page_base64 m = m AND NOT 0xFFF"

definition ALIGN_PAGE64 :: "u64 \<Rightarrow> u64" where
  "ALIGN_PAGE64 m = page_base64 (m + 0xFFF)"

definition ALIGN_PGD64 :: "u64 \<Rightarrow> u64" where
  "ALIGN_PGD64 m = (m + 0x3FFFFF) AND NOT 0x3FFFFF"

definition ALIGN_PGD :: "u32 \<Rightarrow> u32" where
  "ALIGN_PGD m = (m + PGD_SIZE - 1) AND PGD_MASK"

definition sizeof_kpage :: u64 where "sizeof_kpage = 24"

definition zero_kpage :: kpage where
  "zero_kpage = \<lparr>korder = 0, kflags = 0, krefcount = 0, kvirt_addr = 0, klock = 0\<rparr>"

section \<open>Marking frames\<close>

definition page_index :: "u64 \<Rightarrow> nat" where
  "page_index addr = unat (drop_bit 12 addr)"

definition init_page_node :: "nat \<Rightarrow> mm \<Rightarrow> mm" where
  "init_page_node i s = s\<lparr>links := list_init (Page i) (links s)\<rparr>"

text \<open>The loop over the frames of one entry of type \<open>ty\<close>; \<open>lim\<close> is the physical end of the kernel's data.\<close>

fun mark_entry :: "u32 \<Rightarrow> u64 \<Rightarrow> nat \<Rightarrow> u64 \<Rightarrow> mm \<Rightarrow> (u64 \<times> mm) option" where
  "mark_entry ty lim 0 addr s = Some (addr, s)"
| "mark_entry ty lim (Suc j) addr s =
     do {
       s \<leftarrow> (if ty \<noteq> 1 then kpage_upd (page_index addr) (set_flag KPAGE_FLAGS_RESERVED) s else Some s);
       k \<leftarrow> aget (kpages s) (page_index addr);
       s \<leftarrow> (if kflags k AND KPAGE_FLAGS_RESERVED = 0 \<and> addr \<le> lim
             then kpage_upd (page_index addr) (set_flag KPAGE_FLAGS_KERNEL) s else Some s);
       mark_entry ty lim j (addr + 0x1000) (init_page_node (page_index addr) s)
     }"

text \<open>The frames between two entries.\<close>

partial_function (option) mark_gap :: "u64 \<Rightarrow> u64 \<Rightarrow> mm \<Rightarrow> (u64 \<times> mm) option" where
  "mark_gap addr last_page_in_range s =
     (if addr < last_page_in_range
      then do {
        s \<leftarrow> kpage_upd (page_index addr) (set_flag KPAGE_FLAGS_RESERVED) s;
        mark_gap (addr + 0x1000) last_page_in_range (init_page_node (page_index addr) s)
      }
      else Some (addr, s))"

definition entry_pages :: "e820_map \<Rightarrow> nat" where
  "entry_pages e = unat (drop_bit 12 (ALIGN_PAGE64 (e820_base e + e820_length e) - page_base64 (e820_base e)))"

fun mark_entries :: "u64 \<Rightarrow> u64 \<Rightarrow> u64 \<Rightarrow> e820_map list \<Rightarrow> mm \<Rightarrow> (u64 \<times> mm) option" where
  "mark_entries nr lim addr [] s = Some (addr, s)"
| "mark_entries nr lim addr (e # es) s =
     (if drop_bit 12 addr < nr
      then do {
        (addr, s) \<leftarrow> mark_entry (e820_type e) lim (entry_pages e) (page_base64 (e820_base e)) s;
        (addr, s) \<leftarrow>
          (case es of
             [] \<Rightarrow> Some (addr, s)
           | e' # _ \<Rightarrow> if page_base64 (e820_base e') \<noteq> addr then mark_gap addr (page_base64 (e820_base e')) s
                      else Some (addr, s));
        mark_entries nr lim addr es s
      }
      else Some (addr, s))"

text \<open>A range of addresses whose frames get a flag.\<close>

fun flag_pages :: "u8 \<Rightarrow> nat list \<Rightarrow> mm \<Rightarrow> mm option" where
  "flag_pages f [] s = Some s"
| "flag_pages f (i # is) s = do { s \<leftarrow> kpage_upd i (set_flag f) s; flag_pages f is s }"

definition page_range :: "u32 \<Rightarrow> u32 \<Rightarrow> nat list" where
  "page_range a b = [unat (drop_bit PAGE_SHIFT a) ..< unat (drop_bit PAGE_SHIFT (ALIGN_PAGE b))]"

definition reserve_legacy :: "mm \<Rightarrow> mm option" where
  "reserve_legacy s =
     do {
       s \<leftarrow> flag_pages KPAGE_FLAGS_RESERVED [0] s;
       s \<leftarrow> flag_pages KPAGE_FLAGS_RESERVED (page_range 0x80000 0x9ffff) s;
       s \<leftarrow> flag_pages KPAGE_FLAGS_RESERVED (page_range 0xa0000 0xbffff) s;
       s \<leftarrow> flag_pages KPAGE_FLAGS_RESERVED (page_range 0xc0000 0xc7fff) s;
       s \<leftarrow> flag_pages KPAGE_FLAGS_RESERVED (page_range 0xc8000 0xeffff) s;
       flag_pages KPAGE_FLAGS_RESERVED (page_range 0xf0000 0xfffff) s
     }"

section \<open>Giving frames to the allocator\<close>

fun free_loop :: "kernel_layout \<Rightarrow> nat list \<Rightarrow> mm \<Rightarrow> paging \<Rightarrow> (mm \<times> paging) option" where
  "free_loop lay [] s p = Some (s, p)"
| "free_loop lay (i # is) s p =
     do {
       s \<leftarrow> kpage_upd i (\<lambda>k. k\<lparr>klock := 0\<rparr>) s;
       s \<leftarrow> kpage_upd i (\<lambda>k. k\<lparr>korder := 0\<rparr>) s;
       k \<leftarrow> aget (kpages s) i;
       if kpage_is_free k
       then do {
         s \<leftarrow> page_add_to_slot i (Some i) s;
         free_loop lay is s (pmem_write (kernel_pg_table_0 lay + of_nat (4 * i)) 0 p)
       }
       else free_loop lay is s p
     }"

fun clear_words :: "nat \<Rightarrow> u32 \<Rightarrow> paging \<Rightarrow> paging" where
  "clear_words 0 a p = p"
| "clear_words (Suc n) a p = clear_words n (a + 4) (pmem_write a 0 p)"

section \<open>mem_init\<close>

definition init_lists :: "mm \<Rightarrow> mm" where
  "init_lists s = fold (\<lambda>i s. s\<lparr>links := list_init (Head i) (links s),
       free_pages_count := (free_pages_count s)(i := 0), alloc_order_lock := (alloc_order_lock s)(i := 0)\<rparr>)
     [0..<Suc MAX_ALLOC_ORDER] s"

fun map_ap_pages :: "kernel_layout \<Rightarrow> u32 \<Rightarrow> nat list \<Rightarrow> mm \<Rightarrow> paging \<Rightarrow> (mm \<times> paging) option" where
  "map_ap_pages lay cpu [] s p = Some (s, p)"
| "map_ap_pages lay cpu (i # is) s p =
     do {
       s \<leftarrow> kpage_upd i (set_flag KPAGE_FLAGS_KERNEL) s;
       p \<leftarrow> map_kernel_linear_with_pagetable lay cpu (of_nat (4096 * i)) PAGE_SIZE (PTE_PRESENT OR PTE_WRITE) 0 p;
       map_ap_pages lay cpu is s p
     }"

definition no_room_message :: string where
  "no_room_message = ''Could not map page tables and kpages. Reached maximum limit for 32 bit OS. Upgrade to 64bit kernel\<newline>''"

definition no_room_format :: string where
  "no_room_format = ''_end_kernel_mapped_memory: %x, nr_pgtbls size: %x, kpages_memory: %x\<newline>''"

definition report_no_room :: "u8 list \<Rightarrow> u32 \<Rightarrow> u32 \<Rightarrow> u32 \<Rightarrow> mm \<Rightarrow> mm option" where
  "report_no_room str a b c s =
     do {
       debug_str \<leftarrow> sprintf (bytes_of no_room_format @ [0]) (arg_bytes [Hex a, Hex b, Hex c]) Map.empty str 0 (replicate 80 0);
       l \<leftarrow> strlen debug_str 0;
       Some (s\<lparr>console := console s @ [no_room_message, string_of (take l debug_str)]\<rparr>)
     }"

text \<open>What the sizes are computed to: page tables to map, frames, and bytes of the \<^verbatim>\<open>kpage\<close> array.\<close>

definition size_memory :: "e820_map list \<Rightarrow> u32 \<Rightarrow> (u64 \<times> u64 \<times> u32 \<times> u64 \<times> u64) option" where
  "size_memory es mapped =
     (if es = [] then None
      else let total = e820_base (last es) + e820_length (last es);
               eff = (if MAX_SUPPORTED_MEMORY < total then MAX_SUPPORTED_MEMORY else total);
               nr_pgtbls = ucast (drop_bit 22 (ALIGN_PGD64 eff - scast (ALIGN_PGD mapped)));
               nr = drop_bit 12 (ALIGN_PAGE64 eff)
           in Some (total, eff, nr_pgtbls, nr, nr * sizeof_kpage))"

text \<open>The marking of all frames, on the freshly cleared array. The pointer in front of the first descriptor is outside of it.\<close>

definition mark_frames ::
  "kernel_layout \<Rightarrow> u32 \<Rightarrow> u32 \<Rightarrow> e820_map list \<Rightarrow> u64 \<Rightarrow> u64 \<Rightarrow> mm \<Rightarrow> paging \<Rightarrow> (mm \<times> paging) option"
where
  "mark_frames lay cpu init_ap_size es nr lim s p =
     do {
       e \<leftarrow> aget es 0;
       (addr, s) \<leftarrow> mark_entries nr lim (page_base64 (e820_base e)) es s;
       last \<leftarrow> (if page_index addr = 0 then None else Some (page_index addr - 1));
       let s = s\<lparr>kpage_last := last\<rparr>;
       s \<leftarrow> kpage_upd (unat (drop_bit PAGE_SHIFT BASE_WRITE_PAGE)) (set_flag KPAGE_FLAGS_KERNEL) s;
       p \<leftarrow> map_kernel_linear_with_pagetable lay cpu (KERNEL_VIRT_ADDR + BASE_WRITE_PAGE) PAGE_SIZE
              (PTE_PRESENT OR PTE_WRITE) 0 p;
       (s, p) \<leftarrow> map_ap_pages lay cpu (page_range AP_INIT_PHYS_TEXT (AP_INIT_PHYS_TEXT + init_ap_size)) s p;
       s \<leftarrow> reserve_legacy s;
       Some (s, p)
     }"

definition mem_init ::
  "kernel_layout \<Rightarrow> u32 \<Rightarrow> u32 \<Rightarrow> e820_map list \<Rightarrow> u8 list \<Rightarrow> mem_state \<Rightarrow> (int \<times> mem_state) option"
where
  "mem_init lay cpu init_ap_size es str m =
     do {
       (total, eff, nr_pgtbls, nr, kpages_memory) \<leftarrow> size_memory es (end_kernel_mapped_memory m);
       let mapped = end_kernel_mapped_memory m + KERNEL_VIRT_ADDR;
       let kp = mapped + push_bit PAGE_SHIFT nr_pgtbls;
       let m = m\<lparr>total_memory := total, total_effective_memory := eff, nr_kpages := nr,
                 end_kernel_mapped_memory := mapped, kpages_addr := kp\<rparr>;
       if MAX_SUPPORTED_MEMORY < ucast kp + kpages_memory
       then do {
         s \<leftarrow> report_no_room str mapped (push_bit PAGE_SHIFT nr_pgtbls) (ucast kpages_memory) (mmgr m);
         Some (-1, m\<lparr>mmgr := s\<rparr>)
       }
       else do {
         p \<leftarrow> (if nr_pgtbls \<noteq> 0
               then map_kernel_linear_with_pagetable lay cpu mapped (push_bit PAGE_SHIFT nr_pgtbls)
                      (PTE_PRESENT OR PTE_WRITE) 0 (mpaging m)
               else Some (mpaging m));
         p \<leftarrow> map_kernel_linear_with_pagetable lay cpu kp (ucast kpages_memory) (PTE_PRESENT OR PTE_WRITE) 0 p;
         let data_end = ALIGN_PAGE (kp + ucast kpages_memory);
         let s = (init_lists (mmgr m))\<lparr>kpages := replicate (unat nr) zero_kpage\<rparr>;
         (s, p) \<leftarrow> mark_frames lay cpu init_ap_size es nr (ucast (data_end - KERNEL_VIRT_ADDR)) s p;
         (s, p) \<leftarrow> free_loop lay [0..<Suc (kpage_last s)] s p;
         Some (0, m\<lparr>mmgr := s, mpaging := clear_words 512 (master_kernel_pg_dir lay) p, end_kernel_data := data_end\<rparr>)
       }
     }"

end
