(* ===== verification/User_Pages.thy ===== *)
theory User_Pages
  imports Mem_Init
begin

text \<open>
  Pages for user mode and for the kernel: \<^verbatim>\<open>alloc_user_page\<close> of \<^verbatim>\<open>page32.c\<close>, \<^verbatim>\<open>page_alloc_kmap_linear\<close> of
  \<^verbatim>\<open>memory.c\<close>, and \<^verbatim>\<open>initialize_usermode\<close> with \<^verbatim>\<open>load_usermode_text\<close> of \<^verbatim>\<open>usermode.c\<close>. The state is the
  page allocator and the page tables; a frame is its number, as in \<^verbatim>\<open>Buddy\<close>. The image of the user
  program and its size come from the linker.
\<close>

section \<open>Orders and addresses of blocks\<close>

definition ORDER_TO_PAGE_SIZE :: "nat \<Rightarrow> u32" where
  "ORDER_TO_PAGE_SIZE order = push_bit order PAGE_SIZE"

text \<open>The highest and the lowest set bit, as \<^verbatim>\<open>__builtin_clz\<close> and \<^verbatim>\<open>__builtin_ctz\<close> find them; they are undefined for 0.\<close>

definition NPAGES_TO_ORDER :: "u32 \<Rightarrow> nat option" where
  "NPAGES_TO_ORDER npages =
     (let bits = filter (bit npages) [0..<32]
      in if bits = [] then None
         else if last bits \<noteq> hd bits then Some (last bits + 1) else Some (last bits))"

definition KPAGE_TO_PHYS_ADDR :: "nat \<Rightarrow> u32" where
  "KPAGE_TO_PHYS_ADDR page = push_bit PAGE_SHIFT (of_nat page)"

definition page_alloc_kmap_linear :: "kernel_layout \<Rightarrow> u32 \<Rightarrow> nat \<Rightarrow> mm \<Rightarrow> paging \<Rightarrow> (u32 \<times> mm \<times> paging) option" where
  "page_alloc_kmap_linear lay cpu order s p =
     do {
       (page, s) \<leftarrow> page_alloc order s;
       case page of
         None \<Rightarrow> Some (0, s, p)
       | Some page \<Rightarrow> do {
           let addr = KPAGE_TO_PHYS_ADDR page + KERNEL_VIRT_ADDR;
           let size_of = ORDER_TO_PAGE_SIZE order;
           p \<leftarrow> map_kernel_linear_with_pagetable lay cpu addr size_of (PTE_PRESENT OR PTE_WRITE) 0 p;
           Some (addr, s, clear_words (unat size_of div 4) addr p)
         }
     }"

section \<open>alloc_user_page\<close>

definition ERR_NOMEM :: int where "ERR_NOMEM = -1"
definition ERR_INVALID :: int where "ERR_INVALID = -2"
definition ERR_NOT_SUPPORTED :: int where "ERR_NOT_SUPPORTED = -3"

text \<open>The directory entries that are still empty, over \<open>n\<close> steps of 4 MiB.\<close>

fun count_tables :: "u32 \<Rightarrow> nat \<Rightarrow> u32 \<Rightarrow> paging \<Rightarrow> u32" where
  "count_tables pgdir 0 addr p = 0"
| "count_tables pgdir (Suc n) addr p =
     (if pmem p (pgd_slot pgdir addr) = 0 then 1 else 0) + count_tables pgdir n (addr + PGD_SIZE) p"

text \<open>
  The loop from \<^verbatim>\<open>retry_pgtbl_read\<close>: the outer option of the result is \<^const>\<open>None\<close> if memory ran out, the inner one
  is \<^verbatim>\<open>page_pgtbl\<close>. The lock is held on success.
\<close>

partial_function (option) reserve_tables ::
  "kernel_layout \<Rightarrow> u32 \<Rightarrow> nat \<Rightarrow> u32 \<Rightarrow> nat \<Rightarrow> u32 \<Rightarrow> nat option \<Rightarrow> mm \<Rightarrow> paging \<Rightarrow> (nat option option \<times> mm \<times> paging) option"
where
  "reserve_tables lay cpu page_buf virt_addr n prev_nr_pgtbls page_pgtbl s p =
     do {
       p \<leftarrow> LOCK_PGD cpu 0 (MAP_USER OR MAP_LOCAL_CPU) p;
       let nr_pgtbls = count_tables (GET_CPU_PGDIR lay cpu) n virt_addr p;
       let addr = virt_addr + of_nat n * PGD_SIZE;
       if prev_nr_pgtbls \<noteq> nr_pgtbls
       then do {
         p \<leftarrow> UNLOCK_PGD cpu addr (MAP_USER OR MAP_LOCAL_CPU) p;
         s \<leftarrow> (case page_pgtbl of None \<Rightarrow> Some s | Some t \<Rightarrow> page_add_to_slot t None s);
         if nr_pgtbls \<noteq> 0
         then do {
           order \<leftarrow> NPAGES_TO_ORDER nr_pgtbls;
           (t, s) \<leftarrow> page_alloc order s;
           if t = None
           then do {
             p \<leftarrow> UNLOCK_PGD cpu addr (MAP_USER OR MAP_LOCAL_CPU) p;
             s \<leftarrow> page_add_to_slot page_buf None s;
             Some (None, s, p)
           }
           else reserve_tables lay cpu page_buf virt_addr n nr_pgtbls t s p
         }
         else reserve_tables lay cpu page_buf virt_addr n nr_pgtbls None s p
       }
       else Some (Some page_pgtbl, s, p)
     }"

text \<open>One turn of the mapping loop; a page table is mapped while its entry is written.\<close>

definition map_user_page ::
  "kernel_layout \<Rightarrow> u32 \<Rightarrow> u32 \<Rightarrow> u32 \<Rightarrow> u32 \<Rightarrow> u32 \<Rightarrow> paging \<Rightarrow> paging option"
where
  "map_user_page lay cpu table phys_addr virt_addr pte_flags p =
     do {
       p \<leftarrow> map_kernel_linear_with_pagetable lay cpu table PAGE_SIZE PTE_WRITE (MAP_LOCAL_CPU OR MAP_PGD_LOCKED) p;
       p \<leftarrow> build_pagetable lay cpu [table] phys_addr virt_addr PAGE_SIZE
              (PGD_PRESENT OR PGD_USER OR (if pte_flags AND PTE_WRITE \<noteq> 0 then PGD_WRITE else 0))
              (PTE_PRESENT OR PTE_USER OR pte_flags) (MAP_USER OR MAP_PGD_LOCKED) p;
       unmap_kernel_with_pagetable lay cpu table PAGE_SIZE (MAP_LOCAL_CPU OR MAP_PGD_LOCKED) p
     }"

fun map_user_pages ::
  "kernel_layout \<Rightarrow> u32 \<Rightarrow> nat option \<Rightarrow> u32 \<Rightarrow> nat \<Rightarrow> u32 \<Rightarrow> u32 \<Rightarrow> u32 \<Rightarrow> paging \<Rightarrow> paging option"
where
  "map_user_pages lay cpu page_pgtbl pte_flags 0 pgtbl_idx phys_addr virt_addr p = Some p"
| "map_user_pages lay cpu page_pgtbl pte_flags (Suc n) pgtbl_idx phys_addr virt_addr p =
     do {
       let e = pmem p (pgd_slot (GET_CPU_PGDIR lay cpu) virt_addr);
       (table, pgtbl_idx) \<leftarrow>
         (if e \<noteq> 0 then Some ((e AND PAGE_MASK) + KERNEL_VIRT_ADDR, pgtbl_idx)
          else do { t \<leftarrow> page_pgtbl;
                    Some (KPAGE_TO_PHYS_ADDR t + push_bit PAGE_SHIFT pgtbl_idx + KERNEL_VIRT_ADDR, pgtbl_idx + 1) });
       p \<leftarrow> map_user_page lay cpu table phys_addr virt_addr pte_flags p;
       map_user_pages lay cpu page_pgtbl pte_flags n pgtbl_idx (phys_addr + PAGE_SIZE) (virt_addr + PAGE_SIZE) p
     }"

definition alloc_user_page ::
  "kernel_layout \<Rightarrow> u32 \<Rightarrow> u32 \<Rightarrow> u32 \<Rightarrow> u32 \<Rightarrow> mm \<Rightarrow> paging \<Rightarrow> (int \<times> mm \<times> paging) option"
where
  "alloc_user_page lay cpu virt_addr len pte_flags s p =
     (if virt_addr = 0 then Some (ERR_NOT_SUPPORTED, s, p)
      else if virt_addr AND (PAGE_SIZE - 1) \<noteq> 0 then Some (ERR_INVALID, s, p)
      else let len = ALIGN_PAGE len
           in if KERNEL_VIRT_ADDR \<le> virt_addr + len then Some (ERR_INVALID, s, p)
              else do {
                order \<leftarrow> NPAGES_TO_ORDER (drop_bit PAGE_SHIFT len);
                (page_buf, s) \<leftarrow> page_alloc order s;
                case page_buf of
                  None \<Rightarrow> Some (ERR_NOMEM, s, p)
                | Some page_buf \<Rightarrow> do {
                    (reserved, s, p) \<leftarrow> reserve_tables lay cpu page_buf virt_addr
                                        (unat (drop_bit PGD_SHIFT (ALIGN_PGD len))) 0 None s p;
                    case reserved of
                      None \<Rightarrow> Some (ERR_NOMEM, s, p)
                    | Some page_pgtbl \<Rightarrow> do {
                        p \<leftarrow> map_user_pages lay cpu page_pgtbl pte_flags (unat (drop_bit PAGE_SHIFT len)) 0
                               (KPAGE_TO_PHYS_ADDR page_buf) virt_addr p;
                        p \<leftarrow> UNLOCK_PGD cpu 0 (MAP_USER OR MAP_LOCAL_CPU) p;
                        Some (0, s, p)
                      }
                  }
              })"

section \<open>User mode\<close>

definition USER_MODE_VIRT_STACK :: u32 where "USER_MODE_VIRT_STACK = 0x10001000"
definition USER_MODE_VIRT_TEXT :: u32 where "USER_MODE_VIRT_TEXT = 0x10004000"
definition USER_MODE_STACK_SIZE :: u32 where "USER_MODE_STACK_SIZE = 8192"

text \<open>Byte writes to the memory of words; \<^verbatim>\<open>memcpy\<close> goes up from the first byte.\<close>

definition write8 :: "u32 \<Rightarrow> u8 \<Rightarrow> paging \<Rightarrow> paging" where
  "write8 a b p =
     (let w = a AND NOT 3; sh = 8 * unat (a AND 3)
      in pmem_write w ((pmem p w AND NOT (push_bit sh 0xff)) OR push_bit sh (ucast b)) p)"

fun copy_bytes :: "u8 list \<Rightarrow> u32 \<Rightarrow> paging \<Rightarrow> paging" where
  "copy_bytes [] a p = p"
| "copy_bytes (b # bs) a p = copy_bytes bs (a + 1) (write8 a b p)"

text \<open>
  \<^verbatim>\<open>load_usermode_text\<close> reads the user page table through a kernel mapping that \<^verbatim>\<open>alloc_user_page\<close> has removed, and
  nothing in the tree flushes the translation look-aside buffer. So it matters what the CPU still has there: \<open>tlb\<close> gives, for
  kernel pages, the page table entries it holds. A read uses such an entry, else the page tables; without either it is a page fault.
\<close>

type_synonym tlb = "nat \<Rightarrow> u32 option"

definition kernel_read :: "kernel_layout \<Rightarrow> u32 \<Rightarrow> tlb \<Rightarrow> u32 \<Rightarrow> paging \<Rightarrow> u32 option" where
  "kernel_read lay cpu tlb a p =
     (let n = unat (drop_bit PAGE_SHIFT (a - KERNEL_VIRT_ADDR));
          entry = (case tlb n of None \<Rightarrow> translate (GET_CPU_PGDIR lay cpu) (pmem p) n | Some e \<Rightarrow> Some e)
      in map_option (\<lambda>e. pmem p ((e AND PAGE_MASK) + KERNEL_VIRT_ADDR + (a AND 0xFFF))) entry)"

text \<open>The first part of the result is the address of the page fault that ended the loop, if one did.\<close>

partial_function (option) load_loop ::
  "kernel_layout \<Rightarrow> u32 \<Rightarrow> tlb \<Rightarrow> u8 list \<Rightarrow> u32 \<Rightarrow> u32 \<Rightarrow> paging \<Rightarrow> (u32 option \<times> paging) option"
where
  "load_loop lay cpu tlb text pgd pte p =
     (if text = [] then Some (None, p)
      else case kernel_read lay cpu tlb pte p of
        None \<Rightarrow> Some (Some pte, p)
      | Some e \<Rightarrow> do {
          let addr = (e AND PAGE_MASK) + KERNEL_VIRT_ADDR;
          p \<leftarrow> map_kernel_linear_with_pagetable lay cpu addr PAGE_SIZE PTE_WRITE MAP_LOCAL_CPU p;
          let p = copy_bytes (take 4096 text) addr p;
          p \<leftarrow> unmap_kernel_with_pagetable lay cpu addr PAGE_SIZE MAP_LOCAL_CPU p;
          let pte = pte + 4;
          let (pgd, pte) = (if pte = ALIGN_PAGE pte then (pgd + 4, (pmem p (pgd + 4) AND PAGE_MASK) + KERNEL_VIRT_ADDR)
                            else (pgd, pte));
          load_loop lay cpu tlb (drop 4096 text) pgd pte p
        })"

definition load_usermode_text :: "kernel_layout \<Rightarrow> u32 \<Rightarrow> tlb \<Rightarrow> u8 list \<Rightarrow> paging \<Rightarrow> (u32 option \<times> paging) option" where
  "load_usermode_text lay cpu tlb text p =
     (let pgd = pgd_slot (GET_CPU_PGDIR lay cpu) USER_MODE_VIRT_TEXT
      in load_loop lay cpu tlb text pgd (pte_slot ((pmem p pgd AND PAGE_MASK) + KERNEL_VIRT_ADDR) USER_MODE_VIRT_TEXT) p)"

text \<open>\<^verbatim>\<open>page_free_user\<close> of \<^verbatim>\<open>memory.c\<close> only steps its own argument.\<close>

definition page_free_user :: "u32 \<Rightarrow> mm \<Rightarrow> mm" where
  "page_free_user addr s = (let addr = addr + 1 in s)"

text \<open>The result is the address of a page fault, or the messages printed on failure.\<close>

definition initialize_usermode ::
  "kernel_layout \<Rightarrow> u32 \<Rightarrow> tlb \<Rightarrow> u8 list \<Rightarrow> mm \<Rightarrow> paging \<Rightarrow> ((u32 + (string \<times> int list) list) \<times> mm \<times> paging) option"
where
  "initialize_usermode lay cpu tlb text s p =
     do {
       let p = clear_words 512 (GET_CPU_PGDIR lay cpu) p;
       (err, s, p) \<leftarrow> alloc_user_page lay cpu USER_MODE_VIRT_STACK USER_MODE_STACK_SIZE PTE_WRITE s p;
       if err \<noteq> 0 then Some (Inr [(''alloc_user_page failed for stack: %d %d'', [err, uint cpu])], s, p)
       else do {
         (err, s, p) \<leftarrow> alloc_user_page lay cpu USER_MODE_VIRT_TEXT (ALIGN_PAGE (of_nat (length text))) 0 s p;
         if err \<noteq> 0 then Some (Inr [(''alloc_user_page failed for text section: %d '', [err])],
                                page_free_user USER_MODE_VIRT_STACK s, p)
         else do {
           (fault, p) \<leftarrow> load_usermode_text lay cpu tlb text p;
           Some (case fault of None \<Rightarrow> Inr [] | Some a \<Rightarrow> Inl a, s, p)
         }
       }
     }"

end
