(* ===== verification/Mem_Marking.thy ===== *)
theory Mem_Marking
  imports Mem_Init
begin

text \<open>
  The marking of frames by \<^verbatim>\<open>mem_init\<close>: frames and entries of the firmware map by number, what each loop does to
  the set of frames that stay available, and the linear mappings and the cleared user half of the directory.
\<close>

section \<open>Frames by number\<close>

definition paddr :: "nat \<Rightarrow> u64" where
  "paddr i = of_nat (4096 * i)"

definition lo_page :: "e820_map \<Rightarrow> nat" where
  "lo_page e = unat (e820_base e) div 4096"

definition hi_page :: "e820_map \<Rightarrow> nat" where
  "hi_page e = (unat (e820_base e) + unat (e820_length e) + 4095) div 4096"

definition covers :: "e820_map \<Rightarrow> nat \<Rightarrow> bool" where
  "covers e i \<longleftrightarrow> lo_page e \<le> i \<and> i < hi_page e"

lemma unat_paddr: "i < 2 ^ 52 \<Longrightarrow> unat (paddr i) = 4096 * i"
  unfolding paddr_def by (subst unat_of_nat) simp

lemma paddr_Suc: "paddr i + 0x1000 = paddr (Suc i)"
  by (simp add: paddr_def)

lemma page_index_paddr: "i < 2 ^ 52 \<Longrightarrow> page_index (paddr i) = i"
  by (simp add: page_index_def unat_drop_bit_eq unat_paddr drop_bit_eq_div [where 'a = nat])

lemma paddr_less: "i < 2 ^ 52 \<Longrightarrow> j < 2 ^ 52 \<Longrightarrow> paddr i < paddr j \<longleftrightarrow> i < j"
  by (simp add: word_less_nat_alt unat_paddr)

lemma page_base64_unat: "unat (page_base64 m) = unat m div 4096 * 4096"
proof -
  have k: "(0xFFF :: u64) = mask 12" by (simp add: mask_eq_exp_minus_1)
  have "page_base64 m = push_bit 12 (drop_bit 12 m)"
    unfolding page_base64_def k by (rule bit_word_eqI) (auto simp: bit_simps)
  moreover have "unat m div 4096 * 4096 < 2 ^ 64"
    using unsigned_less [of m] by (intro le_less_trans [OF div_times_less_eq_dividend]) simp
  ultimately show ?thesis
    by (simp add: unsigned_push_bit_eq unat_drop_bit_eq drop_bit_eq_div [where 'a = nat]
        push_bit_eq_mult [where 'a = nat] take_bit_eq_mod)
qed

lemma page_base64_paddr: "page_base64 m = paddr (unat m div 4096)"
proof -
  have "unat m < 2 ^ 64" using unsigned_less [of m] by simp
  then have "unat m div 4096 < 2 ^ 52" by (simp add: less_mult_imp_div_less)
  then show ?thesis by (simp add: word_unat_eq_iff page_base64_unat unat_paddr)
qed

lemma drop_bit_unat: "unat (drop_bit 12 w) = unat w div 4096" for w :: u64
  by (simp add: unat_drop_bit_eq drop_bit_eq_div [where 'a = nat])

lemma entry_pages:
  assumes "unat (e820_base e) + unat (e820_length e) + 4095 < 2 ^ 64"
  shows "entry_pages e = hi_page e - lo_page e" "page_base64 (e820_base e) = paddr (lo_page e)"
    "lo_page e \<le> hi_page e"
proof -
  let ?b = "unat (e820_base e)" and ?l = "unat (e820_length e)"
  have s: "unat (e820_base e + e820_length e + 0xFFF) = ?b + ?l + 4095"
    using assms by (simp add: unat_word_ariths)
  show b: "page_base64 (e820_base e) = paddr (lo_page e)" by (simp add: page_base64_paddr lo_page_def)
  show le: "lo_page e \<le> hi_page e" unfolding lo_page_def hi_page_def by (rule div_le_mono) simp
  have h: "hi_page e < 2 ^ 52" using assms unfolding hi_page_def by (simp add: less_mult_imp_div_less)
  have "ALIGN_PAGE64 (e820_base e + e820_length e) = paddr (hi_page e)"
    by (simp add: ALIGN_PAGE64_def page_base64_paddr s hi_page_def)
  moreover have "unat (paddr (hi_page e) - paddr (lo_page e)) = 4096 * hi_page e - 4096 * lo_page e"
    using le h by (subst unat_sub) (simp_all add: word_le_nat_alt unat_paddr)
  ultimately show "entry_pages e = hi_page e - lo_page e"
    by (simp add: entry_pages_def b drop_bit_unat diff_mult_distrib2 [symmetric])
qed

section \<open>The state while frames are marked\<close>

text \<open>\<open>marked n A s\<close>: no frame is free yet, and exactly those of \<open>A\<close> carry no flag.\<close>

definition marked :: "nat \<Rightarrow> nat set \<Rightarrow> mm \<Rightarrow> bool" where
  "marked n A s \<longleftrightarrow>
     (\<exists>F. kpages s = map (\<lambda>i. zero_kpage\<lparr>kflags := F i\<rparr>) [0..<n] \<and>
        (\<forall>i < n. F i \<in> {0, 1, 2, 3} \<and> (F i = 0 \<longleftrightarrow> i \<in> A))) \<and>
     list_rep (links s) (\<lambda>_. []) \<and> (\<forall>k \<le> MAX_ALLOC_ORDER. free_pages_count s k = 0) \<and> (\<forall>k. alloc_order_lock s k = 0)"

lemma marked_cong: "marked n A s \<Longrightarrow> (\<And>i. i < n \<Longrightarrow> i \<in> A \<longleftrightarrow> i \<in> B) \<Longrightarrow> marked n B s"
  unfolding marked_def by blast

lemma list_rep_init_page: "list_rep st (\<lambda>_. []) \<Longrightarrow> list_rep (list_init (Page i) st) (\<lambda>_. [])"
  by (simp add: list_rep_def is_list_def list_init_def)

lemma marked_node: "marked n A s \<Longrightarrow> marked n A (init_page_node i s)"
  by (auto simp: marked_def init_page_node_def list_rep_init_page)

lemma marked_last [simp]: "marked n A (s\<lparr>kpage_last := l\<rparr>) \<longleftrightarrow> marked n A s"
  by (simp add: marked_def)

lemma marked_get:
  assumes "marked n A s" and "i < n"
  shows "\<exists>k. aget (kpages s) i = Some k \<and> (kflags k = 0 \<longleftrightarrow> i \<in> A) \<and> kflags k \<in> {0, 1, 2, 3} \<and>
     k = zero_kpage\<lparr>kflags := kflags k\<rparr>"
  using assms by (auto simp: marked_def zero_kpage_def)

lemma marked_set:
  assumes m: "marked n A s" and i: "i < n" and f: "f = KPAGE_FLAGS_RESERVED \<or> f = KPAGE_FLAGS_KERNEL"
  shows "\<exists>t. kpage_upd i (set_flag f) s = Some t \<and> marked n (A - {i}) t \<and> kpage_last t = kpage_last s \<and>
     (\<exists>k. aget (kpages t) i = Some k \<and> (kflags k AND KPAGE_FLAGS_RESERVED = 0 \<longrightarrow> f = KPAGE_FLAGS_KERNEL))"
proof -
  obtain F where F: "kpages s = map (\<lambda>i. zero_kpage\<lparr>kflags := F i\<rparr>) [0..<n]"
    "\<forall>i < n. F i \<in> {0, 1, 2, 3} \<and> (F i = 0 \<longleftrightarrow> i \<in> A)" using m by (auto simp: marked_def)
  define G where "G = F(i := F i OR f)"
  define t where "t = s\<lparr>kpages := map (\<lambda>i. zero_kpage\<lparr>kflags := G i\<rparr>) [0..<n]\<rparr>"
  have "(kpages s)[i := set_flag f (kpages s ! i)] = kpages t"
    using i by (intro nth_equalityI) (auto simp: F(1) t_def G_def set_flag_def zero_kpage_def nth_list_update)
  then have u: "kpage_upd i (set_flag f) s = Some t"
    using i by (simp add: kpage_upd_in F(1)) (simp add: t_def)
  have fi: "F i = 0 \<or> F i = 1 \<or> F i = 2 \<or> F i = 3" using F(2) i by auto
  have g: "G i \<in> {0, 1, 2, 3} \<and> G i \<noteq> 0 \<and> (G i AND KPAGE_FLAGS_RESERVED = 0 \<longrightarrow> f = KPAGE_FLAGS_KERNEL)"
    using fi f unfolding G_def flag_simps by (elim disjE) simp_all
  have "\<forall>j < n. G j \<in> {0, 1, 2, 3} \<and> (G j = 0 \<longleftrightarrow> j \<in> A - {i})"
    using F(2) g by (auto simp: G_def)
  then have "marked n (A - {i}) t" using m unfolding marked_def by (auto simp: t_def)
  moreover have "aget (kpages t) i = Some (zero_kpage\<lparr>kflags := G i\<rparr>)" using i by (simp add: t_def)
  ultimately show ?thesis using u g by (auto simp: t_def)
qed

section \<open>The marking loops\<close>

lemma mark_entry_ok:
  "marked n A s \<Longrightarrow> a + j \<le> n \<Longrightarrow> n < 2 ^ 52 \<Longrightarrow>
   \<exists>t. mark_entry ty lim j (paddr a) s = Some (paddr (a + j), t) \<and>
     marked n {i \<in> A. a \<le> i \<and> i < a + j \<longrightarrow> ty = 1 \<and> lim < paddr i} t"
proof (induction j arbitrary: a A s)
  case 0
  then show ?case by (auto intro: marked_cong)
next
  case (Suc j)
  have a: "a < n" and ix: "page_index (paddr a) = a" using Suc.prems by (simp_all add: page_index_paddr)
  let ?ok = "ty = 1 \<and> lim < paddr a"
  obtain s1 where s1: "(if ty \<noteq> 1 then kpage_upd a (set_flag KPAGE_FLAGS_RESERVED) s else Some s) = Some s1"
    "marked n (if ty \<noteq> 1 then A - {a} else A) s1"
    using marked_set [OF Suc.prems(1) a] Suc.prems(1) by (cases "ty = 1") auto
  obtain k where k: "aget (kpages s1) a = Some k" using marked_get [OF s1(2) a] by auto
  let ?P = "kflags k AND KPAGE_FLAGS_RESERVED = 0 \<and> paddr a \<le> lim"
  have res: "kflags k AND KPAGE_FLAGS_RESERVED \<noteq> 0" if "ty \<noteq> 1"
    using marked_set [OF Suc.prems(1) a, of KPAGE_FLAGS_RESERVED] s1(1) k that
    by (auto simp: flag_simps)
  obtain s2 where s2: "(if ?P then kpage_upd a (set_flag KPAGE_FLAGS_KERNEL) s1 else Some s1) = Some s2"
    "marked n ((if ty \<noteq> 1 then A - {a} else A) - (if ?P then {a} else {})) s2"
    using marked_set [OF s1(2) a, of KPAGE_FLAGS_KERNEL] s1(2) by (cases ?P) auto
  obtain k' where k': "aget (kpages s1) a = Some k'" "kflags k' = 0 \<longleftrightarrow> a \<in> (if ty \<noteq> 1 then A - {a} else A)"
    using marked_get [OF s1(2) a] by auto
  have free: "kflags k AND KPAGE_FLAGS_RESERVED = 0" if "ty = 1" "a \<in> A" using that k k' by simp
  let ?A = "(if ty \<noteq> 1 then A - {a} else A) - (if ?P then {a} else {})"
  have A: "i \<in> ?A \<longleftrightarrow> i \<in> A \<and> (i = a \<longrightarrow> ?ok)" for i
    using res free by (cases "i = a"; cases "ty = 1") (auto simp: not_less)
  obtain t where t: "mark_entry ty lim j (paddr (Suc a)) (init_page_node a s2) = Some (paddr (Suc a + j), t)"
    "marked n {i \<in> ?A. Suc a \<le> i \<and> i < Suc a + j \<longrightarrow> ty = 1 \<and> lim < paddr i} t"
    using Suc.IH [OF marked_node [OF s2(2)], of "Suc a" a] Suc.prems(2,3) by auto
  have "marked n {i \<in> A. a \<le> i \<and> i < a + Suc j \<longrightarrow> ty = 1 \<and> lim < paddr i} t"
    using t(2) by (rule marked_cong) (unfold mem_Collect_eq A, auto simp: Suc_le_eq le_less)
  moreover have "mark_entry ty lim (Suc j) (paddr a) s = Some (paddr (a + Suc j), t)"
    by (simp only: mark_entry.simps ix s1(1) s2(1) k paddr_Suc t(1) Option.bind.simps) simp
  ultimately show ?case by blast
qed

lemma mark_gap_ok:
  "marked n A s \<Longrightarrow> b \<le> n \<Longrightarrow> a \<le> n \<Longrightarrow> n < 2 ^ 52 \<Longrightarrow>
   \<exists>t. mark_gap (paddr a) (paddr b) s = Some (paddr (max a b), t) \<and> marked n (A - {a..<b}) t"
proof (induction "b - a" arbitrary: a A s)
  case 0
  then have "\<not> paddr a < paddr b" by (simp add: paddr_less)
  then show ?case using 0 by (subst mark_gap.simps) (auto simp: max_def intro: marked_cong)
next
  case (Suc d)
  have a: "a < n" "a < b" and ix: "page_index (paddr a) = a" using Suc by (simp_all add: page_index_paddr)
  have d: "d = b - Suc a" using Suc.hyps(2) by simp
  have lt: "paddr a < paddr b" using a Suc.prems by (simp add: paddr_less)
  obtain s1 where s1: "kpage_upd a (set_flag KPAGE_FLAGS_RESERVED) s = Some s1" "marked n (A - {a}) s1"
    using marked_set [OF Suc.prems(1) a(1)] by blast
  obtain t where t: "mark_gap (paddr (Suc a)) (paddr b) (init_page_node a s1) = Some (paddr (max (Suc a) b), t)"
    "marked n (A - {a} - {Suc a..<b}) t"
    using Suc.hyps(1) [OF d marked_node [OF s1(2)], of a] Suc.prems(2,4) a by auto
  have "marked n (A - {a..<b}) t" using t(2) by (rule marked_cong) (use a in auto)
  then show ?case
    using s1(1) t(1) lt a by (subst mark_gap.simps) (auto simp: ix paddr_Suc max_def)
qed

text \<open>Sorted maps: entries may share a page with their neighbour, but none reaches past a later one.\<close>

definition sorted_map :: "e820_map list \<Rightarrow> bool" where
  "sorted_map es \<longleftrightarrow>
     sorted_wrt (\<lambda>e e'. lo_page e \<le> lo_page e' \<and> hi_page e \<le> hi_page e') es \<and>
     (\<forall>e \<in> set es. lo_page e < hi_page e)"

fun gaps :: "e820_map list \<Rightarrow> nat set" where
  "gaps (e # e' # es) = {hi_page e..<lo_page e'} \<union> gaps (e' # es)"
| "gaps es = {}"

lemma sorted_mapD:
  assumes "sorted_map (e # es)"
  shows "sorted_map es" "lo_page e < hi_page e" "\<And>x. x \<in> set es \<Longrightarrow> lo_page e \<le> lo_page x \<and> hi_page e \<le> hi_page x"
  using assms by (auto simp: sorted_map_def)

lemma sorted_map_last: "sorted_map es \<Longrightarrow> e \<in> set es \<Longrightarrow> hi_page e \<le> hi_page (last es)"
proof (induction es)
  case (Cons x es)
  then show ?case using sorted_mapD [OF Cons.prems(1)] by (cases es) (auto intro: order_trans)
qed simp

lemma gaps_uncovered:
  "es \<noteq> [] \<Longrightarrow> sorted_map es \<Longrightarrow>
   i \<in> gaps es \<longleftrightarrow> lo_page (hd es) \<le> i \<and> i < hi_page (last es) \<and> (\<forall>e \<in> set es. \<not> covers e i)"
proof (induction es rule: gaps.induct)
  case (1 e e' es)
  note s = sorted_mapD [OF 1(3)]
  note s' = sorted_mapD [OF s(1)]
  have l: "hi_page e' \<le> hi_page (last (e' # es))" using sorted_map_last [OF s(1)] by simp
  have ab: "lo_page e \<le> lo_page e'" "hi_page e \<le> hi_page e'" using s(3) [of e'] by simp_all
  have IH: "i \<in> gaps (e' # es) \<longleftrightarrow> lo_page e' \<le> i \<and> i < hi_page (last (e' # es)) \<and> (\<forall>x \<in> set (e' # es). \<not> covers x i)"
    using 1(1) s(1) by simp
  have c: "\<not> covers x i" if "x \<in> set (e' # es)" "i < lo_page e'" for x
    using that s'(3) [of x] by (auto simp: covers_def)
  have d: "\<not> covers e i" if "\<not> covers e' i" "lo_page e' \<le> i"
    using that ab by (auto simp: covers_def)
  show ?case
  proof (cases "i < lo_page e'")
    case True
    then have "i \<notin> gaps (e' # es)" using IH by simp
    then have "i \<in> gaps (e # e' # es) \<longleftrightarrow> hi_page e \<le> i" using True by simp
    also have "\<dots> \<longleftrightarrow> lo_page e \<le> i \<and> \<not> covers e i" using s(2) by (auto simp: covers_def)
    finally show ?thesis using c True l s(2) s'(2) by auto
  next
    case False
    then have "i \<in> gaps (e # e' # es) \<longleftrightarrow> i \<in> gaps (e' # es)" by simp
    then show ?thesis using IH False d ab by auto
  qed
qed (auto simp: covers_def)

definition small_entry :: "e820_map \<Rightarrow> bool" where
  "small_entry e \<longleftrightarrow> unat (e820_base e) + unat (e820_length e) + 4095 < 2 ^ 64"

lemma mark_entries_ok:
  assumes n: "n < 2 ^ 52" and nr: "unat nr = n"
  shows "es \<noteq> [] \<Longrightarrow> sorted_map es \<Longrightarrow> \<forall>e \<in> set es. small_entry e \<Longrightarrow> hi_page (last es) = n \<Longrightarrow>
    \<forall>e \<in> set (butlast es). hi_page e < n \<Longrightarrow> a < n \<Longrightarrow> marked n A s \<Longrightarrow>
    \<exists>t. mark_entries nr lim (paddr a) es s = Some (paddr n, t) \<and>
      marked n {i \<in> A. i \<notin> gaps es \<and> (\<forall>e \<in> set es. covers e i \<longrightarrow> e820_type e = 1 \<and> lim < paddr i)} t"
proof (induction es arbitrary: a A s)
  case (Cons e es)
  note sm = sorted_mapD [OF Cons.prems(2)]
  have small: "unat (e820_base e) + unat (e820_length e) + 4095 < 2 ^ 64" using Cons.prems(3) by (simp add: small_entry_def)
  note ep = entry_pages [OF small]
  have hn: "hi_page e \<le> n" using sorted_map_last [OF Cons.prems(2), of e] Cons.prems(4) by simp
  have cond: "drop_bit 12 (paddr a) < nr"
    using Cons.prems(6) n by (simp add: word_less_nat_alt drop_bit_unat unat_paddr nr)
  let ?B = "{i \<in> A. covers e i \<longrightarrow> e820_type e = 1 \<and> lim < paddr i}"
  obtain s1 where s1: "mark_entry (e820_type e) lim (entry_pages e) (page_base64 (e820_base e)) s = Some (paddr (hi_page e), s1)"
    "marked n ?B s1"
    using mark_entry_ok [OF Cons.prems(7), of "lo_page e" "hi_page e - lo_page e" "e820_type e" lim] ep hn n
    by (auto simp: covers_def)
  show ?case
  proof (cases es)
    case Nil
    then have "hi_page e = n" using Cons.prems(4) by simp
    then show ?thesis using s1 cond Nil by (auto simp: Let_def)
  next
    case (Cons e' es')
    have l: "lo_page e' < n" using sorted_map_last [OF sm(1), of e'] sorted_mapD(2) [OF sm(1) [unfolded Cons]] Cons Cons.prems(4) by auto
    have small': "unat (e820_base e') + unat (e820_length e') + 4095 < 2 ^ 64" using Cons Cons.prems(3) by (simp add: small_entry_def)
    have h: "hi_page e < n" using Cons Cons.prems(5) by simp
    obtain s2 where s2: "mark_gap (paddr (hi_page e)) (paddr (lo_page e')) s1 = Some (paddr (max (hi_page e) (lo_page e')), s2)"
      "marked n (?B - {hi_page e..<lo_page e'}) s2"
      using mark_gap_ok [OF s1(2), of "lo_page e'" "hi_page e"] l h n by auto
    have g: "\<exists>s3. (if page_base64 (e820_base e') \<noteq> paddr (hi_page e) then mark_gap (paddr (hi_page e)) (page_base64 (e820_base e')) s1
         else Some (paddr (hi_page e), s1)) = Some (paddr (max (hi_page e) (lo_page e')), s3) \<and>
       marked n (?B - {hi_page e..<lo_page e'}) s3"
    proof (cases "lo_page e' = hi_page e")
      case True
      then show ?thesis using s1(2) by (auto simp: entry_pages(2) [OF small'] intro: marked_cong)
    next
      case False
      then have "paddr (lo_page e') \<noteq> paddr (hi_page e)" using l h n
        by (auto simp: word_unat_eq_iff unat_paddr)
      then show ?thesis using s2 by (auto simp: entry_pages(2) [OF small'])
    qed
    then obtain s3 where s3: "(if page_base64 (e820_base e') \<noteq> paddr (hi_page e) then mark_gap (paddr (hi_page e)) (page_base64 (e820_base e')) s1
         else Some (paddr (hi_page e), s1)) = Some (paddr (max (hi_page e) (lo_page e')), s3)"
       "marked n (?B - {hi_page e..<lo_page e'}) s3" by blast
    obtain t where t: "mark_entries nr lim (paddr (max (hi_page e) (lo_page e'))) es s3 = Some (paddr n, t)"
      "marked n {i \<in> ?B - {hi_page e..<lo_page e'}. i \<notin> gaps es \<and>
         (\<forall>e \<in> set es. covers e i \<longrightarrow> e820_type e = 1 \<and> lim < paddr i)} t"
      using Cons.IH [OF _ sm(1) _ _ _ _ s3(2), of "max (hi_page e) (lo_page e')"] Cons Cons.prems(3-5) l h by auto
    have "mark_entries nr lim (paddr a) (e # es) s = Some (paddr n, t)"
      using cond s1(1) s3(1) t(1) Cons by (simp del: mark_entries.simps(2) mark_entry.simps) (subst mark_entries.simps(2), simp)
    moreover have "marked n {i \<in> A. i \<notin> gaps (e # es) \<and> (\<forall>e \<in> set (e # es). covers e i \<longrightarrow> e820_type e = 1 \<and> lim < paddr i)} t"
      using t(2) by (rule marked_cong) (auto simp: Cons)
    ultimately show ?thesis by blast
  qed
qed simp

section \<open>The lists and the reserved ranges\<close>

lemma init_lists_prefix:
  "\<exists>t. fold (\<lambda>i s. s\<lparr>links := list_init (Head i) (links s),
       free_pages_count := (free_pages_count s)(i := 0), alloc_order_lock := (alloc_order_lock s)(i := 0)\<rparr>) [0..<m] s = t \<and>
     (\<forall>i < m. is_list (links t) (Head i) [] \<and> free_pages_count t i = 0 \<and> alloc_order_lock t i = 0) \<and>
     (\<forall>i \<ge> m. alloc_order_lock t i = alloc_order_lock s i)"
  by (induction m) (auto simp: is_list_def list_init_def less_Suc_eq)

lemma init_lists_marked:
  assumes "\<forall>k > MAX_ALLOC_ORDER. alloc_order_lock s k = 0"
  shows "marked n {..<n} ((init_lists s)\<lparr>kpages := replicate n zero_kpage\<rparr>)"
proof -
  let ?t = "init_lists s"
  have t: "\<forall>i < Suc MAX_ALLOC_ORDER. is_list (links ?t) (Head i) [] \<and> free_pages_count ?t i = 0 \<and> alloc_order_lock ?t i = 0"
    "\<forall>i \<ge> Suc MAX_ALLOC_ORDER. alloc_order_lock ?t i = alloc_order_lock s i"
    using init_lists_prefix [of "Suc MAX_ALLOC_ORDER" s] unfolding init_lists_def by blast+
  have "list_rep (links ?t) (\<lambda>_. [])" using t(1) by (simp add: list_rep_def)
  moreover have "alloc_order_lock ?t k = 0" for k using t assms by (cases "k < Suc MAX_ALLOC_ORDER") auto
  moreover have "replicate n zero_kpage = map (\<lambda>i. zero_kpage\<lparr>kflags := (\<lambda>_. 0) i\<rparr>) [0..<n]"
    by (intro nth_equalityI) (simp_all add: zero_kpage_def)
  ultimately show ?thesis using t(1) by (fastforce simp: marked_def)
qed

lemma flag_pages_ok:
  "marked n A s \<Longrightarrow> \<forall>i \<in> set is. i < n \<Longrightarrow> f = KPAGE_FLAGS_RESERVED \<or> f = KPAGE_FLAGS_KERNEL \<Longrightarrow>
   \<exists>t. flag_pages f is s = Some t \<and> marked n (A - set is) t \<and> kpage_last t = kpage_last s"
proof (induction "is" arbitrary: A s)
  case (Cons i js)
  obtain s1 where s1: "kpage_upd i (set_flag f) s = Some s1" "marked n (A - {i}) s1" "kpage_last s1 = kpage_last s"
    using marked_set [OF Cons.prems(1) _ Cons.prems(3), of i] Cons.prems(2) by auto
  have "A - {i} - set js = A - set (i # js)" by auto
  then show ?case using Cons.IH [OF s1(2)] Cons.prems(2,3) s1 by auto
qed (auto intro: marked_cong)

lemma legacy_ranges:
  "page_range 0x80000 0x9ffff = [0x80..<0xa0]" "page_range 0xa0000 0xbffff = [0xa0..<0xc0]"
  "page_range 0xc0000 0xc7fff = [0xc0..<0xc8]" "page_range 0xc8000 0xeffff = [0xc8..<0xf0]"
  "page_range 0xf0000 0xfffff = [0xf0..<0x100]"
  by (simp_all add: page_range_def ALIGN_PAGE_def PAGE_SHIFT_def PAGE_SIZE_def PAGE_MASK_def)

lemma flag_pages_append: "flag_pages f xs s \<bind> flag_pages f ys = flag_pages f (xs @ ys) s"
proof (induction xs arbitrary: s)
  case (Cons x xs)
  then show ?case by (cases "kpage_upd x (set_flag f) s") simp_all
qed simp

lemma reserve_legacy_ok:
  assumes m: "marked n A s" and n: "0x100 \<le> n"
  shows "\<exists>t. reserve_legacy s = Some t \<and> marked n (A - insert 0 {0x80..<0x100}) t \<and> kpage_last t = kpage_last s"
proof -
  let ?is = "[0] @ [0x80..<0xa0] @ [0xa0..<0xc0] @ [0xc0..<0xc8] @ [0xc8..<0xf0] @ [0xf0..<0x100]"
  have "set ?is = insert 0 {0x80..<0x100}" by (auto simp del: upt_rec_numeral)
  then show ?thesis
    using flag_pages_ok [OF m _ disjI1 [OF refl], of ?is] n
    by (simp only: reserve_legacy_def legacy_ranges flag_pages_append) (auto simp del: upt_rec_numeral)
qed

text \<open>The pages of the start-up code are mapped at their own address, below the kernel: nothing is written.\<close>

lemma low_map: "v < KERNEL_VIRT_ADDR \<Longrightarrow> map_kernel_linear_with_pagetable lay cpu v l fl mf p = Some p"
  by (simp add: map_kernel_linear_with_pagetable_def map_kernel_with_pagetable_def)

lemma map_ap_pages_ok:
  "marked n A s \<Longrightarrow> \<forall>i \<in> set is. i < n \<and> i < 2 ^ 19 \<Longrightarrow>
   \<exists>t. map_ap_pages lay cpu is s p = Some (t, p) \<and> marked n (A - set is) t \<and> kpage_last t = kpage_last s"
proof (induction "is" arbitrary: A s)
  case (Cons i js)
  obtain s1 where s1: "kpage_upd i (set_flag KPAGE_FLAGS_KERNEL) s = Some s1" "marked n (A - {i}) s1" "kpage_last s1 = kpage_last s"
    using marked_set [OF Cons.prems(1), of i KPAGE_FLAGS_KERNEL] Cons.prems(2) by auto
  have i: "i < 2 ^ 19" using Cons.prems(2) by simp
  have "of_nat (4096 * i) < (KERNEL_VIRT_ADDR :: u32)"
    unfolding KERNEL_VIRT_ADDR_def word_less_nat_alt by (subst unat_of_nat) (use i in simp)
  note low = low_map [OF this]
  have "A - {i} - set js = A - set (i # js)" by auto
  then show ?case using Cons.IH [OF s1(2)] Cons.prems(2) s1 low by auto
qed (auto intro: marked_cong)


section \<open>Linear mappings\<close>

definition linear_entry :: "nat \<Rightarrow> u32" where
  "linear_entry k = of_nat (4096 * k) OR (PTE_PRESENT OR PTE_WRITE)"

lemma linear_flags: "(PTE_PRESENT OR PTE_WRITE) OR PTE_PRESENT = PTE_PRESENT OR PTE_WRITE"
  by (simp add: flag_simps)

lemma map_linear_ok:
  assumes ok: "layout_ok lay (master_kernel_pg_dir lay)" and cpu: "unat cpu < 32"
    and s: "locks_free p" "pg_inv lay (master_kernel_pg_dir lay) (pmem p)"
    and v: "KERNEL_VIRT_ADDR \<le> v" "unat v + unat len \<le> 2 ^ 32 - 4096"
  shows "\<exists>q. map_kernel_linear_with_pagetable lay cpu v len (PTE_PRESENT OR PTE_WRITE) 0 p = Some q \<and> locks_free q \<and>
     pg_inv lay (master_kernel_pg_dir lay) (pmem q) \<and>
     (\<forall>k < 2 ^ 19. pmem q (pte_at lay k) =
        (if first_page v \<le> k \<and> k < end_page v len then linear_entry k else pmem p (pte_at lay k)))"
proof -
  have dir: "master_kernel_pg_dir lay = pgdir_for lay cpu 0" by (simp add: pgdir_for_def)
  have u: "(0 :: u32) AND MAP_USER = 0" by simp
  have d: "unat (v - KERNEL_VIRT_ADDR) = unat v - 2 ^ 31"
    using v(1) by (subst unat_sub) (simp_all add: KERNEL_VIRT_ADDR_def)
  have b: "unat v - 2 ^ 31 < 2 ^ 31" using v(2) by simp
  have "unat v - 2 ^ 31 < 2 ^ 32" using b by simp
  then have "first_page v * 4096 < 2 ^ 32"
    unfolding first_page_def by (rule le_less_trans [OF div_times_less_eq_dividend])
  then have phys: "(v - KERNEL_VIRT_ADDR) AND PAGE_MASK = of_nat (4096 * first_page v)"
    unfolding word_unat_eq_iff unat_page_mask d by (subst unat_of_nat) (simp add: first_page_def mult.commute)
  have e: "of_nat (4096 * first_page v) + of_nat (4096 * (k - first_page v)) = (of_nat (4096 * k) :: u32)"
    if "first_page v \<le> k" for k
    using that by (simp flip: of_nat_add distrib_left del: of_nat_mult)
  show ?thesis
    using map_range [OF ok dir u cpu s v, of "v - KERNEL_VIRT_ADDR" "PTE_PRESENT OR PTE_WRITE"]
    unfolding map_kernel_linear_with_pagetable_def phys linear_flags linear_entry_def
    by (elim exE conjE) (auto simp: e simp del: of_nat_mult cong: if_cong)
qed

lemma freed_page:
  assumes ok: "layout_ok lay dir" and s: "locks_free p" "pg_inv lay dir (pmem p)" and i: "i < 2 ^ 19"
  shows "locks_free (pmem_write (pte_at lay i) 0 p)" "pg_inv lay dir (pmem (pmem_write (pte_at lay i) 0 p))"
    "k < 2 ^ 19 \<Longrightarrow> pmem (pmem_write (pte_at lay i) 0 p) (pte_at lay k) = (if k = i then 0 else pmem p (pte_at lay k))"
  using s unmap_page_inv [OF ok s(2) i] pte_at_inj [OF ok _ i, of k] by simp_all

text \<open>Clearing the user half of the directory leaves the kernel half and the tables alone.\<close>

lemma clear_words_apart:
  "(\<And>j. j < n \<Longrightarrow> x \<noteq> a + of_nat (4 * j)) \<Longrightarrow> pmem (clear_words n a p) x = pmem p x"
proof (induction n arbitrary: a p)
  case (Suc n)
  have "x \<noteq> a + 4 + of_nat (4 * j)" if "j < n" for j using Suc.prems [of "Suc j"] that by (simp add: add.assoc)
  moreover have "x \<noteq> a" using Suc.prems [of 0] by simp
  ultimately show ?case using Suc.IH [of "a + 4"] by simp
qed simp

lemma clear_words_zero:
  "n < 2 ^ 30 \<Longrightarrow> j < n \<Longrightarrow> pmem (clear_words n a p) (a + of_nat (4 * j)) = 0"
proof (induction n arbitrary: a p j)
  case (Suc n)
  show ?case
  proof (cases j)
    case 0
    have "a \<noteq> a + 4 + of_nat (4 * k)" if "k < n" for k
    proof
      assume "a = a + 4 + of_nat (4 * k)"
      then have "of_nat (4 * Suc k) = (0 :: u32)" by (simp add: add.assoc)
      then have "unat (of_nat (4 * Suc k) :: u32) = 0" by simp
      then show False using that Suc.prems(1) by (subst (asm) unat_of_nat) simp
    qed
    then show ?thesis using clear_words_apart [of n a "a + 4" "pmem_write a 0 p"] 0 by simp
  next
    case (Suc k)
    then show ?thesis using Suc.IH [of k "a + 4" "pmem_write a 0 p"] Suc.prems by (simp add: add.assoc)
  qed
qed simp

lemma clear_words_locks: "locks_free (clear_words n a p) \<longleftrightarrow> locks_free p"
  by (induction n arbitrary: a p) simp_all

lemma clear_user_half:
  assumes ok: "layout_ok lay dir" and inv: "pg_inv lay dir (pmem p)"
  shows "pg_inv lay dir (pmem (clear_words 512 dir p))"
    "k < 2 ^ 19 \<Longrightarrow> pmem (clear_words 512 dir p) (pte_at lay k) = pmem p (pte_at lay k)"
proof -
  have u: "unat (dir + of_nat (4 * j)) = unat dir + 4 * j" if "j < 512" for j
    using ok that by (intro unat_add_of_nat) (simp add: layout_ok_def)
  have pg: "pmem (clear_words 512 dir p) (pgd_at dir i) = pmem p (pgd_at dir i)" if "i < 512" for i
    using u unat_pgd_at [OF ok that] by (intro clear_words_apart) (auto simp: word_unat_eq_iff simp del: of_nat_mult)
  have pt: "pmem (clear_words 512 dir p) (pte_at lay k) = pmem p (pte_at lay k)" if "k < 2 ^ 19" for k
    using u unat_pte_at [OF ok that] ok that
    by (intro clear_words_apart) (fastforce simp: word_unat_eq_iff layout_ok_def simp del: of_nat_mult)
  show "k < 2 ^ 19 \<Longrightarrow> pmem (clear_words 512 dir p) (pte_at lay k) = pmem p (pte_at lay k)" by (rule pt)
  show "pg_inv lay dir (pmem (clear_words 512 dir p))"
    using inv unfolding pg_inv_def Let_def by (simp add: pg pt)
qed

end
