(* ===== verification/Mem_Init_Props.thy ===== *)
theory Mem_Init_Props
  imports Mem_Marking
begin

text \<open>
  What \<^verbatim>\<open>mem_init\<close> leaves behind: the loop that gives the unmarked frames to the allocator and unmaps them, the
  addresses and mappings it computes, and the state after it as a whole.
\<close>

section \<open>The loop that frees\<close>

text \<open>Frames below \<open>a\<close> are dealt with: those of \<open>B\<close> are free; the descriptors from \<open>a\<close> on are as marked.\<close>

definition initial :: "bool \<Rightarrow> kpage \<Rightarrow> bool" where
  "initial free k \<longleftrightarrow> k = zero_kpage\<lparr>kflags := kflags k\<rparr> \<and> kflags k \<in> {0, 1, 2, 3} \<and> (kflags k = 0 \<longleftrightarrow> free)"

definition pending :: "nat \<Rightarrow> nat set \<Rightarrow> nat \<Rightarrow> mm \<Rightarrow> bool" where
  "pending n B a s \<longleftrightarrow>
     mm_free s (B \<inter> {..<a}) \<and> Suc (kpage_last s) = n \<and> length (kpages s) = n \<and>
     (\<forall>i. a \<le> i \<and> i < n \<longrightarrow> initial (i \<in> B) (kpages s ! i))"

lemma no_buddy_bit: "f \<in> {0, 1, 2, 3} \<Longrightarrow> f AND KPAGE_FLAGS_FREE_BUDDY = 0" for f :: u8
  by (auto simp: flag_simps)

lemma marked_nth:
  assumes "marked n B s"
  shows "length (kpages s) = n"
    "i < n \<Longrightarrow> initial (i \<in> B) (kpages s ! i)"
  using assms by (auto simp: marked_def initial_def zero_kpage_def)

lemma marked_pending:
  assumes m: "marked n B s" and n: "Suc (kpage_last s) = n"
  shows "pending n B 0 s"
proof -
  note l = marked_nth(1) [OF m] and nth = marked_nth(2) [OF m, unfolded initial_def]
  have k: "klock (kpages s ! i) = 0" if "i < n" for i
    using conjunct1 [OF nth [OF that]] by (metis kpage.select_convs(5) kpage.update_convs(2) zero_kpage_def)
  have b: "kflags (kpages s ! i) AND KPAGE_FLAGS_FREE_BUDDY = 0" if "i < n" for i
    using nth [OF that] no_buddy_bit by blast
  define d where "d k = free_pages_count s k" for k
  have "mm_core d s (\<lambda>_. [])"
    by (rule mm_coreI) (use m n l k b in \<open>auto simp: marked_def d_def wf_lists_def\<close>)
  then have "mm_inv d s (\<lambda>_. [])" using m by (simp add: mm_inv_def marked_def)
  moreover have "coalesced (\<lambda>_. [])" by (simp add: coalesced_def)
  moreover have "free_set (\<lambda>_. []) = B \<inter> {..<0}" by (simp add: free_set_def)
  ultimately have "mm_free s (B \<inter> {..<0})" unfolding mm_free_def by blast
  then show ?thesis using n l marked_nth(2) [OF m] by (simp add: pending_def)
qed

lemma pending_fields:
  assumes "pending n B a s" and "a < n"
  shows "kpage_upd a (\<lambda>k. k\<lparr>klock := 0\<rparr>) s = Some s" "kpage_upd a (\<lambda>k. k\<lparr>korder := 0\<rparr>) s = Some s"
    "aget (kpages s) a = Some (kpages s ! a)" "kpage_is_free (kpages s ! a) \<longleftrightarrow> a \<in> B" "korder (kpages s ! a) = 0"
proof -
  define f where "f = kflags (kpages s ! a)"
  have i: "initial (a \<in> B) (kpages s ! a)" and l: "a < length (kpages s)" using assms by (simp_all add: pending_def)
  have k: "kpages s ! a = zero_kpage\<lparr>kflags := f\<rparr>"
    and f: "f \<in> {0, 1, 2, 3}" "f = 0 \<longleftrightarrow> a \<in> B"
    using i unfolding initial_def f_def by blast+
  have "(kpages s ! a)\<lparr>klock := 0\<rparr> = kpages s ! a" "(kpages s ! a)\<lparr>korder := 0\<rparr> = kpages s ! a"
    by (simp_all add: k zero_kpage_def)
  then show "kpage_upd a (\<lambda>k. k\<lparr>klock := 0\<rparr>) s = Some s" "kpage_upd a (\<lambda>k. k\<lparr>korder := 0\<rparr>) s = Some s"
    using l by (simp_all add: kpage_upd_in)
  show "aget (kpages s) a = Some (kpages s ! a)" using l by simp
  show "korder (kpages s ! a) = 0" by (simp add: k zero_kpage_def)
  have "f = 0 \<or> f = 1 \<or> f = 2 \<or> f = 3" using f(1) by auto
  then show "kpage_is_free (kpages s ! a) \<longleftrightarrow> a \<in> B"
    unfolding kpage_is_free_def k f(2) [symmetric] by (elim disjE) (simp_all add: flag_simps)
qed

lemma pending_skip: "pending n B a s \<Longrightarrow> a \<notin> B \<Longrightarrow> pending n B (Suc a) s"
  by (simp add: pending_def lessThan_Suc)

lemma pending_add:
  assumes s: "pending n B a s" and a: "a < n" "a \<in> B"
  shows "\<exists>t. page_add_to_slot a (Some a) s = Some t \<and> pending n B (Suc a) t"
proof -
  have n: "Suc (kpage_last s) = n" "length (kpages s) = n" using s by (simp_all add: pending_def)
  obtain d L where L: "mm_inv d s L" "coalesced L" "free_set L = B \<inter> {..<a}"
    using s by (auto simp: pending_def mm_free_def)
  have ok: "block_ok (Suc (kpage_last s)) 0 a L"
    using a n L(3) by (auto simp: block_ok_def block_def)
  obtain t where t: "page_add_to_slot a (Some a) s = Some t" "mm_inv d t (coalesce 0 a L)"
      "framed (free_set L \<union> block 0 a) s t"
    using page_add_to_slot_ok [OF L(1) ok, of "Some a"] pending_fields(5) [OF s a(1)] a n L(3) by auto
  note fr = framedD [OF t(3)]
  have "free_set (coalesce 0 a L) = B \<inter> {..<Suc a}" "coalesced (coalesce 0 a L)"
    using coalesce_ok [OF mm_coreD(2) [OF mm_invD(1) [OF L(1)]] ok] L a by (auto simp: block_def lessThan_Suc)
  then have "mm_free t (B \<inter> {..<Suc a})" using t(2) unfolding mm_free_def by blast
  moreover have "kpages t ! i = kpages s ! i" if "Suc a \<le> i" "i < n" for i
    using fr(5) [of i] that n L(3) by (auto simp: block_def)
  ultimately show ?thesis using s t(1) n fr(1,2) by (simp add: pending_def)
qed

lemma free_loop_ok:
  assumes ok: "layout_ok lay dir" and B: "B \<subseteq> {..<2 ^ 19}"
  shows "pending n B a s \<Longrightarrow> a \<le> n \<Longrightarrow> locks_free p \<Longrightarrow> pg_inv lay dir (pmem p) \<Longrightarrow>
    \<exists>t q. free_loop lay [a..<n] s p = Some (t, q) \<and> mm_free t (B \<inter> {..<n}) \<and> Suc (kpage_last t) = n \<and> locks_free q \<and> pg_inv lay dir (pmem q) \<and>
      (\<forall>k < 2 ^ 19. pmem q (pte_at lay k) = (if k \<in> B \<and> a \<le> k \<and> k < n then 0 else pmem p (pte_at lay k)))"
proof (induction "n - a" arbitrary: a s p)
  case 0
  then show ?case by (auto simp: pending_def)
next
  case (Suc d)
  have a: "a < n" and d: "d = n - Suc a" using Suc.hyps(2) by simp_all
  note pf = pending_fields [OF Suc.prems(1) a]
  show ?case
  proof (cases "a \<in> B")
    case True
    then have i: "a < 2 ^ 19" using B by auto
    obtain s1 where s1: "page_add_to_slot a (Some a) s = Some s1" "pending n B (Suc a) s1"
      using pending_add [OF Suc.prems(1) a True] by blast
    note fp = freed_page [OF ok Suc.prems(3,4) i]
    obtain t q where tq: "free_loop lay [Suc a..<n] s1 (pmem_write (pte_at lay a) 0 p) = Some (t, q)" "mm_free t (B \<inter> {..<n})"
      "Suc (kpage_last t) = n" "locks_free q" "pg_inv lay dir (pmem q)"
      "\<And>k. k < 2 ^ 19 \<Longrightarrow> pmem q (pte_at lay k) = (if k \<in> B \<and> Suc a \<le> k \<and> k < n then 0
         else pmem (pmem_write (pte_at lay a) 0 p) (pte_at lay k))"
      using Suc.hyps(1) [OF d s1(2) _ fp(1,2)] a by auto
    have "free_loop lay [a..<n] s p = Some (t, q)"
      using tq(1) pf s1(1) True a by (simp add: upt_conv_Cons pte_at_def del: upt_Suc of_nat_mult)
    moreover have "pmem q (pte_at lay k) = (if k \<in> B \<and> a \<le> k \<and> k < n then 0 else pmem p (pte_at lay k))" if "k < 2 ^ 19" for k
      using tq(6) [OF that] fp(3) [OF that] True a by (simp add: Suc_le_eq le_less)
    ultimately show ?thesis using tq(2-5) by blast
  next
    case False
    have "\<exists>t q. free_loop lay [Suc a..<n] s p = Some (t, q) \<and> mm_free t (B \<inter> {..<n}) \<and> Suc (kpage_last t) = n \<and> locks_free q \<and> pg_inv lay dir (pmem q) \<and>
      (\<forall>k < 2 ^ 19. pmem q (pte_at lay k) = (if k \<in> B \<and> Suc a \<le> k \<and> k < n then 0 else pmem p (pte_at lay k)))"
      using Suc.hyps(1) [OF d pending_skip [OF Suc.prems(1) False] _ Suc.prems(3,4)] a by simp
    then obtain t q where tq: "free_loop lay [Suc a..<n] s p = Some (t, q)" "mm_free t (B \<inter> {..<n})" "Suc (kpage_last t) = n" "locks_free q" "pg_inv lay dir (pmem q)"
      "\<And>k. k < 2 ^ 19 \<Longrightarrow> pmem q (pte_at lay k) = (if k \<in> B \<and> Suc a \<le> k \<and> k < n then 0 else pmem p (pte_at lay k))" by blast
    have "k \<in> B \<and> Suc a \<le> k \<and> k < n \<longleftrightarrow> k \<in> B \<and> a \<le> k \<and> k < n" for k using False by (auto simp: Suc_le_eq le_less)
    then show ?thesis using tq a False pf by (auto simp: upt_conv_Cons simp del: upt_Suc)
  qed
qed

section \<open>mem_init\<close>

text \<open>
  A firmware map as \<^verbatim>\<open>mem_init\<close> expects it: it starts at address 0, its entries are not empty and
  sorted, only the last one reaches the end, which is at most 4 GiB, and the usable memory lies in the 2 GiB that the
  kernel maps.
\<close>

definition map_end :: "e820_map list \<Rightarrow> nat" where
  "map_end es = unat (e820_base (last es)) + unat (e820_length (last es))"

definition map_pages :: "e820_map list \<Rightarrow> nat" where
  "map_pages es = hi_page (last es)"

definition memory_map :: "e820_map list \<Rightarrow> bool" where
  "memory_map es \<longleftrightarrow>
     es \<noteq> [] \<and> sorted_map es \<and> lo_page (hd es) = 0 \<and> (\<forall>e \<in> set (butlast es). hi_page e < map_pages es) \<and>
     0x100 \<le> map_pages es \<and> map_pages es \<le> 2 ^ 20 \<and> (\<forall>e \<in> set es. e820_type e = 1 \<longrightarrow> hi_page e \<le> 2 ^ 19)"

definition tables_needed :: "nat \<Rightarrow> nat \<Rightarrow> nat" where
  "tables_needed mem_end mapped = (mem_end + 0x3FFFFF) div 2 ^ 22 - (mapped + 0x3FFFFF) div 2 ^ 22"

text \<open>The first frame behind the \<^verbatim>\<open>kpage\<close> array.\<close>

definition data_page :: "e820_map list \<Rightarrow> nat \<Rightarrow> nat" where
  "data_page es mapped = (mapped + 4096 * tables_needed (map_end es) mapped + 24 * map_pages es + 4095) div 4096"

definition ap_end :: "u32 \<Rightarrow> nat" where
  "ap_end ap_size = (0x7c00 + unat ap_size + 4095) div 4096"

text \<open>The frames \<^verbatim>\<open>mem_init\<close> gives to the allocator.\<close>

definition available :: "e820_map list \<Rightarrow> nat \<Rightarrow> u32 \<Rightarrow> nat set" where
  "available es mapped ap_size =
     {i. (\<exists>e \<in> set es. covers e i) \<and> (\<forall>e \<in> set es. covers e i \<longrightarrow> e820_type e = 1) \<and> data_page es mapped < i \<and>
         i \<notin> {0, 2} \<and> \<not> (7 \<le> i \<and> i < ap_end ap_size) \<and> \<not> (0x80 \<le> i \<and> i < 0x100)}"

lemma memory_map_bound: "memory_map es \<Longrightarrow> map_end es \<le> 2 ^ 32"
proof -
  assume "memory_map es"
  then have "(map_end es + 4095) div 4096 \<le> 2 ^ 20" by (simp add: memory_map_def map_pages_def hi_page_def map_end_def)
  then have "(map_end es + 4095) div 4096 < 2 ^ 20 + 1" by simp
  then show ?thesis by (simp add: div_less_iff_less_mult)
qed

lemma memory_map_small: "memory_map es \<Longrightarrow> e \<in> set es \<Longrightarrow> small_entry e"
proof -
  assume m: "memory_map es" and e: "e \<in> set es"
  have "hi_page e \<le> map_pages es" using sorted_map_last m e by (simp add: memory_map_def map_pages_def)
  then have "(unat (e820_base e) + unat (e820_length e) + 4095) div 4096 < 2 ^ 20 + 1"
    using m by (simp add: memory_map_def hi_page_def)
  then show ?thesis by (simp add: small_entry_def div_less_iff_less_mult)
qed

lemma and_pgd_mask: "w AND NOT 0x3FFFFF = push_bit 22 (drop_bit 22 w)" for w :: "'a::len word"
proof -
  have m: "(0x3FFFFF :: 'a word) = mask 22" by (simp add: mask_eq_exp_minus_1)
  show ?thesis unfolding m by (rule bit_word_eqI) (auto simp: bit_simps)
qed

lemma drop_align_pgd64: "unat w + 0x3FFFFF < 2 ^ 64 \<Longrightarrow> unat (ALIGN_PGD64 w) = (unat w + 0x3FFFFF) div 2 ^ 22 * 2 ^ 22"
proof -
  assume a: "unat w + 0x3FFFFF < 2 ^ 64"
  then have "unat (w + 0x3FFFFF) = unat w + 0x3FFFFF" by (simp add: unat_word_ariths)
  moreover have "(unat w + 0x3FFFFF) div 2 ^ 22 * 2 ^ 22 < 2 ^ 64"
    using a by (intro le_less_trans [OF div_times_less_eq_dividend])
  ultimately show ?thesis
    unfolding ALIGN_PGD64_def and_pgd_mask
    by (simp add: unsigned_push_bit_eq unat_drop_bit_eq drop_bit_eq_div [where 'a = nat]
        push_bit_eq_mult [where 'a = nat] take_bit_eq_mod)
qed

lemma align_pgd: "unat w \<le> 2 ^ 31 \<Longrightarrow> unat (ALIGN_PGD w) = (unat w + 0x3FFFFF) div 2 ^ 22 * 2 ^ 22"
proof -
  assume a: "unat w \<le> 2 ^ 31"
  have s: "w + PGD_SIZE - 1 = w + 0x3FFFFF" by (simp add: PGD_SIZE_def)
  have p: "PGD_MASK = NOT 0x3FFFFF" by (simp add: PGD_MASK_def PGD_SIZE_def)
  have "unat (w + 0x3FFFFF) = unat w + 0x3FFFFF" using a by (simp add: unat_word_ariths)
  moreover have "(unat w + 0x3FFFFF) div 2 ^ 22 * 2 ^ 22 < 2 ^ 32"
    using a by (intro le_less_trans [OF div_times_less_eq_dividend]) simp
  ultimately show ?thesis unfolding ALIGN_PGD_def s p and_pgd_mask
    by (simp add: unsigned_push_bit_eq unat_drop_bit_eq drop_bit_eq_div [where 'a = nat]
        push_bit_eq_mult [where 'a = nat] take_bit_eq_mod)
qed

lemma scast_small: "unat (w :: u32) < 2 ^ 31 \<Longrightarrow> unat (scast w :: u64) = unat w"
proof -
  assume a: "unat w < 2 ^ 31"
  then have "sint w = int (unat w)" by (intro sint_unat) simp
  then have "scast w = (of_nat (unat w) :: u64)" by (metis of_int_of_nat_eq of_int_sint)
  then show ?thesis using a by (simp add: unsigned_ucast_eq take_bit_eq_mod)
qed


lemma size_memory_ok:
  assumes mm: "memory_map es" and mapped: "unat mapped \<le> 2 ^ 30" "unat mapped \<le> map_end es"
  defines "np \<equiv> tables_needed (map_end es) (unat mapped)"
  shows "\<exists>t e pt nr. size_memory es mapped = Some (t, e, pt, nr, nr * 24) \<and> unat pt = np \<and> unat nr = map_pages es \<and> np \<le> 1024"
proof -
  define w where "w = e820_base (last es) + e820_length (last es)"
  have b: "map_end es \<le> 2 ^ 32" by (rule memory_map_bound [OF mm])
  then have w: "unat w = map_end es" by (simp add: w_def map_end_def unat_word_ariths)
  have big: "\<not> MAX_SUPPORTED_MEMORY < w" using b by (simp add: MAX_SUPPORTED_MEMORY_def word_less_nat_alt w)
  have up: "unat (ALIGN_PGD64 w) = (map_end es + 0x3FFFFF) div 2 ^ 22 * 2 ^ 22"
    using drop_align_pgd64 [of w] b by (simp add: w)
  have dn: "unat (scast (ALIGN_PGD mapped) :: u64) = (unat mapped + 0x3FFFFF) div 2 ^ 22 * 2 ^ 22"
  proof -
    have "(unat mapped + 0x3FFFFF) div 2 ^ 22 * 2 ^ 22 < 2 ^ 31"
      using mapped(1) by (intro le_less_trans [OF div_times_less_eq_dividend]) simp
    then show ?thesis using align_pgd [OF le_trans [OF mapped(1)]] by (simp add: scast_small)
  qed
  have le: "(unat mapped + 0x3FFFFF) div 2 ^ 22 \<le> (map_end es + 0x3FFFFF) div 2 ^ 22"
    using mapped(2) by (intro div_le_mono) simp
  have "unat (ALIGN_PGD64 w - scast (ALIGN_PGD mapped)) = np * 2 ^ 22"
    using le by (subst unat_sub) (simp_all add: word_le_nat_alt up dn np_def tables_needed_def diff_mult_distrib)
  then have q: "unat (drop_bit 22 (ALIGN_PGD64 w - scast (ALIGN_PGD mapped))) = np"
    by (simp add: unat_drop_bit_eq drop_bit_eq_div [where 'a = nat])
  have "(map_end es + 0x3FFFFF) div 2 ^ 22 < 2 ^ 10 + 1" using b by (simp add: div_less_iff_less_mult)
  then have np: "np \<le> 1024" by (simp add: np_def tables_needed_def)
  define pt :: u32 where "pt = ucast (drop_bit 22 (ALIGN_PGD64 w - scast (ALIGN_PGD mapped)))"
  have pt: "unat pt = np" using np q by (simp add: pt_def unsigned_ucast_eq take_bit_eq_mod)
  have "unat (w + 0xFFF) = map_end es + 4095" using b by (simp add: unat_word_ariths w)
  then have nr: "unat (drop_bit 12 (ALIGN_PAGE64 w)) = map_pages es"
    by (simp add: ALIGN_PAGE64_def drop_bit_unat page_base64_unat map_pages_def hi_page_def map_end_def)
  have "es \<noteq> []" using mm by (simp add: memory_map_def)
  then have "size_memory es mapped = Some (w, w, pt, drop_bit 12 (ALIGN_PAGE64 w), drop_bit 12 (ALIGN_PAGE64 w) * 24)"
    using big by (simp add: size_memory_def w_def [symmetric] pt_def sizeof_kpage_def Let_def)
  then show ?thesis using pt nr np by blast
qed

text \<open>The marking as a whole.\<close>

lemma drop_bit_unat32: "unat (drop_bit 12 w) = unat w div 4096" for w :: u32
  by (simp add: unat_drop_bit_eq drop_bit_eq_div [where 'a = nat])

lemma ap_range: "unat ap_size \<le> 0x10000 \<Longrightarrow> page_range AP_INIT_PHYS_TEXT (AP_INIT_PHYS_TEXT + ap_size) = [7..<ap_end ap_size]"
proof -
  assume a: "unat ap_size \<le> 0x10000"
  have s: "AP_INIT_PHYS_TEXT + ap_size + PAGE_SIZE - 1 = ap_size + 0x8bff"
    by (simp add: AP_INIT_PHYS_TEXT_def PAGE_SIZE_def)
  have u: "unat (ap_size + 0x8bff) = unat ap_size + 0x8bff" using a by (simp add: unat_word_ariths)
  have "unat (drop_bit PAGE_SHIFT (ALIGN_PAGE (AP_INIT_PHYS_TEXT + ap_size))) = ap_end ap_size"
    unfolding ALIGN_PAGE_def s PAGE_SHIFT_def drop_bit_unat32 unat_page_mask u by (simp add: ap_end_def add.commute)
  moreover have "unat (drop_bit PAGE_SHIFT AP_INIT_PHYS_TEXT) = 7" by (simp add: PAGE_SHIFT_def AP_INIT_PHYS_TEXT_def)
  ultimately show ?thesis by (simp add: page_range_def)
qed


lemma paging_const: "0x2000 AND PAGE_MASK = 0x2000" "first_page (KERNEL_VIRT_ADDR + BASE_WRITE_PAGE) = 2"
   "end_page (KERNEL_VIRT_ADDR + BASE_WRITE_PAGE) PAGE_SIZE = 3" "KERNEL_VIRT_ADDR \<le> KERNEL_VIRT_ADDR + BASE_WRITE_PAGE"
   "unat (KERNEL_VIRT_ADDR + BASE_WRITE_PAGE) + unat PAGE_SIZE \<le> 2 ^ 32 - 4096"
   "unat (drop_bit PAGE_SHIFT BASE_WRITE_PAGE) = 2"
  by (simp_all add: first_page_def end_page_def KERNEL_VIRT_ADDR_def BASE_WRITE_PAGE_def PAGE_SIZE_def PAGE_MASK_def PAGE_SHIFT_def)

lemma mark_frames_ok:
  assumes mm: "memory_map es" and ok: "layout_ok lay (master_kernel_pg_dir lay)" and cpu: "unat cpu < 32"
    and p: "locks_free p" "pg_inv lay (master_kernel_pg_dir lay) (pmem p)"
    and s: "marked (map_pages es) {..<map_pages es} s" and nr: "unat nr = map_pages es"
    and lim: "unat lim = 4096 * data_page es mapped" and ap: "unat ap_size \<le> 0x10000"
  shows "\<exists>t q. mark_frames lay cpu ap_size es nr lim s p = Some (t, q) \<and>
     marked (map_pages es) (available es mapped ap_size) t \<and> Suc (kpage_last t) = map_pages es \<and>
     locks_free q \<and> pg_inv lay (master_kernel_pg_dir lay) (pmem q) \<and>
     (\<forall>k < 2 ^ 19. pmem q (pte_at lay k) = (if k = 2 then linear_entry k else pmem p (pte_at lay k)))"
proof -
  let ?n = "map_pages es"
  have n: "0x100 \<le> ?n" "?n \<le> 2 ^ 20" and es: "es \<noteq> []" "sorted_map es" and lo: "lo_page (hd es) = 0"
    and bl: "\<forall>e \<in> set (butlast es). hi_page e < ?n" using mm by (simp_all add: memory_map_def)
  have n52: "?n < 2 ^ 52" using n(2) by simp
  have small: "\<forall>e \<in> set es. small_entry e" using memory_map_small [OF mm] by blast
  have hd: "aget es 0 = Some (hd es)" using es by (simp add: hd_conv_nth)
  have base: "page_base64 (e820_base (hd es)) = paddr 0" using lo by (simp add: page_base64_paddr lo_page_def)
  let ?A1 = "{i \<in> {..<?n}. i \<notin> gaps es \<and> (\<forall>e \<in> set es. covers e i \<longrightarrow> e820_type e = 1 \<and> lim < paddr i)}"
  obtain s1 where s1: "mark_entries nr lim (paddr 0) es s = Some (paddr ?n, s1)" "marked ?n ?A1 s1"
    using mark_entries_ok [OF n52 nr es small map_pages_def [symmetric] bl _ s, of 0 lim] n by auto
  define s2 where "s2 = s1\<lparr>kpage_last := ?n - 1\<rparr>"
  have s2: "marked ?n ?A1 s2" "kpage_last s2 = ?n - 1" using s1(2) by (simp_all add: s2_def)
  obtain s3 where s3: "kpage_upd 2 (set_flag KPAGE_FLAGS_KERNEL) s2 = Some s3" "marked ?n (?A1 - {2}) s3" "kpage_last s3 = kpage_last s2"
    using marked_set [OF s2(1), of 2 KPAGE_FLAGS_KERNEL] n by auto
  obtain q where q: "map_kernel_linear_with_pagetable lay cpu (KERNEL_VIRT_ADDR + BASE_WRITE_PAGE) PAGE_SIZE (PTE_PRESENT OR PTE_WRITE) 0 p = Some q"
    "locks_free q" "pg_inv lay (master_kernel_pg_dir lay) (pmem q)"
    "\<forall>k < 2 ^ 19. pmem q (pte_at lay k) = (if k = 2 then linear_entry k else pmem p (pte_at lay k))"
    using map_linear_ok [OF ok cpu p paging_const(4,5)] unfolding paging_const(2,3)
    by (auto simp: numeral_3_eq_3 less_Suc_eq_le le_antisym cong: if_cong)
  have e: "ap_end ap_size \<le> 0x100" using ap unfolding ap_end_def by (simp add: less_mult_imp_div_less div_le_mono)
  obtain s4 where s4: "map_ap_pages lay cpu [7..<ap_end ap_size] s3 q = Some (s4, q)"
    "marked ?n (?A1 - {2} - set [7..<ap_end ap_size]) s4" "kpage_last s4 = kpage_last s3"
    using map_ap_pages_ok [OF s3(2), of "[7..<ap_end ap_size]" lay cpu q] e n by auto
  obtain s5 where s5: "reserve_legacy s4 = Some s5"
    "marked ?n (?A1 - {2} - set [7..<ap_end ap_size] - insert 0 {0x80..<0x100}) s5" "kpage_last s5 = kpage_last s4"
    using reserve_legacy_ok [OF s4(2) n(1)] by blast
  have "mark_frames lay cpu ap_size es nr lim s p = Some (s5, q)"
    using s5(1) unfolding mark_frames_def hd base ap_range [OF ap] paging_const(6)
    using n(1) by (simp add: base s1(1) s3(1) [unfolded s2_def One_nat_def] q(1) s4(1) page_index_paddr [OF n52])
  moreover have "marked ?n (available es mapped ap_size) s5"
  proof (rule marked_cong [OF s5(2)])
    fix i assume i: "i < ?n"
    have l: "lim < paddr i \<longleftrightarrow> data_page es mapped < i" using i n by (simp add: word_less_nat_alt lim unat_paddr)
    have g: "i \<in> gaps es \<longleftrightarrow> (\<forall>e \<in> set es. \<not> covers e i)"
      using gaps_uncovered [OF es, of i] lo i by (simp add: map_pages_def)
    show "i \<in> ?A1 - {2} - set [7..<ap_end ap_size] - insert 0 {0x80..<0x100} \<longleftrightarrow> i \<in> available es mapped ap_size"
      using i l g by (auto simp: available_def)
  qed
  ultimately show ?thesis using q s5(3) s4(3) s3(3) s2(2) n by auto
qed


text \<open>The addresses \<^verbatim>\<open>mem_init\<close> computes: they fit in 32 bits, and the two mapped ranges lie in the kernel half.\<close>

definition tables_len :: "u32 \<Rightarrow> u32" where
  "tables_len pt = push_bit PAGE_SHIFT pt"

lemma init_addresses:
  fixes mapped pt :: u32 and nr :: u64
  assumes "unat mapped \<le> 2 ^ 30" and "unat pt \<le> 1024" and "unat nr \<le> 2 ^ 20"
  defines "v \<equiv> mapped + KERNEL_VIRT_ADDR" and "kl \<equiv> ucast (nr * 24)"
  shows "unat v = unat mapped + 2 ^ 31" "unat (tables_len pt) = 4096 * unat pt"
    "unat (v + tables_len pt) = unat mapped + 2 ^ 31 + 4096 * unat pt" "unat (kl :: u32) = 24 * unat nr"
    "\<not> MAX_SUPPORTED_MEMORY < ucast (v + tables_len pt) + nr * 24"
proof -
  show v: "unat v = unat mapped + 2 ^ 31" using assms(1) by (simp add: v_def KERNEL_VIRT_ADDR_def unat_word_ariths)
  show len: "unat (tables_len pt) = 4096 * unat pt"
    using assms(2)
    by (simp add: tables_len_def PAGE_SHIFT_def unsigned_push_bit_eq push_bit_eq_mult [where 'a = nat] take_bit_eq_mod)
  show kp: "unat (v + tables_len pt) = unat mapped + 2 ^ 31 + 4096 * unat pt"
    unfolding unat_word_ariths(1) v len using assms(1,2) by simp
  have nr24: "unat (nr * 24) = 24 * unat nr" using assms(3) by (simp add: unat_word_ariths)
  then show "unat kl = 24 * unat nr" using assms(3) by (simp add: kl_def unsigned_ucast_eq take_bit_eq_mod)
  have "unat (ucast (v + tables_len pt) + nr * 24 :: u64) = unat (v + tables_len pt) + 24 * unat nr"
    by (subst unat_word_ariths(1)) (use kp nr24 assms(1-3) in \<open>simp add: unsigned_ucast_eq take_bit_eq_mod\<close>)
  then show "\<not> MAX_SUPPORTED_MEMORY < ucast (v + tables_len pt) + nr * 24"
    using kp assms(1-3) by (simp add: MAX_SUPPORTED_MEMORY_def word_less_nat_alt)
qed

lemma init_mappings:
  fixes mapped pt :: u32 and nr :: u64
  assumes ok: "layout_ok lay (master_kernel_pg_dir lay)" "unat cpu < 32"
    and pg: "locks_free p" "pg_inv lay (master_kernel_pg_dir lay) (pmem p)"
    and b: "unat mapped \<le> 2 ^ 30" "unat pt \<le> 1024" "unat nr \<le> 2 ^ 20"
  defines "v \<equiv> mapped + KERNEL_VIRT_ADDR" and "kl \<equiv> ucast (nr * 24)"
  defines "kp \<equiv> v + tables_len pt" and "D \<equiv> (unat mapped + 4096 * unat pt + 24 * unat nr + 4095) div 4096"
  shows "\<exists>q. (if pt \<noteq> 0 then map_kernel_linear_with_pagetable lay cpu v (tables_len pt) (PTE_PRESENT OR PTE_WRITE) 0 p
         else Some p) \<bind> map_kernel_linear_with_pagetable lay cpu kp kl (PTE_PRESENT OR PTE_WRITE) 0 = Some q \<and>
     locks_free q \<and> pg_inv lay (master_kernel_pg_dir lay) (pmem q) \<and>
     (\<forall>k < 2 ^ 19. pmem q (pte_at lay k) =
        (if unat mapped div 4096 \<le> k \<and> k < D then linear_entry k else pmem p (pte_at lay k)))"
    "unat (ALIGN_PAGE (kp + kl)) = 2 ^ 31 + 4096 * D" "D < 2 ^ 19"
proof -
  let ?M = "unat mapped" and ?np = "unat pt"
  note ad = init_addresses [OF b, folded v_def kl_def, folded kp_def]
  have kv: "KERNEL_VIRT_ADDR \<le> v" "KERNEL_VIRT_ADDR \<le> kp"
    by (simp_all add: KERNEL_VIRT_ADDR_def word_le_nat_alt ad)
  have fit: "unat v + unat (tables_len pt) \<le> 2 ^ 32 - 4096" "unat kp + unat kl \<le> 2 ^ 32 - 4096"
    using b by (simp_all add: ad)
  have pages: "first_page v = ?M div 4096" "end_page v (tables_len pt) = (?M + 4096 * ?np + 4095) div 4096"
    "first_page kp = (?M + 4096 * ?np) div 4096" "end_page kp kl = D"
    by (simp_all add: first_page_def end_page_def ad D_def)
  obtain p1 where p1: "(if pt \<noteq> 0 then map_kernel_linear_with_pagetable lay cpu v (tables_len pt) (PTE_PRESENT OR PTE_WRITE) 0 p
        else Some p) = Some p1" "locks_free p1" "pg_inv lay (master_kernel_pg_dir lay) (pmem p1)"
    and p1e: "\<And>k. k < 2 ^ 19 \<Longrightarrow> pmem p1 (pte_at lay k) =
        (if ?np \<noteq> 0 \<and> ?M div 4096 \<le> k \<and> k < (?M + 4096 * ?np + 4095) div 4096 then linear_entry k
         else pmem p (pte_at lay k))"
    using map_linear_ok [OF ok pg kv(1) fit(1)] pg unfolding pages by (cases "pt = 0") (auto simp: unat_eq_zero)
  obtain q where q: "map_kernel_linear_with_pagetable lay cpu kp kl (PTE_PRESENT OR PTE_WRITE) 0 p1 = Some q"
      "locks_free q" "pg_inv lay (master_kernel_pg_dir lay) (pmem q)"
    and qe: "\<And>k. k < 2 ^ 19 \<Longrightarrow> pmem q (pte_at lay k) =
        (if (?M + 4096 * ?np) div 4096 \<le> k \<and> k < D then linear_entry k else pmem p1 (pte_at lay k))"
    using map_linear_ok [OF ok p1(2,3) kv(2) fit(2)] unfolding pages by blast
  have o: "(?M + 4096 * ?np + 4095) div 4096 \<le> D" "?M div 4096 \<le> (?M + 4096 * ?np) div 4096"
    "(?M + 4096 * ?np) div 4096 \<le> (?M + 4096 * ?np + 4095) div 4096"
    unfolding D_def by (intro div_le_mono, simp)+
  have pe: "pmem q (pte_at lay k) = (if ?M div 4096 \<le> k \<and> k < D then linear_entry k else pmem p (pte_at lay k))"
    if "k < 2 ^ 19" for k
    using p1e [OF that] qe [OF that] o by (cases "?np = 0") auto
  show "\<exists>q. (if pt \<noteq> 0 then map_kernel_linear_with_pagetable lay cpu v (tables_len pt) (PTE_PRESENT OR PTE_WRITE) 0 p
         else Some p) \<bind> map_kernel_linear_with_pagetable lay cpu kp kl (PTE_PRESENT OR PTE_WRITE) 0 = Some q \<and>
     locks_free q \<and> pg_inv lay (master_kernel_pg_dir lay) (pmem q) \<and>
     (\<forall>k < 2 ^ 19. pmem q (pte_at lay k) =
        (if ?M div 4096 \<le> k \<and> k < D then linear_entry k else pmem p (pte_at lay k)))"
    unfolding p1(1) using q pe by simp
  show "D < 2 ^ 19" "unat (ALIGN_PAGE (kp + kl)) = 2 ^ 31 + 4096 * D"
    using range_pages(2,4) [OF kv(2) fit(2)] by (simp_all add: pages unat_kaddr)
qed

lemma available_bound:
  assumes "memory_map es" and "i \<in> available es mapped ap_size"
  shows "i < 2 ^ 19" "i < map_pages es"
proof -
  obtain x where x: "x \<in> set es" "covers x i" "e820_type x = 1" using assms(2) by (auto simp: available_def)
  then have "hi_page x \<le> 2 ^ 19" "hi_page x \<le> map_pages es"
    using assms(1) sorted_map_last by (simp_all add: memory_map_def map_pages_def)
  then show "i < 2 ^ 19" "i < map_pages es" using x(2) by (simp_all add: covers_def)
qed

lemma mem_init_ok:
  assumes "layout_ok lay (master_kernel_pg_dir lay)" and "unat cpu < 32"
    and "locks_free (mpaging m)" and "pg_inv lay (master_kernel_pg_dir lay) (pmem (mpaging m))"
    and "\<forall>k > MAX_ALLOC_ORDER. alloc_order_lock (mmgr m) k = 0"
    and "memory_map es" and "unat ap_size \<le> 0x10000"
    and "unat (end_kernel_mapped_memory m) \<le> 2 ^ 30" and "unat (end_kernel_mapped_memory m) \<le> map_end es"
  defines "mapped \<equiv> unat (end_kernel_mapped_memory m)" and "dir \<equiv> master_kernel_pg_dir lay"
  shows "\<exists>m'. mem_init lay cpu ap_size es str m = Some (0, m') \<and>
     mm_free (mmgr m') (available es mapped ap_size) \<and> Suc (kpage_last (mmgr m')) = map_pages es \<and>
     unat (end_kernel_data m') = 2 ^ 31 + 4096 * data_page es mapped \<and>
     locks_free (mpaging m') \<and> pg_inv lay dir (pmem (mpaging m')) \<and>
     (\<forall>k < 2 ^ 19. translate dir (pmem (mpaging m')) k =
        (if k \<in> available es mapped ap_size then None
         else if mapped div 4096 \<le> k \<and> k < data_page es mapped \<or> k = 2 then Some (linear_entry k)
         else translate dir (pmem (mpaging m)) k)) \<and>
     (\<forall>i < 512. pmem (mpaging m') (dir + of_nat (4 * i)) = 0)"
proof -
  let ?A = "available es mapped ap_size" and ?D = "data_page es mapped" and ?n = "map_pages es"
  note lay = assms(1) [folded dir_def]
  obtain t e pt nr where size: "size_memory es (end_kernel_mapped_memory m) = Some (t, e, pt, nr, nr * 24)"
    and pt: "unat pt = tables_needed (map_end es) mapped" "unat pt \<le> 1024" and nr: "unat nr = ?n"
    using size_memory_ok [OF assms(6,8,9)] by (auto simp: mapped_def)
  have n: "unat nr \<le> 2 ^ 20" using assms(6) by (simp add: memory_map_def nr)
  define v where "v = end_kernel_mapped_memory m + KERNEL_VIRT_ADDR"
  define kp where "kp = v + tables_len pt"
  define kl :: u32 where "kl = ucast (nr * 24)"
  note ad = init_addresses [OF assms(8) pt(2) n, folded v_def kl_def, folded kp_def]
  have D: "(unat (end_kernel_mapped_memory m) + 4096 * unat pt + 24 * unat nr + 4095) div 4096 = ?D"
    by (simp add: data_page_def pt nr mapped_def)
  note mp = init_mappings [OF assms(1-4) assms(8) pt(2) n, folded v_def kl_def, folded kp_def,
      unfolded D, folded mapped_def dir_def]
  obtain p2 where p2: "(if pt \<noteq> 0 then map_kernel_linear_with_pagetable lay cpu v (tables_len pt) (PTE_PRESENT OR PTE_WRITE) 0 (mpaging m)
         else Some (mpaging m)) \<bind> map_kernel_linear_with_pagetable lay cpu kp kl (PTE_PRESENT OR PTE_WRITE) 0 = Some p2"
      "locks_free p2" "pg_inv lay dir (pmem p2)"
    and p2e: "\<And>k. k < 2 ^ 19 \<Longrightarrow> pmem p2 (pte_at lay k) =
        (if mapped div 4096 \<le> k \<and> k < ?D then linear_entry k else pmem (mpaging m) (pte_at lay k))"
    using mp(1) by blast
  define lim :: u64 where "lim = ucast (ALIGN_PAGE (kp + kl) - KERNEL_VIRT_ADDR)"
  have "unat (ALIGN_PAGE (kp + kl) - KERNEL_VIRT_ADDR) = 4096 * ?D"
    using mp(2) by (subst unat_sub) (simp_all add: KERNEL_VIRT_ADDR_def word_le_nat_alt)
  then have lim: "unat lim = 4096 * ?D" using mp(3) by (simp add: lim_def unsigned_ucast_eq take_bit_eq_mod)
  define s0 where "s0 = (init_lists (mmgr m))\<lparr>kpages := replicate (unat nr) zero_kpage\<rparr>"
  have s0: "marked ?n {..<?n} s0" using init_lists_marked [OF assms(5), of ?n] by (simp add: s0_def nr)
  obtain s1 p3 where s1: "mark_frames lay cpu ap_size es nr lim s0 p2 = Some (s1, p3)" "marked ?n ?A s1" "Suc (kpage_last s1) = ?n"
      "locks_free p3" "pg_inv lay dir (pmem p3)"
    and p3e: "\<And>k. k < 2 ^ 19 \<Longrightarrow> pmem p3 (pte_at lay k) = (if k = 2 then linear_entry k else pmem p2 (pte_at lay k))"
    using mark_frames_ok [OF assms(6,1,2) p2(2) p2(3) [unfolded dir_def] s0 nr lim assms(7)] unfolding dir_def by blast
  have A: "?A \<subseteq> {..<2 ^ 19}" "?A \<inter> {..<?n} = ?A" using available_bound [OF assms(6)] by blast+
  obtain s2 p4 where s2: "free_loop lay [0..<?n] s1 p3 = Some (s2, p4)" "mm_free s2 ?A" "Suc (kpage_last s2) = ?n" "locks_free p4" "pg_inv lay dir (pmem p4)"
    and p4e: "\<And>k. k < 2 ^ 19 \<Longrightarrow> pmem p4 (pte_at lay k) = (if k \<in> ?A then 0 else pmem p3 (pte_at lay k))"
    using free_loop_ok [OF lay A(1) marked_pending [OF s1(2,3)] _ s1(4,5)] A by fastforce
  define q where "q = clear_words 512 dir p4"
  note cl = clear_user_half [OF lay s2(5), folded q_def]
  have run: "mem_init lay cpu ap_size es str m = Some (0, m\<lparr>total_memory := t, total_effective_memory := e, nr_kpages := nr,
      end_kernel_mapped_memory := v, kpages_addr := kp, mmgr := s2, mpaging := q, end_kernel_data := ALIGN_PAGE (kp + kl)\<rparr>)"
  proof -
    obtain p1 where p1: "(if pt \<noteq> 0 then map_kernel_linear_with_pagetable lay cpu v (tables_len pt) (PTE_PRESENT OR PTE_WRITE) 0 (mpaging m)
        else Some (mpaging m)) = Some p1" "map_kernel_linear_with_pagetable lay cpu kp kl (PTE_PRESENT OR PTE_WRITE) 0 p1 = Some p2"
      using p2(1) by (auto simp: bind_eq_Some_conv)
    show ?thesis using p1 s1(1,3) s2(1) ad(5)
      by (simp add: mem_init_def size Let_def v_def [symmetric] tables_len_def [symmetric] kp_def [symmetric] kl_def [symmetric]
          lim_def [symmetric] s0_def [symmetric] dir_def [symmetric] q_def [symmetric] del: upt_Suc cong: if_cong)
  qed
  have tr: "translate dir (pmem q) k = (if k \<in> ?A then None
         else if mapped div 4096 \<le> k \<and> k < ?D \<or> k = 2 then Some (linear_entry k)
         else translate dir (pmem (mpaging m)) k)" if k: "k < 2 ^ 19" for k
  proof -
    have "linear_entry k AND PTE_PRESENT \<noteq> 0" by (metis linear_entry_def or_present(1) or.commute)
    moreover have "pmem q (pte_at lay k) = (if k \<in> ?A then 0 else if mapped div 4096 \<le> k \<and> k < ?D \<or> k = 2 then linear_entry k
        else pmem (mpaging m) (pte_at lay k))"
      using cl(2) [OF k] p4e [OF k] p3e [OF k] p2e [OF k] by simp
    ultimately show ?thesis
      unfolding translate_inv [OF lay cl(1) k] translate_inv [OF lay assms(4) [folded dir_def] k] by simp
  qed
  have user: "pmem q (dir + of_nat (4 * i)) = 0" if "i < 512" for i
    unfolding q_def by (rule clear_words_zero) (use that in simp_all)
  have "locks_free q" using s2(4) clear_words_locks by (simp add: q_def)
  then show ?thesis
    by (intro exI [of _ "m\<lparr>total_memory := t, total_effective_memory := e, nr_kpages := nr, end_kernel_mapped_memory := v,
          kpages_addr := kp, mmgr := s2, mpaging := q, end_kernel_data := ALIGN_PAGE (kp + kl)\<rparr>"] conjI run)
      (use s2(2,3) mp(2) cl(1) tr user in simp_all)
qed

text \<open>(C8) \<^verbatim>\<open>mem_init\<close>, for a sorted firmware map of up to 4 GiB whose usable memory lies below 2 GiB: it returns 0;
  the allocator then holds exactly the frames that only usable entries cover, behind the kernel's data and outside the ranges
  set aside, its invariant holds and every lock is free; in the kernel half exactly these frames have lost their translation,
  while the new page tables, the \<^verbatim>\<open>kpage\<close> array and the early information page are mapped at their linear address and
  every other page is translated as before; the user half of the directory is empty; the last frame of the allocator is the
  last one the map describes.\<close>

theorem mem_init_correct:
  assumes "layout_ok lay (master_kernel_pg_dir lay)" and "unat cpu < 32"
    and "locks_free (mpaging m)" and "pg_inv lay (master_kernel_pg_dir lay) (pmem (mpaging m))"
    and "\<forall>k > MAX_ALLOC_ORDER. alloc_order_lock (mmgr m) k = 0"
    and "memory_map es" and "unat ap_size \<le> 0x10000"
    and "unat (end_kernel_mapped_memory m) \<le> 2 ^ 30" and "unat (end_kernel_mapped_memory m) \<le> map_end es"
  defines "mapped \<equiv> unat (end_kernel_mapped_memory m)" and "dir \<equiv> master_kernel_pg_dir lay"
  shows "\<exists>m'. mem_init lay cpu ap_size es str m = Some (0, m') \<and>
     mm_free (mmgr m') (available es mapped ap_size) \<and> Suc (kpage_last (mmgr m')) = map_pages es \<and>
     unat (end_kernel_data m') = 2 ^ 31 + 4096 * data_page es mapped \<and>
     locks_free (mpaging m') \<and> pg_inv lay dir (pmem (mpaging m')) \<and>
     (\<forall>k < 2 ^ 19. translate dir (pmem (mpaging m')) k =
        (if k \<in> available es mapped ap_size then None
         else if mapped div 4096 \<le> k \<and> k < data_page es mapped \<or> k = 2 then Some (linear_entry k)
         else translate dir (pmem (mpaging m)) k)) \<and>
     (\<forall>i < 512. pmem (mpaging m') (dir + of_nat (4 * i)) = 0)"
  by (rule mem_init_ok [OF assms(1-9), folded mapped_def dir_def])

text \<open>A small machine: 128 MiB, the kernel in the first 3 MiB.\<close>

definition small_map :: "e820_map list" where
  "small_map =
     [\<lparr>e820_base = 0, e820_length = 0x9fc00, e820_type = 1, e820_ACPI = 1\<rparr>,
      \<lparr>e820_base = 0x9fc00, e820_length = 0x400, e820_type = 2, e820_ACPI = 1\<rparr>,
      \<lparr>e820_base = 0xf0000, e820_length = 0x10000, e820_type = 2, e820_ACPI = 1\<rparr>,
      \<lparr>e820_base = 0x100000, e820_length = 0x7ee0000, e820_type = 1, e820_ACPI = 1\<rparr>,
      \<lparr>e820_base = 0x7fe0000, e820_length = 0x20000, e820_type = 2, e820_ACPI = 1\<rparr>]"

definition small_machine :: mem_state where
  "small_machine = \<lparr>mmgr = boot_mm 1 0, mpaging = empty_paging, total_memory = 0, total_effective_memory = 0, nr_kpages = 0,
     kpages_addr = 0, end_kernel_data = 0, end_kernel_mapped_memory = 0x300000\<rparr>"

lemma small_map_ok: "memory_map small_map" "map_end small_map = 0x8000000"
  by (simp_all add: memory_map_def small_map_def sorted_map_def map_pages_def map_end_def lo_page_def hi_page_def)

lemma small_map_frame: "0x1000 \<in> available small_map 0x300000 0x400"
  by (simp add: available_def small_map_def covers_def lo_page_def hi_page_def data_page_def map_pages_def map_end_def
      tables_needed_def ap_end_def)

theorem mem_init_correct_witness:
  "\<exists>m' F. mem_init lay0 0 0x400 small_map (replicate 20 0) small_machine = Some (0, m') \<and> mm_free (mmgr m') F \<and> 0x1000 \<in> F \<and>
     translate (master_kernel_pg_dir lay0) (pmem (mpaging m')) 0x1000 = None"
proof -
  have "\<forall>k > MAX_ALLOC_ORDER. alloc_order_lock (mmgr small_machine) k = 0"
    by (simp add: small_machine_def boot_mm_def)
  moreover have "layout_ok lay0 (master_kernel_pg_dir lay0)" using lay0_ok(1) by (simp add: pgdir_for_def)
  ultimately show ?thesis
    using mem_init_correct [of lay0 0 small_machine small_map "0x400" "replicate 20 0"] small_map_ok small_map_frame lay0_ok(2,3)
    by (fastforce simp: small_machine_def)
qed

end
