(* ===== verification/User_Props.thy ===== *)
theory User_Props
  imports User_Pages Traps_Props Mem_Init_Props
begin

text \<open>
  What \<^verbatim>\<open>alloc_user_page\<close> and its relatives promise: the order computed for a number of pages is the
  least that is enough, the user half of a directory after a success, and what a failure leaves behind.
\<close>

section \<open>The order of a number of pages\<close>

lemma highest_bit:
  fixes m :: nat
  assumes "bit m h" and "\<forall>j > h. \<not> bit m j"
  shows "2 ^ h \<le> m" "m < 2 * 2 ^ h"
proof -
  have "odd (m div 2 ^ h)" using assms(1) by (simp add: bit_iff_odd)
  then have "m div 2 ^ h \<noteq> 0" by (metis even_zero)
  then show "2 ^ h \<le> m" by (simp add: div_eq_0_iff)
  have "take_bit (Suc h) m = m" using assms(2) by (intro bit_eqI) (auto simp: bit_take_bit_iff not_less_eq)
  then show "m < 2 * 2 ^ h" by (metis power_Suc take_bit_nat_less_exp)
qed

lemma sorted_ends: "sorted xs \<Longrightarrow> x \<in> set xs \<Longrightarrow> hd xs \<le> x" "sorted xs \<Longrightarrow> x \<in> set xs \<Longrightarrow> x \<le> last xs"
  for x :: nat
  by (induction xs) (auto simp: last_in_set)

lemma NPAGES_TO_ORDER_least:
  assumes "n \<noteq> 0"
  shows "\<exists>k. NPAGES_TO_ORDER n = Some k \<and> unat n \<le> 2 ^ k \<and> (\<forall>j < k. 2 ^ j < unat n)"
proof -
  let ?bs = "filter (bit n) [0..<32]"
  have b: "i \<in> set ?bs \<longleftrightarrow> bit (unat n) i" for i
    using bit_imp_le_length [of n i] by (auto simp: bit_unsigned_iff)
  obtain i where "bit n i" using assms by (metis bit_eqI bit_0_eq bot_apply bot_bool_def)
  then have "i \<in> set ?bs" unfolding b by (simp add: bit_unsigned_iff)
  then have ne: "?bs \<noteq> []" by (metis empty_iff empty_set)
  have s: "sorted ?bs" "distinct ?bs" using sorted_wrt_filter [OF sorted_upt, of "bit n" 0 32] by (simp_all del: upt_rec_numeral)
  have h: "bit (unat n) (last ?bs)" "bit (unat n) (hd ?bs)" using b ne by (metis last_in_set, metis hd_in_set)
  have top: "\<not> bit (unat n) j" if "last ?bs < j" for j
    using that sorted_ends(2) [OF s(1), of j] b [of j] by linarith
  have low: "\<not> bit (unat n) j" if "j < hd ?bs" for j
    using that sorted_ends(1) [OF s(1), of j] b [of j] by linarith
  have hb: "2 ^ last ?bs \<le> unat n" "unat n < 2 * 2 ^ last ?bs" using highest_bit [OF h(1)] top by blast+
  show ?thesis
  proof (cases "last ?bs = hd ?bs")
    case True
    have "unat n = 2 ^ last ?bs"
    proof (rule bit_eqI)
      fix j
      show "bit (unat n) j \<longleftrightarrow> bit (2 ^ last ?bs :: nat) j"
        using h(1) top [of j] low [of j] True by (auto simp: bit_exp_iff) (metis nat_neq_iff)
    qed
    then show ?thesis using True ne by (auto simp: NPAGES_TO_ORDER_def Let_def)
  next
    case False
    then have "unat n \<noteq> 2 ^ last ?bs" using h(2) by (auto simp: bit_exp_iff)
    then have "2 ^ last ?bs < unat n" using hb(1) by simp
    then have "2 ^ j < unat n" if "j \<le> last ?bs" for j
      using that power_increasing [of j "last ?bs" "2 :: nat"] by linarith
    then show ?thesis using False ne hb(2) by (auto simp: NPAGES_TO_ORDER_def Let_def less_Suc_eq_le)
  qed
qed

section \<open>One page under the lock\<close>

definition local_dir :: "kernel_layout \<Rightarrow> u32 \<Rightarrow> u32 \<Rightarrow> bool" where
  "local_dir lay cpu dir \<longleftrightarrow> dir = GET_CPU_PGDIR lay cpu \<and> layout_ok lay dir"

lemma local_dirD:
  assumes "local_dir lay cpu dir"
  shows "pgdir_for lay cpu (MAP_LOCAL_CPU OR MAP_PGD_LOCKED) = dir" "pgdir_for lay cpu (MAP_USER OR MAP_PGD_LOCKED) = dir"
    "GET_CPU_PGDIR lay cpu = dir" "layout_ok lay dir"
  using assms by (auto simp: local_dir_def pgdir_for_def flag_simps)

lemma set_pgd_locked:
  "fl AND MAP_PGD_LOCKED \<noteq> 0 \<Longrightarrow> set_pgd cpuid pgd table start pf fl s = Some (pgd_entry pgd table pf s)"
  by (simp add: set_pgd_def Let_def)

lemma locked_flags: "(MAP_LOCAL_CPU OR MAP_PGD_LOCKED) AND MAP_PGD_LOCKED \<noteq> 0" "(MAP_USER OR MAP_PGD_LOCKED) AND MAP_PGD_LOCKED \<noteq> 0"
  "(MAP_LOCAL_CPU OR MAP_PGD_LOCKED) AND MAP_USER = 0"
  by (simp_all add: flag_simps)

lemma kaddr_less: "n + 1 < 2 ^ 19 \<Longrightarrow> kaddr n < kaddr n + PAGE_SIZE"
  unfolding kaddr_Suc word_less_nat_alt by (simp add: unat_kaddr)

lemma kaddr_range:
  assumes "n + 1 < 2 ^ 19"
  shows "KERNEL_VIRT_ADDR \<le> kaddr n" "ALIGN_PAGE (kaddr n + PAGE_SIZE) = kaddr (Suc n)" "kaddr n AND PAGE_MASK = kaddr n"
    "kaddr n \<noteq> kaddr (Suc n)"
proof -
  show k: "KERNEL_VIRT_ADDR \<le> kaddr n" using assms by (simp add: word_le_nat_alt KERNEL_VIRT_ADDR_def unat_kaddr)
  have l: "unat (kaddr n) + unat PAGE_SIZE \<le> 2 ^ 32 - 4096" using assms by (simp add: unat_kaddr PAGE_SIZE_def)
  have "end_page (kaddr n) PAGE_SIZE = Suc n" using assms by (simp add: end_page_def unat_kaddr PAGE_SIZE_def)
  then show "ALIGN_PAGE (kaddr n + PAGE_SIZE) = kaddr (Suc n)" using range_pages(2) [OF k l] by simp
  show "kaddr n AND PAGE_MASK = kaddr n" using assms by (simp add: kaddr_page)
  show "kaddr n \<noteq> kaddr (Suc n)" using assms by (simp add: word_unat_eq_iff unat_kaddr)
qed

text \<open>Mapping and unmapping one kernel page in the local directory while its lock is held.\<close>

definition table_mapped :: "kernel_layout \<Rightarrow> u32 \<Rightarrow> nat \<Rightarrow> paging \<Rightarrow> paging" where
  "table_mapped lay dir t s = pmem_write (pte_at lay t) ((kaddr t - KERNEL_VIRT_ADDR) OR (PTE_WRITE OR PTE_PRESENT))
     (pgd_entry (pgd_at dir (t div 1024)) (table_at lay (t div 1024)) (PGD_PRESENT OR PGD_WRITE) s)"

text \<open>The caller holds the lock of the local directory, or all locks are free and each entry is written under its own.\<close>

definition lock_settled :: "u32 \<Rightarrow> u32 \<Rightarrow> paging \<Rightarrow> bool" where
  "lock_settled cpu fl s \<longleftrightarrow> fl = MAP_LOCAL_CPU OR MAP_PGD_LOCKED \<or> fl = MAP_LOCAL_CPU \<and> locks_free s \<and> unat cpu < 32"

lemma lock_settledD:
  assumes "lock_settled cpu fl s" and "local_dir lay cpu dir" and "t < 2 ^ 19"
  shows "pgdir_for lay cpu fl = dir" "fl AND MAP_USER = 0" "set_pgd cpu pgd table (kaddr t) pf fl s = Some (pgd_entry pgd table pf s)"
proof -
  have ll: "MAP_LOCAL_CPU AND MAP_USER = 0" "pgdir_for lay cpu MAP_LOCAL_CPU = dir"
    using assms(2) by (simp_all add: flag_simps local_dir_def pgdir_for_def)
  show "pgdir_for lay cpu fl = dir" "fl AND MAP_USER = 0" "set_pgd cpu pgd table (kaddr t) pf fl s = Some (pgd_entry pgd table pf s)"
    using assms(1) local_dirD(1) [OF assms(2)] locked_flags ll set_pgd_locked set_pgd_free [OF _ _ assms(3)]
    unfolding lock_settled_def by auto
qed

lemma lock_settled_region:
  assumes "lock_settled cpu fl s" and "t < 2 ^ 19"
  shows "\<exists>s'. (if fl AND MAP_PGD_LOCKED = 0 then LOCK_PGD cpu (kaddr t) fl s else Some s) = Some s' \<and> pmem s' = pmem s \<and>
     (if fl AND MAP_PGD_LOCKED = 0 then UNLOCK_PGD cpu (kaddr t) fl s' else Some s') = Some s"
proof (cases "fl = MAP_LOCAL_CPU OR MAP_PGD_LOCKED")
  case True
  then show ?thesis using locked_flags(1) by simp
next
  case False
  then have fl: "fl = MAP_LOCAL_CPU" "locks_free s" "unat cpu < 32" using assms(1) by (simp_all add: lock_settled_def)
  obtain s' where s': "LOCK_PGD cpu (kaddr t) fl s = Some s'" "pmem s' = pmem s"
    "\<And>m. UNLOCK_PGD cpu (kaddr t) fl (s'\<lparr>pmem := m\<rparr>) = Some (s\<lparr>pmem := m\<rparr>)"
    using locked_region [OF fl(2,3) assms(2), of fl] by blast
  have "UNLOCK_PGD cpu (kaddr t) fl s' = Some s" using s'(3) [of "pmem s"] s'(2) by (metis paging.surjective paging.update_convs(1))
  moreover have "MAP_LOCAL_CPU AND MAP_PGD_LOCKED = 0" by (simp add: flag_simps)
  ultimately show ?thesis using s' fl(1) by simp
qed

lemma map_page_local:
  assumes d: "local_dir lay cpu dir" and t: "t + 1 < 2 ^ 19" and fl: "lock_settled cpu fl s"
  shows "map_kernel_linear_with_pagetable lay cpu (kaddr t) PAGE_SIZE PTE_WRITE fl s = Some (table_mapped lay dir t s)"
proof -
  have t': "t < 2 ^ 19" using t by simp
  note sl = slots [OF local_dirD(4) [OF d] t'] and l = lock_settledD [OF fl d t']
  have "(kaddr t - KERNEL_VIRT_ADDR) AND PAGE_MASK = kaddr t - KERNEL_VIRT_ADDR"
    unfolding word_unat_eq_iff unat_page_mask using t by (simp add: kaddr_def unat_of_nat del: of_nat_mult)
  moreover have "build_pagetable lay cpu [table_at lay (t div 1024)] (kaddr t - KERNEL_VIRT_ADDR) (kaddr t) PAGE_SIZE
     (PGD_PRESENT OR PGD_WRITE) (PTE_WRITE OR PTE_PRESENT) fl s = Some (table_mapped lay dir t s)"
    using kaddr_less [OF t] sl(5) [symmetric]
    by (simp add: build_pagetable_def sl(1,4) l Let_def build_loop.simps table_mapped_def)
  ultimately show ?thesis
    using kaddr_range [OF t] l(2)
    by (simp add: map_kernel_linear_with_pagetable_def map_kernel_with_pagetable_def Let_def sl(2,3) not_less map_loop.simps kaddr_Suc)
qed

lemma unmap_page_local:
  assumes d: "local_dir lay cpu dir" and t: "t + 1 < 2 ^ 19" and fl: "lock_settled cpu fl s"
    and present: "pmem s (pgd_at dir (t div 1024)) \<noteq> 0"
  shows "unmap_kernel_with_pagetable lay cpu (kaddr t) PAGE_SIZE fl s = Some (pmem_write (pte_at lay t) 0 s)"
proof -
  have t': "t < 2 ^ 19" using t by simp
  note sl = slots [OF local_dirD(4) [OF d] t'] and l = lock_settledD [OF fl d t']
  obtain s' where s': "(if fl AND MAP_PGD_LOCKED = 0 then LOCK_PGD cpu (kaddr t) fl s else Some s) = Some s'" "pmem s' = pmem s"
     "(if fl AND MAP_PGD_LOCKED = 0 then UNLOCK_PGD cpu (kaddr t) fl s' else Some s') = Some s"
    using lock_settled_region [OF fl t'] by blast
  have "unmap_pagetable lay cpu [table_at lay (t div 1024)] (kaddr t) PAGE_SIZE fl s = Some (pmem_write (pte_at lay t) 0 s)"
    using kaddr_less [OF t] sl(5) [symmetric] present s'
    by (simp add: unmap_pagetable_def l sl(1,4) Let_def unmap_loop.simps)
  then show ?thesis
    using kaddr_range [OF t] l(2)
    by (simp add: unmap_kernel_with_pagetable_def Let_def sl(2,3) not_less unmap_kernel_loop.simps kaddr_Suc)
qed

lemma settled_locked: "lock_settled cpu (MAP_LOCAL_CPU OR MAP_PGD_LOCKED) s"
  by (simp add: lock_settled_def)

lemmas map_table = map_page_local [OF _ _ settled_locked]

lemmas unmap_table = unmap_page_local [OF _ _ settled_locked]

section \<open>The user half\<close>

definition uaddr :: "nat \<Rightarrow> u32" where
  "uaddr v = of_nat (4096 * v)"

definition ud :: "u32 \<Rightarrow> nat \<Rightarrow> u32" where
  "ud dir i = dir + of_nat (4 * i)"

definition tw :: "nat \<Rightarrow> nat \<Rightarrow> u32" where
  "tw t j = kaddr t + of_nat (4 * j)"

lemma unat_uaddr: "v < 2 ^ 19 \<Longrightarrow> unat (uaddr v) = 4096 * v"
  by (simp add: uaddr_def unat_of_nat del: of_nat_mult)

lemma uaddr_index:
  assumes "v < 2 ^ 19"
  shows "drop_bit PGD_SHIFT (uaddr v) AND 0x3ff = of_nat (v div 1024)" "drop_bit PAGE_SHIFT (uaddr v) AND 0x3ff = of_nat (v mod 1024)"
proof -
  have d: "v div 1024 < 512" using assms by (simp add: less_mult_imp_div_less)
  have "4096 * v div 2 ^ 22 = v div 1024" by (subst div_mult_mult1 [of 4096 _ 1024, symmetric]) simp_all
  then have "unat (drop_bit PGD_SHIFT (uaddr v)) = v div 1024"
    by (simp add: unat_drop_bit_eq unat_uaddr [OF assms] PGD_SHIFT_def drop_bit_eq_div [where 'a = nat])
  then show "drop_bit PGD_SHIFT (uaddr v) AND 0x3ff = of_nat (v div 1024)"
    unfolding word_unat_eq_iff and_3ff using d by (simp add: unat_of_nat)
  have "unat (drop_bit PAGE_SHIFT (uaddr v)) = v"
    by (simp add: unat_drop_bit_eq unat_uaddr [OF assms] PAGE_SHIFT_def drop_bit_eq_div [where 'a = nat])
  then show "drop_bit PAGE_SHIFT (uaddr v) AND 0x3ff = of_nat (v mod 1024)"
    unfolding word_unat_eq_iff and_3ff by (simp add: unat_of_nat)
qed

definition safe_table :: "kernel_layout \<Rightarrow> u32 \<Rightarrow> nat \<Rightarrow> bool" where
  "safe_table lay dir t \<longleftrightarrow> t + 1 < 2 ^ 19 \<and> apart (kaddr t) dir \<and>
     (unat (kaddr t) + 4096 \<le> unat (kernel_pg_table_0 lay) \<or> unat (kernel_pg_table_0 lay) + 2 ^ 21 \<le> unat (kaddr t))"

lemma safe_less: "safe_table lay dir t \<Longrightarrow> t < 2 ^ 19" "safe_table lay dir t \<Longrightarrow> t + 1 < 2 ^ 19"
  by (simp_all add: safe_table_def)

lemma unat_tw: "t < 2 ^ 19 \<Longrightarrow> j < 1024 \<Longrightarrow> unat (tw t j) = 2 ^ 31 + 4096 * t + 4 * j"
  unfolding tw_def by (subst unat_add_of_nat) (simp_all add: unat_kaddr)

lemma unat_ud: "layout_ok lay dir \<Longrightarrow> i < 512 \<Longrightarrow> unat (ud dir i) = unat dir + 4 * i"
  unfolding ud_def by (intro unat_add_of_nat) (simp add: layout_ok_def)

lemma page_word_inj: "j < 1024 \<Longrightarrow> k < 1024 \<Longrightarrow> 4096 * t + 4 * j = 4096 * u + 4 * k \<Longrightarrow> t = u \<and> j = k" for j k t u :: nat
proof -
  assume a: "j < 1024" "k < 1024" "4096 * t + 4 * j = 4096 * u + 4 * k"
  then have "j + 1024 * t = k + 1024 * u" by linarith
  then have "(j + 1024 * t) div 1024 = (k + 1024 * u) div 1024" by simp
  then have "t = u" using a(1,2) by simp
  then show ?thesis using a(3) by simp
qed

lemma tw_inj: "t < 2 ^ 19 \<Longrightarrow> u < 2 ^ 19 \<Longrightarrow> j < 1024 \<Longrightarrow> k < 1024 \<Longrightarrow> tw t j = tw u k \<longleftrightarrow> t = u \<and> j = k"
  using page_word_inj [of j k t u] by (auto simp: word_unat_eq_iff unat_tw)

lemma ud_inj: "layout_ok lay dir \<Longrightarrow> i < 512 \<Longrightarrow> j < 512 \<Longrightarrow> ud dir i = ud dir j \<longleftrightarrow> i = j"
  by (simp add: word_unat_eq_iff unat_ud)

text \<open>Entries of the two halves of the directory, of the kernel's tables and of a user's table are different words.\<close>

lemma words_apart:
  assumes "layout_ok lay dir" and "safe_table lay dir t" and "j < 1024" and "i < 512" and "k < 512" and "n < 2 ^ 19"
  shows "tw t j \<noteq> ud dir i" "tw t j \<noteq> pgd_at dir k" "tw t j \<noteq> pte_at lay n" "ud dir i \<noteq> pgd_at dir k" "ud dir i \<noteq> pte_at lay n"
    "pgd_at dir k \<noteq> pte_at lay n"
proof -
  have t: "t < 2 ^ 19" using assms(2) by (simp add: safe_table_def)
  note u = unat_tw [OF t assms(3)] unat_ud [OF assms(1,4)] unat_pgd_at [OF assms(1,5)] unat_pte_at [OF assms(1,6)]
  have s: "2 ^ 31 + 4096 * t + 4096 \<le> unat dir \<or> unat dir + 4096 \<le> 2 ^ 31 + 4096 * t"
    "2 ^ 31 + 4096 * t + 4096 \<le> unat (kernel_pg_table_0 lay) \<or> unat (kernel_pg_table_0 lay) + 2 ^ 21 \<le> 2 ^ 31 + 4096 * t"
    using assms(2) unat_kaddr [OF t] by (simp_all add: safe_table_def apart_def)
  have l: "unat dir + 4096 \<le> unat (kernel_pg_table_0 lay) \<or> unat (kernel_pg_table_0 lay) + 2 ^ 21 \<le> unat dir"
    using assms(1) by (simp add: layout_ok_def)
  show "tw t j \<noteq> ud dir i" "tw t j \<noteq> pgd_at dir k" "tw t j \<noteq> pte_at lay n" "ud dir i \<noteq> pgd_at dir k" "ud dir i \<noteq> pte_at lay n"
    "pgd_at dir k \<noteq> pte_at lay n"
    using s l assms(3-6) by (auto simp: word_unat_eq_iff u)
qed

lemma user_slots:
  assumes "v < 2 ^ 19"
  shows "pgd_slot dir (uaddr v) = ud dir (v div 1024)" "pte_slot (kaddr t) (uaddr v) = tw t (v mod 1024)"
  by (simp_all add: pgd_slot_def pte_slot_def ud_def tw_def uaddr_index [OF assms])

lemma synced_cong:
  "dir_synced lay dir m \<Longrightarrow> (\<And>i. i < 512 \<Longrightarrow> m' (pgd_at dir i) = m (pgd_at dir i)) \<Longrightarrow> dir_synced lay dir m'"
  unfolding dir_synced_def by simp

text \<open>The memory after one turn of the mapping loop.\<close>

definition dir_entry :: "u32 \<Rightarrow> u32 \<Rightarrow> u32 \<Rightarrow> u32" where
  "dir_entry table pf e = (if e = 0 then (table - KERNEL_VIRT_ADDR) OR pf else e OR pf)"

definition page_mapped :: "kernel_layout \<Rightarrow> u32 \<Rightarrow> nat \<Rightarrow> nat \<Rightarrow> u32 \<Rightarrow> u32 \<Rightarrow> (u32 \<Rightarrow> u32) \<Rightarrow> (u32 \<Rightarrow> u32) \<Rightarrow> bool" where
  "page_mapped lay dir t v x pf m m' \<longleftrightarrow>
     m' (tw t (v mod 1024)) = x \<and> m' (ud dir (v div 1024)) = dir_entry (kaddr t) pf (m (ud dir (v div 1024))) \<and>
     m' (pte_at lay t) = 0 \<and> m' (pgd_at dir (t div 1024)) \<noteq> 0 \<and> dir_synced lay dir m' \<and>
     (\<forall>a. a \<notin> {tw t (v mod 1024), ud dir (v div 1024), pte_at lay t, pgd_at dir (t div 1024)} \<longrightarrow> m' a = m a)"

lemma pgd_entry_simp: "pgd_entry pgd table pf s = pmem_write pgd (if pmem s pgd \<noteq> 0 \<and> (pmem s pgd AND PGD_FLAG_MASK) XOR pf = 0
    then pmem s pgd else dir_entry table pf (pmem s pgd)) s"
  by (simp add: pgd_entry_def dir_entry_def pmem_write_def)

lemma dir_entry_same: "e \<noteq> 0 \<Longrightarrow> (e AND PGD_FLAG_MASK) XOR pf = 0 \<Longrightarrow> dir_entry table pf e = e"
proof -
  assume "e \<noteq> 0" "(e AND PGD_FLAG_MASK) XOR pf = 0"
  have "bit pf i \<Longrightarrow> bit e i" for i
  proof -
    have "\<not> bit ((e AND PGD_FLAG_MASK) XOR pf) i" using \<open>(e AND PGD_FLAG_MASK) XOR pf = 0\<close> by simp
    then show "bit pf i \<Longrightarrow> bit e i" by (auto simp: bit_xor_iff bit_and_iff)
  qed
  then have "e OR pf = e" by (auto intro!: bit_word_eqI simp: bit_or_iff)
  then show ?thesis using \<open>e \<noteq> 0\<close> by (simp add: dir_entry_def)
qed

lemma pgd_entry_dir: "pgd_entry pgd table pf s = pmem_write pgd (dir_entry table pf (pmem s pgd)) s"
  unfolding pgd_entry_simp using dir_entry_same [of "pmem s pgd" pf table] by auto

lemma map_user_page_ok:
  assumes d: "local_dir lay cpu dir" and t: "safe_table lay dir t" and v: "v + 1 < 2 ^ 19" and inv: "dir_synced lay dir (pmem s)"
  shows "\<exists>m. map_user_page lay cpu (kaddr t) phys (uaddr v) fl s = Some (s\<lparr>pmem := m\<rparr>) \<and>
     page_mapped lay dir t v (phys OR (PTE_PRESENT OR PTE_USER OR fl))
       (PGD_PRESENT OR PGD_USER OR (if fl AND PTE_WRITE \<noteq> 0 then PGD_WRITE else 0)) (pmem s) m"
proof -
  let ?pf = "PGD_PRESENT OR PGD_USER OR (if fl AND PTE_WRITE \<noteq> 0 then PGD_WRITE else 0)"
  let ?x = "phys OR (PTE_PRESENT OR PTE_USER OR fl)"
  note D = local_dirD [OF d] and ok = local_dirD(4) [OF d]
  have t': "t < 2 ^ 19" "t + 1 < 2 ^ 19" "t div 1024 < 512" using t by (auto simp: safe_table_def less_mult_imp_div_less)
  have v': "v < 2 ^ 19" "v div 1024 < 512" "v mod 1024 < 1024" using v by (auto simp: less_mult_imp_div_less)
  note ap = words_apart [OF ok t v'(3) v'(2) t'(3) t'(1)]
  define s1 where "s1 = table_mapped lay dir t s"
  define s2 where "s2 = pmem_write (tw t (v mod 1024)) ?x (pmem_write (ud dir (v div 1024)) (dir_entry (kaddr t) ?pf (pmem s (ud dir (v div 1024)))) s1)"
  obtain e where e: "pmem s1 = (pmem s)(pgd_at dir (t div 1024) := e, pte_at lay t := (kaddr t - KERNEL_VIRT_ADDR) OR (PTE_WRITE OR PTE_PRESENT))"
     "e AND PGD_PRESENT \<noteq> 0" "(e AND PAGE_MASK) + KERNEL_VIRT_ADDR = table_at lay (t div 1024)"
    using pgd_entry_value [OF ok inv t'(3)] by (auto simp: s1_def table_mapped_def)
  have ud1: "pmem s1 (ud dir (v div 1024)) = pmem s (ud dir (v div 1024))" using ap by (simp add: e(1))
  have "uaddr v < uaddr v + PAGE_SIZE"
  proof -
    have "unat (uaddr v + PAGE_SIZE) = 4096 * v + 4096"
      using v word_add_no_wrap [of "uaddr v" PAGE_SIZE] by (simp add: unat_uaddr PAGE_SIZE_def)
    then show ?thesis using v by (simp add: word_less_nat_alt unat_uaddr)
  qed
  moreover have "uaddr v + PAGE_SIZE \<le> uaddr v + PAGE_SIZE" by simp
  moreover have "next_page (tw t (v mod 1024)) \<noteq> tw t (v mod 1024)"
  proof
    assume n: "next_page (tw t (v mod 1024)) = tw t (v mod 1024)"
    have u: "unat (tw t (v mod 1024)) = 2 ^ 31 + 4096 * t + 4 * (v mod 1024)" by (rule unat_tw [OF t'(1) v'(3)])
    have "unat (tw t (v mod 1024) + PAGE_SIZE) = 2 ^ 31 + 4096 * t + 4 * (v mod 1024) + 4096"
      using t'(2) v'(3) word_add_no_wrap [of "tw t (v mod 1024)" PAGE_SIZE] by (simp add: u PAGE_SIZE_def)
    then have "unat (next_page (tw t (v mod 1024))) = (2 ^ 31 + 4096 * t + 4 * (v mod 1024) + 4096) div 4096 * 4096"
      unfolding next_page_def unat_page_mask by simp
    moreover have "(2 ^ 31 + 4096 * t + 4 * (v mod 1024) + 4096) div 4096 = 2 ^ 19 + t + 1"
      using v'(3) by (simp add: div_add1_eq)
    ultimately show False using n u v'(3) by simp
  qed
  ultimately have b: "build_pagetable lay cpu [kaddr t] phys (uaddr v) PAGE_SIZE ?pf (PTE_PRESENT OR PTE_USER OR fl)
      (MAP_USER OR MAP_PGD_LOCKED) s1 = Some s2"
    unfolding s2_def build_pagetable_def Let_def
    by (simp add: D user_slots [OF v'(1)] set_pgd_locked [OF locked_flags(2)] pgd_entry_dir ud1 build_loop.simps Let_def)
  have "pmem s2 (pgd_at dir (t div 1024)) = e" using ap by (simp add: s2_def e(1))
  then have "pmem s2 (pgd_at dir (t div 1024)) \<noteq> 0" using e(2) by auto
  then have "map_user_page lay cpu (kaddr t) phys (uaddr v) fl s = Some (pmem_write (pte_at lay t) 0 s2)"
    unfolding map_user_page_def map_table [OF d t'(2)] using b unmap_table [OF d t'(2)] by (simp add: s1_def)
  moreover have "pmem_write (pte_at lay t) 0 s2 = s\<lparr>pmem := (pmem s2)(pte_at lay t := 0)\<rparr>"
    by (simp add: s2_def s1_def table_mapped_def pmem_write_def pgd_entry_def)
  moreover have "page_mapped lay dir t v ?x ?pf (pmem s) ((pmem s2)(pte_at lay t := 0))"
  proof -
    have "((pmem s2)(pte_at lay t := 0)) (pgd_at dir i) = (if i = t div 1024 then e else pmem s (pgd_at dir i))" if "i < 512" for i
      using words_apart(2,4,6) [OF ok t v'(3) v'(2) that t'(1)] pgd_at_inj [OF ok that t'(3)] by (auto simp: s2_def e(1))
    then have "dir_synced lay dir ((pmem s2)(pte_at lay t := 0))"
      using inv e(2,3) unfolding dir_synced_def Let_def by auto
    moreover have "e \<noteq> 0" using e(2) by auto
    ultimately show ?thesis using ap unfolding page_mapped_def by (auto simp: s2_def e(1))
  qed
  ultimately show ?thesis by (intro exI [of _ "(pmem s2)(pte_at lay t := 0)"]) simp
qed

section \<open>The directory's user half as a whole\<close>

text \<open>The frame of the table an entry points to, and the tables of a directory.\<close>

definition frame_of :: "u32 \<Rightarrow> nat" where
  "frame_of e = unat e div 4096"

definition user_tables :: "u32 \<Rightarrow> (u32 \<Rightarrow> u32) \<Rightarrow> nat set" where
  "user_tables dir m = (\<lambda>i. frame_of (m (ud dir i))) ` {i. i < 512 \<and> m (ud dir i) \<noteq> 0}"

definition user_dir_ok :: "kernel_layout \<Rightarrow> u32 \<Rightarrow> (u32 \<Rightarrow> u32) \<Rightarrow> bool" where
  "user_dir_ok lay dir m \<longleftrightarrow>
     (\<forall>i < 512. m (ud dir i) \<noteq> 0 \<longrightarrow> m (ud dir i) AND PGD_PRESENT \<noteq> 0 \<and> m (ud dir i) AND PGD_USER \<noteq> 0 \<and>
        safe_table lay dir (frame_of (m (ud dir i)))) \<and>
     inj_on (\<lambda>i. frame_of (m (ud dir i))) {i. i < 512 \<and> m (ud dir i) \<noteq> 0}"

lemma user_dirD:
  assumes "user_dir_ok lay dir m" and "i < 512" and "m (ud dir i) \<noteq> 0"
  shows "m (ud dir i) AND PGD_PRESENT \<noteq> 0" "m (ud dir i) AND PGD_USER \<noteq> 0" "safe_table lay dir (frame_of (m (ud dir i)))"
    "frame_of (m (ud dir i)) \<in> user_tables dir m"
  using assms by (auto simp: user_dir_ok_def user_tables_def)

lemma user_dir_inj:
  assumes "user_dir_ok lay dir m" and "i < 512" "m (ud dir i) \<noteq> 0" and "j < 512" "m (ud dir j) \<noteq> 0"
    and "frame_of (m (ud dir i)) = frame_of (m (ud dir j))"
  shows "i = j"
  using assms by (auto simp: user_dir_ok_def dest: inj_onD)

text \<open>The entry of user page \<open>v\<close> in the table of its region, and what the MMU makes of an access from user mode.\<close>

definition user_entry :: "u32 \<Rightarrow> (u32 \<Rightarrow> u32) \<Rightarrow> nat \<Rightarrow> u32" where
  "user_entry dir m v = m (tw (frame_of (m (ud dir (v div 1024)))) (v mod 1024))"

definition user_translate :: "u32 \<Rightarrow> (u32 \<Rightarrow> u32) \<Rightarrow> u32 \<Rightarrow> u32 option" where
  "user_translate dir m addr =
     (let e = m (pgd_slot dir addr)
      in if e AND PGD_PRESENT = 0 \<or> e AND PGD_USER = 0 then None
         else let x = m (pte_slot ((e AND PAGE_MASK) + KERNEL_VIRT_ADDR) addr)
              in if x AND PTE_PRESENT = 0 \<or> x AND PTE_USER = 0 then None else Some x)"

lemma frame_table: "frame_of e < 2 ^ 19 \<Longrightarrow> (e AND PAGE_MASK) + KERNEL_VIRT_ADDR = kaddr (frame_of e)"
proof -
  assume "frame_of e < 2 ^ 19"
  have "e AND PAGE_MASK = of_nat (4096 * frame_of e)"
    unfolding word_unat_eq_iff unat_page_mask frame_of_def
    using unsigned_less [of e, where 'a = nat] by (simp add: unat_of_nat del: of_nat_mult)
  then show ?thesis by (simp add: kaddr_def add.commute)
qed

lemma frame_of_or: "pf < 0x1000 \<Longrightarrow> frame_of (e OR pf) = frame_of e"
proof -
  assume pf: "pf < (0x1000 :: u32)"
  then have "unat (drop_bit 12 pf) = 0" by (simp add: unat_drop_bit_eq drop_bit_eq_div [where 'a = nat] word_less_nat_alt)
  then have "drop_bit 12 pf = 0" by (simp only: unsigned_eq_0_iff)
  then have "drop_bit 12 (e OR pf) = drop_bit 12 e" by (simp only: drop_bit_or or.right_neutral)
  then have "unat (drop_bit 12 (e OR pf)) = unat (drop_bit 12 e)" by simp
  then show ?thesis by (simp add: frame_of_def unat_drop_bit_eq drop_bit_eq_div [where 'a = nat] del: drop_bit_or)
qed

lemma frame_of_kaddr: "t < 2 ^ 19 \<Longrightarrow> frame_of (kaddr t - KERNEL_VIRT_ADDR) = t"
  by (simp add: frame_of_def kaddr_def unat_of_nat del: of_nat_mult)

lemma user_translate_entry:
  assumes ok: "user_dir_ok lay dir m" and v: "v < 2 ^ 19"
  shows "user_translate dir m (uaddr v) =
    (if m (ud dir (v div 1024)) = 0 \<or> user_entry dir m v AND PTE_PRESENT = 0 \<or> user_entry dir m v AND PTE_USER = 0 then None
     else Some (user_entry dir m v))"
proof (cases "m (ud dir (v div 1024)) = 0")
  case True
  then show ?thesis by (simp add: user_translate_def user_slots [OF v])
next
  case False
  have "v div 1024 < 512" using v by (simp add: less_mult_imp_div_less)
  note d = user_dirD [OF ok this False]
  show ?thesis
    using d(1,2) False frame_table [OF safe_less(1) [OF d(3)]]
    by (simp add: user_translate_def user_slots [OF v] user_entry_def Let_def)
qed

text \<open>One turn of the mapping loop, for the table the loop picks.\<close>

definition picked :: "kernel_layout \<Rightarrow> u32 \<Rightarrow> (u32 \<Rightarrow> u32) \<Rightarrow> nat \<Rightarrow> nat \<Rightarrow> bool" where
  "picked lay dir m i t \<longleftrightarrow> safe_table lay dir t \<and>
     (if m (ud dir i) \<noteq> 0 then t = frame_of (m (ud dir i)) else t \<notin> user_tables dir m)"

lemma step_facts:
  assumes ok: "layout_ok lay dir" and u: "user_dir_ok lay dir m" and p: "picked lay dir m (v div 1024) t"
    and v: "v < 2 ^ 19" and pf: "pf < 0x1000" "pf AND PGD_PRESENT \<noteq> 0" "pf AND PGD_USER \<noteq> 0"
    and s: "page_mapped lay dir t v x pf m m'"
  shows "j < 512 \<Longrightarrow> j \<noteq> v div 1024 \<Longrightarrow> m' (ud dir j) = m (ud dir j)"
    "m' (ud dir (v div 1024)) \<noteq> 0" "frame_of (m' (ud dir (v div 1024))) = t"
    "user_dir_ok lay dir m'" "user_tables dir m' = insert t (user_tables dir m)"
proof -
  let ?i = "v div 1024"
  have i: "?i < 512" and j': "v mod 1024 < 1024" using v by (simp_all add: less_mult_imp_div_less)
  have t: "safe_table lay dir t" "t < 2 ^ 19" "t div 1024 < 512" using p by (auto simp: picked_def safe_table_def less_mult_imp_div_less)
  have m': "m' (ud dir ?i) = dir_entry (kaddr t) pf (m (ud dir ?i))" using s by (simp add: page_mapped_def)
  show o: "m' (ud dir j) = m (ud dir j)" if "j < 512" "j \<noteq> ?i" for j
    using s words_apart(1,4,5) [OF ok t(1) j' that(1) t(3) t(2)] ud_inj [OF ok that(1) i] that(2) unfolding page_mapped_def by auto
  have bits: "m' (ud dir ?i) AND PGD_PRESENT \<noteq> 0" "m' (ud dir ?i) AND PGD_USER \<noteq> 0"
    using pf(2,3) by (auto simp: m' dir_entry_def bit.conj_disj_distrib2 or_eq_0_iff)
  then show nz: "m' (ud dir ?i) \<noteq> 0" by auto
  show f: "frame_of (m' (ud dir ?i)) = t"
    using p frame_of_or [OF pf(1)] frame_of_kaddr [OF t(2)] by (auto simp: m' dir_entry_def picked_def)
  have old: "m (ud dir j) \<noteq> 0 \<and> frame_of (m (ud dir j)) = t \<Longrightarrow> j < 512 \<Longrightarrow> j = ?i" for j
  proof -
    assume a: "m (ud dir j) \<noteq> 0 \<and> frame_of (m (ud dir j)) = t" "j < 512"
    then have "t \<in> user_tables dir m" by (auto simp: user_tables_def)
    then have "m (ud dir ?i) \<noteq> 0" "t = frame_of (m (ud dir ?i))" using p by (auto simp: picked_def split: if_splits)
    then show "j = ?i" using user_dir_inj [OF u a(2) _ i] a(1) by simp
  qed
  show "user_dir_ok lay dir m'"
    unfolding user_dir_ok_def
  proof (intro conjI allI impI inj_onI)
    fix j assume j: "j < (512 :: nat)" "m' (ud dir j) \<noteq> 0"
    show "m' (ud dir j) AND PGD_PRESENT \<noteq> 0" "m' (ud dir j) AND PGD_USER \<noteq> 0" "safe_table lay dir (frame_of (m' (ud dir j)))"
      using bits f t(1) o [OF j(1)] user_dirD(1-3) [OF u j(1)] j(2) by (cases "j = ?i"; simp)+
  next
    fix j k assume jk: "j \<in> {i. i < 512 \<and> m' (ud dir i) \<noteq> 0}" "k \<in> {i. i < 512 \<and> m' (ud dir i) \<noteq> 0}"
      "frame_of (m' (ud dir j)) = frame_of (m' (ud dir k))"
    have same: "l = ?i" if "l < 512" "m' (ud dir l) \<noteq> 0" "frame_of (m' (ud dir l)) = t" for l
    proof (rule ccontr)
      assume n: "l \<noteq> ?i"
      then have "m (ud dir l) \<noteq> 0 \<and> frame_of (m (ud dir l)) = t" using that(2,3) unfolding o [OF that(1) n] by blast
      then show False using old that(1) n by blast
    qed
    have jk': "j < 512" "m' (ud dir j) \<noteq> 0" "k < 512" "m' (ud dir k) \<noteq> 0" using jk by simp_all
    show "j = k"
    proof (cases "j = ?i \<or> k = ?i")
      case True
      then have "frame_of (m' (ud dir j)) = t" "frame_of (m' (ud dir k)) = t" using f jk(3) by auto
      then show ?thesis using same [OF jk'(1,2)] same [OF jk'(3,4)] by simp
    next
      case False
      then have "m' (ud dir j) = m (ud dir j)" "m' (ud dir k) = m (ud dir k)" using o jk' by blast+
      then show ?thesis using user_dir_inj [OF u jk'(1) _ jk'(3)] jk' jk(3) by simp
    qed
  qed
  show "user_tables dir m' = insert t (user_tables dir m)"
  proof -
    let ?D = "{i. i < 512 \<and> m (ud dir i) \<noteq> 0}" and ?F = "\<lambda>m i. frame_of (m (ud dir i))"
    have "{i. i < 512 \<and> m' (ud dir i) \<noteq> 0} = insert ?i (?D - {?i})"
    proof (rule set_eqI)
      fix l
      show "l \<in> {i. i < 512 \<and> m' (ud dir i) \<noteq> 0} \<longleftrightarrow> l \<in> insert ?i (?D - {?i})"
        using i nz o [of l] by (cases "l = ?i") auto
    qed
    then have "user_tables dir m' = insert t (?F m' ` (?D - {?i}))" by (simp only: user_tables_def image_insert f)
    also have "?F m' ` (?D - {?i}) = ?F m ` (?D - {?i})" by (rule image_cong) (simp_all add: o)
    also have "insert t \<dots> = insert t (user_tables dir m)" using p by (auto simp: user_tables_def picked_def)
    finally show ?thesis .
  qed
qed

text \<open>The words of the tables after such a turn.\<close>

lemma step_words:
  assumes ok: "layout_ok lay dir" and u: "user_dir_ok lay dir m" and p: "picked lay dir m (v div 1024) t"
    and v: "v < 2 ^ 19" and pf: "pf < 0x1000" "pf AND PGD_PRESENT \<noteq> 0" "pf AND PGD_USER \<noteq> 0"
    and s: "page_mapped lay dir t v x pf m m'"
  shows "safe_table lay dir f \<Longrightarrow> j < 1024 \<Longrightarrow>
    m' (tw f j) = (if f = t \<and> j = v mod 1024 then x else m (tw f j))"
proof -
  let ?i = "v div 1024"
  have i: "?i < 512" "v mod 1024 < 1024" using v by (simp_all add: less_mult_imp_div_less)
  have t: "safe_table lay dir t" "t < 2 ^ 19" "t div 1024 < 512" using p by (auto simp: picked_def safe_table_def less_mult_imp_div_less)
  show "m' (tw f j) = (if f = t \<and> j = v mod 1024 then x else m (tw f j))" if "safe_table lay dir f" "j < 1024"
    using s words_apart(1-3) [OF ok that i(1) t(3) t(2)] tw_inj [OF safe_less(1) [OF that(1)] t(2) that(2) i(2)]
    unfolding page_mapped_def by auto
qed

text \<open>The kernel's own entry for the table is cleared, those of other pages stay.\<close>

lemma step_ptes:
  assumes ok: "layout_ok lay dir" and t: "safe_table lay dir t" and v: "v < 2 ^ 19"
    and s: "page_mapped lay dir t v x pf m m'" and f: "f < 2 ^ 19"
  shows "m' (pte_at lay f) = (if f = t then 0 else m (pte_at lay f))"
proof -
  have i: "v div 1024 < 512" "v mod 1024 < 1024" "t div 1024 < 512"
    using v safe_less(1) [OF t] by (simp_all add: less_mult_imp_div_less)
  show ?thesis
    using s words_apart(3,5,6) [OF ok t i(2,1,3) f] pte_at_inj [OF ok f safe_less(1) [OF t]] unfolding page_mapped_def by force
qed

section \<open>The mapping loop\<close>

text \<open>The 4 MiB regions of a range of pages, and those without a table.\<close>

definition regions :: "nat \<Rightarrow> nat \<Rightarrow> nat set" where
  "regions v n = (\<lambda>k. (v + k) div 1024) ` {..<n}"

lemma regions_simps [simp]: "regions v 0 = {}" "regions v (Suc n) = insert (v div 1024) (regions (Suc v) n)" "finite (regions v n)"
  by (auto simp: regions_def lessThan_Suc_eq_insert_0 image_image)

lemma regions_less: "i \<in> regions v n \<Longrightarrow> v + n < 2 ^ 19 \<Longrightarrow> i < 512"
  by (auto simp: regions_def less_mult_imp_div_less)

definition missing :: "u32 \<Rightarrow> (u32 \<Rightarrow> u32) \<Rightarrow> nat \<Rightarrow> nat \<Rightarrow> nat set" where
  "missing dir m v n = {i \<in> regions v n. m (ud dir i) = 0}"

lemma missing_Suc: "missing dir m v (Suc n) = (if m (ud dir (v div 1024)) = 0 then {v div 1024} else {}) \<union> missing dir m (Suc v) n"
  by (auto simp: missing_def)

text \<open>The kernel's directory has a table for a frame, with no entry for it: an access is a page fault that is not repaired.\<close>

definition hidden :: "kernel_layout \<Rightarrow> u32 \<Rightarrow> nat \<Rightarrow> (u32 \<Rightarrow> u32) \<Rightarrow> bool" where
  "hidden lay dir t m \<longleftrightarrow> m (pte_at lay t) = 0 \<and> m (pgd_at dir (t div 1024)) \<noteq> 0"

text \<open>The entry of a page of the range, and what is left alone.\<close>

definition range_mapped ::
  "kernel_layout \<Rightarrow> u32 \<Rightarrow> nat set \<Rightarrow> nat \<Rightarrow> nat \<Rightarrow> u32 \<Rightarrow> u32 \<Rightarrow> (u32 \<Rightarrow> u32) \<Rightarrow> (u32 \<Rightarrow> u32) \<Rightarrow> bool"
where
  "range_mapped lay dir new v n phys fl m m' \<longleftrightarrow>
     dir_synced lay dir m' \<and> user_dir_ok lay dir m' \<and> user_tables dir m' = user_tables dir m \<union> new \<and>
     (\<forall>k < n. m' (ud dir ((v + k) div 1024)) \<noteq> 0 \<and> user_entry dir m' (v + k) = (phys + of_nat (4096 * k)) OR fl) \<and>
     (\<forall>i < 512. m (ud dir i) \<noteq> 0 \<longrightarrow> m' (ud dir i) \<noteq> 0 \<and> frame_of (m' (ud dir i)) = frame_of (m (ud dir i))) \<and>
     (\<forall>i < 512. i \<notin> regions v n \<longrightarrow> m' (ud dir i) = m (ud dir i)) \<and>
     (\<forall>f j. safe_table lay dir f \<and> j < 1024 \<and>
        (\<forall>k < n. frame_of (m' (ud dir ((v + k) div 1024))) = f \<longrightarrow> (v + k) mod 1024 \<noteq> j) \<longrightarrow> m' (tw f j) = m (tw f j)) \<and>
     (\<forall>a. (\<forall>i < 512. a \<noteq> ud dir i \<and> a \<noteq> pgd_at dir i) \<longrightarrow>
        (\<forall>f \<in> user_tables dir m'. a \<noteq> pte_at lay f \<and> (\<forall>j < 1024. a \<noteq> tw f j)) \<longrightarrow> m' a = m a) \<and>
     (\<forall>f < 2 ^ 19. m' (pte_at lay f) = 0 \<or> m' (pte_at lay f) = m (pte_at lay f)) \<and>
     (\<forall>i < 512. m (pgd_at dir i) \<noteq> 0 \<longrightarrow> m' (pgd_at dir i) \<noteq> 0) \<and>
     (\<forall>k < n. hidden lay dir (frame_of (m' (ud dir ((v + k) div 1024)))) m')"

lemma range_mappedD:
  assumes "range_mapped lay dir new v n phys fl m m'"
  shows "dir_synced lay dir m'" "user_dir_ok lay dir m'" "user_tables dir m' = user_tables dir m \<union> new"
    "k < n \<Longrightarrow> m' (ud dir ((v + k) div 1024)) \<noteq> 0" "k < n \<Longrightarrow> user_entry dir m' (v + k) = (phys + of_nat (4096 * k)) OR fl"
    "i < 512 \<Longrightarrow> m (ud dir i) \<noteq> 0 \<Longrightarrow> m' (ud dir i) \<noteq> 0"
    "i < 512 \<Longrightarrow> m (ud dir i) \<noteq> 0 \<Longrightarrow> frame_of (m' (ud dir i)) = frame_of (m (ud dir i))"
    "i < 512 \<Longrightarrow> i \<notin> regions v n \<Longrightarrow> m' (ud dir i) = m (ud dir i)"
    "safe_table lay dir f \<Longrightarrow> j < 1024 \<Longrightarrow>
       (\<And>k. k < n \<Longrightarrow> frame_of (m' (ud dir ((v + k) div 1024))) = f \<Longrightarrow> (v + k) mod 1024 \<noteq> j) \<Longrightarrow> m' (tw f j) = m (tw f j)"
    "(\<And>i. i < 512 \<Longrightarrow> a \<noteq> ud dir i \<and> a \<noteq> pgd_at dir i) \<Longrightarrow>
        (\<And>f. f \<in> user_tables dir m' \<Longrightarrow> a \<noteq> pte_at lay f \<and> (\<forall>j < 1024. a \<noteq> tw f j)) \<Longrightarrow> m' a = m a"
    "f < 2 ^ 19 \<Longrightarrow> m' (pte_at lay f) = 0 \<or> m' (pte_at lay f) = m (pte_at lay f)"
    "i < 512 \<Longrightarrow> m (pgd_at dir i) \<noteq> 0 \<Longrightarrow> m' (pgd_at dir i) \<noteq> 0"
    "k < n \<Longrightarrow> hidden lay dir (frame_of (m' (ud dir ((v + k) div 1024)))) m'"
  using assms unfolding range_mapped_def by blast+

lemma range_mapped_nil: "dir_synced lay dir m \<Longrightarrow> user_dir_ok lay dir m \<Longrightarrow> range_mapped lay dir {} v 0 phys fl m m"
  by (simp add: range_mapped_def)

lemma range_mapped_cons:
  assumes ok: "layout_ok lay dir" and u: "user_dir_ok lay dir m" and p: "picked lay dir m (v div 1024) t"
    and v: "v + Suc n < 2 ^ 19" and pf: "pf < 0x1000" "pf AND PGD_PRESENT \<noteq> 0" "pf AND PGD_USER \<noteq> 0"
    and s: "page_mapped lay dir t v (phys OR fl) pf m m1"
    and r: "range_mapped lay dir new (Suc v) n (phys + PAGE_SIZE) fl m1 m'"
  shows "range_mapped lay dir (if m (ud dir (v div 1024)) = 0 then insert t new else new) v (Suc n) phys fl m m'"
proof -
  let ?i = "v div 1024"
  have v': "v < 2 ^ 19" "v div 1024 < 512" "v mod 1024 < 1024" using v by (simp_all add: less_mult_imp_div_less)
  have t: "safe_table lay dir t" "t div 1024 < 512" using p by (auto simp: picked_def safe_table_def less_mult_imp_div_less)
  note sf = step_facts [OF ok u p v'(1) pf s] and sw = step_words [OF ok u p v'(1) pf s] and rd = range_mappedD [OF r]
  have ti: "m' (ud dir ?i) \<noteq> 0" "frame_of (m' (ud dir ?i)) = t" using rd(6,7) [OF v'(2) sf(2)] sf(3) by simp_all
  have region: "(v + k) div 1024 < 512" if "k \<le> n" for k using that v by (simp add: less_mult_imp_div_less)
  have nonzero: "m' (ud dir ((v + k) div 1024)) \<noteq> 0" if "k \<le> n" for k
    using that ti(1) rd(4) [of "k - 1"] by (cases k) simp_all
  have hit: "frame_of (m' (ud dir ((v + k) div 1024))) = t \<and> (v + k) mod 1024 = v mod 1024 \<longleftrightarrow> k = 0" if "k \<le> n" for k
  proof
    assume a: "frame_of (m' (ud dir ((v + k) div 1024))) = t \<and> (v + k) mod 1024 = v mod 1024"
    then have "(v + k) div 1024 = ?i" using user_dir_inj [OF rd(2) region [OF that] nonzero [OF that] v'(2) ti(1)] ti(2) by simp
    then have "v + k = v" using a div_mult_mod_eq [of "v + k" 1024] div_mult_mod_eq [of v 1024] by metis
    then show "k = 0" by simp
  qed (simp add: ti)
  have words: "m' (tw f j) = m1 (tw f j)" if "safe_table lay dir f" "j < 1024"
    "\<And>k. 0 < k \<Longrightarrow> k \<le> n \<Longrightarrow> frame_of (m' (ud dir ((v + k) div 1024))) = f \<Longrightarrow> (v + k) mod 1024 \<noteq> j" for f j
    using that(3) [of "Suc _"] by (intro rd(9) [OF that(1,2)]) simp
  have pages: "m' (ud dir ((v + k) div 1024)) \<noteq> 0 \<and> user_entry dir m' (v + k) = (phys + of_nat (4096 * k)) OR fl" if "k < Suc n" for k
  proof (cases k)
    case 0
    have "m' (tw t (v mod 1024)) = phys OR fl"
      using words [OF t(1) v'(3)] hit sw [OF t(1) v'(3)] by auto
    then show ?thesis using 0 ti by (simp add: user_entry_def)
  next
    case (Suc j)
    have e: "phys + PAGE_SIZE + of_nat (4096 * j) = phys + of_nat (4096 * Suc j)" by (simp add: PAGE_SIZE_def)
    show ?thesis using rd(4) [of j] rd(5) [of j, unfolded e] that Suc by simp
  qed
  have frames: "m' (ud dir j) \<noteq> 0 \<and> frame_of (m' (ud dir j)) = frame_of (m (ud dir j))" if "j < 512" "m (ud dir j) \<noteq> 0" for j
  proof (cases "j = ?i")
    case True
    then show ?thesis using ti p that(2) by (simp add: picked_def)
  next
    case False
    then show ?thesis using rd(6,7) [OF that(1)] sf(1) [OF that(1) False] that(2) by simp
  qed
  have others: "m' (ud dir j) = m (ud dir j)" if "j < 512" "j \<notin> regions v (Suc n)" for j
  proof -
    have "j \<notin> regions (Suc v) n" "j \<noteq> ?i" using that(2) by simp_all
    then show ?thesis using rd(8) [OF that(1)] sf(1) [OF that(1)] by simp
  qed
  have table_words: "m' (tw f j) = m (tw f j)" if "safe_table lay dir f" "j < 1024"
    "\<forall>k < Suc n. frame_of (m' (ud dir ((v + k) div 1024))) = f \<longrightarrow> (v + k) mod 1024 \<noteq> j" for f j
    using words [OF that(1,2)] that(3) sw [OF that(1,2)] ti(2) by (auto simp: less_Suc_eq_le)
  have tables: "user_tables dir m' = user_tables dir m \<union> (if m (ud dir ?i) = 0 then insert t new else new)"
    using rd(3) sf(5) p user_dirD(4) [OF u v'(2)] by (auto simp: picked_def)
  have frame: "m' a = m a" if "\<forall>i < 512. a \<noteq> ud dir i \<and> a \<noteq> pgd_at dir i"
    "\<forall>f \<in> user_tables dir m'. a \<noteq> pte_at lay f \<and> (\<forall>j < 1024. a \<noteq> tw f j)" for a
  proof -
    have "t \<in> user_tables dir m'" using rd(3) sf(5) by simp
    then have "m1 a = m a" using s that v'(2,3) t(2) unfolding page_mapped_def by blast
    moreover have "m' a = m1 a" using that by (intro rd(10)) blast+
    ultimately show ?thesis by simp
  qed
  have kept: "m' (pte_at lay f) = 0 \<or> m' (pte_at lay f) = m (pte_at lay f)" if "f < 2 ^ 19" for f
    using rd(11) [OF that] step_ptes [OF ok t(1) v'(1) s that] by (auto split: if_splits)
  have m1: "m1 (pgd_at dir (t div 1024)) \<noteq> 0" "m1 (pte_at lay t) = 0" using s by (simp_all add: page_mapped_def)
  have pgds: "m' (pgd_at dir i) \<noteq> 0" if "i < 512" "m (pgd_at dir i) \<noteq> 0" for i
  proof -
    have "m1 (pgd_at dir i) \<noteq> 0"
      using s m1(1) that words_apart(2,4,6) [OF ok t(1) v'(3,2) that(1) safe_less(1) [OF t(1)]] pgd_at_inj [OF ok that(1) t(2)]
      unfolding page_mapped_def by (cases "i = t div 1024") auto
    then show ?thesis by (rule rd(12) [OF that(1)])
  qed
  have unmapped: "hidden lay dir (frame_of (m' (ud dir ((v + k) div 1024)))) m'" if "k < Suc n" for k
  proof (cases k)
    case 0
    then show ?thesis
      using rd(11) [OF safe_less(1) [OF t(1)]] rd(12) [OF t(2)] m1 ti(2) by (simp add: hidden_def)
  next
    case (Suc j)
    then show ?thesis using rd(13) [of j] that by simp
  qed
  show ?thesis
    unfolding range_mapped_def using rd(1,2) tables pages frames others table_words frame kept pgds unmapped by blast
qed

lemma fresh_address:
  "KPAGE_TO_PHYS_ADDR t + push_bit PAGE_SHIFT (of_nat i) + KERNEL_VIRT_ADDR = kaddr (t + i)"
  by (simp add: KPAGE_TO_PHYS_ADDR_def kaddr_def push_bit_eq_mult PAGE_SHIFT_def algebra_simps)

lemma uaddr_Suc: "uaddr v + PAGE_SIZE = uaddr (Suc v)"
  by (simp add: uaddr_def PAGE_SIZE_def)

lemma user_pgd_flags: "f \<in> {0, PGD_WRITE} \<Longrightarrow> PGD_PRESENT OR PGD_USER OR f < 0x1000"
  "f \<in> {0, PGD_WRITE} \<Longrightarrow> (PGD_PRESENT OR PGD_USER OR f) AND PGD_PRESENT \<noteq> 0"
  "f \<in> {0, PGD_WRITE} \<Longrightarrow> (PGD_PRESENT OR PGD_USER OR f) AND PGD_USER \<noteq> 0"
  by (auto simp: flag_simps)

lemma map_user_pages_ok:
  assumes d: "local_dir lay cpu dir"
  shows "v + n < 2 ^ 19 \<Longrightarrow> dir_synced lay dir (pmem s) \<Longrightarrow> user_dir_ok lay dir (pmem s) \<Longrightarrow>
    (\<And>j. j < card (missing dir (pmem s) v n) \<Longrightarrow>
       safe_table lay dir (tb + (idx + j)) \<and> tb + (idx + j) \<notin> user_tables dir (pmem s)) \<Longrightarrow>
    (missing dir (pmem s) v n \<noteq> {} \<Longrightarrow> pgt = Some tb) \<Longrightarrow>
    \<exists>m. map_user_pages lay cpu pgt fl n (of_nat idx) phys (uaddr v) s = Some (s\<lparr>pmem := m\<rparr>) \<and>
      range_mapped lay dir ((\<lambda>j. tb + (idx + j)) ` {..<card (missing dir (pmem s) v n)}) v n phys (PTE_PRESENT OR PTE_USER OR fl) (pmem s) m"
proof (induction n arbitrary: v s idx phys)
  case 0
  then show ?case using range_mapped_nil by (intro exI [of _ "pmem s"]) (simp add: missing_def)
next
  case (Suc n)
  let ?i = "v div 1024" and ?m = "pmem s" and ?fl = "PTE_PRESENT OR PTE_USER OR fl"
  let ?pf = "PGD_PRESENT OR PGD_USER OR (if fl AND PTE_WRITE \<noteq> 0 then PGD_WRITE else 0)"
  define fresh where "fresh \<longleftrightarrow> ?m (ud dir ?i) = 0"
  define t where "t = (if fresh then tb + idx else frame_of (?m (ud dir ?i)))"
  define idx' where "idx' = (if fresh then Suc idx else idx)"
  note ok = local_dirD(4) [OF d] and D = local_dirD [OF d]
  have v: "v < 2 ^ 19" "v + 1 < 2 ^ 19" "?i < 512" using Suc.prems(1) by (simp_all add: less_mult_imp_div_less)
  have pf: "?pf < 0x1000" "?pf AND PGD_PRESENT \<noteq> 0" "?pf AND PGD_USER \<noteq> 0"
    using user_pgd_flags [of "if fl AND PTE_WRITE \<noteq> 0 then PGD_WRITE else 0"] by simp_all
  have fin: "finite (missing dir m v n)" for m v n by (simp add: missing_def)
  have ne: "fresh \<Longrightarrow> ?i \<in> missing dir ?m v (Suc n)" by (simp add: fresh_def missing_Suc)
  have picked: "picked lay dir ?m ?i t"
  proof (cases fresh)
    case True
    have "0 < card (missing dir ?m v (Suc n))" using ne [OF True] fin card_gt_0_iff by blast
    then show ?thesis using Suc.prems(4) [of 0] True by (simp add: picked_def t_def fresh_def)
  next
    case False
    then show ?thesis using user_dirD(3) [OF Suc.prems(3) v(3)] by (simp add: picked_def t_def fresh_def)
  qed
  then have safe: "safe_table lay dir t" by (simp add: picked_def)
  obtain m1 where m1: "map_user_page lay cpu (kaddr t) phys (uaddr v) fl s = Some (s\<lparr>pmem := m1\<rparr>)"
    "page_mapped lay dir t v (phys OR ?fl) ?pf ?m m1"
    using map_user_page_ok [OF d safe v(2) Suc.prems(2), of phys fl] by blast
  note sf = step_facts [OF ok Suc.prems(3) picked v(1) pf m1(2)]
  have miss: "missing dir ?m v (Suc n) = (if fresh then insert ?i (missing dir m1 (Suc v) n) else missing dir m1 (Suc v) n)"
    "?i \<notin> missing dir m1 (Suc v) n"
  proof -
    have "missing dir m1 (Suc v) n = missing dir ?m (Suc v) n - {?i}"
    proof (rule set_eqI)
      fix l
      have "l \<in> regions (Suc v) n \<Longrightarrow> l < 512" using Suc.prems(1) by (simp add: regions_less)
      then show "l \<in> missing dir m1 (Suc v) n \<longleftrightarrow> l \<in> missing dir ?m (Suc v) n - {?i}"
        using sf(1,2) by (cases "l = ?i") (auto simp: missing_def)
    qed
    then show "missing dir ?m v (Suc n) = (if fresh then insert ?i (missing dir m1 (Suc v) n) else missing dir m1 (Suc v) n)"
      "?i \<notin> missing dir m1 (Suc v) n"
      by (auto simp: missing_Suc fresh_def missing_def)
  qed
  have card: "card (missing dir ?m v (Suc n)) = (if fresh then Suc else id) (card (missing dir m1 (Suc v) n))"
    using miss fin by simp
  have frs: "safe_table lay dir (tb + (idx' + j)) \<and> tb + (idx' + j) \<notin> user_tables dir (pmem (s\<lparr>pmem := m1\<rparr>))"
    if "j < card (missing dir (pmem (s\<lparr>pmem := m1\<rparr>)) (Suc v) n)" for j
  proof (cases fresh)
    case True
    then show ?thesis using Suc.prems(4) [of "Suc j"] that card by (simp add: idx'_def sf(5) t_def)
  next
    case False
    have "t \<in> user_tables dir ?m" using user_dirD(4) [OF Suc.prems(3) v(3)] False by (simp add: t_def fresh_def)
    then show ?thesis using Suc.prems(4) [of j] that card False by (auto simp: idx'_def sf(5))
  qed
  have syn: "dir_synced lay dir m1" using m1(2) by (simp add: page_mapped_def)
  obtain m where m: "map_user_pages lay cpu pgt fl n (of_nat idx') (phys + PAGE_SIZE) (uaddr (Suc v)) (s\<lparr>pmem := m1\<rparr>) = Some (s\<lparr>pmem := m\<rparr>)"
    "range_mapped lay dir ((\<lambda>j. tb + (idx' + j)) ` {..<card (missing dir m1 (Suc v) n)}) (Suc v) n (phys + PAGE_SIZE) ?fl m1 m"
    using Suc.IH [of "Suc v" "s\<lparr>pmem := m1\<rparr>" idx' "phys + PAGE_SIZE"] Suc.prems(1,5) syn sf(4) frs miss(1)
    by (auto split: if_splits)
  have table: "(if ?m (ud dir ?i) \<noteq> 0 then Some ((?m (ud dir ?i) AND PAGE_MASK) + KERNEL_VIRT_ADDR, of_nat idx)
      else do { t \<leftarrow> pgt; Some (KPAGE_TO_PHYS_ADDR t + push_bit PAGE_SHIFT (of_nat idx) + KERNEL_VIRT_ADDR, of_nat idx + 1) })
    = Some (kaddr t, of_nat idx')"
  proof (cases fresh)
    case True
    then have "pgt = Some tb" using Suc.prems(5) ne by blast
    then show ?thesis using True by (simp add: fresh_def t_def idx'_def fresh_address add.commute [of 1])
  next
    case False
    then show ?thesis using frame_table safe_less(1) [OF safe] by (simp add: fresh_def t_def idx'_def)
  qed
  have "map_user_pages lay cpu pgt fl (Suc n) (of_nat idx) phys (uaddr v) s = Some (s\<lparr>pmem := m\<rparr>)"
    using m1(1) m(1) by (simp add: D(3) user_slots(1) [OF v(1)] table uaddr_Suc Let_def cong: if_cong)
  moreover have "(\<lambda>j. tb + (idx + j)) ` {..<card (missing dir ?m v (Suc n))} =
     (if ?m (ud dir ?i) = 0 then insert t ((\<lambda>j. tb + (idx' + j)) ` {..<card (missing dir m1 (Suc v) n)})
      else (\<lambda>j. tb + (idx' + j)) ` {..<card (missing dir m1 (Suc v) n)})"
    by (simp add: card flip: fresh_def) (simp add: t_def idx'_def lessThan_Suc_eq_insert_0 image_image)
  ultimately show ?case
    using range_mapped_cons [OF ok Suc.prems(3) picked Suc.prems(1) pf m1(2) m(2)] by auto
qed

section \<open>Counting the tables\<close>

lemma regions_counted:
  assumes "0 < n" and "v mod 1024 + n \<le> 1024 * ((n + 1023) div 1024)"
  shows "regions v n = {v div 1024..<v div 1024 + (n + 1023) div 1024}"
proof (rule set_eqI)
  fix i
  let ?q = "(n + 1023) div 1024"
  have below: "(v + k) div 1024 < v div 1024 + ?q" if "k < n" for k
  proof -
    have "1024 * (v div 1024) + v mod 1024 = v" by simp
    then have "v + k < 1024 * (v div 1024) + 1024 * ?q" using assms(2) that by linarith
    then have "v + k < 1024 * (v div 1024 + ?q)" by (simp only: distrib_left)
    then show ?thesis by (simp add: less_mult_imp_div_less mult.commute)
  qed
  show "i \<in> regions v n \<longleftrightarrow> i \<in> {v div 1024..<v div 1024 + ?q}"
  proof
    assume "i \<in> regions v n"
    then obtain k where "k < n" "i = (v + k) div 1024" by (auto simp: regions_def)
    then show "i \<in> {v div 1024..<v div 1024 + ?q}" using below [of k] div_le_mono [of v "v + k" 1024] by simp
  next
    assume i: "i \<in> {v div 1024..<v div 1024 + ?q}"
    define r where "r = i - v div 1024"
    have r: "r < ?q" "i = v div 1024 + r" using i by (auto simp: r_def)
    then have "Suc r * 1024 \<le> n + 1023" by (simp only: Suc_le_eq [symmetric] less_eq_div_iff_mult_less_eq)
    then have "1024 * r < n" by simp
    moreover have "(v + 1024 * r) div 1024 = i" using r(2) by simp
    ultimately show "i \<in> regions v n" unfolding regions_def by blast
  qed
qed

lemma count_tables_card:
  "v div 1024 + q \<le> 512 \<Longrightarrow>
   count_tables dir q (uaddr v) p = of_nat (card {i \<in> {v div 1024..<v div 1024 + q}. pmem p (ud dir i) = 0})"
proof (induction q arbitrary: v)
  case (Suc q)
  let ?S = "\<lambda>i q. {j \<in> {i..<i + q}. pmem p (ud dir j) = 0}"
  have "v div 1024 < 512" using Suc.prems by simp
  then have v: "v < 2 ^ 19" by (simp add: div_less_iff_less_mult)
  have d: "(v + 1024) div 1024 = Suc (v div 1024)" by simp
  have n: "uaddr v + PGD_SIZE = uaddr (v + 1024)" by (simp add: uaddr_def PGD_SIZE_def)
  have "?S (v div 1024) (Suc q) = (if pmem p (ud dir (v div 1024)) = 0 then {v div 1024} else {}) \<union> ?S (Suc (v div 1024)) q"
    by (auto simp: less_Suc_eq_le Suc_le_eq order_le_less)
  then have "card (?S (v div 1024) (Suc q)) = (if pmem p (ud dir (v div 1024)) = 0 then 1 else 0) + card (?S (Suc (v div 1024)) q)"
    by simp
  then show ?case using Suc.IH [of "v + 1024"] Suc.prems by (simp add: user_slots [OF v] n d)
qed simp

lemma count_tables_missing:
  assumes "0 < n" and "v + n < 2 ^ 19" and "v mod 1024 + n \<le> 1024 * ((n + 1023) div 1024)"
  shows "count_tables dir ((n + 1023) div 1024) (uaddr v) p = of_nat (card (missing dir (pmem p) v n))"
    "card (missing dir (pmem p) v n) \<le> 512"
proof -
  have b: "i < 512" if "i \<in> {v div 1024..<v div 1024 + (n + 1023) div 1024}" for i
    using that regions_less [OF _ assms(2)] unfolding regions_counted [OF assms(1,3)] by blast
  have q: "v div 1024 + (n + 1023) div 1024 \<le> 512"
  proof -
    have "0 < (n + 1023) div 1024" using assms(1) by simp
    then have "v div 1024 + (n + 1023) div 1024 - 1 \<in> {v div 1024..<v div 1024 + (n + 1023) div 1024}" by simp
    then show ?thesis using b by fastforce
  qed
  show "count_tables dir ((n + 1023) div 1024) (uaddr v) p = of_nat (card (missing dir (pmem p) v n))"
    unfolding count_tables_card [OF q] missing_def regions_counted [OF assms(1,3)] ..
  have "missing dir (pmem p) v n \<subseteq> {..<512}" using regions_less [OF _ assms(2)] by (auto simp: missing_def)
  then show "card (missing dir (pmem p) v n) \<le> 512" using card_mono [of "{..<512}"] by fastforce
qed

section \<open>Reserving the page tables\<close>

definition user_locked :: "u32 \<Rightarrow> paging \<Rightarrow> paging" where
  "user_locked cpu p = p\<lparr>lock_pgd_user := (lock_pgd_user p)[unat cpu := 1]\<rparr>"

lemma user_lock:
  assumes "locks_free p" and "unat cpu < 32"
  shows "LOCK_PGD cpu a (MAP_USER OR MAP_LOCAL_CPU) p = Some (user_locked cpu p)"
    "UNLOCK_PGD cpu a (MAP_USER OR MAP_LOCAL_CPU) (user_locked cpu p\<lparr>pmem := m\<rparr>) = Some (p\<lparr>pmem := m\<rparr>)"
    "UNLOCK_PGD cpu a (MAP_USER OR MAP_LOCAL_CPU) p = Some p"
    "pmem (user_locked cpu p) = pmem p"
  using assms
  by (auto simp: LOCK_PGD_def UNLOCK_PGD_def uses_kernel_lock_def flag_simps locks_free_def user_locked_def spinlock_unlock_def)

lemma user_unlock: "locks_free p \<Longrightarrow> unat cpu < 32 \<Longrightarrow> UNLOCK_PGD cpu a (MAP_USER OR MAP_LOCAL_CPU) (user_locked cpu p) = Some p"
  using user_lock(2) [of p cpu a "pmem p"] by (simp add: user_locked_def)

lemma count_tables_mem: "pmem p = pmem q \<Longrightarrow> count_tables dir n a p = count_tables dir n a q"
  by (induction n arbitrary: a) simp_all

definition page_order :: "nat \<Rightarrow> nat" where
  "page_order n = the (NPAGES_TO_ORDER (of_nat n))"

lemma page_order_least:
  assumes "0 < n" and "n < 2 ^ 32"
  shows "NPAGES_TO_ORDER (of_nat n) = Some (page_order n)" "n \<le> 2 ^ page_order n"
proof -
  have "unat (of_nat n :: u32) = n" "(of_nat n :: u32) \<noteq> 0"
    using assms by (auto simp: unat_of_nat simp flip: unat_eq_0)
  then show "NPAGES_TO_ORDER (of_nat n) = Some (page_order n)" "n \<le> 2 ^ page_order n"
    using NPAGES_TO_ORDER_least [of "of_nat n"] by (auto simp: page_order_def)
qed

text \<open>No aligned run of \<open>2 ^ k\<close> frames is free.\<close>

definition no_run :: "nat \<Rightarrow> nat set \<Rightarrow> bool" where
  "no_run k F \<longleftrightarrow> MAX_ALLOC_ORDER < k \<or> (\<forall>a. aligned k a \<longrightarrow> \<not> block k a \<subseteq> F)"

lemma alloc_run:
  assumes "mm_free s F" and "\<not> no_run k F"
  shows "\<exists>a s'. page_alloc k s = Some (Some a, s') \<and> k \<le> MAX_ALLOC_ORDER \<and> aligned k a \<and> block k a \<subseteq> F \<and> mm_free s' (F - block k a) \<and>
     unat (korder (kpages s' ! a)) = k \<and> kpage_last s' = kpage_last s"
proof -
  obtain b where b: "k \<le> MAX_ALLOC_ORDER" "aligned k b" "block k b \<subseteq> F" using assms(2) by (auto simp: no_run_def not_less)
  show ?thesis
    using alloc_free [OF assms(1) b] b(1) by (auto simp: MAX_ALLOC_ORDER_def unat_of_nat)
qed

text \<open>With \<open>c\<close> tables to find, the loop ends in its second turn, or in its first if there is nothing to find.\<close>

lemma reserve_tables_ok:
  assumes lf: "locks_free p" "unat cpu < 32" and c: "count_tables (GET_CPU_PGDIR lay cpu) q va p = of_nat c" "c \<le> 512"
    and mm: "mm_free s (F - block k a)" "kpage_last s = l" "unat (korder (kpages s ! a)) = k"
    and B: "k \<le> MAX_ALLOC_ORDER" "aligned k a" "block k a \<subseteq> F" "F \<subseteq> {..l}"
  shows "if c = 0 then reserve_tables lay cpu a va q 0 None s p = Some (Some None, s, user_locked cpu p)
    else if no_run (page_order c) (F - block k a)
    then \<exists>s'. reserve_tables lay cpu a va q 0 None s p = Some (None, s', p) \<and> mm_free s' F \<and> kpage_last s' = l
    else \<exists>b s'. reserve_tables lay cpu a va q 0 None s p = Some (Some (Some b), s', user_locked cpu p) \<and>
      aligned (page_order c) b \<and> block (page_order c) b \<subseteq> F - block k a \<and>
      mm_free s' (F - block k a - block (page_order c) b) \<and> kpage_last s' = l"
proof -
  let ?dir = "GET_CPU_PGDIR lay cpu"
  have ct: "count_tables ?dir q va (user_locked cpu p) = of_nat c"
    using c(1) count_tables_mem [OF user_lock(4) [OF lf]] by simp
  have cz: "(of_nat c :: u32) = 0 \<longleftrightarrow> c = 0" using c(2) by (auto simp: word_of_nat_eq_0_iff dest: dvd_imp_le)
  show ?thesis
  proof (cases "c = 0")
    case True
    then show ?thesis by (subst reserve_tables.simps) (simp add: user_lock(1) [OF lf] ct Let_def)
  next
    case False
    then have order: "NPAGES_TO_ORDER (of_nat c) = Some (page_order c)" using page_order_least(1) [of c] c(2) by simp
    show ?thesis
    proof (cases "no_run (page_order c) (F - block k a)")
      case True
      obtain s1 where s1: "page_alloc (page_order c) s = Some (None, s1)" "mm_free s1 (F - block k a)" "kpages s1 = kpages s"
        "kpage_last s1 = kpage_last s"
        using alloc_none [OF mm(1)] True unfolding no_run_def by blast
      have "block k a \<subseteq> {..<Suc (kpage_last s1)}" using B(3,4) mm(2) s1(4) by (auto simp: less_Suc_eq_le)
      then have "a + 2 ^ k \<le> Suc (kpage_last s1)" by (simp only: block_bound)
      moreover have "F - block k a \<union> block k a = F" using B(3) by blast
      ultimately obtain s2 where "page_add_to_slot a None s1 = Some s2" "mm_free s2 F" "kpage_last s2 = l"
        using add_to_slot_free [OF s1(2), of k a] B(1,2) mm(2,3) s1(3,4) framedD(2) by fastforce
      then show ?thesis
        using False True cz s1(1)
        by (subst reserve_tables.simps) (simp add: user_lock(1,3) [OF lf] user_unlock [OF lf] ct order Let_def)
    next
      case run: False
      obtain b s1 where b: "page_alloc (page_order c) s = Some (Some b, s1)" "aligned (page_order c) b"
        "block (page_order c) b \<subseteq> F - block k a" "mm_free s1 (F - block k a - block (page_order c) b)" "kpage_last s1 = l"
        using alloc_run [OF mm(1) run] mm(2) by auto
      have "reserve_tables lay cpu a va q (of_nat c) (Some b) s1 p = Some (Some (Some b), s1, user_locked cpu p)"
        by (subst reserve_tables.simps) (simp add: user_lock(1) [OF lf] ct Let_def)
      then have "reserve_tables lay cpu a va q 0 None s p = Some (Some (Some b), s1, user_locked cpu p)"
        using False cz b(1) by (subst reserve_tables.simps) (simp add: user_lock(1) [OF lf] user_unlock [OF lf] ct order Let_def)
      then show ?thesis using False run b by auto
    qed
  qed
qed

section \<open>The contract of alloc\_user\_page\<close>

text \<open>
  What a success means for the user half: the \<open>n\<close> pages from \<open>v\<close> lead to the frames from \<open>a\<close>. The other pages of a region that
  had a table, and those of the regions outside the range, lead where they led before. The new tables are taken from \<open>T\<close> and are not
  cleared: the entries of the other pages of their regions are whatever the frames held. No frame other than a table is written,
  and the kernel keeps no mapping of the tables it wrote.
\<close>

definition user_mapped ::
  "kernel_layout \<Rightarrow> u32 \<Rightarrow> nat set \<Rightarrow> nat \<Rightarrow> nat \<Rightarrow> nat \<Rightarrow> u32 \<Rightarrow> (u32 \<Rightarrow> u32) \<Rightarrow> (u32 \<Rightarrow> u32) \<Rightarrow> bool"
where
  "user_mapped lay dir T a v n fl m m' \<longleftrightarrow>
     user_dir_ok lay dir m' \<and> dir_synced lay dir m' \<and> user_tables dir m' \<subseteq> user_tables dir m \<union> T \<and>
     (\<forall>i < n. user_translate dir m' (uaddr (v + i)) = Some (of_nat (4096 * (a + i)) OR (PTE_PRESENT OR PTE_USER OR fl))) \<and>
     (\<forall>w < 2 ^ 19. w \<notin> {v..<v + n} \<and> (m (ud dir (w div 1024)) \<noteq> 0 \<or> w div 1024 \<notin> regions v n) \<longrightarrow>
        user_translate dir m' (uaddr w) = user_translate dir m (uaddr w)) \<and>
     (\<forall>w < 2 ^ 19. w \<notin> {v..<v + n} \<and> m' (ud dir (w div 1024)) \<noteq> 0 \<longrightarrow>
        user_entry dir m' w = m (tw (frame_of (m' (ud dir (w div 1024)))) (w mod 1024))) \<and>
     (\<forall>f j. safe_table lay dir f \<and> f \<notin> user_tables dir m' \<and> j < 1024 \<longrightarrow> m' (tw f j) = m (tw f j)) \<and>
     (\<forall>i < n. hidden lay dir (frame_of (m' (ud dir ((v + i) div 1024)))) m')"

lemma user_bits: "(x OR (PTE_PRESENT OR PTE_USER OR fl)) AND PTE_PRESENT \<noteq> 0" "(x OR (PTE_PRESENT OR PTE_USER OR fl)) AND PTE_USER \<noteq> 0"
proof -
  have "bit ((x OR (PTE_PRESENT OR PTE_USER OR fl)) AND PTE_PRESENT) 0" "bit ((x OR (PTE_PRESENT OR PTE_USER OR fl)) AND PTE_USER) 2"
    by (simp_all add: bit_or_iff bit_and_iff flag_simps)
  then show "(x OR (PTE_PRESENT OR PTE_USER OR fl)) AND PTE_PRESENT \<noteq> 0" "(x OR (PTE_PRESENT OR PTE_USER OR fl)) AND PTE_USER \<noteq> 0"
    by (auto simp del: bit_and_iff)
qed

lemma frame_address: "KPAGE_TO_PHYS_ADDR a + of_nat (4096 * k) = of_nat (4096 * (a + k))"
  by (simp add: KPAGE_TO_PHYS_ADDR_def push_bit_eq_mult PAGE_SHIFT_def algebra_simps)

lemma range_user_mapped:
  assumes u: "user_dir_ok lay dir m" and v: "v + n < 2 ^ 19" and ok: "layout_ok lay dir"
    and r: "range_mapped lay dir new v n (KPAGE_TO_PHYS_ADDR a) (PTE_PRESENT OR PTE_USER OR fl) m m'" and new: "new \<subseteq> T"
  shows "user_mapped lay dir T a v n fl m m'"
proof -
  note rd = range_mappedD [OF r] and tr = user_translate_entry [OF range_mappedD(2) [OF r]]
  have pages: "user_translate dir m' (uaddr (v + i)) = Some (of_nat (4096 * (a + i)) OR (PTE_PRESENT OR PTE_USER OR fl))" if "i < n" for i
    using tr [of "v + i"] rd(4,5) [OF that] user_bits that v by (simp only: frame_address) simp
  have words: "user_entry dir m' w = m (tw (frame_of (m' (ud dir (w div 1024)))) (w mod 1024))"
    if w: "w < 2 ^ 19" "w \<notin> {v..<v + n}" "m' (ud dir (w div 1024)) \<noteq> 0" for w
  proof -
    have wi: "w div 1024 < 512" "w mod 1024 < 1024" using w(1) by (simp_all add: less_mult_imp_div_less)
    show ?thesis
      unfolding user_entry_def
    proof (rule rd(9) [OF user_dirD(3) [OF rd(2) wi(1) w(3)] wi(2)])
      fix k assume k: "k < n" "frame_of (m' (ud dir ((v + k) div 1024))) = frame_of (m' (ud dir (w div 1024)))"
      have "(v + k) div 1024 < 512" using k(1) v by (simp add: less_mult_imp_div_less)
      then have "(v + k) div 1024 = w div 1024"
        using user_dir_inj [OF rd(2) _ rd(4) [OF k(1)] wi(1) w(3) k(2)] by simp
      moreover have "v + k \<noteq> w" using k(1) w(2) by auto
      ultimately show "(v + k) mod 1024 \<noteq> w mod 1024"
        using div_mult_mod_eq [of "v + k" 1024] div_mult_mod_eq [of w 1024] by metis
    qed
  qed
  have others: "user_translate dir m' (uaddr w) = user_translate dir m (uaddr w)"
    if w: "w < 2 ^ 19" "w \<notin> {v..<v + n}" "m (ud dir (w div 1024)) \<noteq> 0 \<or> w div 1024 \<notin> regions v n" for w
  proof -
    have wi: "w div 1024 < 512" using w(1) by (simp add: less_mult_imp_div_less)
    show ?thesis
    proof (cases "m (ud dir (w div 1024)) = 0")
      case True
      then have "m' (ud dir (w div 1024)) = 0" using rd(8) [OF wi] w(3) by simp
      then show ?thesis using tr [OF w(1)] user_translate_entry [OF u w(1)] True by simp
    next
      case False
      then have "user_entry dir m' w = user_entry dir m w"
        using words [OF w(1,2)] rd(6,7) [OF wi] by (simp add: user_entry_def)
      then show ?thesis using tr [OF w(1)] user_translate_entry [OF u w(1)] False rd(6) [OF wi] by simp
    qed
  qed
  have frames: "m' (tw f j) = m (tw f j)" if f: "safe_table lay dir f" "f \<notin> user_tables dir m'" "j < 1024" for f j
  proof (rule rd(10))
    show "tw f j \<noteq> ud dir i \<and> tw f j \<noteq> pgd_at dir i" if "i < 512" for i
      using words_apart(1,2) [OF ok f(1,3) that that, of 0] by simp
    have st: "safe_table lay dir g" if "g \<in> user_tables dir m'" for g
      using that user_dirD(3) [OF rd(2)] by (auto simp: user_tables_def)
    show "tw f j \<noteq> pte_at lay g \<and> (\<forall>i < 1024. tw f j \<noteq> tw g i)" if "g \<in> user_tables dir m'" for g
      using words_apart(3) [OF ok f(1,3), of 0 0 g] safe_less(1) [OF st [OF that]] that f(2)
        tw_inj [OF safe_less(1) [OF f(1)] safe_less(1) [OF st [OF that]] f(3)] by auto
  qed
  show ?thesis
    unfolding user_mapped_def using rd(1-3,13) new pages others words frames by blast
qed

lemma aligned_lengths:
  assumes "0 < n" "n < 2 ^ 19"
  shows "unat (drop_bit PGD_SHIFT (ALIGN_PGD (of_nat (4096 * n)))) = (n + 1023) div 1024"
    "drop_bit PAGE_SHIFT (of_nat (4096 * n)) = (of_nat n :: u32)"
proof -
  have u: "unat (of_nat (4096 * n) :: u32) = 4096 * n" using assms(2) by (simp add: unat_of_nat del: of_nat_mult)
  show "drop_bit PAGE_SHIFT (of_nat (4096 * n)) = (of_nat n :: u32)"
    unfolding word_unat_eq_iff using assms(2) u
    by (simp add: unat_drop_bit_eq PAGE_SHIFT_def drop_bit_eq_div [where 'a = nat] unat_of_nat del: of_nat_mult)
  show "unat (drop_bit PGD_SHIFT (ALIGN_PGD (of_nat (4096 * n)))) = (n + 1023) div 1024"
  proof -
    have "unat (ALIGN_PGD (of_nat (4096 * n))) = (4096 * n + 0x3FFFFF) div 2 ^ 22 * 2 ^ 22"
    proof -
      have "4096 * n \<le> 2 ^ 31" using assms(2) by simp
      then show ?thesis using align_pgd [of "of_nat (4096 * n)"] unfolding u by blast
    qed
    then have "unat (drop_bit PGD_SHIFT (ALIGN_PGD (of_nat (4096 * n)))) = (4096 * n + 0x3FFFFF) div 2 ^ 22"
      by (simp add: unat_drop_bit_eq PGD_SHIFT_def drop_bit_eq_div [where 'a = nat])
    also have "\<dots> = (4096 * (n + 1023) + 4095) div 4096 div 1024" by (simp add: div_mult2_eq [symmetric])
    also have "(4096 * (n + 1023) + 4095) div 4096 = n + 1023" by (subst add.commute, subst div_mult_self2) simp_all
    finally show ?thesis .
  qed
qed

lemma uaddr_facts:
  assumes "0 < v" and "v + n < 2 ^ 19"
  shows "uaddr v \<noteq> 0" "uaddr v AND (PAGE_SIZE - 1) = 0" "\<not> KERNEL_VIRT_ADDR \<le> uaddr v + of_nat (4096 * n)"
proof -
  have u: "unat (uaddr v) = 4096 * v" using assms by (simp add: unat_uaddr)
  then show "uaddr v \<noteq> 0" using assms(1) by auto
  have "unat (uaddr v AND 0xFFF) = 0" using u by (simp add: unat_take12)
  then show "uaddr v AND (PAGE_SIZE - 1) = 0" by (simp add: PAGE_SIZE_def unsigned_eq_0_iff)
  have "uaddr v + of_nat (4096 * n) = uaddr (v + n)" by (simp add: uaddr_def algebra_simps)
  then have "unat (uaddr v + of_nat (4096 * n)) = 4096 * (v + n)" using unat_uaddr [OF assms(2)] by simp
  then show "\<not> KERNEL_VIRT_ADDR \<le> uaddr v + of_nat (4096 * n)"
    using assms(2) by (simp add: word_le_nat_alt KERNEL_VIRT_ADDR_def)
qed

text \<open>What the code asks of the machine, and of the range.\<close>

definition user_ready :: "kernel_layout \<Rightarrow> u32 \<Rightarrow> u32 \<Rightarrow> nat set \<Rightarrow> mm \<Rightarrow> paging \<Rightarrow> bool" where
  "user_ready lay cpu dir F s p \<longleftrightarrow>
     local_dir lay cpu dir \<and> unat cpu < 32 \<and> locks_free p \<and> dir_synced lay dir (pmem p) \<and> user_dir_ok lay dir (pmem p) \<and>
     mm_free s F \<and> F \<subseteq> {..kpage_last s} \<and> (\<forall>f \<in> F. safe_table lay dir f \<and> f \<notin> user_tables dir (pmem p))"

definition user_range :: "nat \<Rightarrow> nat \<Rightarrow> u32 \<Rightarrow> bool" where
  "user_range v n len \<longleftrightarrow> 0 < v \<and> 0 < n \<and> v + n < 2 ^ 19 \<and> v mod 1024 + n \<le> 1024 * ((n + 1023) div 1024) \<and>
     ALIGN_PAGE len = of_nat (4096 * n)"

text \<open>The block the pages come from, and the block new page tables come from, empty if none is needed.\<close>

definition free_run :: "nat \<Rightarrow> nat set \<Rightarrow> nat \<Rightarrow> bool" where
  "free_run k F a \<longleftrightarrow> k \<le> MAX_ALLOC_ORDER \<and> aligned k a \<and> block k a \<subseteq> F"

lemma no_run_free: "no_run k F \<longleftrightarrow> (\<nexists>a. free_run k F a)"
  by (auto simp: no_run_def free_run_def)

definition table_run :: "nat \<Rightarrow> nat set \<Rightarrow> nat set \<Rightarrow> bool" where
  "table_run c F T \<longleftrightarrow> (if c = 0 then T = {} else \<exists>b. free_run (page_order c) F b \<and> T = block (page_order c) b)"

lemma alloc_user_page_cases:
  assumes "user_ready lay cpu dir F s p" and "user_range v n len"
  shows "\<exists>r s' p'. alloc_user_page lay cpu (uaddr v) len fl s p = Some (r, s', p') \<and> locks_free p' \<and> kpage_last s' = kpage_last s \<and>
    (r = 0 \<and> (\<exists>a T m. free_run (page_order n) F a \<and> n \<le> 2 ^ page_order n \<and>
        table_run (card (missing dir (pmem p) v n)) (F - block (page_order n) a) T \<and>
        mm_free s' (F - block (page_order n) a - T) \<and> p' = p\<lparr>pmem := m\<rparr> \<and> user_mapped lay dir T a v n fl (pmem p) m) \<or>
     r = ERR_NOMEM \<and> mm_free s' F \<and> p' = p \<and>
       ((\<nexists>a. free_run (page_order n) F a) \<or>
        (\<exists>a. free_run (page_order n) F a \<and> (\<nexists>T. table_run (card (missing dir (pmem p) v n)) (F - block (page_order n) a) T))))"
proof -
  let ?k = "page_order n" and ?c = "card (missing dir (pmem p) v n)" and ?q = "(n + 1023) div 1024"
  have R: "0 < v" "0 < n" "v + n < 2 ^ 19" "v mod 1024 + n \<le> 1024 * ?q" "ALIGN_PAGE len = of_nat (4096 * n)"
    using assms(2) by (simp_all add: user_range_def)
  have P: "local_dir lay cpu dir" "unat cpu < 32" "locks_free p" "dir_synced lay dir (pmem p)" "user_dir_ok lay dir (pmem p)"
    "mm_free s F" "F \<subseteq> {..kpage_last s}" "\<And>f. f \<in> F \<Longrightarrow> safe_table lay dir f \<and> f \<notin> user_tables dir (pmem p)"
    using assms(1) by (auto simp: user_ready_def)
  have n: "n < 2 ^ 19" "n < 2 ^ 32" using R(3) by simp_all
  note ord = page_order_least [OF R(2) n(2)] and ct = count_tables_missing [OF R(2-4), of dir p] and D = local_dirD [OF P(1)]
  have un: "unat (of_nat n :: u32) = n" using n(2) by (simp add: unat_of_nat)
  have run: "alloc_user_page lay cpu (uaddr v) len fl s p = do {
      (page_buf, s) \<leftarrow> page_alloc ?k s;
      case page_buf of None \<Rightarrow> Some (ERR_NOMEM, s, p)
      | Some page_buf \<Rightarrow> do {
          (reserved, s, p) \<leftarrow> reserve_tables lay cpu page_buf (uaddr v) ?q 0 None s p;
          case reserved of None \<Rightarrow> Some (ERR_NOMEM, s, p)
          | Some page_pgtbl \<Rightarrow> do {
              p \<leftarrow> map_user_pages lay cpu page_pgtbl fl n 0 (KPAGE_TO_PHYS_ADDR page_buf) (uaddr v) p;
              p \<leftarrow> UNLOCK_PGD cpu 0 (MAP_USER OR MAP_LOCAL_CPU) p;
              Some (0, s, p) } } }"
  proof -
    define L where "L = (of_nat (4096 * n) :: u32)"
    show ?thesis
      using uaddr_facts [OF R(1,3)] aligned_lengths [OF R(2) n(1)] ord(1) un
      unfolding alloc_user_page_def R(5) L_def [symmetric] by (simp add: Let_def cong: option.case_cong)
  qed
  show ?thesis
  proof (cases "no_run ?k F")
    case True
    then obtain s1 where "page_alloc ?k s = Some (None, s1)" "mm_free s1 F" "kpage_last s1 = kpage_last s"
      using alloc_none [OF P(6)] unfolding no_run_def by blast
    then have "alloc_user_page lay cpu (uaddr v) len fl s p = Some (ERR_NOMEM, s1, p) \<and> mm_free s1 F \<and> kpage_last s1 = kpage_last s"
      by (simp add: run)
    then show ?thesis using True P(3) unfolding no_run_free by blast
  next
    case False
    obtain a s1 where a: "page_alloc ?k s = Some (Some a, s1)" "?k \<le> MAX_ALLOC_ORDER" "aligned ?k a" "block ?k a \<subseteq> F"
      "mm_free s1 (F - block ?k a)" "unat (korder (kpages s1 ! a)) = ?k" "kpage_last s1 = kpage_last s"
      using alloc_run [OF P(6) False] by blast
    define F' where "F' = F - block ?k a"
    have ct': "count_tables (GET_CPU_PGDIR lay cpu) ?q (uaddr v) p = of_nat ?c" using ct(1) D(3) by simp
    note res = reserve_tables_ok [OF P(3,2) ct' ct(2) a(5,7,6) a(2-4) P(7), folded F'_def]
    have map: "\<exists>m. map_user_pages lay cpu t fl n 0 (KPAGE_TO_PHYS_ADDR a) (uaddr v) (user_locked cpu p) = Some (user_locked cpu p\<lparr>pmem := m\<rparr>) \<and>
        user_mapped lay dir T a v n fl (pmem p) m"
      if t: "?c \<noteq> 0 \<Longrightarrow> t = Some b \<and> T = block (page_order ?c) b \<and> T \<subseteq> F'" for t b T
    proof -
      have new: "tb + (0 + j) \<in> T" if "j < ?c" "tb = b" for j tb
        using that t ct(2) page_order_least(2) [of ?c] by (auto simp: block_def)
      have fresh: "safe_table lay dir (b + (0 + j)) \<and> b + (0 + j) \<notin> user_tables dir (pmem (user_locked cpu p))" if "j < ?c" for j
        using new [OF that refl] t P(8) that by (auto simp: F'_def user_lock(4) [OF P(3,2)])
      have "finite (missing dir (pmem p) v n)" by (simp add: missing_def)
      then have some: "missing dir (pmem p) v n \<noteq> {} \<Longrightarrow> t = Some b" using t by simp
      obtain m where m: "map_user_pages lay cpu t fl n (of_nat 0) (KPAGE_TO_PHYS_ADDR a) (uaddr v) (user_locked cpu p) = Some (user_locked cpu p\<lparr>pmem := m\<rparr>)"
        "range_mapped lay dir ((\<lambda>j. b + (0 + j)) ` {..<?c}) v n (KPAGE_TO_PHYS_ADDR a) (PTE_PRESENT OR PTE_USER OR fl) (pmem p) m"
        using map_user_pages_ok [OF P(1) R(3), of "user_locked cpu p" b 0 t fl "KPAGE_TO_PHYS_ADDR a"] P(4,5) fresh some
        unfolding user_lock(4) [OF P(3,2)] by blast
      have "(\<lambda>j. b + (0 + j)) ` {..<?c} \<subseteq> T" using new by blast
      then show ?thesis using m(1) range_user_mapped [OF P(5) R(3) D(4) m(2)] by auto
    qed
    show ?thesis
    proof (cases "?c \<noteq> 0 \<and> no_run (page_order ?c) F'")
      case True
      then obtain s2 where s2: "reserve_tables lay cpu a (uaddr v) ?q 0 None s1 p = Some (None, s2, p)" "mm_free s2 F" "kpage_last s2 = kpage_last s"
        using res by auto
      have "alloc_user_page lay cpu (uaddr v) len fl s p = Some (ERR_NOMEM, s2, p)" by (simp add: run a(1) s2(1))
      moreover have "free_run ?k F a" using a(2-4) by (simp add: free_run_def)
      moreover have "\<nexists>T. table_run ?c (F - block ?k a) T" using True unfolding table_run_def no_run_free F'_def by auto
      ultimately show ?thesis using s2(2,3) P(3) by blast
    next
      case room: False
      obtain t b T s2 where t: "reserve_tables lay cpu a (uaddr v) ?q 0 None s1 p = Some (Some t, s2, user_locked cpu p)"
        "?c \<noteq> 0 \<Longrightarrow> t = Some b \<and> T = block (page_order ?c) b \<and> T \<subseteq> F'" "table_run ?c F' T" "mm_free s2 (F' - T)"
        "kpage_last s2 = kpage_last s"
      proof (cases "?c = 0")
        case True
        then show ?thesis using that [of None s1 _ "{}"] res a(5,7) by (simp add: F'_def table_run_def)
      next
        case False
        then obtain b s2 where b: "reserve_tables lay cpu a (uaddr v) ?q 0 None s1 p = Some (Some (Some b), s2, user_locked cpu p)"
          "aligned (page_order ?c) b" "block (page_order ?c) b \<subseteq> F'" "mm_free s2 (F' - block (page_order ?c) b)" "kpage_last s2 = kpage_last s"
          using res room by auto
        then have "table_run ?c F' (block (page_order ?c) b)"
          using False room by (auto simp: table_run_def free_run_def no_run_def)
        then show ?thesis using that [of "Some b" s2 b "block (page_order ?c) b"] b by blast
      qed
      obtain m where m: "map_user_pages lay cpu t fl n 0 (KPAGE_TO_PHYS_ADDR a) (uaddr v) (user_locked cpu p) = Some (user_locked cpu p\<lparr>pmem := m\<rparr>)"
        "user_mapped lay dir T a v n fl (pmem p) m"
        using map [OF t(2)] by blast
      have "alloc_user_page lay cpu (uaddr v) len fl s p = Some (0, s2, p\<lparr>pmem := m\<rparr>)"
        by (simp add: run a(1) t(1) m(1) user_lock(2) [OF P(3,2)])
      moreover have "free_run ?k F a" using a(2-4) by (simp add: free_run_def)
      moreover have "locks_free (p\<lparr>pmem := m\<rparr>)" using P(3) by (simp add: locks_free_def)
      ultimately show ?thesis using t(3-5) m(2) ord(2) unfolding F'_def by blast
    qed
  qed
qed


text \<open>Two stack pages for a CPU with empty tables and eight free frames.\<close>

lemma small_orders: "page_order 1 = 0" "page_order 2 = 1"
  by (simp_all add: page_order_def NPAGES_TO_ORDER_def upt_rec bit_numeral_rec)

lemma stack_pages_missing: "missing (GET_CPU_PGDIR lay0 0) (pmem empty_paging) 0x10001 2 = {64}"
  by (auto simp: missing_def regions_def empty_paging_def numeral_2_eq_2 lessThan_Suc)

lemma lay0_user_ready:
  assumes "mm_free s {..<8}" and "kpage_last s = 7"
  shows "user_ready lay0 0 (GET_CPU_PGDIR lay0 0) {..<8} s empty_paging"
proof -
  have d: "GET_CPU_PGDIR lay0 0 = 0x80600000" by (simp add: GET_CPU_PGDIR_def lay0_def)
  have "safe_table lay0 0x80600000 f" if "f < 8" for f
    using that unat_kaddr [of f] by (simp add: safe_table_def apart_def lay0_def)
  moreover have "local_dir lay0 0 0x80600000" unfolding local_dir_def d [symmetric] by (simp add: layout_ok_def lay0_def d [unfolded lay0_def])
  ultimately show ?thesis
    using assms unfolding user_ready_def d
    by (auto simp: locks_free_def empty_paging_def dir_synced_def user_dir_ok_def user_tables_def)
qed


end
