(* ===== verification/Byte_Memory.thy ===== *)
theory Byte_Memory
  imports User_Pages
begin

text \<open>Bytes of the memory of words: what \<^const>\<open>write8\<close> and \<^const>\<open>copy_bytes\<close> leave at every byte and at every word.\<close>

definition read8 :: "(u32 \<Rightarrow> u32) \<Rightarrow> u32 \<Rightarrow> u8" where
  "read8 m a = ucast (drop_bit (8 * unat (a AND 3)) (m (a AND NOT 3)))"

lemma byte_index: "unat (a AND 3) < 4" for a :: u32
  using word_and_le1 [of a 3] by (simp add: word_le_nat_alt)

lemma byte_address_eq: "a AND NOT 3 = c AND NOT 3 \<Longrightarrow> unat (a AND 3) = unat (c AND 3) \<Longrightarrow> a = c" for a c :: u32
proof -
  assume "a AND NOT 3 = c AND NOT 3" "unat (a AND 3) = unat (c AND 3)"
  then have "a AND NOT 3 = c AND NOT 3" "a AND 3 = c AND 3" by (simp_all only: word_unat_eq_iff)
  then have "(a AND NOT 3) OR (a AND 3) = (c AND NOT 3) OR (c AND 3)" by (simp only:)
  moreover have "x = (x AND NOT 3) OR (x AND 3)" for x :: u32 by (rule bit_word_eqI) (auto simp: bit_simps)
  ultimately show ?thesis by metis
qed

lemma byte_of_update:
  fixes w :: u32
  assumes "k < 4" and "l < 4"
  shows "(ucast (drop_bit (8 * l) ((w AND NOT (push_bit (8 * k) 0xff)) OR push_bit (8 * k) (ucast b))) :: u8) =
    (if l = k then b else ucast (drop_bit (8 * l) w))"
proof -
  have m: "(0xff :: u32) = mask 8" by (simp add: mask_eq_exp_minus_1)
  show ?thesis
    unfolding m
  proof (rule bit_word_eqI)
  fix i assume "i < LENGTH(8)"
  then have i: "i < 8" by simp
  have r: "8 * l + i < 32" using assms(2) i by linarith
  have in_byte: "8 * k \<le> 8 * l + i \<and> 8 * l + i - 8 * k < 8 \<longleftrightarrow> l = k" using i by linarith
  show "bit (ucast (drop_bit (8 * l) ((w AND NOT (push_bit (8 * k) (mask 8))) OR push_bit (8 * k) (ucast b))) :: u8) i \<longleftrightarrow>
      bit (if l = k then b else ucast (drop_bit (8 * l) w)) i"
    using in_byte i r bit_imp_le_length [of b "8 * l + i - 8 * k"]
    by (auto simp: bit_ucast_iff bit_drop_bit_eq bit_or_iff bit_and_iff bit_not_iff bit_push_bit_iff bit_mask_iff)
qed
qed

lemma read8_write8: "read8 (pmem (write8 a b p)) c = (if c = a then b else read8 (pmem p) c)"
proof (cases "c AND NOT 3 = a AND NOT 3")
  case True
  have "c = a \<longleftrightarrow> unat (c AND 3) = unat (a AND 3)" using byte_address_eq [OF True] by auto
  then show ?thesis
    using byte_of_update [OF byte_index byte_index, of c "pmem p (a AND NOT 3)" a b] True
    by (simp add: read8_def write8_def Let_def)
next
  case False
  then show ?thesis by (auto simp: read8_def write8_def Let_def)
qed

lemma write8_word: "w \<noteq> a AND NOT 3 \<Longrightarrow> pmem (write8 a b p) w = pmem p w"
  by (simp add: write8_def Let_def)

lemma write8_locks [simp]: "lock_pgd_kernel (write8 a b p) = lock_pgd_kernel p" "lock_pgd_user (write8 a b p) = lock_pgd_user p"
  by (simp_all add: write8_def Let_def)

lemma copy_bytes_locks [simp]:
  "lock_pgd_kernel (copy_bytes bs a p) = lock_pgd_kernel p" "lock_pgd_user (copy_bytes bs a p) = lock_pgd_user p"
  by (induction bs arbitrary: a p) simp_all

lemma copy_bytes_read:
  "unat a + length bs \<le> 2 ^ 32 \<Longrightarrow> read8 (pmem (copy_bytes bs a p)) c =
    (if unat a \<le> unat c \<and> unat c < unat a + length bs then bs ! (unat c - unat a) else read8 (pmem p) c)"
proof (induction bs arbitrary: a p)
  case (Cons b bs)
  show ?case
  proof (cases "bs = []")
    case True
    have "unat a = unat c \<longleftrightarrow> c = a" by (auto simp: word_unat_eq_iff)
    then show ?thesis using True by (auto simp: read8_write8 less_Suc_eq_le le_antisym)
  next
    case False
    then have "unat a + 1 < 2 ^ 32" using Cons.prems by (cases bs) auto
    then have a: "unat (a + 1) = unat a + 1" using unat_add_of_nat [of a 1] by simp
    have c: "c = a \<longleftrightarrow> unat c = unat a" by (simp add: word_unat_eq_iff)
    have "Suc (unat a) \<le> unat c \<Longrightarrow> (b # bs) ! (unat c - unat a) = bs ! (unat c - Suc (unat a))"
      by (simp add: nth_Cons' Suc_diff_le)
    then show ?thesis using Cons.IH [of "a + 1" "write8 a b p"] Cons.prems a c by (auto simp: read8_write8)
  qed
qed auto

lemma copy_bytes_word:
  "unat a + length bs \<le> 2 ^ 32 \<Longrightarrow> (\<And>c. unat a \<le> unat c \<Longrightarrow> unat c < unat a + length bs \<Longrightarrow> w \<noteq> c AND NOT 3) \<Longrightarrow>
    pmem (copy_bytes bs a p) w = pmem p w"
proof (induction bs arbitrary: a p)
  case (Cons b bs)
  have w: "w \<noteq> a AND NOT 3" using Cons.prems(2) [of a] by simp
  show ?case
  proof (cases "bs = []")
    case True
    then show ?thesis using w by (simp add: write8_word)
  next
    case False
    then have "unat a + 1 < 2 ^ 32" using Cons.prems(1) by (cases bs) auto
    then have a: "unat (a + 1) = unat a + 1" using unat_add_of_nat [of a 1] by simp
    have "pmem (copy_bytes bs (a + 1) (write8 a b p)) w = pmem (write8 a b p) w"
      using Cons.prems a by (intro Cons.IH) auto
    then show ?thesis using w by (simp add: write8_word)
  qed
qed simp

text \<open>Words outside the bytes written, for aligned addresses.\<close>

lemma word_of_byte: "unat (c AND NOT 3) \<le> unat c" "unat c < unat (c AND NOT 3) + 4" for c :: u32
proof -
  have "c = (c AND NOT 3) OR (c AND 3)" by (rule bit_word_eqI) (auto simp: bit_simps)
  moreover have "(c AND NOT 3) OR (c AND 3) = (c AND NOT 3) + (c AND 3)"
    by (rule disjunctive_add [symmetric]) (auto simp: bit_simps)
  ultimately have e: "c = (c AND NOT 3) + (c AND 3)" by simp
  show l: "unat (c AND NOT 3) \<le> unat c" using word_and_le2 [of c "NOT 3"] by (simp add: word_le_nat_alt)
  have "unat c \<le> unat (c AND NOT 3) + unat (c AND 3)" by (subst e) (simp only: unat_word_ariths mod_less_eq_dividend)
  then show "unat c < unat (c AND NOT 3) + 4" using byte_index [of c] by linarith
qed

lemma word_of_byte_aligned: "unat (c AND NOT 3) mod 4 = 0" for c :: u32
proof -
  have m: "unat (w AND 3) = unat w mod 4" for w :: u32
  proof -
    have "(3 :: u32) = mask 2" by (simp add: mask_eq_exp_minus_1)
    then have "w AND 3 = take_bit 2 w" by (simp add: take_bit_eq_mask)
    then show ?thesis by (simp add: unsigned_take_bit_eq take_bit_eq_mod [where 'a = nat])
  qed
  have "(c AND NOT 3) AND 3 = 0" by (simp only: and.assoc bit.conj_cancel_left bit.conj_zero_right)
  then show ?thesis using m [of "c AND NOT 3"] by (simp only: unsigned_0)
qed

lemma copy_bytes_outside:
  fixes w :: u32
  assumes "unat a + length bs \<le> 2 ^ 32" and "unat w + 4 \<le> unat a \<or> unat a + length bs \<le> unat w"
  shows "pmem (copy_bytes bs a p) w = pmem p w"
proof (rule copy_bytes_word [OF assms(1)])
  fix c :: u32 assume "unat a \<le> unat c" "unat c < unat a + length bs"
  then show "w \<noteq> c AND NOT 3" using assms(2) word_of_byte [of c] by auto
qed

end
