(* ===== verification/Usermode_Props.thy ===== *)
theory Usermode_Props
  imports User_Props Byte_Memory
begin

text \<open>
  The user program: what \<^verbatim>\<open>load_usermode_text\<close> writes through its temporary kernel mappings, and that after
  \<^verbatim>\<open>initialize_usermode\<close> the program finds its stack and its own bytes at their addresses.
\<close>

section \<open>Pages of bytes\<close>

text \<open>The words of frame \<open>f\<close>, in the kernel's linear mapping.\<close>

definition in_frame :: "nat \<Rightarrow> u32 \<Rightarrow> bool" where
  "in_frame f a \<longleftrightarrow> unat a div 4096 = 2 ^ 19 + f"

lemma in_frame_range: "in_frame f a \<longleftrightarrow> 2 ^ 31 + 4096 * f \<le> unat a \<and> unat a < 2 ^ 31 + 4096 * f + 4096"
proof -
  have "unat a div 4096 = 2 ^ 19 + f \<longleftrightarrow> 4096 * (2 ^ 19 + f) \<le> unat a \<and> unat a < 4096 * (2 ^ 19 + f) + 4096"
    using div_mult_mod_eq [of "unat a" 4096] mod_less_divisor [of 4096 "unat a"] by (auto simp: div_nat_eqI) 
  then show ?thesis by (simp add: in_frame_def)
qed

lemma frame_words:
  "t < 2 ^ 19 \<Longrightarrow> j < 1024 \<Longrightarrow> in_frame f (tw t j) \<longleftrightarrow> f = t"
  by (auto simp: in_frame_range unat_tw)

lemma frame_apart:
  assumes "layout_ok lay dir" and "safe_table lay dir f"
  shows "i < 512 \<Longrightarrow> \<not> in_frame f (ud dir i)" "i < 512 \<Longrightarrow> \<not> in_frame f (pgd_at dir i)" "n < 2 ^ 19 \<Longrightarrow> \<not> in_frame f (pte_at lay n)"
proof -
  have f: "f < 2 ^ 19" by (rule safe_less(1) [OF assms(2)])
  note s = assms(2) [unfolded safe_table_def apart_def unat_kaddr [OF f]]
  show "i < 512 \<Longrightarrow> \<not> in_frame f (ud dir i)" using s unat_ud [OF assms(1)] by (auto simp: in_frame_range)
  show "i < 512 \<Longrightarrow> \<not> in_frame f (pgd_at dir i)" using s unat_pgd_at [OF assms(1)] by (auto simp: in_frame_range)
  show "n < 2 ^ 19 \<Longrightarrow> \<not> in_frame f (pte_at lay n)" using s unat_pte_at [OF assms(1)] by (auto simp: in_frame_range)
qed

definition frame_byte :: "nat \<Rightarrow> nat \<Rightarrow> u32" where
  "frame_byte f k = kaddr f + of_nat k"

lemma unat_frame_byte: "f < 2 ^ 19 \<Longrightarrow> k < 4096 \<Longrightarrow> unat (frame_byte f k) = 2 ^ 31 + 4096 * f + k"
  unfolding frame_byte_def by (subst unat_add_of_nat) (simp_all add: unat_kaddr)

lemma word_of_frame_byte:
  assumes "in_frame f c"
  shows "in_frame f (c AND NOT 3)"
proof -
  have w: "unat (c AND NOT 3) \<le> unat c" "unat c < unat (c AND NOT 3) + 4" "unat (c AND NOT 3) mod 4 = 0"
    using word_of_byte [of c] word_of_byte_aligned [of c] by blast+
  obtain q where q: "unat (c AND NOT 3) = 4 * q" using w(3) by (metis mod_0_imp_dvd dvdE)
  define x where "x = 2 ^ 29 + 1024 * f"
  have "4 * x \<le> unat c" "unat c < 4 * (x + 1024)" using assms by (simp_all add: in_frame_range x_def)
  then have "4 * x < 4 * (q + 1)" "4 * q < 4 * (x + 1024)" using w(1,2) unfolding q by simp_all
  then have "x \<le> q" "q < x + 1024" by simp_all
  then show ?thesis unfolding in_frame_range q by (simp add: x_def)
qed

text \<open>Copying at most one page to the start of a frame.\<close>

lemma copy_frame:
  assumes f: "f < 2 ^ 19" and len: "length bs \<le> 4096"
  shows "\<not> in_frame f a \<Longrightarrow> pmem (copy_bytes bs (kaddr f) p) a = pmem p a"
    "k < length bs \<Longrightarrow> read8 (pmem (copy_bytes bs (kaddr f) p)) (frame_byte f k) = bs ! k"
proof -
  have u: "unat (kaddr f) = 2 ^ 31 + 4096 * f" "unat (kaddr f) + length bs \<le> 2 ^ 32" using f len by (simp_all add: unat_kaddr)
  show "\<not> in_frame f a \<Longrightarrow> pmem (copy_bytes bs (kaddr f) p) a = pmem p a"
  proof (rule copy_bytes_word [OF u(2)])
    fix c :: u32 assume c: "\<not> in_frame f a" "unat (kaddr f) \<le> unat c" "unat c < unat (kaddr f) + length bs"
    then have "in_frame f c" using len u(1) by (simp add: in_frame_range)
    then show "a \<noteq> c AND NOT 3" using word_of_frame_byte c(1) by blast
  qed
  show "k < length bs \<Longrightarrow> read8 (pmem (copy_bytes bs (kaddr f) p)) (frame_byte f k) = bs ! k"
    using copy_bytes_read [OF u(2)] unat_frame_byte [OF f, of k] u(1) len by simp
qed

lemma read8_same: "\<lbrakk>\<And>a. in_frame f a \<Longrightarrow> m' a = m a; in_frame f c\<rbrakk> \<Longrightarrow> read8 m' c = read8 m c"
  using word_of_frame_byte by (simp add: read8_def)

section \<open>Reading the page table\<close>

text \<open>The TLB still has the linear mapping of a frame.\<close>

definition tlb_holds :: "tlb \<Rightarrow> nat \<Rightarrow> bool" where
  "tlb_holds tlb f \<longleftrightarrow> (\<exists>e. tlb f = Some e \<and> frame_of e = f)"

lemma tw_parts:
  assumes "t < 2 ^ 19" and "j < 1024"
  shows "unat (drop_bit PAGE_SHIFT (tw t j - KERNEL_VIRT_ADDR)) = t" "tw t j AND 0xFFF = of_nat (4 * j)"
proof -
  have u: "unat (tw t j) = 2 ^ 31 + 4096 * t + 4 * j" by (rule unat_tw [OF assms])
  have "unat (tw t j - KERNEL_VIRT_ADDR) = 4096 * t + 4 * j"
    by (subst unat_sub) (simp_all add: u word_le_nat_alt KERNEL_VIRT_ADDR_def)
  then show "unat (drop_bit PAGE_SHIFT (tw t j - KERNEL_VIRT_ADDR)) = t"
    using assms(2) by (simp add: unat_drop_bit_eq PAGE_SHIFT_def drop_bit_eq_div [where 'a = nat])
  have "(2 ^ 31 + 4096 * t + 4 * j) mod 4096 = (4 * j + 4096 * (2 ^ 19 + t)) mod 4096" by (simp add: algebra_simps)
  also have "\<dots> = 4 * j" unfolding mod_mult_self2 using assms(2) by simp
  finally show "tw t j AND 0xFFF = of_nat (4 * j)"
    unfolding word_unat_eq_iff unat_take12 u using assms(2) by (simp add: unat_of_nat del: of_nat_mult)
qed

lemma kernel_read_held:
  assumes "t < 2 ^ 19" and "j < 1024" and "tlb t = Some e" and "frame_of e = t"
  shows "kernel_read lay cpu tlb (tw t j) p = Some (pmem p (tw t j))"
proof -
  have k: "(e AND PAGE_MASK) + KERNEL_VIRT_ADDR = kaddr t" using frame_table [of e] assms(1,4) by simp
  show ?thesis
    unfolding kernel_read_def Let_def tw_parts [OF assms(1,2)] assms(3) option.case option.map k by (simp add: tw_def)
qed

lemma kernel_read_hidden:
  assumes "local_dir lay cpu dir" and "dir_synced lay dir (pmem p)" and "t < 2 ^ 19" and "j < 1024"
    and "tlb t = None" and "hidden lay dir t (pmem p)"
  shows "kernel_read lay cpu tlb (tw t j) p = None"
proof -
  have "translate (GET_CPU_PGDIR lay cpu) (pmem p) t = None"
    using translate_synced [OF local_dirD(4) [OF assms(1)] assms(2,3)] assms(6) local_dirD(3) [OF assms(1)] by (simp add: hidden_def)
  then show ?thesis using assms(5) by (simp add: kernel_read_def tw_parts [OF assms(3,4)])
qed

text \<open>The page fault is not repaired: it is in a table the directory of the CPU has.\<close>

lemma hidden_fault_halts:
  assumes "local_dir lay cpu dir" and "t < 2 ^ 19" and "j < 1024" and "hidden lay dir t (pmem (paging_of m))" and "trap_nr rf = 14"
  shows "\<exists>m'. trap_handler lay cpu (tw t j) rf m = Halt m'"
proof (cases "KERNEL_VIRT_ADDR \<le> rf_eip rf")
  case True
  have "(2 ^ 31 + 4096 * t + 4 * j) div 4096 = (4 * j + (2 ^ 19 + t) * 4096) div 4096" by (simp add: algebra_simps)
  also have "\<dots> = 2 ^ 19 + t" using assms(3) by (subst div_mult_self1) simp_all
  finally have "unat (tw t j AND PAGE_MASK) = unat (kaddr t)"
    unfolding unat_page_mask unat_tw [OF assms(2,3)] unat_kaddr [OF assms(2)] by simp
  then have "tw t j AND PAGE_MASK = kaddr t" by (simp only: word_unat_eq_iff)
  then show ?thesis
    using trap_handler_fault [of t "tw t j" rf _ lay cpu _ m, OF assms(2) _ assms(5) True refl refl] assms(4) local_dirD(3) [OF assms(1)]
    by (auto simp: hidden_def)
qed (use assms(5) in \<open>simp add: trap_handler_def Let_def\<close>)

section \<open>The loading loop\<close>

text \<open>One turn: the page is mapped, written and unmapped.\<close>

definition page_loaded :: "kernel_layout \<Rightarrow> u32 \<Rightarrow> nat \<Rightarrow> u8 list \<Rightarrow> (u32 \<Rightarrow> u32) \<Rightarrow> (u32 \<Rightarrow> u32) \<Rightarrow> bool" where
  "page_loaded lay dir f bs m m' \<longleftrightarrow> dir_synced lay dir m' \<and>
     (\<forall>k < length bs. read8 m' (frame_byte f k) = bs ! k) \<and>
     (\<forall>a. \<not> in_frame f a \<and> a \<noteq> pte_at lay f \<and> a \<noteq> pgd_at dir (f div 1024) \<longrightarrow> m' a = m a)"

lemma load_page:
  assumes d: "local_dir lay cpu dir" and f: "safe_table lay dir f" and fl: "locks_free p" "unat cpu < 32" and sync: "dir_synced lay dir (pmem p)"
    and len: "length bs \<le> 4096"
  shows "\<exists>m. do { p \<leftarrow> map_kernel_linear_with_pagetable lay cpu (kaddr f) PAGE_SIZE PTE_WRITE MAP_LOCAL_CPU p;
        unmap_kernel_with_pagetable lay cpu (kaddr f) PAGE_SIZE MAP_LOCAL_CPU (copy_bytes bs (kaddr f) p) } = Some (p\<lparr>pmem := m\<rparr>) \<and>
     page_loaded lay dir f bs (pmem p) m"
proof -
  note ok = local_dirD(4) [OF d] and lt = safe_less [OF f]
  have i: "f div 1024 < 512" using lt(1) by (simp add: less_mult_imp_div_less)
  note ap = frame_apart [OF ok f]
  have settled: "lock_settled cpu MAP_LOCAL_CPU q" if "locks_free q" for q using that fl(2) by (simp add: lock_settled_def)
  define p1 where "p1 = table_mapped lay dir f p"
  define p2 where "p2 = copy_bytes bs (kaddr f) p1"
  obtain e where e: "pmem p1 = (pmem p)(pgd_at dir (f div 1024) := e, pte_at lay f := (kaddr f - KERNEL_VIRT_ADDR) OR (PTE_WRITE OR PTE_PRESENT))"
     "e AND PGD_PRESENT \<noteq> 0" "(e AND PAGE_MASK) + KERNEL_VIRT_ADDR = table_at lay (f div 1024)"
    using pgd_entry_value [OF ok sync i] by (auto simp: p1_def table_mapped_def)
  have lk: "lock_pgd_kernel p2 = lock_pgd_kernel p" "lock_pgd_user p2 = lock_pgd_user p" by (simp_all add: p2_def p1_def table_mapped_def)
  then have lf: "locks_free p2" using fl(1) by (simp add: locks_free_def)
  have outside: "pmem p2 a = pmem p1 a" if "\<not> in_frame f a" for a
    unfolding p2_def using copy_frame(1) [OF lt(1) len that] .
  have "pmem p2 (pgd_at dir (f div 1024)) = e" using outside ap(2) [OF i] pgd_pte_apart [OF ok i lt(1)] by (simp add: e(1))
  then have present: "pmem p2 (pgd_at dir (f div 1024)) \<noteq> 0" using e(2) by auto
  let ?m = "(pmem p2)(pte_at lay f := 0)"
  have "p2\<lparr>pmem := ?m\<rparr> = p\<lparr>pmem := ?m\<rparr>" by (rule paging.equality) (simp_all add: lk)
  then have run: "do { p \<leftarrow> map_kernel_linear_with_pagetable lay cpu (kaddr f) PAGE_SIZE PTE_WRITE MAP_LOCAL_CPU p;
        unmap_kernel_with_pagetable lay cpu (kaddr f) PAGE_SIZE MAP_LOCAL_CPU (copy_bytes bs (kaddr f) p) } = Some (p\<lparr>pmem := ?m\<rparr>)"
    using map_page_local [OF d lt(2) settled [OF fl(1)]] unmap_page_local [OF d lt(2) settled [OF lf] present]
    by (simp add: p1_def [symmetric] p2_def [symmetric] pmem_write_def)
  have "?m (pgd_at dir j) = (if j = f div 1024 then e else pmem p (pgd_at dir j))" if "j < 512" for j
    using outside [OF ap(2) [OF that]] pgd_at_inj [OF ok that i] pgd_pte_apart [OF ok that lt(1)] by (auto simp: e(1))
  then have "dir_synced lay dir ?m" using sync e(2,3) unfolding dir_synced_def Let_def by auto
  moreover have "read8 ?m (frame_byte f k) = bs ! k" if "k < length bs" for k
  proof -
    have "in_frame f (frame_byte f k)" using unat_frame_byte [OF lt(1), of k] that len by (simp add: in_frame_range)
    then have "read8 ?m (frame_byte f k) = read8 (pmem p2) (frame_byte f k)" using ap(3) [OF lt(1)] by (intro read8_same [of f]) auto
    then show ?thesis using copy_frame(2) [OF lt(1) len that] by (simp add: p2_def)
  qed
  moreover have "?m a = pmem p a" if "\<not> in_frame f a \<and> a \<noteq> pte_at lay f \<and> a \<noteq> pgd_at dir (f div 1024)" for a
    using that outside [of a] by (simp add: e(1))
  ultimately show ?thesis using run unfolding page_loaded_def by blast
qed

text \<open>The whole loop, for pages whose entries are in one table.\<close>

lemma tw_Suc: "tw t (Suc j) = tw t j + 4"
  by (simp add: tw_def)

lemma table_end:
  assumes "t < 2 ^ 19" and "j < 1024" and "0 < j"
  shows "tw t j \<noteq> ALIGN_PAGE (tw t j)"
proof
  assume "tw t j = ALIGN_PAGE (tw t j)"
  then have "unat (tw t j) mod 4096 = 0" unfolding ALIGN_PAGE_def by (metis mod_mult_self2_is_0 unat_page_mask)
  moreover have "(2 ^ 31 + 4096 * t + 4 * j) mod 4096 = 4 * j"
  proof -
    have "(2 ^ 31 + 4096 * t + 4 * j) mod 4096 = (4 * j + 4096 * (2 ^ 19 + t)) mod 4096" by (simp add: algebra_simps)
    also have "\<dots> = 4 * j" unfolding mod_mult_self2 using assms(2) by simp
    finally show ?thesis .
  qed
  ultimately show False using unat_tw [OF assms(1,2)] assms(3) by simp
qed

lemma load_loop_ok:
  assumes d: "local_dir lay cpu dir" and cpu: "unat cpu < 32" and t: "safe_table lay dir t" and tlb: "tlb t = Some e" "frame_of e = t"
  shows "locks_free p \<Longrightarrow> dir_synced lay dir (pmem p) \<Longrightarrow> length img \<le> 4096 * length fs \<Longrightarrow> 4096 * length fs < length img + 4096 \<Longrightarrow>
    j + length fs \<le> 1024 \<Longrightarrow> distinct fs \<Longrightarrow> (\<forall>f \<in> set fs. safe_table lay dir f \<and> f \<noteq> t) \<Longrightarrow>
    (\<forall>k < length fs. frame_of (pmem p (tw t (j + k))) = fs ! k) \<Longrightarrow>
    \<exists>m. load_loop lay cpu tlb img pgd (tw t j) p = Some (None, p\<lparr>pmem := m\<rparr>) \<and> dir_synced lay dir m \<and>
      (\<forall>i < length img. read8 m (frame_byte (fs ! (i div 4096)) (i mod 4096)) = img ! i) \<and>
      (\<forall>a. (\<forall>f \<in> set fs. \<not> in_frame f a \<and> a \<noteq> pte_at lay f \<and> a \<noteq> pgd_at dir (f div 1024)) \<longrightarrow> m a = pmem p a)"
proof (induction fs arbitrary: img j p pgd)
  case Nil
  then show ?case by (subst load_loop.simps) (auto intro: exI [of _ "pmem p"])
next
  case (Cons f fs)
  note ok = local_dirD(4) [OF d] and lt = safe_less [OF t]
  have f: "safe_table lay dir f" "f \<noteq> t" "f \<notin> set fs" "distinct fs" using Cons.prems(6,7) by auto
  have j: "j < 1024" "Suc j + length fs \<le> 1024" using Cons.prems(5) by simp_all
  have ne: "img \<noteq> []" using Cons.prems(4) by auto
  have entry: "frame_of (pmem p (tw t j)) = f" using Cons.prems(8) by (auto dest: spec [of _ 0])
  then have addr: "(pmem p (tw t j) AND PAGE_MASK) + KERNEL_VIRT_ADDR = kaddr f" using frame_table safe_less(1) [OF f(1)] by metis
  obtain m where m: "do { p \<leftarrow> map_kernel_linear_with_pagetable lay cpu (kaddr f) PAGE_SIZE PTE_WRITE MAP_LOCAL_CPU p;
        unmap_kernel_with_pagetable lay cpu (kaddr f) PAGE_SIZE MAP_LOCAL_CPU (copy_bytes (take 4096 img) (kaddr f) p) } = Some (p\<lparr>pmem := m\<rparr>)"
     "page_loaded lay dir f (take 4096 img) (pmem p) m"
    using load_page [OF d f(1) Cons.prems(1) cpu Cons.prems(2), of "take 4096 img"] by auto
  let ?p = "p\<lparr>pmem := m\<rparr>" and ?rest = "drop 4096 img"
  define pgd' where "pgd' = (if tw t (Suc j) = ALIGN_PAGE (tw t (Suc j)) then pgd + 4 else pgd)"
  define pte' where "pte' = (if tw t (Suc j) = ALIGN_PAGE (tw t (Suc j)) then (m (pgd + 4) AND PAGE_MASK) + KERNEL_VIRT_ADDR else tw t (Suc j))"
  have step: "load_loop lay cpu tlb img pgd (tw t j) p = load_loop lay cpu tlb ?rest pgd' pte' ?p"
    using ne m(1) by (subst load_loop.simps)
      (auto simp: kernel_read_held [where tlb = tlb, OF lt(1) j(1) tlb] addr Let_def tw_Suc pgd'_def pte'_def bind_eq_Some_conv)
  note loaded = m(2) [unfolded page_loaded_def]
  have lf: "locks_free ?p" using Cons.prems(1) by (simp add: locks_free_def)
  have same: "m (tw t k) = pmem p (tw t k)" if "k < 1024" for k
    using loaded frame_words [OF lt(1) that, of f] f(2) words_apart(2,3) [OF ok t that, of 0 "f div 1024" f] safe_less(1) [OF f(1)]
    by (auto simp: less_mult_imp_div_less)
  have first: "read8 m (frame_byte f i) = img ! i" if "i < 4096" "i < length img" for i using loaded that by simp
  show ?case
  proof (cases "?rest = []")
    case True
    then have l: "length img \<le> 4096" by simp
    have "load_loop lay cpu tlb ?rest pgd' pte' ?p = Some (None, ?p)" using True by (subst load_loop.simps) simp
    moreover have "\<forall>i < length img. read8 m (frame_byte ((f # fs) ! (i div 4096)) (i mod 4096)) = img ! i" using first l by auto
    ultimately show ?thesis using step loaded by auto
  next
    case False
    then have "4096 < length img" by simp
    then have "fs \<noteq> []" using Cons.prems(3) by auto
    then have sj: "Suc j < 1024" using j(2) by (cases fs) auto
    then have "pte' = tw t (Suc j)" "pgd' = pgd" using table_end [OF lt(1) sj] by (simp_all add: pte'_def pgd'_def)
    moreover have "\<exists>m'. load_loop lay cpu tlb ?rest pgd (tw t (Suc j)) ?p = Some (None, ?p\<lparr>pmem := m'\<rparr>) \<and> dir_synced lay dir m' \<and>
      (\<forall>i < length ?rest. read8 m' (frame_byte (fs ! (i div 4096)) (i mod 4096)) = ?rest ! i) \<and>
      (\<forall>a. (\<forall>f \<in> set fs. \<not> in_frame f a \<and> a \<noteq> pte_at lay f \<and> a \<noteq> pgd_at dir (f div 1024)) \<longrightarrow> m' a = pmem ?p a)"
    proof (rule Cons.IH [OF lf])
      show "\<forall>k < length fs. frame_of (pmem ?p (tw t (Suc j + k))) = fs ! k"
        using Cons.prems(8) same j(2) by (auto dest: spec [of _ "Suc _"])
    qed (use Cons.prems(3,4,7) loaded j f(4) in auto)
    then obtain m' where m': "load_loop lay cpu tlb ?rest pgd (tw t (Suc j)) ?p = Some (None, p\<lparr>pmem := m'\<rparr>)" "dir_synced lay dir m'"
      "\<forall>i < length ?rest. read8 m' (frame_byte (fs ! (i div 4096)) (i mod 4096)) = ?rest ! i"
      "\<forall>a. (\<forall>f \<in> set fs. \<not> in_frame f a \<and> a \<noteq> pte_at lay f \<and> a \<noteq> pgd_at dir (f div 1024)) \<longrightarrow> m' a = m a"
      by auto
    have keep: "read8 m' (frame_byte f i) = read8 m (frame_byte f i)" if "i < 4096" for i
    proof (rule read8_same [of f])
      show "in_frame f (frame_byte f i)" using unat_frame_byte [OF safe_less(1) [OF f(1)] that] that by (simp add: in_frame_range)
      fix a assume a: "in_frame f a"
      have "\<not> in_frame g a \<and> a \<noteq> pte_at lay g \<and> a \<noteq> pgd_at dir (g div 1024)" if "g \<in> set fs" for g
      proof -
        have g: "g < 2 ^ 19" "g div 1024 < 512" using Cons.prems(7) that safe_less(1) by (auto simp: less_mult_imp_div_less)
        moreover have "g \<noteq> f" using that f(3) by auto
        ultimately show ?thesis using a frame_apart(2,3) [OF ok f(1)] by (auto simp: in_frame_def)
      qed
      then show "m' a = m a" using m'(4) by blast
    qed
    have "read8 m' (frame_byte ((f # fs) ! (i div 4096)) (i mod 4096)) = img ! i" if i: "i < length img" for i
    proof (cases "i < 4096")
      case True
      then show ?thesis using keep first i by simp
    next
      case False
      then have "i div 4096 = Suc ((i - 4096) div 4096)" "i mod 4096 = (i - 4096) mod 4096"
        by (simp_all add: le_div_geq le_mod_geq)
      then show ?thesis using m'(3) i False by (auto dest: spec [of _ "i - 4096"])
    qed
    moreover have "m' a = pmem p a" if "\<forall>g \<in> set (f # fs). \<not> in_frame g a \<and> a \<noteq> pte_at lay g \<and> a \<noteq> pgd_at dir (g div 1024)" for a
      using m'(4) loaded that by simp
    ultimately show ?thesis using step m'(1,2) by auto
  qed
qed

section \<open>What the user program sees\<close>

text \<open>A byte read in user mode.\<close>

definition user_read8 :: "u32 \<Rightarrow> (u32 \<Rightarrow> u32) \<Rightarrow> u32 \<Rightarrow> u8 option" where
  "user_read8 dir m a =
     (case user_translate dir m a of None \<Rightarrow> None | Some x \<Rightarrow> Some (read8 m (((x AND PAGE_MASK) + KERNEL_VIRT_ADDR) + (a AND 0xFFF))))"

lemma user_byte_address:
  assumes "v < 2 ^ 19" and "k < 4096"
  shows "user_translate dir m (uaddr v + of_nat k) = user_translate dir m (uaddr v)" "(uaddr v + of_nat k) AND 0xFFF = of_nat k"
proof -
  have u: "unat (uaddr v + of_nat k) = 4096 * v + k" using assms by (subst unat_add_of_nat) (simp_all add: unat_uaddr)
  have d: "(4096 * v + k) div 4096 = v" "4096 * v div 4096 = v" using assms(2) by simp_all
  have "unat (drop_bit 12 (uaddr v + of_nat k)) = v" unfolding unat_drop_bit_eq u using d(1) by (simp add: drop_bit_eq_div)
  moreover have "unat (drop_bit 12 (uaddr v)) = v" unfolding unat_drop_bit_eq unat_uaddr [OF assms(1)] using d(2) by (simp add: drop_bit_eq_div)
  ultimately have "drop_bit 12 (uaddr v + of_nat k) = drop_bit 12 (uaddr v)" by (simp only: word_unat_eq_iff)
  moreover have "drop_bit 22 (uaddr v + of_nat k) = drop_bit 10 (drop_bit 12 (uaddr v + of_nat k))" "drop_bit 22 (uaddr v) = drop_bit 10 (drop_bit 12 (uaddr v))"
    by (simp_all add: drop_bit_drop_bit)
  ultimately show "user_translate dir m (uaddr v + of_nat k) = user_translate dir m (uaddr v)"
    unfolding user_translate_def pgd_slot_def pte_slot_def PGD_SHIFT_def PAGE_SHIFT_def by (simp only:)
  show "(uaddr v + of_nat k) AND 0xFFF = of_nat k"
    unfolding word_unat_eq_iff unat_take12 u using assms(2) by (simp add: unat_of_nat)
qed

lemma user_image_address: "USER_MODE_VIRT_TEXT + of_nat i = uaddr (0x10004 + i div 4096) + of_nat (i mod 4096)"
proof -
  have "uaddr (0x10004 + i div 4096) + of_nat (i mod 4096) = of_nat (4096 * 0x10004 + (4096 * (i div 4096) + i mod 4096))"
    by (simp only: uaddr_def of_nat_add distrib_left add.assoc)
  then show ?thesis by (simp add: USER_MODE_VIRT_TEXT_def)
qed

text \<open>The entry alone decides the frame and the flags of a page.\<close>

lemma entry_parts:
  assumes "f < 2 ^ 19" and "fl < 0x1000"
  shows "frame_of (of_nat (4096 * f) OR fl) = f" "((of_nat (4096 * f) OR fl) AND PAGE_MASK) + KERNEL_VIRT_ADDR = kaddr f"
proof -
  show fr: "frame_of (of_nat (4096 * f) OR fl) = f"
    unfolding frame_of_or [OF assms(2)] using assms(1) by (simp add: frame_of_def unat_of_nat del: of_nat_mult)
  show "((of_nat (4096 * f) OR fl) AND PAGE_MASK) + KERNEL_VIRT_ADDR = kaddr f"
    using frame_table [of "of_nat (4096 * f) OR fl"] assms(1) unfolding fr by blast
qed

lemma image_pages:
  assumes "0 < l" and "l \<le> 1020 * 4096"
  defines "n \<equiv> (l + 4095) div 4096"
  shows "user_range 0x10004 n (ALIGN_PAGE (of_nat l))" "n \<le> 1020" "l \<le> 4096 * n" "4096 * n < l + 4096" "0 < n"
proof -
  show n: "n \<le> 1020" "l \<le> 4096 * n" "4096 * n < l + 4096" "0 < n" using assms by (auto simp: n_def)
  have al: "ALIGN_PAGE (of_nat k) = of_nat (4096 * ((k + 4095) div 4096))" if "k \<le> 1020 * 4096" for k
  proof -
    have "of_nat k + PAGE_SIZE - 1 = (of_nat (k + 4095) :: u32)" by (simp add: PAGE_SIZE_def)
    moreover have "unat (of_nat (k + 4095) :: u32) = k + 4095" using that by (simp add: unat_of_nat del: of_nat_add)
    moreover have "unat (of_nat (4096 * ((k + 4095) div 4096)) :: u32) = 4096 * ((k + 4095) div 4096)"
    proof -
      have "4096 * ((k + 4095) div 4096) \<le> k + 4095" by simp
      then show ?thesis using that by (simp add: unat_of_nat del: of_nat_mult)
    qed
    ultimately show ?thesis unfolding ALIGN_PAGE_def word_unat_eq_iff unat_page_mask by (simp add: mult.commute)
  qed
  have "ALIGN_PAGE (ALIGN_PAGE (of_nat l)) = of_nat (4096 * ((4096 * n + 4095) div 4096))"
    unfolding al [OF assms(2)] n_def [symmetric] using n(1) by (intro al) simp
  moreover have "(4096 * n + 4095) div 4096 = n" by (subst add.commute, subst div_mult_self2) simp_all
  moreover have "0x10004 mod 1024 + n \<le> 1024 * ((n + 1023) div 1024)"
  proof -
    have "1 \<le> (n + 1023) div 1024" using n(4) by simp
    then show ?thesis using n(1) by simp
  qed
  ultimately show "user_range 0x10004 n (ALIGN_PAGE (of_nat l))" using n by (simp add: user_range_def)
qed

lemma one_region: "0 < n \<Longrightarrow> v mod 1024 + n \<le> 1024 \<Longrightarrow> regions v n = {v div 1024}"
proof -
  assume n: "0 < n" "v mod 1024 + n \<le> 1024"
  have "(v + k) div 1024 = v div 1024" if "k < n" for k
  proof -
    define q r where "q = v div 1024" and "r = v mod 1024 + k"
    have "v + k = 1024 * q + r" by (simp add: q_def r_def)
    moreover have "r < 1024" using n(2) that by (simp add: r_def)
    ultimately show ?thesis unfolding q_def [symmetric] by (intro div_nat_eqI) simp_all
  qed
  then have "regions v n = (\<lambda>k. v div 1024) ` {..<n}" unfolding regions_def by (intro image_cong refl) (simp only: lessThan_iff)
  moreover have "{..<n} \<noteq> {}" using n(1) by auto
  ultimately show ?thesis by (simp only: image_constant_conv if_False)
qed

text \<open>The directory after its user half is cleared.\<close>

lemma cleared_dir:
  assumes ok: "layout_ok lay dir" and p: "locks_free p" "dir_synced lay dir (pmem p)"
  defines "q \<equiv> clear_words 512 dir p"
  shows "locks_free q" "dir_synced lay dir (pmem q)" "user_dir_ok lay dir (pmem q)" "user_tables dir (pmem q) = {}"
    "i < 512 \<Longrightarrow> pmem q (ud dir i) = 0"
proof -
  show "locks_free q" using p(1) clear_words_locks by (simp add: q_def)
  have z: "pmem q (ud dir i) = 0" if "i < 512" for i
    unfolding q_def ud_def by (rule clear_words_zero) (use that in simp_all)
  then show "i < 512 \<Longrightarrow> pmem q (ud dir i) = 0" .
  show "user_dir_ok lay dir (pmem q)" "user_tables dir (pmem q) = {}" using z by (auto simp: user_dir_ok_def user_tables_def inj_on_def)
  have up: "pmem q (pgd_at dir k) = pmem p (pgd_at dir k)" if "k < 512" for k
    unfolding q_def
  proof (rule clear_words_apart)
    fix j :: nat assume "j < 512"
    then have "unat (pgd_at dir k) \<noteq> unat (ud dir j)" using unat_pgd_at [OF ok that] unat_ud [OF ok, of j] by simp
    then show "pgd_at dir k \<noteq> dir + of_nat (4 * j)" by (auto simp: ud_def)
  qed
  show "dir_synced lay dir (pmem q)" by (rule synced_cong [OF p(2) up])
qed


section \<open>Loading the program\<close>

text \<open>Translation depends on the user half of the directory and on the tables it names.\<close>

lemma user_translate_cong:
  assumes "user_dir_ok lay dir m" and "v < 2 ^ 19"
    and dirs: "\<And>i. i < 512 \<Longrightarrow> m' (ud dir i) = m (ud dir i)"
    and tables: "\<And>f j. f \<in> user_tables dir m \<Longrightarrow> j < 1024 \<Longrightarrow> m' (tw f j) = m (tw f j)"
  shows "user_translate dir m' (uaddr v) = user_translate dir m (uaddr v)"
proof -
  have v: "v div 1024 < 512" using assms(2) by (simp add: less_mult_imp_div_less)
  have "{i. i < 512 \<and> m' (ud dir i) \<noteq> 0} = {i. i < 512 \<and> m (ud dir i) \<noteq> 0}" using dirs by auto
  moreover have "inj_on (\<lambda>i. frame_of (m' (ud dir i))) {i. i < 512 \<and> m (ud dir i) \<noteq> 0} =
    inj_on (\<lambda>i. frame_of (m (ud dir i))) {i. i < 512 \<and> m (ud dir i) \<noteq> 0}" using dirs by (intro inj_on_cong) auto
  ultimately have ok: "user_dir_ok lay dir m'" using assms(1) dirs unfolding user_dir_ok_def by auto
  have "user_entry dir m' v = user_entry dir m v" if "m (ud dir (v div 1024)) \<noteq> 0"
    using tables [OF user_dirD(4) [OF assms(1) v that]] dirs [OF v] by (simp add: user_entry_def)
  then show ?thesis
    unfolding user_translate_entry [OF assms(1,2)] user_translate_entry [OF ok assms(2)] dirs [OF v] by auto
qed

lemma text_entry_flags: "PTE_PRESENT OR PTE_USER OR 0 < (0x1000 :: u32)"
  by (simp add: PTE_PRESENT_def PTE_USER_def)

lemma load_starts:
  assumes d: "local_dir lay cpu dir" and t: "frame_of (pmem p (ud dir 64)) < 2 ^ 19"
  shows "load_usermode_text lay cpu tlb img p = load_loop lay cpu tlb img (ud dir 64) (tw (frame_of (pmem p (ud dir 64))) 4) p"
proof -
  have "pgd_slot dir USER_MODE_VIRT_TEXT = ud dir 64" using user_slots(1) [of "0x10004" dir] by (simp add: uaddr_def USER_MODE_VIRT_TEXT_def)
  moreover have "pte_slot (kaddr t) USER_MODE_VIRT_TEXT = tw t 4" for t
    using user_slots(2) [of "0x10004" t] by (simp add: uaddr_def USER_MODE_VIRT_TEXT_def)
  ultimately show ?thesis using frame_table [OF t] local_dirD(3) [OF d] by (simp add: load_usermode_text_def Let_def)
qed

text \<open>Without the entry in the TLB the first read is a page fault.\<close>

lemma text_faults:
  assumes d: "local_dir lay cpu dir" and sync: "dir_synced lay dir (pmem p)" and img: "img \<noteq> []"
    and t: "t = frame_of (pmem p (ud dir 64))" "t < 2 ^ 19" "tlb t = None" "hidden lay dir t (pmem p)"
  shows "load_usermode_text lay cpu tlb img p = Some (Some (tw t 4), p)"
proof -
  have "kernel_read lay cpu tlb (tw t 4) p = None" by (rule kernel_read_hidden [where tlb = tlb, OF d sync t(2) _ t(3,4)]) simp
  then show ?thesis unfolding load_starts [OF d t(2) [unfolded t(1)]] t(1) [symmetric] using img by (subst load_loop.simps) simp
qed

lemma text_loaded:
  assumes tlb: "tlb (frame_of (pmem p (ud dir 64))) = Some et" "frame_of et = frame_of (pmem p (ud dir 64))"
    and d: "local_dir lay cpu dir" and cpu: "unat cpu < 32" and p: "locks_free p" "dir_synced lay dir (pmem p)" "user_dir_ok lay dir (pmem p)"
    and len: "0 < length img" "length img \<le> 1020 * 4096"
    and pages: "\<forall>i < (length img + 4095) div 4096. user_translate dir (pmem p) (uaddr (0x10004 + i)) =
      Some (of_nat (4096 * (a + i)) OR (PTE_PRESENT OR PTE_USER OR 0)) \<and> safe_table lay dir (a + i) \<and> a + i \<notin> user_tables dir (pmem p)"
  shows "\<exists>m. load_usermode_text lay cpu tlb img p = Some (None, p\<lparr>pmem := m\<rparr>) \<and>
    (\<forall>v < 2 ^ 19. user_translate dir m (uaddr v) = user_translate dir (pmem p) (uaddr v)) \<and>
    (\<forall>i < length img. user_read8 dir m (USER_MODE_VIRT_TEXT + of_nat i) = Some (img ! i))"
proof -
  define n where "n = (length img + 4095) div 4096"
  note ip = image_pages [OF len, folded n_def] and D = local_dirD [OF d]
  note pages = pages [folded n_def]
  define t where "t = frame_of (pmem p (ud dir 64))"
  let ?m = "pmem p"
  have v: "0x10004 + i < 2 ^ 19" "(0x10004 + i) div 1024 = 64" "(0x10004 + i) mod 1024 = 4 + i" if "i < n" for i
    using that ip(2) by (simp_all add: div_nat_eqI mod_nat_eqI)
  have e: "?m (ud dir 64) \<noteq> 0" "?m (tw t (4 + i)) = of_nat (4096 * (a + i)) OR (PTE_PRESENT OR PTE_USER OR 0)" if "i < n" for i
    using pages [rule_format, OF that] user_translate_entry [OF p(3) v(1) [OF that]] v(2,3) [OF that]
    by (auto simp: user_entry_def t_def split: if_splits)
  have t: "safe_table lay dir t" "t \<in> user_tables dir ?m" using user_dirD(3,4) [OF p(3) _ e(1) [OF ip(5)]] by (simp_all add: t_def)
  have fr: "frame_of (?m (tw t (4 + i))) = a + i" if "i < n" for i
    unfolding e(2) [OF that] using pages that safe_less(1) by (intro entry_parts(1) text_entry_flags) blast
  let ?fs = "[a..<a + n]"
  have load: "load_usermode_text lay cpu tlb img p = load_loop lay cpu tlb img (ud dir 64) (tw t 4) p"
    unfolding t_def by (rule load_starts [OF d]) (use safe_less(1) [OF t(1)] in \<open>simp add: t_def\<close>)
  have fs: "safe_table lay dir f" "f \<notin> user_tables dir ?m" "f \<noteq> t" if "f \<in> set ?fs" for f
  proof -
    have "f - a < n" "a + (f - a) = f" using that by auto
    then show "safe_table lay dir f" "f \<notin> user_tables dir ?m" "f \<noteq> t" using pages [rule_format, of "f - a"] t(2) by auto
  qed
  have "\<exists>m. load_loop lay cpu tlb img (ud dir 64) (tw t 4) p = Some (None, p\<lparr>pmem := m\<rparr>) \<and> dir_synced lay dir m \<and>
      (\<forall>i < length img. read8 m (frame_byte (?fs ! (i div 4096)) (i mod 4096)) = img ! i) \<and>
      (\<forall>a. (\<forall>f \<in> set ?fs. \<not> in_frame f a \<and> a \<noteq> pte_at lay f \<and> a \<noteq> pgd_at dir (f div 1024)) \<longrightarrow> m a = ?m a)"
    by (rule load_loop_ok [where tlb = tlb, OF d cpu t(1) tlb [folded t_def] p(1,2)]) (use ip(2-4) fs fr in auto)
  then obtain m where m: "load_loop lay cpu tlb img (ud dir 64) (tw t 4) p = Some (None, p\<lparr>pmem := m\<rparr>)"
      "\<forall>i < length img. read8 m (frame_byte (?fs ! (i div 4096)) (i mod 4096)) = img ! i"
      "\<And>w. (\<forall>f \<in> set ?fs. \<not> in_frame f w \<and> w \<noteq> pte_at lay f \<and> w \<noteq> pgd_at dir (f div 1024)) \<Longrightarrow> m w = ?m w" by auto
  have dirs: "m (ud dir i) = ?m (ud dir i)" if i: "i < 512" for i
  proof (rule m(3), intro ballI)
    fix f assume f: "f \<in> set ?fs"
    note fl = safe_less(1) [OF fs(1) [OF f]]
    show "\<not> in_frame f (ud dir i) \<and> ud dir i \<noteq> pte_at lay f \<and> ud dir i \<noteq> pgd_at dir (f div 1024)"
      using frame_apart(1) [OF D(4) fs(1) [OF f] i] words_apart(4,5) [OF D(4) t(1) _ i _ fl, of 0 "f div 1024"] fl by (simp add: less_mult_imp_div_less)
  qed
  have tables: "m (tw g j) = ?m (tw g j)" if g: "g \<in> user_tables dir ?m" and j: "j < 1024" for g j
  proof (rule m(3), intro ballI)
    fix f assume f: "f \<in> set ?fs"
    note fl = safe_less(1) [OF fs(1) [OF f]]
    have sg: "safe_table lay dir g" using g p(3) by (auto simp: user_tables_def user_dir_ok_def)
    show "\<not> in_frame f (tw g j) \<and> tw g j \<noteq> pte_at lay f \<and> tw g j \<noteq> pgd_at dir (f div 1024)"
      using frame_words [OF safe_less(1) [OF sg] j, of f] fs(2) [OF f] g words_apart(2,3) [OF D(4) sg j, of 0 "f div 1024" f] fl
      by (auto simp: less_mult_imp_div_less)
  qed
  have same: "user_translate dir m (uaddr w) = user_translate dir ?m (uaddr w)" if "w < 2 ^ 19" for w
    by (rule user_translate_cong [OF p(3) that dirs tables])
  have "user_read8 dir m (USER_MODE_VIRT_TEXT + of_nat i) = Some (img ! i)" if i: "i < length img" for i
  proof -
    have q: "i div 4096 < n" using i ip(3) by (simp add: less_mult_imp_div_less mult.commute)
    have k: "i mod 4096 < 4096" by simp
    note a = user_byte_address [OF v(1) [OF q] k]
    have f: "?fs ! (i div 4096) = a + i div 4096" using q by simp
    have "a + i div 4096 < 2 ^ 19" using pages q safe_less(1) by blast
    note ep = entry_parts(2) [OF this text_entry_flags]
    show ?thesis
      using m(2) [rule_format, OF i] pages [rule_format, OF q]
      unfolding f frame_byte_def user_read8_def user_image_address a same [OF v(1) [OF q]] by (simp only: ep option.case)
  qed
  then show ?thesis using load m(1) same by auto
qed


section \<open>initialize\_usermode\<close>

text \<open>
  What the loaded program finds, for frames from \<open>F\<close>: its own bytes from \<^const>\<open>USER_MODE_VIRT_TEXT\<close> on, in pages it cannot
  write, and two writable stack pages in consecutive frames.
\<close>

definition program_ready :: "u32 \<Rightarrow> u8 list \<Rightarrow> nat set \<Rightarrow> (u32 \<Rightarrow> u32) \<Rightarrow> bool" where
  "program_ready dir img F m \<longleftrightarrow>
     (\<forall>i < length img. user_read8 dir m (USER_MODE_VIRT_TEXT + of_nat i) = Some (img ! i)) \<and>
     (\<exists>b. free_run (page_order ((length img + 4095) div 4096)) F b \<and> (\<forall>i < (length img + 4095) div 4096.
        user_translate dir m (uaddr (0x10004 + i)) = Some (of_nat (4096 * (b + i)) OR (PTE_PRESENT OR PTE_USER)))) \<and>
     (\<exists>a. free_run 1 F a \<and> (\<forall>i < 2.
        user_translate dir m (uaddr (0x10001 + i)) = Some (of_nat (4096 * (a + i)) OR (PTE_PRESENT OR PTE_USER OR PTE_WRITE))))"

text \<open>Memory is short: without at most three of the free frames no block of one of the orders asked for is free.\<close>

definition memory_short :: "nat set \<Rightarrow> nat \<Rightarrow> bool" where
  "memory_short F n \<longleftrightarrow> (\<exists>X \<subseteq> F. card X \<le> 3 \<and> (\<exists>k \<in> {0, 1, page_order n}. \<nexists>b. free_run k (F - X) b))"

lemma stack_range: "user_range 0x10001 2 USER_MODE_STACK_SIZE"
  by (simp add: user_range_def ALIGN_PAGE_def PAGE_SIZE_def PAGE_MASK_def USER_MODE_STACK_SIZE_def)

lemma stack_region: "regions 0x10001 2 = {64}"
  by (subst one_region) simp_all

lemma card_block: "card (block k a) = 2 ^ k"
  by (simp add: block_def)

lemma initialize_usermode_cases:
  assumes d: "local_dir lay cpu dir" and cpu: "unat cpu < 32" and p: "locks_free p" "dir_synced lay dir (pmem p)"
    and F: "mm_free s F" "F \<subseteq> {..kpage_last s}" "\<forall>f \<in> F. safe_table lay dir f"
    and len: "0 < length img" "length img \<le> 1020 * 4096"
  shows "(\<exists>msgs s' p'. (\<forall>tlb. initialize_usermode lay cpu tlb img s p = Some (Inr msgs, s', p')) \<and> locks_free p' \<and>
      msgs \<noteq> [] \<and> memory_short F ((length img + 4095) div 4096)) \<or>
    (\<exists>t \<in> F. \<exists>s'. (\<forall>tlb. tlb_holds tlb t \<longrightarrow> (\<exists>p'. initialize_usermode lay cpu tlb img s p = Some (Inr [], s', p') \<and>
        locks_free p' \<and> program_ready dir img F (pmem p'))) \<and>
      (\<forall>tlb. tlb t = None \<longrightarrow> (\<exists>p'. initialize_usermode lay cpu tlb img s p = Some (Inl (tw t 4), s', p') \<and>
        locks_free p' \<and> user_tables dir (pmem p') = {t} \<and>
        (\<forall>m rf. paging_of m = p' \<and> trap_nr rf = 14 \<longrightarrow> (\<exists>m'. trap_handler lay cpu (tw t 4) rf m = Halt m')))))"
  (is "?short \<or> ?enough")
proof -
  define n where "n = (length img + 4095) div 4096"
  note ip = image_pages [OF len, folded n_def]
  let ?q = "clear_words 512 dir p"
  have dir: "GET_CPU_PGDIR lay cpu = dir" using d by (simp add: local_dir_def)
  note q = cleared_dir [OF local_dirD(4) [OF d] p]
  have ua: "USER_MODE_VIRT_STACK = uaddr 0x10001" "USER_MODE_VIRT_TEXT = uaddr 0x10004"
    by (simp_all add: uaddr_def USER_MODE_VIRT_STACK_def USER_MODE_VIRT_TEXT_def)
  have c: "card (missing dir (pmem ?q) 0x10001 2) = 1"
  proof -
    have "missing dir (pmem ?q) 0x10001 2 = {64}" using q(5) [of 64] by (auto simp: missing_def stack_region)
    then show ?thesis by simp
  qed
  have ready: "user_ready lay cpu dir F s ?q" using assms q unfolding user_ready_def by auto
  obtain r s1 p1 where one: "alloc_user_page lay cpu USER_MODE_VIRT_STACK USER_MODE_STACK_SIZE PTE_WRITE s ?q = Some (r, s1, p1)"
    "locks_free p1" "kpage_last s1 = kpage_last s"
    "r = 0 \<and> (\<exists>a T m. free_run 1 F a \<and> (2 :: nat) \<le> 2 ^ 1 \<and> table_run 1 (F - block 1 a) T \<and> mm_free s1 (F - block 1 a - T) \<and>
        p1 = ?q\<lparr>pmem := m\<rparr> \<and> user_mapped lay dir T a 0x10001 2 PTE_WRITE (pmem ?q) m) \<or>
     r = ERR_NOMEM \<and> mm_free s1 F \<and> p1 = ?q \<and> ((\<nexists>a. free_run 1 F a) \<or> (\<exists>a. free_run 1 F a \<and> (\<nexists>T. table_run 1 (F - block 1 a) T)))"
    using alloc_user_page_cases [OF ready stack_range, of PTE_WRITE] unfolding ua c small_orders by blast
  show ?thesis
  proof (cases "r = 0")
    case False
    have "memory_short F n"
    proof (cases "\<nexists>a. free_run 1 F a")
      case True
      then show ?thesis unfolding memory_short_def by (intro exI [of _ "{}"]) auto
    next
      case False
      then obtain a where a: "free_run 1 F a" "\<nexists>T. table_run 1 (F - block 1 a) T" using one(4) \<open>r \<noteq> 0\<close> by blast
      then have "\<nexists>b. free_run 0 (F - block 1 a) b" unfolding table_run_def small_orders by auto
      then show ?thesis
        using a(1) unfolding memory_short_def by (intro exI [of _ "block 1 a"]) (auto simp: card_block free_run_def)
    qed
    then have ?short using False one(1,2) by (simp add: initialize_usermode_def dir Let_def n_def)
    then show ?thesis ..
  next
    case True
    then obtain a T m where a: "free_run 1 F a" "table_run 1 (F - block 1 a) T" "mm_free s1 (F - block 1 a - T)" "p1 = ?q\<lparr>pmem := m\<rparr>"
      "user_mapped lay dir T a 0x10001 2 PTE_WRITE (pmem ?q) m" using one(4) by (auto simp: ERR_NOMEM_def)
    define F1 where "F1 = F - block 1 a - T"
    obtain b where b: "free_run 0 (F - block 1 a) b" "T = block 0 b"
      using a(2) unfolding table_run_def small_orders by auto
    note um = a(5) [unfolded user_mapped_def]
    have ok1: "user_dir_ok lay dir m" "dir_synced lay dir m" "user_tables dir m \<subseteq> T" using um q(4) by auto
    have st: "user_translate dir m (uaddr (0x10001 + i)) = Some (of_nat (4096 * (a + i)) OR (PTE_PRESENT OR PTE_USER OR PTE_WRITE))" if "i < 2" for i
      using um that by blast
    have e64: "m (ud dir 64) \<noteq> 0"
      using st [of 0] user_translate_entry [OF ok1(1), of "0x10001"] by (auto split: if_splits)
    have "missing dir m 0x10004 n = {}" using e64 ip(2,5) by (auto simp: missing_def one_region)
    then have c2: "card (missing dir m 0x10004 n) = 0" by simp
    have ready2: "user_ready lay cpu dir F1 s1 p1"
      using d cpu one(2,3) ok1 a(3,4) F unfolding user_ready_def F1_def by auto
    obtain r2 s2 p2 where two: "alloc_user_page lay cpu USER_MODE_VIRT_TEXT (ALIGN_PAGE (of_nat (length img))) 0 s1 p1 = Some (r2, s2, p2)" "locks_free p2"
      "r2 = 0 \<and> (\<exists>a T m'. free_run (page_order n) F1 a \<and> n \<le> 2 ^ page_order n \<and> table_run 0 (F1 - block (page_order n) a) T \<and>
          p2 = p1\<lparr>pmem := m'\<rparr> \<and> user_mapped lay dir T a 0x10004 n 0 m m') \<or>
       r2 = ERR_NOMEM \<and> ((\<nexists>a. free_run (page_order n) F1 a) \<or> (\<exists>a. free_run (page_order n) F1 a \<and> (\<nexists>T. table_run 0 (F1 - block (page_order n) a) T)))"
    proof -
      have "pmem p1 = m" by (simp add: a(4))
      then show ?thesis using that alloc_user_page_cases [OF ready2 ip(1), of 0] unfolding ua c2 by (metis (no_types, lifting) c2)
    qed
    show ?thesis
    proof (cases "r2 = 0")
      case False
      then have "\<nexists>b. free_run (page_order n) F1 b" using two(3) by (auto simp: table_run_def)
      moreover have "F1 = F - (block 1 a \<union> T)" "block 1 a \<union> T \<subseteq> F" using a(1) b by (auto simp: F1_def free_run_def)
      moreover have "card (block 1 a \<union> T) \<le> 3" using card_Un_le [of "block 1 a" T] by (simp add: b(2) card_block)
      ultimately have "memory_short F n" unfolding memory_short_def by (metis insertCI)
      then have ?short using False True one(1) two(1,2) by (simp add: initialize_usermode_def dir Let_def n_def)
      then show ?thesis ..
    next
      case r2: True
      then obtain a2 m2 where t: "free_run (page_order n) F1 a2" "n \<le> 2 ^ page_order n" "p2 = p1\<lparr>pmem := m2\<rparr>"
        "user_mapped lay dir {} a2 0x10004 n 0 m m2" using two(3) by (auto simp: ERR_NOMEM_def table_run_def)
      note um2 = t(4) [unfolded user_mapped_def]
      have m2: "pmem p2 = m2" by (simp add: t(3))
      have ok2: "user_dir_ok lay dir m2" "dir_synced lay dir m2" "user_tables dir m2 \<subseteq> T" using um2 ok1(3) by auto
      have fr: "a2 + i \<in> F1" if "i < n" for i using t(1,2) that by (auto simp: free_run_def block_def)
      have tx: "user_translate dir m2 (uaddr (0x10004 + i)) = Some (of_nat (4096 * (a2 + i)) OR (PTE_PRESENT OR PTE_USER OR 0))" if "i < n" for i
        using um2 that by blast
      have z: "(0x10004 + 0) div 1024 = (64 :: nat)" by simp
      have hid: "hidden lay dir (frame_of (m2 (ud dir 64))) m2" using um2 ip(5) z by metis
      have e2: "m2 (ud dir 64) \<noteq> 0"
        using tx [OF ip(5)] user_translate_entry [OF ok2(1), of "0x10004"] by (auto split: if_splits)
      have tb: "frame_of (m2 (ud dir 64)) = b" "user_tables dir m2 = {b}"
        using user_dirD(4) [OF ok2(1) _ e2] ok2(3) b(2) by (auto simp: block_def)
      have bF: "b \<in> F" "b < 2 ^ 19" using b(1) F(3) safe_less(1) by (auto simp: free_run_def block_def)
      have run: "initialize_usermode lay cpu tlb img s p =
          do { (fault, p) \<leftarrow> load_usermode_text lay cpu tlb img p2; Some (case fault of None \<Rightarrow> Inr [] | Some a \<Rightarrow> Inl a, s2, p) }" for tlb
        using True r2 one(1) two(1) by (simp add: initialize_usermode_def dir Let_def)
      have fault: "load_usermode_text lay cpu tlb img p2 = Some (Some (tw b 4), p2)" if "tlb b = None" for tlb
        by (rule text_faults [OF d]) (use ok2(2) len(1) hid tb(1) bF(2) that in \<open>auto simp: m2\<close>)
      have halts: "\<exists>m'. trap_handler lay cpu (tw b 4) rf ma = Halt m'" if "paging_of ma = p2" "trap_nr rf = 14" for ma rf
        by (rule hidden_fault_halts [OF d bF(2) _ _ that(2)]) (use hid that(1) in \<open>simp_all add: m2 tb(1)\<close>)
      have loads: "\<exists>p'. load_usermode_text lay cpu tlb img p2 = Some (None, p') \<and> locks_free p' \<and> program_ready dir img F (pmem p')"
        if held: "tlb_holds tlb b" for tlb
      proof -
      obtain et where et: "tlb (frame_of (pmem p2 (ud dir 64))) = Some et" "frame_of et = frame_of (pmem p2 (ud dir 64))"
        using held unfolding tlb_holds_def m2 tb(1) by blast
      have "\<exists>m'. load_usermode_text lay cpu tlb img p2 = Some (None, p2\<lparr>pmem := m'\<rparr>) \<and>
          (\<forall>v < 2 ^ 19. user_translate dir m' (uaddr v) = user_translate dir (pmem p2) (uaddr v)) \<and>
          (\<forall>i < length img. user_read8 dir m' (USER_MODE_VIRT_TEXT + of_nat i) = Some (img ! i))"
      proof (rule text_loaded [where tlb = tlb, OF et d cpu two(2) _ _ len, folded n_def])
        show "\<forall>i < n. user_translate dir (pmem p2) (uaddr (0x10004 + i)) = Some (of_nat (4096 * (a2 + i)) OR (PTE_PRESENT OR PTE_USER OR 0)) \<and>
            safe_table lay dir (a2 + i) \<and> a2 + i \<notin> user_tables dir (pmem p2)"
          unfolding m2 using tx fr ok2(3) F(3) by (auto simp: F1_def)
      qed (simp_all add: m2 ok2)
      then obtain m' where m': "load_usermode_text lay cpu tlb img p2 = Some (None, p2\<lparr>pmem := m'\<rparr>)"
          "\<forall>v < 2 ^ 19. user_translate dir m' (uaddr v) = user_translate dir m2 (uaddr v)"
          "\<forall>i < length img. user_read8 dir m' (USER_MODE_VIRT_TEXT + of_nat i) = Some (img ! i)" unfolding m2 by auto
      have "program_ready dir img F m'"
        unfolding program_ready_def n_def [symmetric]
      proof (intro conjI)
        show "\<forall>i < length img. user_read8 dir m' (USER_MODE_VIRT_TEXT + of_nat i) = Some (img ! i)" by (rule m'(3))
        have "user_translate dir m' (uaddr (0x10004 + i)) = Some (of_nat (4096 * (a2 + i)) OR (PTE_PRESENT OR PTE_USER))" if "i < n" for i
        proof -
          have "0x10004 + i < 2 ^ 19" using that ip(2) by simp
          then show ?thesis using m'(2) tx [OF that] by (simp only: or.right_neutral)
        qed
        moreover have "free_run (page_order n) F a2" using t(1) by (auto simp: free_run_def F1_def)
        ultimately show "\<exists>b. free_run (page_order n) F b \<and>
          (\<forall>i < n. user_translate dir m' (uaddr (0x10004 + i)) = Some (of_nat (4096 * (b + i)) OR (PTE_PRESENT OR PTE_USER)))" by blast
        have "user_translate dir m' (uaddr (0x10001 + i)) = Some (of_nat (4096 * (a + i)) OR (PTE_PRESENT OR PTE_USER OR PTE_WRITE))" if i: "i < 2" for i
        proof -
          have w: "0x10001 + i < 2 ^ 19" "0x10001 + i \<notin> {0x10004..<0x10004 + n}" "(0x10001 + i) div 1024 = 64"
            using i by (simp_all add: div_nat_eqI)
          then have "user_translate dir m2 (uaddr (0x10001 + i)) = user_translate dir m (uaddr (0x10001 + i))" using um2 e64 by metis
          then show ?thesis using m'(2) w(1) st [OF i] by simp
        qed
        then show "\<exists>a. free_run 1 F a \<and> (\<forall>i < 2. user_translate dir m' (uaddr (0x10001 + i)) =
          Some (of_nat (4096 * (a + i)) OR (PTE_PRESENT OR PTE_USER OR PTE_WRITE)))" using a(1) by blast
      qed
      moreover have "locks_free (p2\<lparr>pmem := m'\<rparr>)" using two(2) by (simp add: locks_free_def)
      ultimately show ?thesis using m'(1) by auto
      qed
      have "tlb_holds tlb b \<longrightarrow> (\<exists>p'. initialize_usermode lay cpu tlb img s p = Some (Inr [], s2, p') \<and>
          locks_free p' \<and> program_ready dir img F (pmem p'))" for tlb using loads [of tlb] run [of tlb] by auto
      moreover have "tlb b = None \<longrightarrow> (\<exists>p'. initialize_usermode lay cpu tlb img s p = Some (Inl (tw b 4), s2, p') \<and>
          locks_free p' \<and> user_tables dir (pmem p') = {b} \<and>
          (\<forall>m rf. paging_of m = p' \<and> trap_nr rf = 14 \<longrightarrow> (\<exists>m'. trap_handler lay cpu (tw b 4) rf m = Halt m')))" for tlb
        using fault [of tlb] run [of tlb] two(2) tb(2) halts by (auto simp: m2)
      ultimately have ?enough using bF(1) by blast
      then show ?thesis ..
    qed
  qed
qed



text \<open>A program of three bytes, for a CPU with empty tables and eight free frames.\<close>

lemma eight_enough: "\<not> memory_short {..<8} 1"
proof
  assume "memory_short {..<8} 1"
  then obtain X k where X: "X \<subseteq> {..<8}" "card X \<le> 3" "k \<in> {0, 1 :: nat}" "\<nexists>b. free_run k ({..<8} - X) b"
    unfolding memory_short_def small_orders by auto
  have "finite X" using X(1) finite_subset by blast
  have "\<exists>x \<in> X. x div 2 = i" if i: "i < 4" for i
  proof (rule ccontr)
    assume no: "\<not> (\<exists>x \<in> X. x div 2 = i)"
    have "block k (2 * i) \<subseteq> {..<8} - X"
    proof
      fix x assume "x \<in> block k (2 * i)"
      then have "2 * i \<le> x" "x < 2 * i + 2" using X(3) by (auto simp: block_def)
      moreover from this have "x div 2 = i" by (simp add: div_nat_eqI)
      ultimately show "x \<in> {..<8} - X" using no i by auto
    qed
    moreover have "aligned k (2 * i)" "k \<le> MAX_ALLOC_ORDER" using X(3) by (auto simp: aligned_def MAX_ALLOC_ORDER_def)
    ultimately have "free_run k ({..<8} - X) (2 * i)" by (simp add: free_run_def)
    then show False using X(4) by blast
  qed
  then have "{..<4} \<subseteq> (\<lambda>x. x div 2) ` X" by force
  then have "card {..<4 :: nat} \<le> card X" by (rule surj_card_le [OF \<open>finite X\<close>])
  then show False using X(2) by simp
qed


end
