(* ===== verification/Kernel_Pages.thy ===== *)
theory Kernel_Pages
  imports Usermode_Props
begin

text \<open>
  Pages for the kernel: what \<^verbatim>\<open>page_alloc_kmap_linear\<close> leaves in the allocator, in the translation of the MMU and in
  the memory of the block it returns.
\<close>

lemma order_size: "k \<le> MAX_ALLOC_ORDER \<Longrightarrow> unat (ORDER_TO_PAGE_SIZE k) = 4096 * 2 ^ k" "k \<le> MAX_ALLOC_ORDER \<Longrightarrow> (2 :: nat) ^ k \<le> 2 ^ 17"
proof -
  assume "k \<le> MAX_ALLOC_ORDER"
  then have k: "k \<le> 17" by (simp add: MAX_ALLOC_ORDER_def)
  then show b: "(2 :: nat) ^ k \<le> 2 ^ 17" by (rule power_increasing) simp
  have "ORDER_TO_PAGE_SIZE k = of_nat (4096 * 2 ^ k)" by (simp add: ORDER_TO_PAGE_SIZE_def PAGE_SIZE_def push_bit_eq_mult)
  moreover have "4096 * 2 ^ k < (2 :: nat) ^ 32" using b by simp
  ultimately show "unat (ORDER_TO_PAGE_SIZE k) = 4096 * 2 ^ k" by (simp add: unat_of_nat del: of_nat_mult of_nat_power)
qed

lemma linear_block:
  assumes "f + 2 ^ k < 2 ^ 19" and "k \<le> MAX_ALLOC_ORDER"
  shows "KPAGE_TO_PHYS_ADDR f + KERNEL_VIRT_ADDR = kaddr f" "first_page (kaddr f) = f" "end_page (kaddr f) (ORDER_TO_PAGE_SIZE k) = f + 2 ^ k"
    "unat (kaddr f) + unat (ORDER_TO_PAGE_SIZE k) \<le> 2 ^ 32 - 4096" "KERNEL_VIRT_ADDR \<le> kaddr f"
    "(kaddr f - KERNEL_VIRT_ADDR) AND PAGE_MASK = of_nat (4096 * f)"
proof -
  have f: "f < 2 ^ 19" using assms(1) by simp
  note u = unat_kaddr [OF f] order_size [OF assms(2)]
  show "KPAGE_TO_PHYS_ADDR f + KERNEL_VIRT_ADDR = kaddr f"
    using frame_address [of f 0] by (simp add: kaddr_def add.commute)
  show "first_page (kaddr f) = f" "unat (kaddr f) + unat (ORDER_TO_PAGE_SIZE k) \<le> 2 ^ 32 - 4096"
    using assms(1) by (simp_all add: first_page_def u)
  have "(4096 * f + 4096 * 2 ^ k + 4095) div 4096 = f + 2 ^ k" by (rule div_nat_eqI) simp_all
  then show "end_page (kaddr f) (ORDER_TO_PAGE_SIZE k) = f + 2 ^ k" by (simp add: end_page_def u)
  show "KERNEL_VIRT_ADDR \<le> kaddr f" by (simp add: word_le_nat_alt u KERNEL_VIRT_ADDR_def)
  have d: "kaddr f - KERNEL_VIRT_ADDR = of_nat (4096 * f)" by (simp add: kaddr_def)
  show "(kaddr f - KERNEL_VIRT_ADDR) AND PAGE_MASK = of_nat (4096 * f)"
    using f unfolding d word_unat_eq_iff unat_page_mask by (simp add: unat_of_nat del: of_nat_mult)
qed

text \<open>The word \<open>w\<close> of a block from frame \<open>f\<close> is a word of its frame \<open>w div 1024\<close>.\<close>

lemma block_words:
  assumes "f + 2 ^ k < 2 ^ 19" and "w < 1024 * 2 ^ k"
  shows "kaddr f + of_nat (4 * w) = tw (f + w div 1024) (w mod 1024)" "f + w div 1024 \<in> block k f"
proof -
  have "w div 1024 < 2 ^ k" using assms(2) by (simp add: less_mult_imp_div_less mult.commute)
  then show "f + w div 1024 \<in> block k f" by (simp add: block_def)
  have "4096 * (f + w div 1024) + 4 * (w mod 1024) = 4096 * f + 4 * w"
  proof -
    define q r where "q = w div 1024" and "r = w mod 1024"
    have "w = 1024 * q + r" by (simp add: q_def r_def)
    then show ?thesis unfolding q_def [symmetric] r_def [symmetric] by simp
  qed
  then have "(of_nat (4096 * (f + w div 1024) + 4 * (w mod 1024)) :: u32) = of_nat (4096 * f + 4 * w)" by (rule arg_cong)
  then show "kaddr f + of_nat (4 * w) = tw (f + w div 1024) (w mod 1024)"
    unfolding tw_def kaddr_def by (simp only: of_nat_add add.assoc)
qed

lemma clear_block:
  fixes p :: paging
  assumes "f + 2 ^ k < 2 ^ 19" and "k \<le> MAX_ALLOC_ORDER"
  defines "q \<equiv> clear_words (unat (ORDER_TO_PAGE_SIZE k) div 4) (kaddr f) p"
  shows "i \<in> block k f \<Longrightarrow> j < 1024 \<Longrightarrow> pmem q (tw i j) = 0"
    "(\<And>i. i \<in> block k f \<Longrightarrow> \<not> in_frame i a) \<Longrightarrow> pmem q a = pmem p a"
proof -
  have n: "unat (ORDER_TO_PAGE_SIZE k) div 4 = 1024 * 2 ^ k" using order_size(1) [OF assms(2)] by simp
  show "pmem q (tw i j) = 0" if "i \<in> block k f" "j < 1024"
  proof -
    define w where "w = 1024 * (i - f) + j"
    have "i - f < 2 ^ k" "f \<le> i" using that(1) by (auto simp: block_def)
    moreover from this(1) have "1024 * Suc (i - f) \<le> 1024 * 2 ^ k" by (intro mult_le_mono2) simp
    ultimately have w: "w < 1024 * 2 ^ k" "f + w div 1024 = i" "w mod 1024 = j" using that(2) by (simp_all add: w_def)
    have "(1024 :: nat) * 2 ^ k < 2 ^ 30" using order_size(2) [OF assms(2)] by simp
    then show ?thesis using clear_words_zero [OF _ w(1), of "kaddr f" p] block_words(1) [OF assms(1) w(1)] unfolding q_def n w by simp
  qed
  assume a: "\<And>i. i \<in> block k f \<Longrightarrow> \<not> in_frame i a"
  show "pmem q a = pmem p a"
    unfolding q_def n
  proof (rule clear_words_apart)
    fix w :: nat assume w: "w < 1024 * 2 ^ k"
    note b = block_words [OF assms(1) w]
    have "f + w div 1024 < 2 ^ 19" using b(2) assms(1) by (auto simp: block_def)
    then have "in_frame (f + w div 1024) (tw (f + w div 1024) (w mod 1024))" by (simp add: frame_words)
    then show "a \<noteq> kaddr f + of_nat (4 * w)" unfolding b(1) using a [OF b(2)] by auto
  qed
qed


section \<open>The contract\<close>

text \<open>The block from frame \<open>f\<close> becomes kernel memory: mapped linearly, writable, all zero; nothing else is mapped or written.\<close>

definition kernel_block :: "kernel_layout \<Rightarrow> u32 \<Rightarrow> nat \<Rightarrow> nat \<Rightarrow> (u32 \<Rightarrow> u32) \<Rightarrow> (u32 \<Rightarrow> u32) \<Rightarrow> bool" where
  "kernel_block lay dir k f m m' \<longleftrightarrow> pg_inv lay dir m' \<and>
     (\<forall>i \<in> block k f. translate dir m' i = Some (of_nat (4096 * i) OR (PTE_PRESENT OR PTE_WRITE))) \<and>
     (\<forall>n < 2 ^ 19. n \<notin> block k f \<longrightarrow> translate dir m' n = translate dir m n) \<and>
     (\<forall>i \<in> block k f. \<forall>j < 1024. m' (tw i j) = 0) \<and>
     (\<forall>a. (\<forall>i \<in> block k f. \<not> in_frame i a \<and> a \<noteq> pte_at lay i \<and> a \<noteq> pgd_at dir (i div 1024)) \<longrightarrow> m' a = m a)"

lemma frames_apart:
  assumes ok: "layout_ok lay dir" and "\<forall>i \<in> block k f. safe_table lay dir i"
  shows "n < 2 ^ 19 \<Longrightarrow> i \<in> block k f \<Longrightarrow> \<not> in_frame i (pte_at lay n)" "j < 512 \<Longrightarrow> i \<in> block k f \<Longrightarrow> \<not> in_frame i (pgd_at dir j)"
  using frame_apart(2,3) [OF ok] assms(2) by blast+

lemma pg_inv_cong:
  assumes "pg_inv lay dir m" and "\<And>i. i < 512 \<Longrightarrow> m' (pgd_at dir i) = m (pgd_at dir i)" and "\<And>n. n < 2 ^ 19 \<Longrightarrow> m' (pte_at lay n) = m (pte_at lay n)"
  shows "pg_inv lay dir m'"
  using assms unfolding pg_inv_def Let_def by simp

lemma block_end: "\<forall>i \<in> block k f. safe_table lay dir i \<Longrightarrow> f + 2 ^ k < 2 ^ 19"
proof -
  assume safe: "\<forall>i \<in> block k f. safe_table lay dir i"
  have "(0 :: nat) < 2 ^ k" by simp
  then have "f + 2 ^ k - 1 \<in> block k f" unfolding block_def atLeastLessThan_iff by linarith
  then have "f + 2 ^ k - 1 + 1 < 2 ^ 19" using safe_less(2) safe by blast
  then show ?thesis using \<open>0 < 2 ^ k\<close> by linarith
qed

lemma map_block:
  assumes ok: "layout_ok lay dir" and dir: "dir = pgdir_for lay cpu 0" and cpu: "unat cpu < 32" and p: "locks_free p" "pg_inv lay dir (pmem p)"
    and k: "k \<le> MAX_ALLOC_ORDER" and safe: "\<forall>i \<in> block k f. safe_table lay dir i"
  shows "\<exists>q. map_kernel_linear_with_pagetable lay cpu (kaddr f) (ORDER_TO_PAGE_SIZE k) (PTE_PRESENT OR PTE_WRITE) 0 p = Some q \<and>
    locks_free q \<and> kernel_block lay dir k f (pmem p) (pmem (clear_words (unat (ORDER_TO_PAGE_SIZE k) div 4) (kaddr f) q))"
proof -
  have e: "f + 2 ^ k < 2 ^ 19" by (rule block_end [OF safe])
  note L = linear_block [OF e k]
  have b: "n < 2 ^ 19" if "n \<in> block k f" for n using that e by (auto simp: block_def)
  have in_b: "f \<le> n \<and> n < f + 2 ^ k \<longleftrightarrow> n \<in> block k f" for n by (auto simp: block_def)
  obtain q where q: "map_kernel_linear_with_pagetable lay cpu (kaddr f) (ORDER_TO_PAGE_SIZE k) (PTE_PRESENT OR PTE_WRITE) 0 p = Some q"
      "locks_free q" "pg_inv lay dir (pmem q)"
      "\<forall>n < 2 ^ 19. pmem q (pte_at lay n) = (if n \<in> block k f then (of_nat (4096 * f) + of_nat (4096 * (n - f))) OR
          ((PTE_PRESENT OR PTE_WRITE) OR PTE_PRESENT) else pmem p (pte_at lay n))"
      "\<forall>a. (\<forall>n. n \<in> block k f \<longrightarrow> a \<noteq> pte_at lay n \<and> a \<noteq> pgd_at dir (n div 1024)) \<longrightarrow> pmem q a = pmem p a"
    using map_range [OF ok dir _ cpu p L(5,4), of "kaddr f - KERNEL_VIRT_ADDR" "PTE_PRESENT OR PTE_WRITE"]
    unfolding L(2,3,6) in_b map_kernel_linear_with_pagetable_def by auto
  define m where "m = pmem (clear_words (unat (ORDER_TO_PAGE_SIZE k) div 4) (kaddr f) q)"
  note clear = clear_block [OF e k, where p = q, folded m_def]
  have pte: "m (pte_at lay n) = pmem q (pte_at lay n)" if "n < 2 ^ 19" for n
    using frames_apart(1) [OF ok safe that] clear(2) by blast
  have pgd: "m (pgd_at dir j) = pmem q (pgd_at dir j)" if "j < 512" for j
    using frames_apart(2) [OF ok safe that] clear(2) by blast
  have inv: "pg_inv lay dir m" by (rule pg_inv_cong [OF q(3) pgd pte])
  have "translate dir m n = Some (of_nat (4096 * n) OR (PTE_PRESENT OR PTE_WRITE))" if n: "n \<in> block k f" for n
  proof -
    have "f \<le> n" using n by (simp add: block_def)
    then have "4096 * f + 4096 * (n - f) = 4096 * n" by simp
    then have "(of_nat (4096 * f) :: u32) + of_nat (4096 * (n - f)) = of_nat (4096 * n)" by (metis of_nat_add)
    moreover have "(PTE_PRESENT OR PTE_WRITE) OR PTE_PRESENT = PTE_PRESENT OR PTE_WRITE" by (simp add: flag_simps)
    ultimately have v: "m (pte_at lay n) = of_nat (4096 * n) OR (PTE_PRESENT OR PTE_WRITE)"
      using q(4) [rule_format, OF b [OF n]] n pte [OF b [OF n]] by simp
    have "(of_nat (4096 * n) OR (PTE_PRESENT OR PTE_WRITE)) AND PTE_PRESENT \<noteq> 0"
      using or_present(1) [of "of_nat (4096 * n)" PTE_WRITE] by (simp only: or.commute [of PTE_PRESENT PTE_WRITE] not_False_eq_True)
    then show ?thesis using translate_inv [OF ok inv b [OF n]] unfolding v by simp
  qed
  moreover have "translate dir m n = translate dir (pmem p) n" if "n < 2 ^ 19" "n \<notin> block k f" for n
    using translate_inv [OF ok inv that(1)] translate_inv [OF ok p(2) that(1)] pte [OF that(1)] q(4) [rule_format, OF that(1)] that(2) by simp
  moreover have "m (tw i j) = 0" if "i \<in> block k f" "j < 1024" for i j using clear(1) that by blast
  moreover have "m a = pmem p a" if "\<forall>i \<in> block k f. \<not> in_frame i a \<and> a \<noteq> pte_at lay i \<and> a \<noteq> pgd_at dir (i div 1024)" for a
    using clear(2) [of a] q(5) that by auto
  ultimately have "kernel_block lay dir k f (pmem p) m" using inv unfolding kernel_block_def by blast
  then show ?thesis using q(1,2) unfolding m_def by blast
qed

lemma kmap_linear_cases:
  assumes ok: "layout_ok lay dir" and dir: "dir = pgdir_for lay cpu 0" and cpu: "unat cpu < 32" and p: "locks_free p" "pg_inv lay dir (pmem p)"
    and F: "mm_free s F" "\<forall>i \<in> F. safe_table lay dir i"
  shows "(\<exists>f s' p'. page_alloc_kmap_linear lay cpu k s p = Some (kaddr f, s', p') \<and> free_run k F f \<and> mm_free s' (F - block k f) \<and>
      kpage_last s' = kpage_last s \<and> locks_free p' \<and> kernel_block lay dir k f (pmem p) (pmem p')) \<or>
    (\<exists>s'. page_alloc_kmap_linear lay cpu k s p = Some (0, s', p) \<and> mm_free s' F \<and> kpage_last s' = kpage_last s \<and> kpages s' = kpages s \<and>
      (\<nexists>f. free_run k F f))"
proof (cases "no_run k F")
  case True
  then obtain s' where "page_alloc k s = Some (None, s')" "mm_free s' F" "kpages s' = kpages s" "kpage_last s' = kpage_last s"
    using alloc_none [OF F(1)] unfolding no_run_def by blast
  then show ?thesis using True unfolding no_run_free by (intro disjI2) (simp add: page_alloc_kmap_linear_def)
next
  case False
  obtain f s' where a: "page_alloc k s = Some (Some f, s')" "free_run k F f" "mm_free s' (F - block k f)" "kpage_last s' = kpage_last s"
    using alloc_run [OF F(1) False] unfolding free_run_def by blast
  have k: "k \<le> MAX_ALLOC_ORDER" and safe: "\<forall>i \<in> block k f. safe_table lay dir i" using a(2) F(2) by (auto simp: free_run_def)
  obtain q where q: "map_kernel_linear_with_pagetable lay cpu (kaddr f) (ORDER_TO_PAGE_SIZE k) (PTE_PRESENT OR PTE_WRITE) 0 p = Some q"
    "locks_free q" "kernel_block lay dir k f (pmem p) (pmem (clear_words (unat (ORDER_TO_PAGE_SIZE k) div 4) (kaddr f) q))"
    using map_block [OF ok dir cpu p k safe] by blast
  have "KPAGE_TO_PHYS_ADDR f + KERNEL_VIRT_ADDR = kaddr f" by (rule linear_block(1) [OF block_end [OF safe] k])
  then have "page_alloc_kmap_linear lay cpu k s p = Some (kaddr f, s', clear_words (unat (ORDER_TO_PAGE_SIZE k) div 4) (kaddr f) q)"
    using a(1) q(1) by (simp add: page_alloc_kmap_linear_def Let_def)
  then show ?thesis using a(2-4) q(2,3) clear_words_locks by blast
qed


text \<open>(C11)
  \<^verbatim>\<open>page_alloc_kmap_linear\<close>: if an aligned run of \<open>2 ^ k\<close> free frames exists, it returns the linear address of such a run with
  all locks free. The frames are no longer free, the MMU translates each of their pages to itself, writable, every word of them is
  zero, every other kernel page is translated as before, and no word outside the run and its entries in the page tables is
  written. Otherwise it returns 0 and neither the free frames nor the memory changes.\<close>

theorem page_alloc_kmap_linear_block:
  assumes "layout_ok lay dir" and "dir = pgdir_for lay cpu 0" and "unat cpu < 32" and "locks_free p" and "pg_inv lay dir (pmem p)"
    and "mm_free s F" and "\<forall>i \<in> F. safe_table lay dir i"
  shows "(\<exists>f s' p'. page_alloc_kmap_linear lay cpu k s p = Some (kaddr f, s', p') \<and> free_run k F f \<and> mm_free s' (F - block k f) \<and>
      kpage_last s' = kpage_last s \<and> locks_free p' \<and> kernel_block lay dir k f (pmem p) (pmem p')) \<or>
    (\<exists>s'. page_alloc_kmap_linear lay cpu k s p = Some (0, s', p) \<and> mm_free s' F \<and> kpage_last s' = kpage_last s \<and> kpages s' = kpages s \<and>
      (\<nexists>f. free_run k F f))"
  by (rule kmap_linear_cases [OF assms])

lemma lay0_safe: "f < 8 \<Longrightarrow> safe_table lay0 (pgdir_for lay0 0 0) f"
  using unat_kaddr [of f] by (simp add: safe_table_def apart_def lay0_def pgdir_for_def)

theorem page_alloc_kmap_linear_block_witness:
  "\<exists>s f s' p'. mm_free s {..<8} \<and> page_alloc_kmap_linear lay0 0 2 s empty_paging = Some (kaddr f, s', p') \<and>
     translate (pgdir_for lay0 0 0) (pmem p') (f + 3) = Some (of_nat (4096 * (f + 3)) OR (PTE_PRESENT OR PTE_WRITE)) \<and>
     pmem p' (tw (f + 3) 1023) = 0"
proof -
  let ?d = "pgdir_for lay0 0 0"
  obtain s where s: "mm_free s {..<8 :: nat}" using eight_free by blast
  have "free_run 2 {..<8} 4" by (auto simp: free_run_def MAX_ALLOC_ORDER_def aligned_def block_def)
  then obtain f s' p' where k: "page_alloc_kmap_linear lay0 0 2 s empty_paging = Some (kaddr f, s', p')"
      "kernel_block lay0 ?d 2 f (pmem empty_paging) (pmem p')"
    using page_alloc_kmap_linear_block [OF lay0_ok(1) refl _ lay0_ok(2,3) s, where k = 2] lay0_safe by auto
  have "f + 3 \<in> block 2 f" by (simp add: block_def)
  then have "translate ?d (pmem p') (f + 3) = Some (of_nat (4096 * (f + 3)) OR (PTE_PRESENT OR PTE_WRITE))" "pmem p' (tw (f + 3) 1023) = 0"
    using k(2) unfolding kernel_block_def by simp_all
  then show ?thesis using s k(1) by blast
qed

end
