(* ===== verification/Object_Cache.thy ===== *)
theory Object_Cache
  imports Kernel_Pages
begin

text \<open>
  The object cache of \<^verbatim>\<open>memory.c\<close>: \<^verbatim>\<open>mem_cache_init\<close>, \<^verbatim>\<open>mem_cache_add_slot\<close>, \<^verbatim>\<open>mem_cache_allocate\<close>,
  \<^verbatim>\<open>mem_cache_free\<close> and the bitmaps. Slot descriptors and their bitmaps lie in pages, and overlap there, so they are
  words and bytes of the memory, and so are the list heads in the array \<^verbatim>\<open>cache\<close>; its address \<open>cb\<close> comes from the linker.
  The other members of \<^verbatim>\<open>struct mem_cache\<close> are a record. A null pointer is 0. The ways not to give a result are told
  apart, and the loops get a number of turns.
\<close>

section \<open>Results\<close>

text \<open>
  \<open>Off_array\<close>: an access outside \<^verbatim>\<open>cache\<close> or \<^verbatim>\<open>kpages\<close>; \<open>Waits\<close>: a loop has not ended within the turns it was given, or the
  code spins on a lock that is taken; \<open>No_page_result\<close>: the page allocator itself gives no result.
\<close>

datatype fault = Off_array | Waits | No_page_result

type_synonym 'a run = "fault + 'a"

definition chain :: "'a run \<Rightarrow> ('a \<Rightarrow> 'b run) \<Rightarrow> 'b run" where
  "chain x f = (case x of Inl e \<Rightarrow> Inl e | Inr a \<Rightarrow> f a)"

definition or_fault :: "fault \<Rightarrow> 'a option \<Rightarrow> 'a run" where
  "or_fault e x = (case x of None \<Rightarrow> Inl e | Some a \<Rightarrow> Inr a)"

lemma chain_simps [simp]: "chain (Inl e) f = Inl e" "chain (Inr a) f = f a"
  by (simp_all add: chain_def)

lemma chain_eq_Inr: "chain x f = Inr b \<longleftrightarrow> (\<exists>a. x = Inr a \<and> f a = Inr b)"
  by (cases x) auto

lemma or_fault_simps [simp]: "or_fault e (Some a) = Inr a" "or_fault e None = Inl e" "or_fault e x = Inr a \<longleftrightarrow> x = Some a"
  by (simp_all add: or_fault_def split: option.splits)

section \<open>State\<close>

definition KPAGE_FLAGS_CACHE_METADATA :: u8 where "KPAGE_FLAGS_CACHE_METADATA = 32"
definition KPAGE_FLAGS_CACHE :: u8 where "KPAGE_FLAGS_CACHE = 64"
definition MEM_CACHE_FLAG_ADDING_SLOT :: u32 where "MEM_CACHE_FLAG_ADDING_SLOT = 1"
definition CACHE_MIN_CHUNK_SIZE :: int where "CACHE_MIN_CHUNK_SIZE = 4"
definition CACHE_MAX_NUM :: nat where "CACHE_MAX_NUM = 10"
definition ERR_RETRY :: int where "ERR_RETRY = 1"
definition sizeof_cache_desc :: u32 where "sizeof_cache_desc = 12"

record mem_cache =
  mc_bitmap_size :: u32
  mc_flags :: u32
  mc_size :: u32
  mc_lock :: u32

text \<open>\<open>kdesc\<close> is the word that \<^verbatim>\<open>desc\<close> and \<^verbatim>\<open>free_slot_count\<close> share in the union of \<^verbatim>\<open>struct kpage\<close>.\<close>

record caches =
  cache_array :: "mem_cache list"
  cframes :: mm
  cpages :: paging
  kdesc :: "nat \<Rightarrow> u32"

text \<open>The members \<^verbatim>\<open>free_area_head\<close> and \<^verbatim>\<open>free_slot_head\<close> of \<^verbatim>\<open>cache[i]\<close>.\<close>

definition cache_at :: "u32 \<Rightarrow> nat \<Rightarrow> u32" where
  "cache_at cb i = cb + 32 * of_nat i"

definition area_head :: "u32 \<Rightarrow> nat \<Rightarrow> u32" where
  "area_head cb i = cache_at cb i + 16"

definition slot_head :: "u32 \<Rightarrow> nat \<Rightarrow> u32" where
  "slot_head cb i = cache_at cb i + 24"

definition upd_pages :: "(paging \<Rightarrow> paging) \<Rightarrow> caches \<Rightarrow> caches" where
  "upd_pages f s = s\<lparr>cpages := f (cpages s)\<rparr>"

definition cmem :: "caches \<Rightarrow> u32 \<Rightarrow> u32" where
  "cmem s = pmem (cpages s)"

definition cache_elem :: "nat \<Rightarrow> caches \<Rightarrow> mem_cache run" where
  "cache_elem i s = or_fault Off_array (aget (cache_array s) i)"

definition upd_cache :: "nat \<Rightarrow> (mem_cache \<Rightarrow> mem_cache) \<Rightarrow> caches \<Rightarrow> caches run" where
  "upd_cache i f s =
     chain (cache_elem i s) (\<lambda>c. chain (or_fault Off_array (aput (cache_array s) i (f c))) (\<lambda>cs. Inr (s\<lparr>cache_array := cs\<rparr>)))"

definition lock_cache :: "nat \<Rightarrow> caches \<Rightarrow> caches run" where
  "lock_cache i s =
     chain (cache_elem i s) (\<lambda>c. chain (or_fault Waits (spinlock_lock (mc_lock c))) (\<lambda>v. upd_cache i (\<lambda>c. c\<lparr>mc_lock := v\<rparr>) s))"

definition unlock_cache :: "nat \<Rightarrow> caches \<Rightarrow> caches run" where
  "unlock_cache i s = upd_cache i (\<lambda>c. c\<lparr>mc_lock := spinlock_unlock (mc_lock c)\<rparr>) s"

text \<open>\<^verbatim>\<open>kpage_lookup\<close>: the result of \<^const>\<open>page_getpfn\<close> is used as an index.\<close>

definition kpage_lookup :: "kernel_layout \<Rightarrow> u32 \<Rightarrow> u32 \<Rightarrow> caches \<Rightarrow> nat" where
  "kpage_lookup lay cpu addr s = unat (page_getpfn lay cpu addr (cpages s))"

definition upd_kpage :: "nat \<Rightarrow> (kpage \<Rightarrow> kpage) \<Rightarrow> (u32 \<Rightarrow> u32) \<Rightarrow> caches \<Rightarrow> caches run" where
  "upd_kpage i f g s =
     chain (or_fault Off_array (kpage_upd i f (cframes s)))
       (\<lambda>fr. Inr (s\<lparr>cframes := fr, kdesc := (kdesc s)(i := g (kdesc s i))\<rparr>))"

definition kmap_page :: "kernel_layout \<Rightarrow> u32 \<Rightarrow> nat \<Rightarrow> caches \<Rightarrow> (u32 \<times> caches) run" where
  "kmap_page lay cpu order s =
     chain (or_fault No_page_result (page_alloc_kmap_linear lay cpu order (cframes s) (cpages s)))
       (\<lambda>(page, fr, p). Inr (page, s\<lparr>cframes := fr, cpages := p\<rparr>))"

section \<open>Lists in memory\<close>

text \<open>The macros of \<^verbatim>\<open>util.h\<close>; \<^verbatim>\<open>prev\<close> is the first word of a node and \<^verbatim>\<open>next\<close> the second.\<close>

definition mlist_init :: "u32 \<Rightarrow> paging \<Rightarrow> paging" where
  "mlist_init l p = pmem_write l l (pmem_write (l + 4) l p)"

definition mlist_insert_tail :: "u32 \<Rightarrow> u32 \<Rightarrow> paging \<Rightarrow> paging" where
  "mlist_insert_tail h l p =
     (let p = pmem_write (l + 4) h p;
          p = pmem_write l (pmem p h) p;
          p = pmem_write (pmem p h + 4) l p
      in pmem_write h l p)"

definition mlist_empty :: "u32 \<Rightarrow> (u32 \<Rightarrow> u32) \<Rightarrow> bool" where
  "mlist_empty l m \<longleftrightarrow> m (l + 4) = l \<and> m (l + 4) = m l"

definition mlist_next_entry :: "u32 \<Rightarrow> (u32 \<Rightarrow> u32) \<Rightarrow> u32" where
  "mlist_next_entry l m = (if mlist_empty l m then 0 else m (l + 4))"

definition mlist_remove_entry :: "u32 \<Rightarrow> paging \<Rightarrow> paging" where
  "mlist_remove_entry l p =
     (if mlist_empty l (pmem p) then p
      else let p = pmem_write (pmem p (l + 4)) (pmem p l) p;
               p = pmem_write (pmem p l + 4) (pmem p (l + 4)) p
           in mlist_init l p)"

section \<open>Bitmaps\<close>

fun bit_loop :: "int \<Rightarrow> nat \<Rightarrow> int" where
  "bit_loop bit_position num = (if num = 0 then bit_position else bit_loop (bit_position + 1) (num div 2))"

declare bit_loop.simps [simp del]

fun firstfree_loop :: "u32 \<Rightarrow> nat \<Rightarrow> nat \<Rightarrow> paging \<Rightarrow> int \<times> paging" where
  "firstfree_loop bitmap count 0 p = (-1, p)"
| "firstfree_loop bitmap count (Suc n) p =
     (let oldbitmap = read8 (pmem p) bitmap;
          p = write8 bitmap (oldbitmap OR (oldbitmap + 1)) p;
          new = read8 (pmem p) bitmap
      in if new \<noteq> oldbitmap then (bit_loop (-1) (unat new - unat oldbitmap) + int count, p)
         else firstfree_loop (bitmap + 1) (Suc count) n p)"

definition bitmap_firstfreebitset :: "u32 \<Rightarrow> u32 \<Rightarrow> paging \<Rightarrow> int \<times> paging" where
  "bitmap_firstfreebitset bitmap bitmap_size p = firstfree_loop bitmap 0 (nat (sint bitmap_size)) p"

fun allset_loop :: "u32 \<Rightarrow> nat \<Rightarrow> (u32 \<Rightarrow> u32) \<Rightarrow> bool" where
  "allset_loop bitmap 0 m = True"
| "allset_loop bitmap (Suc n) m = (if read8 m bitmap AND 0xff = 0 then False else allset_loop (bitmap + 1) n m)"

definition bitmap_allbitsset :: "u32 \<Rightarrow> u32 \<Rightarrow> (u32 \<Rightarrow> u32) \<Rightarrow> bool" where
  "bitmap_allbitsset bitmap bitmap_size m = allset_loop bitmap (nat (sint bitmap_size)) m"

section \<open>mem_cache_init\<close>

definition mem_cache_init_internal :: "u32 \<Rightarrow> nat \<Rightarrow> u32 \<Rightarrow> caches \<Rightarrow> caches run" where
  "mem_cache_init_internal cb i sz s =
     chain (upd_cache i (\<lambda>c. c\<lparr>mc_lock := 0\<rparr>) s) (\<lambda>s.
       let s = upd_pages (mlist_init (area_head cb i)) s;
           s = upd_pages (mlist_init (slot_head cb i)) s
       in upd_cache i (\<lambda>c. c\<lparr>mc_bitmap_size := (if PAGE_SIZE div sz * 8 < 4 then 4 else PAGE_SIZE div sz * 8)\<rparr>) s)"

function init_caches :: "u32 \<Rightarrow> nat \<Rightarrow> u32 \<Rightarrow> caches \<Rightarrow> caches run" where
  "init_caches cb j i s =
     (if j < CACHE_MAX_NUM \<and> sint i < 4096
      then chain (upd_cache j (\<lambda>c. c\<lparr>mc_size := i\<rparr>) s) (\<lambda>s.
           chain (mem_cache_init_internal cb j i s) (\<lambda>s.
             init_caches cb (Suc j) (push_bit 1 i) s))
      else Inr s)"
  by pat_completeness auto
termination by (relation "measure (\<lambda>(cb, j, i, s). CACHE_MAX_NUM - j)") (auto simp: CACHE_MAX_NUM_def)

declare init_caches.simps [simp del]

definition mem_cache_init :: "u32 \<Rightarrow> caches \<Rightarrow> (int \<times> caches) run" where
  "mem_cache_init cb s = chain (init_caches cb 0 (of_int CACHE_MIN_CHUNK_SIZE) s) (\<lambda>s. Inr (0, s))"

definition cache_init :: "u32 \<Rightarrow> caches \<Rightarrow> (int \<times> caches) run" where
  "cache_init cb s = chain (mem_cache_init cb s) (\<lambda>(r, s). if r = -1 then Inr (-1, s) else Inr (0, s))"

section \<open>mem_cache_add_slot\<close>

text \<open>From \<^verbatim>\<open>retry\<close> to the mark that a slot page is being added; the result says that there are slots already.\<close>

fun begin_adding :: "nat \<Rightarrow> u32 \<Rightarrow> nat \<Rightarrow> caches \<Rightarrow> (bool \<times> caches) run" where
  "begin_adding 0 cb idx s = Inl Waits"
| "begin_adding (Suc n) cb idx s =
     chain (lock_cache idx s) (\<lambda>s.
     chain (cache_elem idx s) (\<lambda>c.
       if mc_flags c AND MEM_CACHE_FLAG_ADDING_SLOT \<noteq> 0
       then chain (unlock_cache idx s) (begin_adding n cb idx)
       else if \<not> mlist_empty (slot_head cb idx) (cmem s)
       then chain (unlock_cache idx s) (\<lambda>s. Inr (True, s))
       else chain (upd_cache idx (\<lambda>c. c\<lparr>mc_flags := mc_flags c OR MEM_CACHE_FLAG_ADDING_SLOT\<rparr>) s) (\<lambda>s.
            chain (unlock_cache idx s) (\<lambda>s. Inr (False, s)))))"

text \<open>The loop over the descriptors of a page; \<^verbatim>\<open>ADDPTRS\<close> is signed.\<close>

fun slots_loop :: "nat \<Rightarrow> u32 \<Rightarrow> nat \<Rightarrow> u32 \<Rightarrow> u32 \<Rightarrow> u32 \<Rightarrow> caches \<Rightarrow> (u32 \<times> caches) run" where
  "slots_loop 0 cb idx header desc slot_count s = Inl Waits"
| "slots_loop (Suc n) cb idx header desc slot_count s =
     chain (cache_elem idx s) (\<lambda>c.
       if desc + (sizeof_cache_desc + mc_bitmap_size c) <=s header + PAGE_SIZE
       then slots_loop n cb idx header (desc + mc_bitmap_size c) (slot_count + 1)
              (upd_pages (mlist_insert_tail (slot_head cb idx) (desc + 4)) s)
       else Inr (slot_count, s))"

text \<open>\<open>turns\<close> bounds the turns of each of the two loops.\<close>

definition mem_cache_add_slot :: "nat \<Rightarrow> kernel_layout \<Rightarrow> u32 \<Rightarrow> u32 \<Rightarrow> nat \<Rightarrow> caches \<Rightarrow> (int \<times> caches) run" where
  "mem_cache_add_slot turns lay cpu cb idx s =
     chain (begin_adding turns cb idx s) (\<lambda>(present, s).
       if present then Inr (0, s)
       else chain (kmap_page lay cpu 0 s) (\<lambda>(page, s).
         if page = 0 then Inr (ERR_NOMEM, s)
         else
           let s = upd_pages (pmem_write page (cache_at cb idx)) s
           in chain (slots_loop turns cb idx page (page + 4) 0 s) (\<lambda>(slot_count, s).
              chain (upd_kpage (kpage_lookup lay cpu page s) (set_flag KPAGE_FLAGS_CACHE_METADATA) (\<lambda>_. slot_count) s) (\<lambda>s.
              chain (lock_cache idx s) (\<lambda>s.
              chain (upd_cache idx (\<lambda>c. c\<lparr>mc_flags := mc_flags c AND NOT MEM_CACHE_FLAG_ADDING_SLOT\<rparr>) s) (\<lambda>s.
              chain (unlock_cache idx s) (\<lambda>s.
                Inr (0, s))))))))"

section \<open>mem_cache_allocate\<close>

definition ALIGN_LONG :: "u32 \<Rightarrow> u32" where
  "ALIGN_LONG sz = (sz + 4 - 1) AND NOT (4 - 1)"

text \<open>The condition of the loop does not depend on \<^verbatim>\<open>order\<close>.\<close>

fun order_loop :: "nat \<Rightarrow> int \<Rightarrow> nat \<Rightarrow> nat run" where
  "order_loop 0 sz order = Inl Waits"
| "order_loop (Suc n) sz order = (if (sz + 4096 - 1) div 4096 > 4096 then order_loop n sz (order + 1) else Inr order)"

definition large_object :: "nat \<Rightarrow> kernel_layout \<Rightarrow> u32 \<Rightarrow> int \<Rightarrow> caches \<Rightarrow> (u32 \<times> caches) run" where
  "large_object turns lay cpu sz s =
     chain (order_loop turns sz 1) (\<lambda>order.
     chain (kmap_page lay cpu order s) (\<lambda>(page, s).
       if page = 0 then Inr (0, s)
       else chain (upd_kpage (kpage_lookup lay cpu page s) (clear_flag KPAGE_FLAGS_CACHE) (\<lambda>_. 0) s) (\<lambda>s.
         Inr (page, s))))"

text \<open>
  The end of the function, with the lock of \<^verbatim>\<open>cache[0]\<close> held; \<open>page\<close> is \<^const>\<open>None\<close> where the code has not assigned
  the variable, and \<open>garbage\<close> is what the variable then holds.
\<close>

definition object_of :: "u32 \<Rightarrow> u32 \<Rightarrow> u32 option \<Rightarrow> caches \<Rightarrow> (u32 \<times> caches) run" where
  "object_of garbage entry page s =
     chain (cache_elem 0 s) (\<lambda>c.
       let desc = entry - 4;
           bitmap = desc + sizeof_cache_desc;
           (first_bit, p) = bitmap_firstfreebitset bitmap (mc_bitmap_size c) (cpages s);
           p = (if bitmap_allbitsset bitmap (mc_bitmap_size c) (pmem p) then mlist_remove_entry entry p else p)
       in chain (unlock_cache 0 (s\<lparr>cpages := p\<rparr>)) (\<lambda>s.
            Inr ((case page of None \<Rightarrow> garbage | Some page \<Rightarrow> page) + of_int first_bit * mc_size c, s)))"

definition take_object :: "u32 \<Rightarrow> kernel_layout \<Rightarrow> u32 \<Rightarrow> u32 \<Rightarrow> caches \<Rightarrow> (u32 \<times> caches) run" where
  "take_object garbage lay cpu cb s =
     (if \<not> mlist_empty (area_head cb 0) (cmem s)
      then object_of garbage (mlist_next_entry (area_head cb 0) (cmem s)) None s
      else
        let entry = mlist_next_entry (slot_head cb 0) (cmem s);
            s = upd_pages (mlist_remove_entry entry) s;
            desc = entry - 4
        in chain (unlock_cache 0 s) (\<lambda>s.
           chain (kmap_page lay cpu 0 s) (\<lambda>(page, s).
             if page = 0
             then Inr (0, upd_pages (mlist_insert_tail (slot_head cb 0) entry) s)
             else chain (lock_cache 0 s) (\<lambda>s.
                  chain (cache_elem 0 s) (\<lambda>c.
                    let s = upd_pages (clear_words (unat ((sizeof_cache_desc + mc_bitmap_size c) div 4)) desc) s
                    in chain (upd_kpage (kpage_lookup lay cpu (desc AND PAGE_MASK) s) id (\<lambda>n. n - 1) s) (\<lambda>s.
                       let s = upd_pages (pmem_write desc page) s
                       in chain (upd_kpage (kpage_lookup lay cpu page s) (set_flag KPAGE_FLAGS_CACHE) (\<lambda>_. desc) s) (\<lambda>s.
                          let s = upd_pages (mlist_init entry) s;
                              s = upd_pages (mlist_insert_tail (area_head cb 0) entry) s
                          in object_of garbage entry (Some page) s)))))))"

text \<open>
  From \<^verbatim>\<open>retry\<close>: the lists examined are those of \<^verbatim>\<open>cache[0]\<close>, the slots are added to \<^verbatim>\<open>cache[idx]\<close>. \<open>turns\<close> is for the loops of
  \<^const>\<open>mem_cache_add_slot\<close>, the second number for this one.
\<close>

fun alloc_retry :: "u32 \<Rightarrow> nat \<Rightarrow> nat \<Rightarrow> kernel_layout \<Rightarrow> u32 \<Rightarrow> u32 \<Rightarrow> nat \<Rightarrow> caches \<Rightarrow> (u32 \<times> caches) run" where
  "alloc_retry garbage turns 0 lay cpu cb idx s = Inl Waits"
| "alloc_retry garbage turns (Suc n) lay cpu cb idx s =
     chain (lock_cache 0 s) (\<lambda>s.
       if \<not> mlist_empty (area_head cb 0) (cmem s) then take_object garbage lay cpu cb s
       else chain (unlock_cache 0 s) (\<lambda>s.
            chain (mem_cache_add_slot turns lay cpu cb idx s) (\<lambda>(err, s).
              if err = ERR_NOMEM
              then chain (cache_elem (idx + 1) s) (\<lambda>c.
                     if mc_size c = 0 then Inr (0, s) else alloc_retry garbage turns n lay cpu cb (idx + 1) s)
              else if err = ERR_RETRY then alloc_retry garbage turns n lay cpu cb idx s
              else chain (lock_cache 0 s) (\<lambda>s.
                     if mlist_empty (area_head cb 0) (cmem s) \<and> mlist_empty (slot_head cb 0) (cmem s)
                     then chain (unlock_cache 0 s) (alloc_retry garbage turns n lay cpu cb idx)
                     else take_object garbage lay cpu cb s))))"

function size_index :: "int \<Rightarrow> nat \<Rightarrow> nat" where
  "size_index i idx = (if CACHE_MIN_CHUNK_SIZE < i then size_index (i div 2) (idx + 1) else idx)"
  by pat_completeness auto
termination by (relation "measure (\<lambda>(i, idx). nat i)") (auto simp: CACHE_MIN_CHUNK_SIZE_def)

declare size_index.simps [simp del]

definition mem_cache_allocate :: "u32 \<Rightarrow> nat \<Rightarrow> kernel_layout \<Rightarrow> u32 \<Rightarrow> u32 \<Rightarrow> u32 \<Rightarrow> caches \<Rightarrow> (u32 \<times> caches) run" where
  "mem_cache_allocate garbage turns lay cpu cb sz s =
     (let sz = sint (ALIGN_LONG sz)
      in if 4096 div 2 < sz then large_object turns lay cpu sz s
         else alloc_retry garbage turns turns lay cpu cb (size_index sz 0) s)"

section \<open>mem_cache_free\<close>

definition mem_cache_free :: "kernel_layout \<Rightarrow> u32 \<Rightarrow> u32 \<Rightarrow> caches \<Rightarrow> caches option" where
  "mem_cache_free lay cpu ptr s =
     do {
       let i = kpage_lookup lay cpu (ptr AND PAGE_MASK) s;
       fr \<leftarrow> lock_page i (cframes s);
       k \<leftarrow> aget (kpages fr) i;
       if kflags k AND KPAGE_FLAGS_ALLOCATED = 0
       then do { fr \<leftarrow> unlock_page i fr; Some (s\<lparr>cframes := fr\<rparr>) }
       else do {
         fr \<leftarrow> (if kflags k AND (KPAGE_FLAGS_CACHE OR KPAGE_FLAGS_CACHE_METADATA) = 0
               then do { fr \<leftarrow> unlock_page i fr; kpage_upd i (\<lambda>k. k\<lparr>krefcount := krefcount k - 1\<rparr>) fr }
               else Some fr);
         fr \<leftarrow> unlock_page i fr;
         Some (s\<lparr>cframes := fr\<rparr>)
       }
     }"

end
