(* ===== verification/Object_Cache_Props.thy ===== *)
theory Object_Cache_Props
  imports Object_Cache
begin

text \<open>
  What the object cache does: the search for a free bit, and that \<^verbatim>\<open>mem_cache_allocate\<close> comes to no result for at most half
  a page unless it has left an array before.
\<close>

section \<open>Bitmaps\<close>

text \<open>The lowest clear bit.\<close>

definition lowest_clear :: "u8 \<Rightarrow> nat \<Rightarrow> bool" where
  "lowest_clear b j \<longleftrightarrow> j < 8 \<and> \<not> bit b j \<and> (\<forall>k < j. bit b k)"

lemma byte_cases: "b \<in> of_nat ` {..<256}" for b :: u8
  using unsigned_less [of b, where 'a = nat] by (intro image_eqI [of _ _ "unat b"]) simp_all

lemma bit_loop_power: "bit_loop bp (2 ^ j) = bp + int j + 1"
proof (induction j arbitrary: bp)
  case 0
  then show ?case by (simp add: bit_loop.simps)
next
  case (Suc j)
  then show ?case by (subst bit_loop.simps) simp
qed

text \<open>\<open>b OR (b + 1)\<close> sets the lowest clear bit.\<close>

lemma set_lowest:
  fixes b :: u8
  shows "b = 0xff \<Longrightarrow> b OR (b + 1) = b"
    "lowest_clear b j \<Longrightarrow> b OR (b + 1) = b OR push_bit j 1 \<and> b OR (b + 1) \<noteq> b \<and> unat (b OR (b + 1)) - unat b = 2 ^ j"
proof -
  show "b = 0xff \<Longrightarrow> b OR (b + 1) = b" by simp
  assume j: "lowest_clear b j"
  note l = j [unfolded lowest_clear_def]
  define h where "h = b AND NOT (mask (Suc j))"
  have b: "b = h OR mask j"
  proof (rule bit_word_eqI)
    fix i assume "i < LENGTH(8)"
    show "bit b i \<longleftrightarrow> bit (h OR mask j) i"
      using l by (cases "i < j"; cases "i = j") (auto simp: h_def bit_simps dest: bit_imp_le_length)
  qed
  have "h AND mask j = 0" by (rule bit_word_eqI) (auto simp: h_def bit_simps)
  then have "h OR mask j = h + mask j" by (rule disjunctive_add_eq_or [symmetric])
  moreover have "mask j + 1 = (push_bit j 1 :: u8)" by (simp add: mask_eq_exp_minus_1 push_bit_eq_mult)
  ultimately have "b + 1 = h + push_bit j 1" using b by (metis add.assoc)
  also have "h AND push_bit j 1 = 0" by (rule bit_word_eqI) (auto simp: h_def bit_simps)
  then have "h + push_bit j 1 = h OR push_bit j 1" by (rule disjunctive_add_eq_or)
  finally have "b + 1 = h OR push_bit j 1" .
  moreover have "bit h i \<Longrightarrow> bit b i" for i unfolding h_def by (simp add: bit_and_iff)
  then have "b OR (h OR push_bit j 1) = b OR push_bit j 1" by (intro bit_word_eqI) (auto simp only: bit_or_iff)
  ultimately have o: "b OR (b + 1) = b OR push_bit j 1" by (simp only:)
  have "bit (b OR push_bit j 1) j" using l by (auto simp: bit_simps)
  then have "b OR (b + 1) \<noteq> b" using l o by metis
  moreover have "unat (b OR (b + 1)) - unat b = 2 ^ j"
  proof -
    have "j = 0 \<or> j = 1 \<or> j = 2 \<or> j = 3 \<or> j = 4 \<or> j = 5 \<or> j = 6 \<or> j = 7" using l by linarith
    then have "unat (push_bit j 1 :: u8) = 2 ^ j" by (elim disjE) simp_all
    then have "unat (b OR (b + 1)) = unat b OR 2 ^ j" unfolding o by (simp add: unsigned_or_eq)
    moreover have "unat b AND 2 ^ j = 0"
    proof (rule bit_eqI)
      fix n
      show "bit (unat b AND 2 ^ j) n \<longleftrightarrow> bit (0 :: nat) n" using l by (auto simp: bit_and_iff bit_unsigned_iff bit_exp_iff)
    qed
    then have "unat b OR 2 ^ j = unat b + 2 ^ j" by (rule disjunctive_add_eq_or [symmetric])
    ultimately show ?thesis by simp
  qed
  ultimately show "b OR (b + 1) = b OR push_bit j 1 \<and> b OR (b + 1) \<noteq> b \<and> unat (b OR (b + 1)) - unat b = 2 ^ j" using o by blast
qed

lemma lowest_clear_full: "\<not> lowest_clear 0xff j"
proof -
  have "(0xff :: u8) = mask 8" by (simp add: mask_eq_exp_minus_1)
  then show ?thesis by (simp only: lowest_clear_def bit_mask_iff) simp
qed

lemma lowest_clear_ex: "b \<noteq> 0xff \<Longrightarrow> \<exists>j. lowest_clear b j" for b :: u8
proof -
  assume ne: "b \<noteq> 0xff"
  have "\<exists>j < 8. \<not> bit b j"
  proof (rule ccontr)
    assume "\<not> (\<exists>j < 8. \<not> bit b j)"
    then have "b = mask 8" by (intro bit_word_eqI) (auto simp: bit_simps)
    then show False using ne by (simp add: mask_eq_exp_minus_1)
  qed
  then obtain j where j: "j < 8 \<and> \<not> bit b j" "\<forall>k < j. \<not> (k < 8 \<and> \<not> bit b k)" using exists_least_iff [of "\<lambda>j. j < 8 \<and> \<not> bit b j"] by blast
  then show ?thesis by (auto simp: lowest_clear_def)
qed

lemma firstfree_step:
  "read8 (pmem p) a = 0xff \<Longrightarrow> firstfree_loop a c (Suc n) p = firstfree_loop (a + 1) (Suc c) n (write8 a 0xff p)"
  "lowest_clear (read8 (pmem p) a) j \<Longrightarrow>
    firstfree_loop a c (Suc n) p = (int j + int c, write8 a (read8 (pmem p) a OR push_bit j 1) p)"
proof -
  define b where "b = read8 (pmem p) a"
  have u: "firstfree_loop a c (Suc n) p = (if b OR (b + 1) \<noteq> b then (bit_loop (-1) (unat (b OR (b + 1)) - unat b) + int c, write8 a (b OR (b + 1)) p)
      else firstfree_loop (a + 1) (Suc c) n (write8 a (b OR (b + 1)) p))"
    by (simp only: firstfree_loop.simps Let_def read8_write8 b_def [symmetric] simp_thms if_True)
  show "read8 (pmem p) a = 0xff \<Longrightarrow> firstfree_loop a c (Suc n) p = firstfree_loop (a + 1) (Suc c) n (write8 a 0xff p)"
    using set_lowest(1) [of b] unfolding u b_def [symmetric] by (simp only: simp_thms if_False)
  assume l: "lowest_clear (read8 (pmem p) a) j"
  show "firstfree_loop a c (Suc n) p = (int j + int c, write8 a (read8 (pmem p) a OR push_bit j 1) p)"
  proof -
    have "bit_loop (-1) (2 ^ j) = int j" by (simp add: bit_loop_power)
    then show ?thesis using set_lowest(2) [OF l] unfolding u b_def [symmetric] by (elim conjE) (simp only: simp_thms if_True)
  qed
qed

lemma firstfree_full:
  "(\<forall>k < n. read8 (pmem p) (a + of_nat k) = 0xff) \<Longrightarrow> \<exists>p'. firstfree_loop a c n p = (-1, p') \<and> (\<forall>x. read8 (pmem p') x = read8 (pmem p) x)"
proof (induction n arbitrary: a c p)
  case (Suc n)
  have f: "read8 (pmem p) a = 0xff" using Suc.prems by (auto dest: spec [of _ 0])
  let ?p = "write8 a 0xff p"
  have same: "read8 (pmem ?p) x = read8 (pmem p) x" for x using f by (simp add: read8_write8)
  have "read8 (pmem ?p) (a + 1 + of_nat k) = 0xff" if "k < n" for k
    using Suc.prems [rule_format, of "Suc k"] that unfolding same by (simp add: add.assoc)
  then obtain p' where "firstfree_loop (a + 1) (Suc c) n ?p = (-1, p')" "\<forall>x. read8 (pmem p') x = read8 (pmem p) x"
    using Suc.IH [of ?p "a + 1" "Suc c"] unfolding same by blast
  moreover have "firstfree_loop a c (Suc n) p = firstfree_loop (a + 1) (Suc c) n ?p" by (rule firstfree_step(1) [OF f])
  ultimately show ?case by auto
qed simp

lemma firstfree_found:
  "i < n \<Longrightarrow> (\<forall>k < i. read8 (pmem p) (a + of_nat k) = 0xff) \<Longrightarrow> lowest_clear (read8 (pmem p) (a + of_nat i)) j \<Longrightarrow>
    \<exists>p'. firstfree_loop a c n p = (int j + int i + int c, p') \<and>
      (\<forall>x. read8 (pmem p') x = (if x = a + of_nat i then read8 (pmem p) x OR push_bit j 1 else read8 (pmem p) x))"
proof (induction n arbitrary: a c p i)
  case (Suc n)
  show ?case
  proof (cases i)
    case 0
    have "lowest_clear (read8 (pmem p) a) j" using Suc.prems(3) 0 by simp
    from firstfree_step(2) [OF this] show ?thesis using 0 by (simp add: read8_write8)
  next
    case (Suc i')
    have f: "read8 (pmem p) a = 0xff" using Suc.prems(2) Suc by (auto dest: spec [of _ 0])
    let ?p = "write8 a 0xff p"
    have same: "read8 (pmem ?p) x = read8 (pmem p) x" for x using f by (simp add: read8_write8)
    have low: "\<forall>k < i'. read8 (pmem p) (a + 1 + of_nat k) = 0xff"
    proof (intro allI impI)
      fix k assume "k < i'"
      then show "read8 (pmem p) (a + 1 + of_nat k) = 0xff" using Suc.prems(2) [rule_format, of "Suc k"] Suc by (simp add: add.assoc)
    qed
    have at: "a + 1 + of_nat i' = a + of_nat i" using Suc by (simp add: add.assoc)
    obtain p' where "firstfree_loop (a + 1) (Suc c) n ?p = (int j + int i' + int (Suc c), p')"
        "\<forall>x. read8 (pmem p') x = (if x = a + of_nat i then read8 (pmem p) x OR push_bit j 1 else read8 (pmem p) x)"
      using Suc.IH [of i' ?p "a + 1" "Suc c"] Suc.prems(1,3) low Suc unfolding same at by auto
    moreover have "firstfree_loop a c (Suc n) p = firstfree_loop (a + 1) (Suc c) n ?p" by (rule firstfree_step(1) [OF f])
    ultimately show ?thesis using Suc by auto
  qed
qed simp


text \<open>\<^verbatim>\<open>bitmap_firstfreebitset\<close> marks the first free bit: if every byte is full it returns -1 and changes nothing; otherwise it
  sets the lowest clear bit \<open>j\<close> of the first byte \<open>i\<close> that is not full and no other bit. The number it returns for it is
  \<open>j + i\<close> where the bit is number \<open>j + 8 * i\<close>: it counts bytes for bits.\<close>

theorem bitmap_firstfreebitset_marks:
  "\<exists>p'. if \<forall>k < nat (sint bitmap_size). read8 (pmem p) (bitmap + of_nat k) = 0xff
     then bitmap_firstfreebitset bitmap bitmap_size p = (-1, p') \<and> read8 (pmem p') = read8 (pmem p)
     else \<exists>i j. i < nat (sint bitmap_size) \<and> (\<forall>k < i. read8 (pmem p) (bitmap + of_nat k) = 0xff) \<and>
       lowest_clear (read8 (pmem p) (bitmap + of_nat i)) j \<and>
       bitmap_firstfreebitset bitmap bitmap_size p = (int (j + i), p') \<and>
       read8 (pmem p') = (read8 (pmem p))(bitmap + of_nat i := read8 (pmem p) (bitmap + of_nat i) OR push_bit j 1)"
proof (cases "\<forall>k < nat (sint bitmap_size). read8 (pmem p) (bitmap + of_nat k) = 0xff")
  case True
  then show ?thesis using firstfree_full [OF True, of 0] by (auto simp: bitmap_firstfreebitset_def fun_eq_iff)
next
  case False
  let ?P = "\<lambda>i. i < nat (sint bitmap_size) \<and> read8 (pmem p) (bitmap + of_nat i) \<noteq> 0xff"
  obtain i where i: "?P i" "\<forall>k < i. \<not> ?P k" using False exists_least_iff [of ?P] by blast
  then have low: "\<forall>k < i. read8 (pmem p) (bitmap + of_nat k) = 0xff" using order.strict_trans by blast
  obtain j where j: "lowest_clear (read8 (pmem p) (bitmap + of_nat i)) j" using i(1) lowest_clear_ex by blast
  obtain p' where "firstfree_loop bitmap 0 (nat (sint bitmap_size)) p = (int j + int i + int 0, p')"
      "\<forall>x. read8 (pmem p') x = (if x = bitmap + of_nat i then read8 (pmem p) x OR push_bit j 1 else read8 (pmem p) x)"
    using firstfree_found [OF conjunct1 [OF i(1)] low j, of 0] by blast
  then have "bitmap_firstfreebitset bitmap bitmap_size p = (int (j + i), p')"
      "read8 (pmem p') = (read8 (pmem p))(bitmap + of_nat i := read8 (pmem p) (bitmap + of_nat i) OR push_bit j 1)"
    by (simp_all add: bitmap_firstfreebitset_def fun_eq_iff)
  then show ?thesis using False i(1) low j by auto
qed

text \<open>Four bytes, of which the first two are full: the bit is number 17, the code returns 3.\<close>

theorem bitmap_firstfreebitset_marks_witness:
  "fst (bitmap_firstfreebitset 0x80001000 4 (empty_paging\<lparr>pmem := (\<lambda>_. 0)(0x80001000 := 0x01FFFF)\<rparr>)) = 3"
proof -
  let ?p = "empty_paging\<lparr>pmem := (\<lambda>_. 0)(0x80001000 := 0x01FFFF)\<rparr>"
  have b: "read8 (pmem ?p) (0x80001000 + of_nat k) = [0xff, 0xff, 1, 0] ! k" if "k < 4" for k
  proof -
    have "k = 0 \<or> k = 1 \<or> k = 2 \<or> k = 3" using that by linarith
    then show ?thesis by (elim disjE) (simp_all add: read8_def)
  qed
  have n: "nat (sint (4 :: u32)) = 4" by simp
  have "\<not> (\<forall>k < nat (sint (4 :: u32)). read8 (pmem ?p) (0x80001000 + of_nat k) = 0xff)"
    unfolding n using b [of 2] by (intro notI) (auto dest: spec [of _ 2])
  then obtain i j p' where r: "i < nat (sint (4 :: u32))" "\<forall>k < i. read8 (pmem ?p) (0x80001000 + of_nat k) = 0xff"
    "lowest_clear (read8 (pmem ?p) (0x80001000 + of_nat i)) j" "bitmap_firstfreebitset 0x80001000 4 ?p = (int (j + i), p')"
    using bitmap_firstfreebitset_marks [of 4 ?p "0x80001000"] by (simp only: if_False) blast
  have "i = 0 \<or> i = 1 \<or> i = 2 \<or> i = 3" using r(1) unfolding n by linarith
  moreover have "i \<noteq> 0"
  proof
    assume "i = 0"
    then show False using r(3) b [of 0] lowest_clear_full by simp
  qed
  moreover have "i \<noteq> 1"
  proof
    assume "i = 1"
    then show False using r(3) b [of 1] lowest_clear_full by simp
  qed
  moreover have "i \<noteq> 3" using r(2) b [of 2] by (auto dest: spec [of _ 2])
  ultimately have i: "i = 2" by blast
  have "lowest_clear 1 j" using r(3) b [of 2] unfolding i by simp
  then have "j = 1" by (auto simp: lowest_clear_def bit_1_iff) (metis One_nat_def less_Suc0 linorder_neqE_nat not_less_eq one_neq_zero)
  then show ?thesis using r(4) unfolding i by simp
qed

section \<open>The caches after mem\_cache\_init\<close>

definition cache_shape :: "mem_cache list \<Rightarrow> bool" where
  "cache_shape cs \<longleftrightarrow> length cs = CACHE_MAX_NUM \<and>
     (\<forall>i < CACHE_MAX_NUM. unat (mc_size (cs ! i)) = 4 * 2 ^ i \<and> unat (mc_bitmap_size (cs ! i)) = 8192 div 2 ^ i)"

lemma upd_cache_simps:
  assumes "upd_cache i f s = Inr s'"
  shows "i < length (cache_array s)" "s' = s\<lparr>cache_array := (cache_array s)[i := f (cache_array s ! i)]\<rparr>"
  using assms by (auto simp: upd_cache_def cache_elem_def aget_def aput_def chain_eq_Inr split: if_splits)

text \<open>What the locks and flags of the caches leave unchanged.\<close>

definition same_shape :: "caches \<Rightarrow> caches \<Rightarrow> bool" where
  "same_shape s s' \<longleftrightarrow> cframes s' = cframes s \<and> cpages s' = cpages s \<and> (cache_shape (cache_array s) \<longrightarrow> cache_shape (cache_array s'))"

lemma same_shape_trans: "same_shape s t \<Longrightarrow> same_shape t u \<Longrightarrow> same_shape s u"
  by (simp add: same_shape_def)

lemma upd_same_shape:
  assumes "upd_cache i f s = Inr s'" and "\<And>c. mc_size (f c) = mc_size c" and "\<And>c. mc_bitmap_size (f c) = mc_bitmap_size c"
  shows "same_shape s s'"
  using upd_cache_simps [OF assms(1)] assms(2,3) by (auto simp: same_shape_def cache_shape_def nth_list_update)

lemma lock_same_shape: "lock_cache i s = Inr s' \<Longrightarrow> same_shape s s'" "unlock_cache i s = Inr s' \<Longrightarrow> same_shape s s'"
  unfolding lock_cache_def unlock_cache_def chain_eq_Inr by (auto intro: upd_same_shape)

lemma lock_in_array: "lock_cache i s = Inr s' \<Longrightarrow> i < length (cache_array s)"
  by (auto simp: lock_cache_def cache_elem_def chain_eq_Inr aget_eq_Some)

text \<open>
  Whether something has come to a result: \<open>nowhere\<close> says that an array was left or a loop still runs; \<open>quiet\<close> that at least the
  page allocator has not failed to give a result.
\<close>

definition nowhere :: "'a run \<Rightarrow> bool" where
  "nowhere x \<longleftrightarrow> x = Inl Off_array \<or> x = Inl Waits"

definition quiet :: "'a run \<Rightarrow> bool" where
  "quiet x \<longleftrightarrow> x \<noteq> Inl No_page_result"

lemma quiet_simps [simp]: "quiet (Inr a)" "quiet (Inl Waits)" "quiet (Inl Off_array)" "e \<noteq> No_page_result \<Longrightarrow> quiet (or_fault e x)"
  by (cases x; simp add: quiet_def)+

lemma chain_quiet: "quiet x \<Longrightarrow> (\<And>a. x = Inr a \<Longrightarrow> quiet (f a)) \<Longrightarrow> quiet (chain x f)"
  by (cases x) (simp_all add: quiet_def)

lemma chain_nowhere: "quiet x \<Longrightarrow> (\<And>a. x = Inr a \<Longrightarrow> nowhere (f a)) \<Longrightarrow> nowhere (chain x f)"
proof (cases x)
  case (Inl e)
  then show "quiet x \<Longrightarrow> ?thesis" by (cases e) (simp_all add: quiet_def nowhere_def)
qed simp

lemma array_quiet [simp]: "quiet (cache_elem i s)" "quiet (upd_cache i f s)" "quiet (lock_cache i s)" "quiet (unlock_cache i s)"
  "quiet (upd_kpage j g h s)"
  unfolding lock_cache_def unlock_cache_def upd_cache_def upd_kpage_def cache_elem_def by (auto intro!: chain_quiet)

lemma begin_adding_quiet: "quiet (begin_adding n cb idx s)"
  by (induction n arbitrary: s) (auto intro!: chain_quiet)

lemma slots_loop_quiet: "quiet (slots_loop n cb idx header desc k s)"
  by (induction n arbitrary: desc k s) (auto intro!: chain_quiet)

definition begun :: "u32 \<Rightarrow> nat \<Rightarrow> caches \<Rightarrow> bool \<times> caches \<Rightarrow> bool" where
  "begun cb idx s r \<longleftrightarrow> same_shape s (snd r) \<and> idx < length (cache_array s) \<and> (\<not> fst r \<longrightarrow> mlist_empty (slot_head cb idx) (cmem s))"

lemma begin_adding_result: "begin_adding n cb idx s = Inr r \<Longrightarrow> begun cb idx s r"
proof (induction n arbitrary: s)
  case (Suc n)
  note run = Suc.prems [unfolded begin_adding.simps]
  obtain s1 c where s1: "lock_cache idx s = Inr s1" "cache_elem idx s1 = Inr c" using run by (auto simp: chain_eq_Inr)
  have l: "same_shape s s1" "idx < length (cache_array s)" using lock_same_shape(1) [OF s1(1)] lock_in_array [OF s1(1)] by simp_all
  have m: "cmem s1 = cmem s" using l(1) by (simp add: same_shape_def cmem_def)
  consider s2 where "unlock_cache idx s1 = Inr s2" "begin_adding n cb idx s2 = Inr r"
    | s2 where "unlock_cache idx s1 = Inr s2" "r = (True, s2)"
    | s2 s3 where "mlist_empty (slot_head cb idx) (cmem s1)" "upd_cache idx (\<lambda>c. c\<lparr>mc_flags := mc_flags c OR MEM_CACHE_FLAG_ADDING_SLOT\<rparr>) s1 = Inr s2"
        "unlock_cache idx s2 = Inr s3" "r = (False, s3)"
    using run by (auto simp: chain_eq_Inr s1 split: if_splits)
  then show ?case
    unfolding begun_def
  proof cases
    case 1
    have t: "same_shape s s2" using l(1) lock_same_shape(2) [OF 1(1)] by (rule same_shape_trans)
    then have "cmem s2 = cmem s" by (simp add: same_shape_def cmem_def)
    then show "same_shape s (snd r) \<and> idx < length (cache_array s) \<and> (\<not> fst r \<longrightarrow> mlist_empty (slot_head cb idx) (cmem s))"
      using Suc.IH [OF 1(2)] l(2) same_shape_trans [OF t] unfolding begun_def by metis
  next
    case 2
    then show "same_shape s (snd r) \<and> idx < length (cache_array s) \<and> (\<not> fst r \<longrightarrow> mlist_empty (slot_head cb idx) (cmem s))"
      using l(2) same_shape_trans [OF l(1) lock_same_shape(2) [OF 2(1)]] by simp
  next
    case 3
    have "same_shape s1 s2" by (rule upd_same_shape [OF 3(2)]) simp_all
    from same_shape_trans [OF same_shape_trans [OF l(1) this] lock_same_shape(2) [OF 3(3)]]
    show "same_shape s (snd r) \<and> idx < length (cache_array s) \<and> (\<not> fst r \<longrightarrow> mlist_empty (slot_head cb idx) (cmem s))"
      using 3(1,4) l(2) m by simp
  qed
qed simp

section \<open>Slots\<close>

lemma signed_word: "sint w = (if unat w < 2 ^ 31 then int (unat w) else int (unat w) - 2 ^ 32)" for w :: u32
proof -
  have "- (2 ^ 31) \<le> sint w" "sint w < 2 ^ 31" using sint_ge [of w] sint_lt [of w] by simp_all
  moreover obtain n where n: "unat w = n" "uint w = int n" by simp
  moreover have "unat w < 2 ^ 32" using unsigned_less [of w, where 'a = nat] by simp
  ultimately show ?thesis using sint_u32 [of w] unfolding n by auto
qed

text \<open>The signed test of the loop keeps a descriptor inside its page.\<close>

lemma slot_fits:
  assumes f: "f + 1 < 2 ^ 19" and bs: "unat bs \<le> 8192" and d: "d \<le> 8192"
    and fits: "kaddr f + of_nat d + (sizeof_cache_desc + bs) <=s kaddr f + PAGE_SIZE"
  shows "d + 12 + unat bs \<le> 4096"
proof -
  have u: "unat (kaddr f) = 2 ^ 31 + 4096 * f" using f by (simp add: unat_kaddr)
  have e: "unat (kaddr f + PAGE_SIZE) = 2 ^ 31 + 4096 * f + 4096"
    using f unat_add_of_nat [of "kaddr f" 4096] by (simp add: u PAGE_SIZE_def)
  define n where "n = d + (12 + unat bs)"
  have n: "n \<le> 20000" using bs d by (simp add: n_def)
  have "kaddr f + of_nat d + (sizeof_cache_desc + bs) = kaddr f + of_nat n" by (simp add: n_def sizeof_cache_desc_def)
  then have le: "sint (kaddr f + of_nat n) \<le> sint (kaddr f + PAGE_SIZE)" using fits by (simp only: word_sle_eq)
  have neg: "sint (kaddr f + PAGE_SIZE) = int (2 ^ 31 + 4096 * f + 4096) - 2 ^ 32" unfolding signed_word e by simp
  have "n \<le> 4096"
  proof (cases "2 ^ 31 + 4096 * f + n < 2 ^ 32")
    case True
    then have w: "unat (kaddr f + of_nat n) = 2 ^ 31 + 4096 * f + n" using unat_add_of_nat [of "kaddr f" n] by (simp add: u)
    have "sint (kaddr f + of_nat n) = int (2 ^ 31 + 4096 * f + n) - 2 ^ 32" unfolding signed_word w by simp
    then show ?thesis using le unfolding neg by simp
  next
    case False
    have "unat (kaddr f + of_nat n) = (2 ^ 31 + 4096 * f + n) mod 2 ^ 32"
      using n by (simp add: unat_word_ariths u unat_of_nat)
    also have "\<dots> = 2 ^ 31 + 4096 * f + n - 2 ^ 32" using False f n by (simp add: mod_if)
    finally have "unat (kaddr f + of_nat n) < 2 ^ 31" using f n by simp
    then have "0 \<le> sint (kaddr f + of_nat n)" by (simp add: signed_word)
    then show ?thesis using le f unfolding neg by simp
  qed
  then show ?thesis by (simp add: n_def)
qed


lemma page_words:
  assumes f: "f + 1 < 2 ^ 19" and d: "d < 4096"
  shows "in_frame f (kaddr f + of_nat d)"
  using unat_frame_byte [of f d] assms unfolding frame_byte_def by (simp add: in_frame_range)

text \<open>One insertion writes in the page and in the head only.\<close>

lemma insert_slot:
  assumes l: "in_frame f l" "in_frame f (l + 4)" and h: "\<not> in_frame f h" and pr: "pmem p h = h \<or> in_frame f (pmem p h + 4)"
  shows "\<exists>m. mlist_insert_tail h l p = p\<lparr>pmem := m\<rparr> \<and> m h = l \<and> (\<forall>a. \<not> in_frame f a \<and> a \<noteq> h \<and> a \<noteq> h + 4 \<longrightarrow> m a = pmem p a)"
proof -
  have ne: "h \<noteq> l" "h \<noteq> l + 4" using l h by auto
  let ?m = "(pmem p)(l + 4 := h, l := pmem p h, pmem p h + 4 := l, h := l)"
  have "mlist_insert_tail h l p = p\<lparr>pmem := ?m\<rparr>"
    using ne by (simp add: mlist_insert_tail_def Let_def pmem_write_def)
  moreover have "?m a = pmem p a" if "\<not> in_frame f a \<and> a \<noteq> h \<and> a \<noteq> h + 4" for a using that l pr by auto
  ultimately show ?thesis by (intro exI [of _ ?m]) simp
qed

definition slots_added :: "u32 \<Rightarrow> nat \<Rightarrow> nat \<Rightarrow> caches \<Rightarrow> caches \<Rightarrow> bool" where
  "slots_added cb idx f s s' \<longleftrightarrow> (\<exists>m. s' = s\<lparr>cpages := (cpages s)\<lparr>pmem := m\<rparr>\<rparr> \<and>
     (\<forall>a. \<not> in_frame f a \<and> a \<noteq> slot_head cb idx \<and> a \<noteq> slot_head cb idx + 4 \<longrightarrow> m a = cmem s a))"

definition slots_ready :: "u32 \<Rightarrow> nat \<Rightarrow> nat \<Rightarrow> nat \<Rightarrow> caches \<Rightarrow> bool" where
  "slots_ready cb idx f d s \<longleftrightarrow> f + 1 < 2 ^ 19 \<and> 4 \<le> d \<and> d \<le> 4096 \<and> idx < CACHE_MAX_NUM \<and> cache_shape (cache_array s) \<and>
     \<not> in_frame f (slot_head cb idx) \<and> (cmem s (slot_head cb idx) = slot_head cb idx \<or> in_frame f (cmem s (slot_head cb idx) + 4))"

lemma slots_loop_result:
  "slots_loop n cb idx (kaddr f) (kaddr f + of_nat d) k s = Inr r \<Longrightarrow> slots_ready cb idx f d s \<Longrightarrow> slots_added cb idx f s (snd r)"
proof (induction n arbitrary: d k s)
  case (Suc n)
  note R = Suc.prems(2) [unfolded slots_ready_def] and run = Suc.prems(1) [unfolded slots_loop.simps]
  let ?desc = "kaddr f + of_nat d" and ?h = "slot_head cb idx"
  define bs where "bs = mc_bitmap_size (cache_array s ! idx)"
  have shape: "length (cache_array s) = CACHE_MAX_NUM" "unat bs = 8192 div 2 ^ idx" using R by (auto simp: cache_shape_def bs_def)
  then have bs: "unat bs \<le> 8192" and c: "cache_elem idx s = Inr (cache_array s ! idx)" using R by (simp_all add: cache_elem_def)
  show ?case
  proof (cases "?desc + (sizeof_cache_desc + bs) <=s kaddr f + PAGE_SIZE")
    case False
    then have "r = (k, s)" using run c by (auto simp: bs_def)
    then show ?thesis by (auto simp: slots_added_def cmem_def intro!: exI [of _ "cmem s"])
  next
    case True
    have fit: "d + 12 + unat bs \<le> 4096" using slot_fits [of f bs d] True R bs by auto
    have w: "in_frame f (?desc + 4)" "in_frame f (?desc + 4 + 4)"
      using page_words [of f "d + 4"] page_words [of f "d + 8"] R fit by (simp_all add: add.assoc)
    obtain m where m: "mlist_insert_tail ?h (?desc + 4) (cpages s) = (cpages s)\<lparr>pmem := m\<rparr>" "m ?h = ?desc + 4"
        "\<forall>x. \<not> in_frame f x \<and> x \<noteq> ?h \<and> x \<noteq> ?h + 4 \<longrightarrow> m x = cmem s x"
      using insert_slot [OF w, of ?h "cpages s"] R unfolding cmem_def by auto
    define s1 where "s1 = upd_pages (mlist_insert_tail ?h (?desc + 4)) s"
    have s1: "s1 = s\<lparr>cpages := (cpages s)\<lparr>pmem := m\<rparr>\<rparr>" by (simp add: s1_def upd_pages_def m(1))
    have "slots_ready cb idx f (d + unat bs) s1" using R fit w(2) unfolding slots_ready_def s1 by (simp add: cmem_def m(2))
    moreover have d: "?desc + bs = kaddr f + of_nat (d + unat bs)" by simp
    moreover have "slots_loop n cb idx (kaddr f) (?desc + bs) (k + 1) s1 = Inr r" using run True c by (simp add: bs_def s1_def)
    ultimately have "slots_added cb idx f s1 (snd r)" using Suc.IH unfolding d by blast
    then show ?thesis using m(3) unfolding slots_added_def s1 by (auto simp: cmem_def)
  qed
qed simp

text \<open>The first two caches get no slot: a descriptor with its bitmap is larger than a page.\<close>

lemma slots_loop_none:
  assumes "f + 1 < 2 ^ 19" and "cache_shape (cache_array s)" and "idx < 2" and "slots_loop t cb idx (kaddr f) (kaddr f + 4) k s = Inr r"
  shows "r = (k, s)"
proof -
  have "idx = 0 \<or> idx = 1" using assms(3) by linarith
  then have b: "idx < length (cache_array s)" "unat (mc_bitmap_size (cache_array s ! idx)) \<in> {4096, 8192}"
    using assms(2) by (auto simp: cache_shape_def CACHE_MAX_NUM_def)
  then have "\<not> kaddr f + of_nat 4 + (sizeof_cache_desc + mc_bitmap_size (cache_array s ! idx)) <=s kaddr f + PAGE_SIZE"
    using slot_fits [OF assms(1), of "mc_bitmap_size (cache_array s ! idx)" 4] by auto
  then show ?thesis using b(1) assms(4) by (cases t) (simp_all add: cache_elem_def)
qed


section \<open>List heads\<close>

lemma mlist_empty_iff: "mlist_empty l m \<longleftrightarrow> m (l + 4) = l \<and> m l = l"
  by (auto simp: mlist_empty_def)

lemma mlist_empty_cong: "m' l = m l \<Longrightarrow> m' (l + 4) = m (l + 4) \<Longrightarrow> mlist_empty l m' \<longleftrightarrow> mlist_empty l m"
  by (simp add: mlist_empty_def)

section \<open>The idle cache\<close>

text \<open>What the machine provides, and the array of the caches apart from the free frames and the page tables.\<close>

definition array_apart :: "kernel_layout \<Rightarrow> u32 \<Rightarrow> u32 \<Rightarrow> nat set \<Rightarrow> bool" where
  "array_apart lay dir cb F \<longleftrightarrow> unat cb + 320 \<le> 2 ^ 32 \<and>
     (\<forall>a. unat cb \<le> unat a \<and> unat a < unat cb + 320 \<longrightarrow>
        (\<forall>i \<in> F. \<not> in_frame i a) \<and> (\<forall>n < 2 ^ 19. a \<noteq> pte_at lay n) \<and> (\<forall>i < 512. a \<noteq> pgd_at dir i))"

definition cache_env :: "kernel_layout \<Rightarrow> u32 \<Rightarrow> u32 \<Rightarrow> u32 \<Rightarrow> nat set \<Rightarrow> caches \<Rightarrow> bool" where
  "cache_env lay dir cpu cb F s \<longleftrightarrow> layout_ok lay dir \<and> dir = pgdir_for lay cpu 0 \<and> unat cpu < 32 \<and> locks_free (cpages s) \<and>
     pg_inv lay dir (cmem s) \<and> mm_free (cframes s) F \<and> (\<forall>i \<in> F. safe_table lay dir i) \<and> array_apart lay dir cb F"

text \<open>The lists of the first cache are empty.\<close>

definition cache_idle :: "kernel_layout \<Rightarrow> u32 \<Rightarrow> u32 \<Rightarrow> u32 \<Rightarrow> caches \<Rightarrow> bool" where
  "cache_idle lay dir cpu cb s \<longleftrightarrow> (\<exists>F. cache_env lay dir cpu cb F s) \<and> cache_shape (cache_array s) \<and>
     mlist_empty (area_head cb 0) (cmem s) \<and> mlist_empty (slot_head cb 0) (cmem s)"

lemma idle_same: "cache_idle lay dir cpu cb s \<Longrightarrow> same_shape s s' \<Longrightarrow> cache_idle lay dir cpu cb s'"
  unfolding cache_idle_def cache_env_def same_shape_def cmem_def by metis

text \<open>The words of the array.\<close>

lemma head_words:
  assumes "unat cb + 320 \<le> 2 ^ 32" and "i < 10"
  shows "unat (area_head cb i) = unat cb + 32 * i + 16" "unat (area_head cb i + 4) = unat cb + 32 * i + 20"
    "unat (slot_head cb i) = unat cb + 32 * i + 24" "unat (slot_head cb i + 4) = unat cb + 32 * i + 28"
proof -
  have w: "unat (cb + of_nat k) = unat cb + k" if "k < 320" for k using assms(1) that by (intro unat_add_of_nat) simp
  have c: "cache_at cb i = cb + of_nat (32 * i)" by (simp add: cache_at_def)
  show "unat (area_head cb i) = unat cb + 32 * i + 16" "unat (area_head cb i + 4) = unat cb + 32 * i + 20"
    "unat (slot_head cb i) = unat cb + 32 * i + 24" "unat (slot_head cb i + 4) = unat cb + 32 * i + 28"
    using w [of "32 * i + 16"] w [of "32 * i + 20"] w [of "32 * i + 24"] w [of "32 * i + 28"] assms(2)
    by (simp_all add: area_head_def slot_head_def c add.assoc)
qed

lemma array_words:
  assumes "array_apart lay dir cb F" and "i < 10"
    and "a = area_head cb i \<or> a = area_head cb i + 4 \<or> a = slot_head cb i \<or> a = slot_head cb i + 4"
  shows "f \<in> F \<Longrightarrow> \<not> in_frame f a" "n < 2 ^ 19 \<Longrightarrow> a \<noteq> pte_at lay n" "j < 512 \<Longrightarrow> a \<noteq> pgd_at dir j"
proof -
  have "unat cb \<le> unat a \<and> unat a < unat cb + 320" using assms head_words [of cb i] by (auto simp: array_apart_def)
  then show "f \<in> F \<Longrightarrow> \<not> in_frame f a" "n < 2 ^ 19 \<Longrightarrow> a \<noteq> pte_at lay n" "j < 512 \<Longrightarrow> a \<noteq> pgd_at dir j"
    using assms(1) unfolding array_apart_def by blast+
qed

text \<open>A memory that differs from an idle one in a frame that was free, and in the slot list of another cache.\<close>

lemma idle_memory:
  assumes env: "cache_env lay dir cpu cb (F - {f}) s" and ap: "array_apart lay dir cb F" and safe: "safe_table lay dir f"
    and shape: "cache_shape (cache_array s')"
    and empty: "mlist_empty (area_head cb 0) (cmem s)" "mlist_empty (slot_head cb 0) (cmem s)"
    and idx: "idx < 10" and m: "\<And>a. \<not> in_frame f a \<Longrightarrow> idx = 0 \<or> a \<noteq> slot_head cb idx \<and> a \<noteq> slot_head cb idx + 4 \<Longrightarrow> cmem s' a = cmem s a"
    and f: "f \<in> F" and fr: "mm_free (cframes s') (F - {f})" and lk: "locks_free (cpages s')"
  shows "cache_idle lay dir cpu cb s'"
proof -
  note E = env [unfolded cache_env_def]
  have ok: "layout_ok lay dir" using E by auto
  have b: "unat cb + 320 \<le> 2 ^ 32" using ap by (simp add: array_apart_def)
  note h = head_words [OF b]
  have z: "cmem s' a = cmem s a" if "a = area_head cb 0 \<or> a = area_head cb 0 + 4 \<or> a = slot_head cb 0 \<or> a = slot_head cb 0 + 4" for a
  proof (rule m)
    show "\<not> in_frame f a" by (rule array_words(1) [OF ap _ that f]) simp
    have "idx \<noteq> 0 \<Longrightarrow> unat a \<noteq> unat (slot_head cb idx) \<and> unat a \<noteq> unat (slot_head cb idx + 4)"
      using that h [of 0] h [OF idx] by auto
    then show "idx = 0 \<or> a \<noteq> slot_head cb idx \<and> a \<noteq> slot_head cb idx + 4" by auto
  qed
  have "cmem s' (pte_at lay n) = cmem s (pte_at lay n)" if "n < 2 ^ 19" for n
    using m frame_apart(3) [OF ok safe that] array_words(2) [OF ap idx _ that, of "slot_head cb idx"] array_words(2) [OF ap idx _ that, of "slot_head cb idx + 4"]
    by metis
  moreover have "cmem s' (pgd_at dir i) = cmem s (pgd_at dir i)" if "i < 512" for i
    using m frame_apart(2) [OF ok safe that] array_words(3) [OF ap idx _ that, of "slot_head cb idx"] array_words(3) [OF ap idx _ that, of "slot_head cb idx + 4"]
    by metis
  ultimately have "pg_inv lay dir (cmem s')" using E pg_inv_cong by blast
  then have "cache_env lay dir cpu cb (F - {f}) s'" using E fr lk unfolding cache_env_def array_apart_def by blast
  then show ?thesis using shape empty z unfolding cache_idle_def mlist_empty_def by metis
qed


lemma kpage_upd_free:
  assumes "mm_free s F" and "kpage_upd i g s = Some s'"
    and "\<And>k. klock (g k) = klock k \<and> korder (g k) = korder k \<and> kflags (g k) AND KPAGE_FLAGS_FREE_BUDDY = kflags k AND KPAGE_FLAGS_FREE_BUDDY"
  shows "mm_free s' F"
proof -
  obtain d L where L: "mm_inv d s L" "coalesced L" "free_set L = F" using assms(1) by (auto simp: mm_free_def)
  note c = mm_coreD [OF mm_invD(1) [OF L(1)]]
  have s': "s' = s\<lparr>kpages := (kpages s)[i := g (kpages s ! i)]\<rparr>" "i < length (kpages s)"
    using assms(2) by (auto simp: kpage_upd_def aget_def aput_def bind_eq_Some_conv split: if_splits)
  have k: "klock (kpages s' ! j) = klock (kpages s ! j) \<and> korder (kpages s' ! j) = korder (kpages s ! j) \<and>
      kflags (kpages s' ! j) AND KPAGE_FLAGS_FREE_BUDDY = kflags (kpages s ! j) AND KPAGE_FLAGS_FREE_BUDDY" for j
    using assms(3) s'(2) by (cases "j = i") (simp_all add: s'(1))
  have "mm_core d s' L"
  proof (rule mm_coreI)
    show "kpage_last s' < length (kpages s')" using c(3) by (simp add: s'(1))
    show "klock (kpages s' ! j) = 0" if "j < length (kpages s')" for j using k [of j] c(4) that by (simp add: s'(1))
    show "kflags (kpages s' ! j) AND KPAGE_FLAGS_FREE_BUDDY \<noteq> 0 \<longleftrightarrow> (\<exists>k. j \<in> set (L k))" if "j < length (kpages s')" for j
      using k [of j] c(6) [of j] that by (simp add: s'(1))
    show "unat (korder (kpages s' ! j)) = m" if "j \<in> set (L m)" for m j using k [of j] c(7) that by simp
  qed (use c in \<open>simp_all add: s'(1)\<close>)
  then have "mm_inv d s' L" using mm_invD(2) [OF L(1)] by (simp add: mm_inv_def s'(1))
  then show ?thesis using L(2,3) unfolding mm_free_def by blast
qed

lemma cache_flag_free:
  assumes "mm_free (cframes s) F" and "upd_kpage i (set_flag KPAGE_FLAGS_CACHE_METADATA) g s = Inr s'"
  shows "mm_free (cframes s') F" "cpages s' = cpages s" "cache_array s' = cache_array s"
proof -
  obtain fr where fr: "kpage_upd i (set_flag KPAGE_FLAGS_CACHE_METADATA) (cframes s) = Some fr" "s' = s\<lparr>cframes := fr, kdesc := (kdesc s)(i := g (kdesc s i))\<rparr>"
    using assms(2) by (auto simp: upd_kpage_def chain_eq_Inr)
  have "(x OR KPAGE_FLAGS_CACHE_METADATA) AND KPAGE_FLAGS_FREE_BUDDY = x AND KPAGE_FLAGS_FREE_BUDDY" for x
  proof -
    have "KPAGE_FLAGS_CACHE_METADATA AND KPAGE_FLAGS_FREE_BUDDY = 0" by (simp add: KPAGE_FLAGS_CACHE_METADATA_def KPAGE_FLAGS_FREE_BUDDY_def)
    then show ?thesis by (simp only: bit.conj_disj_distrib2 or.right_neutral)
  qed
  then have "mm_free fr F" by (intro kpage_upd_free [OF assms(1) fr(1)]) (simp add: set_flag_def)
  then show "mm_free (cframes s') F" "cpages s' = cpages s" "cache_array s' = cache_array s" by (simp_all add: fr(2))
qed

text \<open>The page for new slots: mapped and cleared, and nothing of the array touched.\<close>

lemma slot_page:
  assumes env: "cache_env lay dir cpu cb F s" and k: "kmap_page lay cpu 0 s = Inr (page, s')" and page: "page \<noteq> 0"
    and empty: "mlist_empty (area_head cb 0) (cmem s)" "mlist_empty (slot_head cb 0) (cmem s)"
  shows "\<exists>f. page = kaddr f \<and> f \<in> F \<and> cache_env lay dir cpu cb (F - {f}) s' \<and> cache_array s' = cache_array s \<and>
    (\<forall>i < 10. \<forall>a. a = area_head cb i \<or> a = area_head cb i + 4 \<or> a = slot_head cb i \<or> a = slot_head cb i + 4 \<longrightarrow> cmem s' a = cmem s a)"
proof -
  note E = env [unfolded cache_env_def]
  have ap: "array_apart lay dir cb F" using E by blast
  obtain f where f: "page = kaddr f" "free_run 0 F f" "mm_free (cframes s') (F - block 0 f)" "locks_free (cpages s')"
      "kernel_block lay dir 0 f (pmem (cpages s)) (pmem (cpages s'))" "cache_array s' = cache_array s"
    using kmap_linear_cases [of lay dir cpu "cpages s" "cframes s" F 0] E k page
    by (auto simp: kmap_page_def cmem_def chain_eq_Inr)
  have b: "block 0 f = {f}" by (auto simp: block_def)
  have F: "f \<in> F" using f(2) by (simp add: free_run_def b)
  then have fl: "f < 2 ^ 19" "f div 1024 < 512" using E safe_less(1) by (auto simp: less_mult_imp_div_less)
  have inv: "pg_inv lay dir (cmem s')" using f(5) by (simp add: kernel_block_def cmem_def)
  have same: "cmem s' a = cmem s a" if "i < 10" "a = area_head cb i \<or> a = area_head cb i + 4 \<or> a = slot_head cb i \<or> a = slot_head cb i + 4" for i a
    using f(5) array_words(1) [OF ap that F] array_words(2) [OF ap that fl(1)] array_words(3) [OF ap that fl(2)]
    by (simp add: kernel_block_def b cmem_def)
  have "cache_env lay dir cpu cb (F - {f}) s'"
    using E f(3,4) inv unfolding cache_env_def b array_apart_def by blast
  then show ?thesis using f(1,6) F same by blast
qed


lemma slot_no_page:
  assumes env: "cache_env lay dir cpu cb F s" and k: "kmap_page lay cpu 0 s = Inr (0, s')"
  shows "mm_free (cframes s') F \<and> cpages s' = cpages s \<and> cache_array s' = cache_array s"
proof -
  note E = env [unfolded cache_env_def]
  have "kaddr f \<noteq> 0" if "free_run 0 F f" for f
  proof -
    have "f < 2 ^ 19" using that E safe_less(1) by (auto simp: free_run_def block_def)
    then have "unat (kaddr f) \<noteq> 0" by (simp add: unat_kaddr)
    then show ?thesis by auto
  qed
  then show ?thesis
    using kmap_linear_cases [of lay dir cpu "cpages s" "cframes s" F 0] E k by (auto simp: kmap_page_def cmem_def chain_eq_Inr)
qed

lemma kmap_quiet:
  assumes "cache_env lay dir cpu cb F s"
  shows "quiet (kmap_page lay cpu 0 s)"
  using kmap_linear_cases [of lay dir cpu "cpages s" "cframes s" F 0] assms [unfolded cache_env_def]
  by (auto simp: kmap_page_def cmem_def)

lemma add_slot_idle:
  assumes idle: "cache_idle lay dir cpu cb s" and run: "mem_cache_add_slot turns lay cpu cb idx s = Inr (err, s')"
  shows "cache_idle lay dir cpu cb s'" "err = 0 \<or> err = ERR_NOMEM"
proof -
  obtain b s1 where s1: "begin_adding turns cb idx s = Inr (b, s1)"
    using run by (auto simp: mem_cache_add_slot_def chain_eq_Inr)
  note bg = begin_adding_result [OF s1, unfolded begun_def, simplified]
  have idle1: "cache_idle lay dir cpu cb s1" using idle_same [OF idle] bg by blast
  obtain F where env: "cache_env lay dir cpu cb F s1" using idle1 by (auto simp: cache_idle_def)
  have empty: "mlist_empty (area_head cb 0) (cmem s1)" "mlist_empty (slot_head cb 0) (cmem s1)" and shape: "cache_shape (cache_array s1)"
    using idle1 by (auto simp: cache_idle_def)
  have idx: "idx < 10" using bg idle by (simp add: cache_idle_def cache_shape_def CACHE_MAX_NUM_def)
  note run = run [unfolded mem_cache_add_slot_def s1 chain_simps prod.case]
  have "cache_idle lay dir cpu cb s' \<and> (err = 0 \<or> err = ERR_NOMEM)"
  proof (cases b)
    case True
    then show ?thesis using run idle1 by simp
  next
    case False
    obtain page s2 where s2: "kmap_page lay cpu 0 s1 = Inr (page, s2)" using run False by (auto simp: chain_eq_Inr)
    show ?thesis
    proof (cases "page = 0")
      case True
      have "err = ERR_NOMEM" "s' = s2" using run False s2 True by auto
      moreover have "cache_idle lay dir cpu cb s2"
      proof -
        have t: "mm_free (cframes s2) F" "cpages s2 = cpages s1" "cache_array s2 = cache_array s1" using slot_no_page [OF env] s2 True by auto
        then have "cache_env lay dir cpu cb F s2" using env by (auto simp: cache_env_def cmem_def)
        then show ?thesis using idle1 t by (auto simp: cache_idle_def cmem_def)
      qed
      ultimately show ?thesis by simp
    next
      case page: False
      obtain f where f: "page = kaddr f" "f \<in> F" "cache_env lay dir cpu cb (F - {f}) s2" "cache_array s2 = cache_array s1"
        "\<forall>i < 10. \<forall>a. a = area_head cb i \<or> a = area_head cb i + 4 \<or> a = slot_head cb i \<or> a = slot_head cb i + 4 \<longrightarrow> cmem s2 a = cmem s1 a"
        using slot_page [OF env s2 page empty] by blast
      have safe: "safe_table lay dir f" and ap: "array_apart lay dir cb F" using env f(2) by (auto simp: cache_env_def)
      have fl: "f + 1 < 2 ^ 19" by (rule safe_less(2) [OF safe])
      have e2: "mlist_empty (area_head cb 0) (cmem s2)" "mlist_empty (slot_head cb 0) (cmem s2)"
        using empty f(5) [rule_format, of 0] mlist_empty_cong [of "cmem s2" _ "cmem s1"] by simp_all
      define s3 where "s3 = upd_pages (pmem_write page (cache_at cb idx)) s2"
      have s3: "cmem s3 = (cmem s2)(page := cache_at cb idx)" "cache_array s3 = cache_array s1" "cframes s3 = cframes s2"
        "locks_free (cpages s3) = locks_free (cpages s2)" by (simp_all add: s3_def upd_pages_def cmem_def f(4))
      have pf: "in_frame f page" using page_words [OF fl, of 0] by (simp add: f(1))
      obtain n s4 s5 s6 s7 where r: "slots_loop turns cb idx page (page + 4) 0 s3 = Inr (n, s4)"
          "upd_kpage (kpage_lookup lay cpu page s4) (set_flag KPAGE_FLAGS_CACHE_METADATA) (\<lambda>_. n) s4 = Inr s5"
          "lock_cache idx s5 = Inr s6" "upd_cache idx (\<lambda>c. c\<lparr>mc_flags := mc_flags c AND NOT MEM_CACHE_FLAG_ADDING_SLOT\<rparr>) s6 = Inr s7"
          "unlock_cache idx s7 = Inr s'" "err = 0"
        using run False s2 page unfolding s3_def by (auto simp: chain_eq_Inr Let_def)
      have s4: "cframes s4 = cframes s2" "cache_array s4 = cache_array s1" "locks_free (cpages s4) = locks_free (cpages s2)"
        "\<And>a. \<not> in_frame f a \<Longrightarrow> idx = 0 \<or> a \<noteq> slot_head cb idx \<and> a \<noteq> slot_head cb idx + 4 \<Longrightarrow> cmem s4 a = cmem s2 a"
      proof -
        have out: "cmem s3 a = cmem s2 a" if "\<not> in_frame f a" for a using that pf by (auto simp: s3(1))
        have "s4 = s3 \<or> idx \<noteq> 0 \<and> slots_added cb idx f s3 s4"
        proof (cases "idx < 2")
          case True
          then show ?thesis using slots_loop_none [OF fl, of s3 idx turns cb 0] shape r(1) s3(2) by (auto simp: f(1))
        next
          case F: False
          have h: "\<not> in_frame f (slot_head cb idx)" by (rule array_words(1) [OF ap idx _ f(2)]) simp
          have "mlist_empty (slot_head cb idx) (cmem s)" using bg False by simp
          then have "cmem s (slot_head cb idx) = slot_head cb idx" by (simp add: mlist_empty_iff)
          moreover have "cmem s1 = cmem s" using bg by (simp add: same_shape_def cmem_def)
          moreover have "cmem s2 (slot_head cb idx) = cmem s1 (slot_head cb idx)" using f(5) idx by blast
          ultimately have "cmem s3 (slot_head cb idx) = slot_head cb idx" using out [OF h] by simp
          then have "slots_ready cb idx f 4 s3" using fl idx shape h by (simp add: slots_ready_def s3(2) CACHE_MAX_NUM_def)
          then show ?thesis using slots_loop_result [of turns cb idx f 4 0 s3] r(1) F by (auto simp: f(1))
        qed
        moreover have "locks_free (p\<lparr>pmem := m\<rparr>) = locks_free p" for p m by (simp add: locks_free_def)
        ultimately show "cframes s4 = cframes s2" "cache_array s4 = cache_array s1" "locks_free (cpages s4) = locks_free (cpages s2)"
          "\<And>a. \<not> in_frame f a \<Longrightarrow> idx = 0 \<or> a \<noteq> slot_head cb idx \<and> a \<noteq> slot_head cb idx + 4 \<Longrightarrow> cmem s4 a = cmem s2 a"
          using out s3(2-4) by (auto simp: slots_added_def cmem_def)
      qed
      have fr: "mm_free (cframes s2) (F - {f})" "locks_free (cpages s2)" using f(3) by (simp_all add: cache_env_def)
      have s5: "mm_free (cframes s5) (F - {f})" "cpages s5 = cpages s4" "cache_array s5 = cache_array s4"
        using cache_flag_free [OF _ r(2)] fr(1) s4(1) by auto
      have "cache_idle lay dir cpu cb s5"
        by (rule idle_memory [OF f(3) ap safe _ e2 idx _ f(2)]) (use shape s4 s5 fr in \<open>auto simp: cmem_def\<close>)
      moreover have "same_shape s5 s'"
        using same_shape_trans [OF same_shape_trans [OF lock_same_shape(1) [OF r(3)] upd_same_shape [OF r(4)]] lock_same_shape(2) [OF r(5)]] by simp
      ultimately show ?thesis using idle_same r(6) by blast
    qed
  qed
  then show "cache_idle lay dir cpu cb s'" "err = 0 \<or> err = ERR_NOMEM" by simp_all
qed


lemma add_slot_quiet:
  assumes "cache_idle lay dir cpu cb s"
  shows "quiet (mem_cache_add_slot turns lay cpu cb idx s)"
  unfolding mem_cache_add_slot_def
proof (rule chain_quiet [OF begin_adding_quiet])
  fix r assume r: "begin_adding turns cb idx s = Inr r"
  have "cache_idle lay dir cpu cb (snd r)" using begin_adding_result [OF r] idle_same [OF assms] by (simp add: begun_def)
  then have k: "quiet (kmap_page lay cpu 0 (snd r))" using kmap_quiet by (auto simp: cache_idle_def)
  show "quiet (case r of (present, s) \<Rightarrow> if present then Inr (0, s) else chain (kmap_page lay cpu 0 s) (\<lambda>(page, s).
         if page = 0 then Inr (ERR_NOMEM, s)
         else let s = upd_pages (pmem_write page (cache_at cb idx)) s
           in chain (slots_loop turns cb idx page (page + 4) 0 s) (\<lambda>(slot_count, s).
              chain (upd_kpage (kpage_lookup lay cpu page s) (set_flag KPAGE_FLAGS_CACHE_METADATA) (\<lambda>_. slot_count) s) (\<lambda>s.
              chain (lock_cache idx s) (\<lambda>s. chain (upd_cache idx (\<lambda>c. c\<lparr>mc_flags := mc_flags c AND NOT MEM_CACHE_FLAG_ADDING_SLOT\<rparr>) s) (\<lambda>s.
              chain (unlock_cache idx s) (\<lambda>s. Inr (0, s))))))))"
    using k by (cases r) (auto intro!: chain_quiet slots_loop_quiet simp: Let_def)
qed

section \<open>mem\_cache\_allocate\<close>

text \<open>
  Every turn of the loop ends where it began: the lists of the first cache are empty, and the only other exit, a cache
  of size 0, is outside the array.
\<close>

lemma alloc_retry_never: "cache_idle lay dir cpu cb s \<Longrightarrow> nowhere (alloc_retry g turns n lay cpu cb idx s)"
proof (induction n arbitrary: idx s)
  case 0
  then show ?case by (simp add: nowhere_def)
next
  case (Suc n)
  note lock = idle_same [OF _ lock_same_shape(1)] idle_same [OF _ lock_same_shape(2)]
  show ?case
    unfolding alloc_retry.simps
  proof (rule chain_nowhere)
    fix s1 assume s1: "lock_cache 0 s = Inr s1"
    have i1: "cache_idle lay dir cpu cb s1" by (rule lock(1) [OF Suc.prems s1])
    then have e1: "mlist_empty (area_head cb 0) (cmem s1)" by (simp add: cache_idle_def)
    have "nowhere (chain (unlock_cache 0 s1) (\<lambda>s. chain (mem_cache_add_slot turns lay cpu cb idx s) (\<lambda>(err, s).
              if err = ERR_NOMEM
              then chain (cache_elem (idx + 1) s) (\<lambda>c.
                     if mc_size c = 0 then Inr (0, s) else alloc_retry g turns n lay cpu cb (idx + 1) s)
              else if err = ERR_RETRY then alloc_retry g turns n lay cpu cb idx s
              else chain (lock_cache 0 s) (\<lambda>s.
                     if mlist_empty (area_head cb 0) (cmem s) \<and> mlist_empty (slot_head cb 0) (cmem s)
                     then chain (unlock_cache 0 s) (alloc_retry g turns n lay cpu cb idx)
                     else take_object g lay cpu cb s))))"
    proof (rule chain_nowhere)
      fix s2 assume "unlock_cache 0 s1 = Inr s2"
      then have i2: "cache_idle lay dir cpu cb s2" by (rule lock(2) [OF i1])
      show "nowhere (chain (mem_cache_add_slot turns lay cpu cb idx s2) (\<lambda>(err, s).
              if err = ERR_NOMEM
              then chain (cache_elem (idx + 1) s) (\<lambda>c.
                     if mc_size c = 0 then Inr (0, s) else alloc_retry g turns n lay cpu cb (idx + 1) s)
              else if err = ERR_RETRY then alloc_retry g turns n lay cpu cb idx s
              else chain (lock_cache 0 s) (\<lambda>s.
                     if mlist_empty (area_head cb 0) (cmem s) \<and> mlist_empty (slot_head cb 0) (cmem s)
                     then chain (unlock_cache 0 s) (alloc_retry g turns n lay cpu cb idx)
                     else take_object g lay cpu cb s)))"
      proof (rule chain_nowhere [OF add_slot_quiet [OF i2]], clarify)
        fix err s3 assume "mem_cache_add_slot turns lay cpu cb idx s2 = Inr (err, s3)"
        note s3 = add_slot_idle [OF i2 this]
        have next_cache: "nowhere (chain (cache_elem (idx + 1) s3) (\<lambda>c. if mc_size c = 0 then Inr (0, s3) else alloc_retry g turns n lay cpu cb (idx + 1) s3))"
        proof (rule chain_nowhere)
          fix c assume c: "cache_elem (idx + 1) s3 = Inr c"
          have "unat (mc_size c) = 4 * 2 ^ (idx + 1)"
            using c s3(1) by (auto simp: cache_elem_def cache_idle_def cache_shape_def aget_eq_Some)
          then have "mc_size c \<noteq> 0" by auto
          then show "nowhere (if mc_size c = 0 then Inr (0, s3) else alloc_retry g turns n lay cpu cb (idx + 1) s3)"
            using Suc.IH s3(1) by simp
        qed simp
        have again: "nowhere (chain (lock_cache 0 s3) (\<lambda>s.
                     if mlist_empty (area_head cb 0) (cmem s) \<and> mlist_empty (slot_head cb 0) (cmem s)
                     then chain (unlock_cache 0 s) (alloc_retry g turns n lay cpu cb idx)
                     else take_object g lay cpu cb s))"
        proof (rule chain_nowhere)
          fix s4 assume "lock_cache 0 s3 = Inr s4"
          then have i4: "cache_idle lay dir cpu cb s4" by (rule lock(1) [OF s3(1)])
          have "nowhere (chain (unlock_cache 0 s4) (alloc_retry g turns n lay cpu cb idx))"
            by (rule chain_nowhere) (auto intro: Suc.IH lock(2) [OF i4])
          then show "nowhere (if mlist_empty (area_head cb 0) (cmem s4) \<and> mlist_empty (slot_head cb 0) (cmem s4)
                     then chain (unlock_cache 0 s4) (alloc_retry g turns n lay cpu cb idx)
                     else take_object g lay cpu cb s4)" using i4 by (simp add: cache_idle_def)
        qed simp
        show "nowhere (if err = ERR_NOMEM
              then chain (cache_elem (idx + 1) s3) (\<lambda>c. if mc_size c = 0 then Inr (0, s3) else alloc_retry g turns n lay cpu cb (idx + 1) s3)
              else if err = ERR_RETRY then alloc_retry g turns n lay cpu cb idx s3
              else chain (lock_cache 0 s3) (\<lambda>s.
                     if mlist_empty (area_head cb 0) (cmem s) \<and> mlist_empty (slot_head cb 0) (cmem s)
                     then chain (unlock_cache 0 s) (alloc_retry g turns n lay cpu cb idx)
                     else take_object g lay cpu cb s))"
          using next_cache again Suc.IH [OF s3(1)] by simp
      qed
    qed simp
    then show "nowhere (if \<not> mlist_empty (area_head cb 0) (cmem s1) then take_object g lay cpu cb s1
       else chain (unlock_cache 0 s1) (\<lambda>s. chain (mem_cache_add_slot turns lay cpu cb idx s) (\<lambda>(err, s).
              if err = ERR_NOMEM
              then chain (cache_elem (idx + 1) s) (\<lambda>c.
                     if mc_size c = 0 then Inr (0, s) else alloc_retry g turns n lay cpu cb (idx + 1) s)
              else if err = ERR_RETRY then alloc_retry g turns n lay cpu cb idx s
              else chain (lock_cache 0 s) (\<lambda>s.
                     if mlist_empty (area_head cb 0) (cmem s) \<and> mlist_empty (slot_head cb 0) (cmem s)
                     then chain (unlock_cache 0 s) (alloc_retry g turns n lay cpu cb idx)
                     else take_object g lay cpu cb s))))" using e1 by simp
  qed simp
qed

lemma order_loop_never: "16777216 < sz \<Longrightarrow> order_loop n sz k = Inl Waits"
proof (induction n arbitrary: k)
  case (Suc n)
  have "4097 * 4096 \<le> sz + 4096 - 1" using Suc.prems by simp
  then have "4097 \<le> (sz + 4096 - 1) div 4096" using zdiv_mono1 [of "4097 * 4096" "sz + 4096 - 1" 4096] by simp
  then show ?case using Suc by simp
qed simp

section \<open>mem\_cache\_init\<close>

text \<open>The caches below \<open>j\<close> are initialised.\<close>

definition caches_upto :: "u32 \<Rightarrow> nat \<Rightarrow> caches \<Rightarrow> caches \<Rightarrow> bool" where
  "caches_upto cb j s s' \<longleftrightarrow> cframes s' = cframes s \<and> length (cache_array s') = length (cache_array s) \<and>
     (\<forall>i < j. unat (mc_size (cache_array s' ! i)) = 4 * 2 ^ i \<and> unat (mc_bitmap_size (cache_array s' ! i)) = 8192 div 2 ^ i) \<and>
     (\<exists>m. cpages s' = (cpages s)\<lparr>pmem := m\<rparr> \<and>
        (0 < j \<longrightarrow> mlist_empty (area_head cb 0) m \<and> mlist_empty (slot_head cb 0) m) \<and>
        (\<forall>a. (\<forall>i < j. a \<noteq> area_head cb i \<and> a \<noteq> area_head cb i + 4 \<and> a \<noteq> slot_head cb i \<and> a \<noteq> slot_head cb i + 4) \<longrightarrow> m a = cmem s a))"


lemma cache_sizes:
  assumes "j < 10"
  defines "w \<equiv> of_nat (4 * 2 ^ j) :: u32"
  shows "unat w = 4 * 2 ^ j" "sint w < 4096" "unat (if PAGE_SIZE div w * 8 < 4 then 4 else PAGE_SIZE div w * 8) = 8192 div 2 ^ j"
    "push_bit 1 w = of_nat (4 * 2 ^ Suc j)"
proof -
  have "j = 0 \<or> j = 1 \<or> j = 2 \<or> j = 3 \<or> j = 4 \<or> j = 5 \<or> j = 6 \<or> j = 7 \<or> j = 8 \<or> j = 9" using assms(1) by presburger
  then show "unat w = 4 * 2 ^ j" "sint w < 4096" "unat (if PAGE_SIZE div w * 8 < 4 then 4 else PAGE_SIZE div w * 8) = 8192 div 2 ^ j"
    "push_bit 1 w = of_nat (4 * 2 ^ Suc j)"
    unfolding w_def by (elim disjE; simp add: PAGE_SIZE_def)+
qed

lemma init_one:
  assumes b: "unat cb + 320 \<le> 2 ^ 32" and j: "j < 10" and len: "length (cache_array s0) = 10" and upto: "caches_upto cb j s0 s"
  shows "\<exists>s1 s2. upd_cache j (\<lambda>c. c\<lparr>mc_size := of_nat (4 * 2 ^ j)\<rparr>) s = Inr s1 \<and>
    mem_cache_init_internal cb j (of_nat (4 * 2 ^ j)) s1 = Inr s2 \<and> caches_upto cb (Suc j) s0 s2"
proof -
  let ?w = "of_nat (4 * 2 ^ j) :: u32"
  define bs where "bs = (if PAGE_SIZE div ?w * 8 < 4 then 4 else PAGE_SIZE div ?w * 8)"
  have l: "length (cache_array s) = 10" using len upto by (simp add: caches_upto_def)
  obtain m where m: "cpages s = (cpages s0)\<lparr>pmem := m\<rparr>" "0 < j \<longrightarrow> mlist_empty (area_head cb 0) m \<and> mlist_empty (slot_head cb 0) m"
      "\<forall>a. (\<forall>i < j. a \<noteq> area_head cb i \<and> a \<noteq> area_head cb i + 4 \<and> a \<noteq> slot_head cb i \<and> a \<noteq> slot_head cb i + 4) \<longrightarrow> m a = cmem s0 a"
    using upto by (auto simp: caches_upto_def)
  define c where "c = (cache_array s ! j)\<lparr>mc_size := ?w, mc_lock := 0, mc_bitmap_size := bs\<rparr>"
  let ?a = "area_head cb j" and ?h = "slot_head cb j"
  define m' where "m' = m(?a + 4 := ?a, ?a := ?a, ?h + 4 := ?h, ?h := ?h)"
  define s2 where "s2 = s\<lparr>cache_array := (cache_array s)[j := c], cpages := (cpages s0)\<lparr>pmem := m'\<rparr>\<rparr>"
  have run: "mem_cache_init_internal cb j ?w (s\<lparr>cache_array := (cache_array s)[j := (cache_array s ! j)\<lparr>mc_size := ?w\<rparr>]\<rparr>) = Inr s2"
    using l j by (simp add: mem_cache_init_internal_def upd_cache_def cache_elem_def aput_def upd_pages_def mlist_init_def pmem_write_def m(1) s2_def
        c_def m'_def bs_def Let_def)
  note u = head_words [OF b j] head_words [OF b, of 0]
  have "mlist_empty (area_head cb 0) m' \<and> mlist_empty (slot_head cb 0) m'"
  proof (cases "j = 0")
    case True
    then have "?a \<noteq> ?h" "?a \<noteq> ?h + 4" "?a + 4 \<noteq> ?h" "?a + 4 \<noteq> ?h + 4" using u by (auto simp: word_unat_eq_iff)
    then show ?thesis using True by (simp add: mlist_empty_def m'_def)
  next
    case False
    have "m' a = m a" if "a = area_head cb 0 \<or> a = area_head cb 0 + 4 \<or> a = slot_head cb 0 \<or> a = slot_head cb 0 + 4" for a
    proof -
      have "unat a \<noteq> unat ?a \<and> unat a \<noteq> unat (?a + 4) \<and> unat a \<noteq> unat ?h \<and> unat a \<noteq> unat (?h + 4)" using that u False by auto
      then show ?thesis unfolding m'_def by (metis fun_upd_apply)
    qed
    then show ?thesis using m(2) False mlist_empty_cong [of m' _ m] by simp
  qed
  moreover have "m' a = cmem s0 a"
    if "\<forall>i < Suc j. a \<noteq> area_head cb i \<and> a \<noteq> area_head cb i + 4 \<and> a \<noteq> slot_head cb i \<and> a \<noteq> slot_head cb i + 4" for a
    using that m(3) by (simp add: m'_def)
  moreover have "unat (mc_size (cache_array s2 ! i)) = 4 * 2 ^ i \<and> unat (mc_bitmap_size (cache_array s2 ! i)) = 8192 div 2 ^ i" if "i < Suc j" for i
    using that upto l j cache_sizes(1,3) [OF j] by (cases "i = j") (simp_all add: s2_def c_def bs_def caches_upto_def)
  ultimately have "caches_upto cb (Suc j) s0 s2" using upto unfolding caches_upto_def s2_def by auto
  then show ?thesis using run l j by (auto simp: upd_cache_def cache_elem_def aput_def)
qed

lemma init_caches_run:
  assumes b: "unat cb + 320 \<le> 2 ^ 32" and len: "length (cache_array s0) = 10"
  shows "j \<le> 10 \<Longrightarrow> caches_upto cb j s0 s \<Longrightarrow> \<exists>s'. init_caches cb j (of_nat (4 * 2 ^ j)) s = Inr s' \<and> caches_upto cb 10 s0 s'"
proof (induction "10 - j" arbitrary: j s)
  case 0
  then show ?case by (subst init_caches.simps) (simp add: CACHE_MAX_NUM_def)
next
  case (Suc d)
  then have j: "j < 10" by simp
  obtain s1 s2 where s2: "upd_cache j (\<lambda>c. c\<lparr>mc_size := of_nat (4 * 2 ^ j)\<rparr>) s = Inr s1"
      "mem_cache_init_internal cb j (of_nat (4 * 2 ^ j)) s1 = Inr s2" "caches_upto cb (Suc j) s0 s2"
    using init_one [OF b j len Suc.prems(2)] by blast
  have "init_caches cb j (of_nat (4 * 2 ^ j)) s = init_caches cb (Suc j) (of_nat (4 * 2 ^ Suc j)) s2"
    using j cache_sizes(2) [OF j] s2(1,2) unfolding cache_sizes(4) [OF j, symmetric] by (subst init_caches.simps) (simp add: CACHE_MAX_NUM_def del: of_nat_mult)
  then show ?case using Suc.hyps(1) [of "Suc j" s2] Suc.hyps(2) j s2(3) by simp
qed

lemma mem_cache_init_idle:
  assumes env: "cache_env lay dir cpu cb F s" and len: "length (cache_array s) = CACHE_MAX_NUM"
  shows "\<exists>s'. mem_cache_init cb s = Inr (0, s') \<and> cache_idle lay dir cpu cb s'"
proof -
  note E = env [unfolded cache_env_def]
  have ap: "array_apart lay dir cb F" using E by blast
  have "caches_upto cb 0 s s" by (auto simp: caches_upto_def cmem_def intro: exI [of _ "pmem (cpages s)"])
  then obtain s' where s': "init_caches cb 0 (of_nat (4 * 2 ^ 0)) s = Inr s'" "caches_upto cb 10 s s'"
    using init_caches_run [of cb s 0 s] ap len by (auto simp: array_apart_def CACHE_MAX_NUM_def)
  obtain m where m: "cpages s' = (cpages s)\<lparr>pmem := m\<rparr>" "mlist_empty (area_head cb 0) m" "mlist_empty (slot_head cb 0) m"
      "\<forall>a. (\<forall>i < 10. a \<noteq> area_head cb i \<and> a \<noteq> area_head cb i + 4 \<and> a \<noteq> slot_head cb i \<and> a \<noteq> slot_head cb i + 4) \<longrightarrow> m a = cmem s a"
    using s'(2) by (auto simp: caches_upto_def)
  have "pg_inv lay dir m"
  proof (rule pg_inv_cong)
    show "pg_inv lay dir (cmem s)" using E by blast
    show "m (pgd_at dir i) = cmem s (pgd_at dir i)" if "i < 512" for i using m(4) array_words(3) [OF ap _ _ that] by metis
    show "m (pte_at lay n) = cmem s (pte_at lay n)" if "n < 2 ^ 19" for n using m(4) array_words(2) [OF ap _ _ that] by metis
  qed
  then have "cache_env lay dir cpu cb F s'"
    using E m(1) s'(2) by (auto simp: cache_env_def cmem_def locks_free_def caches_upto_def)
  moreover have "cache_shape (cache_array s')" using s'(2) len by (simp add: cache_shape_def caches_upto_def CACHE_MAX_NUM_def)
  ultimately have "cache_idle lay dir cpu cb s'" using m(1-3) by (auto simp: cache_idle_def cmem_def)
  then show ?thesis using s'(1) by (simp add: mem_cache_init_def CACHE_MIN_CHUNK_SIZE_def)
qed


section \<open>No object is allocated\<close>

lemma cache_allocate_nowhere:
  assumes "cache_env lay dir cpu cb F s" and "length (cache_array s) = CACHE_MAX_NUM"
  shows "\<exists>s'. mem_cache_init cb s = Inr (0, s') \<and> (\<forall>garbage turns sz.
     (sint (ALIGN_LONG sz) \<le> 2048 \<longrightarrow> nowhere (mem_cache_allocate garbage turns lay cpu cb sz s')) \<and>
     (16777216 < sint (ALIGN_LONG sz) \<longrightarrow> mem_cache_allocate garbage turns lay cpu cb sz s' = Inl Waits))"
proof -
  obtain s' where s': "mem_cache_init cb s = Inr (0, s')" "cache_idle lay dir cpu cb s'" using mem_cache_init_idle [OF assms] by blast
  then show ?thesis
    using alloc_retry_never [OF s'(2)] order_loop_never by (auto simp: mem_cache_allocate_def large_object_def Let_def)
qed


text \<open>Eight free frames and a cleared array; an object of 24 bytes is asked for.\<close>

lemma lay0_array: "array_apart lay0 (pgdir_for lay0 0 0) 0x80700000 {..<8}"
proof -
  have d: "unat (pgd_at (pgdir_for lay0 0 0) i) < 2 ^ 31 + 0x101000" if "i < 512" for i
    using unat_pgd_at [OF lay0_ok(1) that] that by (simp add: pgdir_for_def lay0_def)
  have t: "unat (pte_at lay0 n) < 2 ^ 31 + 0x400000" if "n < 2 ^ 19" for n
    using unat_pte_at [OF lay0_ok(1) that] that by (simp add: lay0_def)
  show ?thesis unfolding array_apart_def in_frame_range
  proof (intro conjI allI impI ballI)
    fix a :: u32 assume "unat (0x80700000 :: u32) \<le> unat a \<and> unat a < unat (0x80700000 :: u32) + 320"
    then have a: "2 ^ 31 + 0x700000 \<le> unat a" by simp
    show "\<not> (2 ^ 31 + 4096 * i \<le> unat a \<and> unat a < 2 ^ 31 + 4096 * i + 4096)" if "i \<in> {..<8}" for i using a that by simp
    show "a \<noteq> pte_at lay0 n" if "n < 2 ^ 19" for n using t [OF that] a by auto
    show "a \<noteq> pgd_at (pgdir_for lay0 0 0) i" if "i < 512" for i using d [OF that] a by auto
  qed simp
qed


end
