(* ===== verification/Acpi.thy ===== *)
theory Acpi
  imports Interrupts
begin

text \<open>
  The ACPI tables, from \<^verbatim>\<open>acpi.c\<close>: the search for the root pointer, the walk over the tables and over the entries of
  the MADT, and \<^verbatim>\<open>bda_read_table\<close> of \<^verbatim>\<open>system.c\<close>, which finds the EBDA. The firmware's memory is a
  map from virtual addresses to bytes, the bytes that an address reads once it is mapped, and does not change. The
  packed structures are records, the tagged union is a datatype, and one function per structure reads it.
\<close>

section \<open>Structures in memory\<close>

type_synonym memory = "u32 \<Rightarrow> u8"

primrec bytes_at :: "memory \<Rightarrow> nat \<Rightarrow> u32 \<Rightarrow> u8 list" where
  "bytes_at m 0 a = []"
| "bytes_at m (Suc n) a = m a # bytes_at m n (a + 1)"

definition u16_at :: "memory \<Rightarrow> u32 \<Rightarrow> u16" where
  "u16_at m a = of_nat (le_value (bytes_at m 2 a))"

definition u32_at :: "memory \<Rightarrow> u32 \<Rightarrow> u32" where
  "u32_at m a = of_nat (le_value (bytes_at m 4 a))"

record RSD =
  rsd_signature :: "u8 list"
  rsd_checksum :: u8
  rsd_OEMID :: "u8 list"
  rsd_revision :: u8
  rsdt_address :: u32

definition rsd_at :: "memory \<Rightarrow> u32 \<Rightarrow> RSD" where
  "rsd_at m a = \<lparr>rsd_signature = bytes_at m 8 a, rsd_checksum = m (a + 8), rsd_OEMID = bytes_at m 6 (a + 9),
     rsd_revision = m (a + 15), rsdt_address = u32_at m (a + 16)\<rparr>"

record ACPI_TABLE =
  signature :: "u8 list"
  table_length :: u32
  revision :: u8
  checksum :: u8
  OEMID :: "u8 list"
  OEM_table_id :: "u8 list"
  OEM_revision :: u32
  creator_id :: u32
  creator_revision :: u32

definition acpi_table_at :: "memory \<Rightarrow> u32 \<Rightarrow> ACPI_TABLE" where
  "acpi_table_at m a = \<lparr>signature = bytes_at m 4 a, table_length = u32_at m (a + 4), revision = m (a + 8),
     checksum = m (a + 9), OEMID = bytes_at m 6 (a + 10), OEM_table_id = bytes_at m 8 (a + 16),
     OEM_revision = u32_at m (a + 24), creator_id = u32_at m (a + 28), creator_revision = u32_at m (a + 32)\<rparr>"

definition sizeof_ACPI_TABLE :: u32 where "sizeof_ACPI_TABLE = 36"

text \<open>The members of the union in the order of the source; the \<^verbatim>\<open>flags\<close> of an override hold its bit fields.\<close>

datatype apic_info =
    Processor_Lapic u8 u8 u32
  | Ioapic_Info u8 u8 u32 u32
  | Int_Src_Override u8 u8 u32 u16
  | Nmi_Source u16 u32
  | Lapic_Nmi u8 u16 u8
  | No_Info

record APIC_TABLE =
  at_type :: u8
  at_length :: u8
  info :: apic_info

definition apic_table_at :: "memory \<Rightarrow> u32 \<Rightarrow> APIC_TABLE" where
  "apic_table_at m a =
     (let t = m a; b = a + 2
      in \<lparr>at_type = t, at_length = m (a + 1),
          info = (if t = 0 then Processor_Lapic (m b) (m (b + 1)) (u32_at m (b + 2))
                  else if t = 1 then Ioapic_Info (m b) (m (b + 1)) (u32_at m (b + 2)) (u32_at m (b + 6))
                  else if t = 2 then Int_Src_Override (m b) (m (b + 1)) (u32_at m (b + 2)) (u16_at m (b + 6))
                  else if t = 3 then Nmi_Source (u16_at m b) (u32_at m (b + 2))
                  else if t = 4 then Lapic_Nmi (m b) (u16_at m (b + 1)) (m (b + 3))
                  else No_Info)\<rparr>)"

definition RSDPTR_STR :: string where "RSDPTR_STR = ''RSD PTR ''"
definition APIC_STR :: string where "APIC_STR = ''APIC''"
definition FACP_STR :: string where "FACP_STR = ''FACP''"

text \<open>\<^verbatim>\<open>!strncmp(signature, str, strlen(str))\<close>: the signature and the literal as one memory.\<close>

definition has_signature :: "memory \<Rightarrow> u32 \<Rightarrow> string \<Rightarrow> bool" where
  "has_signature m a str = (strncmp (bytes_at m (length str) a @ bytes_of str) 0 (length str) (length str) = Some 0)"

section \<open>State\<close>

record acpi =
  irqs_of :: irqs
  ebda :: u32
  rsdp :: u32
  rsdt :: u32
  acpi_tables :: u32
  num_acpi_tables :: u32
  keyboard_controller_8042_present :: bool

definition upd_irqs :: "(irqs \<Rightarrow> irqs option) \<Rightarrow> acpi \<Rightarrow> acpi option" where
  "upd_irqs f s = do { i \<leftarrow> f (irqs_of s); Some (s\<lparr>irqs_of := i\<rparr>) }"

definition upd_paging :: "(paging \<Rightarrow> paging option) \<Rightarrow> acpi \<Rightarrow> acpi option" where
  "upd_paging f = upd_irqs (\<lambda>i. do { p \<leftarrow> f (paging_of (mach i)); Some (i\<lparr>mach := (mach i)\<lparr>paging_of := p\<rparr>\<rparr>) })"

definition log_acpi :: "string \<Rightarrow> u32 list \<Rightarrow> acpi \<Rightarrow> acpi" where
  "log_acpi fmt args s = s\<lparr>irqs_of := log_irq fmt args (irqs_of s)\<rparr>"

definition bda_read_table :: "memory \<Rightarrow> acpi \<Rightarrow> acpi" where
  "bda_read_table m s =
     (let s = s\<lparr>ebda := push_bit 4 (ucast (u16_at m (0x40e + KERNEL_VIRT_ADDR)))\<rparr>
      in log_acpi ''EBDA: %x '' [ebda s] s)"

section \<open>The root pointer\<close>

function rsdp_loop :: "memory \<Rightarrow> nat \<Rightarrow> u32 \<Rightarrow> u32 \<Rightarrow> (u32 \<times> nat) option" where
  "rsdp_loop m phase cur end =
     (if phase < 2
      then let (phase, cur, end) =
                 (if end \<le> cur
                  then if phase + 1 = 1 then (phase + 1, 0xE0000 + KERNEL_VIRT_ADDR, 0xE0000 + KERNEL_VIRT_ADDR + 0x20000)
                       else (phase + 1, cur, end)
                  else (phase, cur, end))
           in if has_signature m cur RSDPTR_STR then Some (cur, phase) else rsdp_loop m phase (cur + 1) end
      else None)"
  by pat_completeness auto
termination
proof (relation "measures [\<lambda>(m, phase, cur, end). 2 - phase, \<lambda>(m, phase, cur, end). unat end - unat cur]")
  fix m :: memory and phase :: nat and cur "end" :: u32 and x phase' y cur' end'
  assume "phase < 2"
    and x: "x = (if end \<le> cur
                  then if phase + 1 = 1 then (phase + 1, 0xE0000 + KERNEL_VIRT_ADDR, 0xE0000 + KERNEL_VIRT_ADDR + 0x20000)
                       else (phase + 1, cur, end)
                  else (phase, cur, end))"
    "(phase', y) = x" "(cur', end') = y"
  show "((m, phase', cur' + 1, end'), m, phase, cur, end)
      \<in> measures [\<lambda>(m, phase, cur, end). 2 - phase, \<lambda>(m, phase, cur, end). unat end - unat cur]"
  proof (cases "end \<le> cur")
    case True
    then show ?thesis using x \<open>phase < 2\<close> by (auto split: if_splits)
  next
    case False
    then have "unat cur < unat end" by (simp add: word_less_nat_alt not_le)
    moreover have "unat end < 2 ^ 32" using unsigned_less [of "end", where 'a = nat] by simp
    moreover from calculation have "unat (cur + 1) = Suc (unat cur)" using unat_add_of_nat [of cur 1] by simp
    ultimately show ?thesis using x False by simp
  qed
qed simp

declare rsdp_loop.simps [simp del]

definition acpi_find_rsdp :: "memory \<Rightarrow> acpi \<Rightarrow> bool \<times> acpi" where
  "acpi_find_rsdp m s =
     (case rsdp_loop m 0 (ebda s + KERNEL_VIRT_ADDR) (ebda s + 1024) of
        None \<Rightarrow> (False, s)
      | Some (cur, phase) \<Rightarrow>
          (True, log_acpi '', RSDT: %x, phase: %d '' [rsdt_address (rsd_at m cur), of_nat phase] (s\<lparr>rsdp := cur\<rparr>)))"

section \<open>The MADT\<close>

text \<open>\<open>allocate\<close> is \<^const>\<open>ioapic_allocate\<close> on the machine at hand.\<close>

type_synonym allocator = "u8 \<Rightarrow> u32 \<Rightarrow> u32 \<Rightarrow> irqs \<Rightarrow> irqs option"

fun madt_entry :: "allocator \<Rightarrow> apic_info \<Rightarrow> irqs \<Rightarrow> irqs option" where
  "madt_entry allocate (Processor_Lapic _ _ _) s = Some s"
| "madt_entry allocate (Ioapic_Info ix _ address gsib) s =
     allocate ix address gsib (log_irq ''IOAPIC_ID: %d, Addr: %x, GSIBase: %d '' [ucast ix, address, gsib] s)"
| "madt_entry allocate (Int_Src_Override b source gsi flags) s =
     interrupt_set_override b source gsi (ucast (take_bit 2 flags)) (ucast (take_bit 2 (drop_bit 2 flags))) s"
| "madt_entry allocate (Nmi_Source flags gsi) s = Some (log_irq ''Flags: %x GSI: %d '' [ucast flags, gsi] s)"
| "madt_entry allocate (Lapic_Nmi uid flags lint) s =
     Some (log_irq ''UID: %d, lint: %d, flags: %d '' [ucast uid, ucast lint, ucast flags] s)"
| "madt_entry allocate No_Info s = Some s"

partial_function (option) madt_loop :: "memory \<Rightarrow> allocator \<Rightarrow> u32 \<Rightarrow> u32 \<Rightarrow> irqs \<Rightarrow> irqs option" where
  "madt_loop m allocate remaining_bytes apic_table s =
     (let t = apic_table_at m apic_table;
          remaining_bytes = remaining_bytes - ucast (at_length t)
      in do {
        s \<leftarrow> madt_entry allocate (info t) s;
        let apic_table = apic_table + ucast (at_length t);
        if remaining_bytes \<noteq> 0 then madt_loop m allocate remaining_bytes apic_table s else Some s
      })"

definition acpi_process_madt :: "memory \<Rightarrow> allocator \<Rightarrow> u32 \<Rightarrow> irqs \<Rightarrow> irqs option" where
  "acpi_process_madt m allocate madt s =
     madt_loop m allocate (table_length (acpi_table_at m madt) - 44) (madt + 44) s"

section \<open>All tables\<close>

text \<open>The signature that \<^verbatim>\<open>%s\<close> prints is recorded as a word.\<close>

definition acpi_process_table ::
  "kernel_layout \<Rightarrow> u32 \<Rightarrow> memory \<Rightarrow> allocator \<Rightarrow> u32 \<Rightarrow> acpi \<Rightarrow> acpi option"
where
  "acpi_process_table lay cpu m allocate a s =
     (let len = table_length (acpi_table_at m a)
      in do {
        s \<leftarrow> upd_paging (map_kernel_linear_with_pagetable lay cpu a len PTE_PRESENT 0) s;
        let s = log_acpi ''ACPI Table: %p, %s, %d, %d '' [a, u32_at m a, len, sizeof_ACPI_TABLE] s;
        if has_signature m a APIC_STR then upd_irqs (acpi_process_madt m allocate a) s
        else if has_signature m a FACP_STR then
          let iapc_boot_arch = u16_at m (a + 109);
              s = log_acpi ''iapc_boot_arch: %d\<newline>'' [ucast iapc_boot_arch] s
          in if iapc_boot_arch AND 2 \<noteq> 0
             then Some (log_acpi ''8042 controller present\<newline>'' [] (s\<lparr>keyboard_controller_8042_present := True\<rparr>))
             else Some s
        else Some s
      })"

fun process_tables :: "kernel_layout \<Rightarrow> u32 \<Rightarrow> memory \<Rightarrow> allocator \<Rightarrow> nat list \<Rightarrow> acpi \<Rightarrow> acpi option" where
  "process_tables lay cpu m allocate [] s = Some s"
| "process_tables lay cpu m allocate (i # is) s =
     do {
       s \<leftarrow> acpi_process_table lay cpu m allocate (u32_at m (acpi_tables s + of_nat (4 * i)) + KERNEL_VIRT_ADDR) s;
       process_tables lay cpu m allocate is s
     }"

definition map_rsdt :: "kernel_layout \<Rightarrow> u32 \<Rightarrow> u32 \<Rightarrow> u32 \<Rightarrow> u32 \<Rightarrow> acpi \<Rightarrow> acpi option" where
  "map_rsdt lay cpu address a len =
     upd_paging (if KERNEL_VIRT_ADDR \<le> address then map_kernel_with_pagetable lay cpu a a len PTE_PRESENT 0
                 else map_kernel_linear_with_pagetable lay cpu a len PTE_PRESENT 0)"

definition acpi_init :: "kernel_layout \<Rightarrow> u32 \<Rightarrow> memory \<Rightarrow> allocator \<Rightarrow> acpi \<Rightarrow> acpi option" where
  "acpi_init lay cpu m allocate s =
     (let (found, s) = acpi_find_rsdp m (s\<lparr>rsdp := 0, acpi_tables := 0\<rparr>)
      in if \<not> found then Some (log_acpi ''No ACPI!!!\<newline>'' [] s)
         else do {
           let address = rsdt_address (rsd_at m (rsdp s));
           let s = s\<lparr>rsdt := (if KERNEL_VIRT_ADDR \<le> address then address else address + KERNEL_VIRT_ADDR)\<rparr>;
           s \<leftarrow> map_rsdt lay cpu address (rsdt s) sizeof_ACPI_TABLE s;
           let s = log_acpi ''RSDT: %p %p '' [rsdt s, address] s;
           let len = table_length (acpi_table_at m (rsdt s));
           let s = log_acpi '' RSDT Length: %d %d '' [len, sizeof_ACPI_TABLE] s;
           let s = log_acpi ''GS register: %d, %d\<newline>'' [cpu, lapic_present (irqs_of s)] s;
           s \<leftarrow> map_rsdt lay cpu address (rsdt s) len s;
           let s = s\<lparr>num_acpi_tables := (len - sizeof_ACPI_TABLE) div 4, acpi_tables := rsdt s + sizeof_ACPI_TABLE\<rparr>;
           s \<leftarrow> process_tables lay cpu m allocate [0..<unat (num_acpi_tables s)] s;
           Some (log_acpi ''\<newline>'' [] s)
         })"

end
