(* ===== verification/Pit_Wait.thy ===== *)
theory Pit_Wait
  imports Interrupts
begin

text \<open>
  Waiting with the timer 8254, from \<^verbatim>\<open>system.c\<close>: \<^verbatim>\<open>pit_wait\<close> loads channel 2 in mode 0 and polls its status until its output is
  high; before it polls again it opens a window for interrupts. \<open>out\<close> writes bytes to ports, \<open>port42\<close> is the byte a read of port
  0x42 returns after what has been written, \<open>window\<close> what the interrupts of one window do; the state is whatever these work on.
\<close>

section \<open>pit\_wait\<close>

type_synonym 's writer = "(u16 \<times> u8) list \<Rightarrow> 's \<Rightarrow> 's"

partial_function (option) pit_poll :: "'s writer \<Rightarrow> ('s \<Rightarrow> u8) \<Rightarrow> ('s \<Rightarrow> 's option) \<Rightarrow> u32 \<Rightarrow> 's \<Rightarrow> (u32 \<times> u32 \<times> 's) option" where
  "pit_poll out port42 window counter s =
     do {
       let s = out [(0x43, 0xe8)] s;
       let status_reg = port42 s;
       s \<leftarrow> window s;
       if status_reg AND 0x80 \<noteq> 0 then Some (counter, ucast status_reg, s)
       else pit_poll out port42 window (counter + 1) s
     }"

definition pit_load :: "'s writer \<Rightarrow> u32 \<Rightarrow> 's \<Rightarrow> 's" where
  "pit_load out cycles =
     (let ax = ucast cycles :: u16 in out [(0x43, 0xb0), (0x42, ucast ax), (0x42, ucast (word_rotl 8 ax))])"

text \<open>The turns are counted on top of \<^verbatim>\<open>cycles\<close>, because both operands are the same register.\<close>

definition pit_wait :: "'s writer \<Rightarrow> ('s \<Rightarrow> u8) \<Rightarrow> ('s \<Rightarrow> 's option) \<Rightarrow> u32 \<Rightarrow> 's \<Rightarrow> 's option" where
  "pit_wait out port42 window cycles s =
     do { (counter, status_reg, s) \<leftarrow> pit_poll out port42 window cycles (pit_load out cycles s); Some s }"

fun pit_wait_ms :: "(u32 \<Rightarrow> 's \<Rightarrow> 's option) \<Rightarrow> nat \<Rightarrow> 's \<Rightarrow> 's option" where
  "pit_wait_ms wait 0 s = Some s"
| "pit_wait_ms wait (Suc ms) s = do { s \<leftarrow> wait PIT_HZ s; pit_wait_ms wait ms s }"

section \<open>Polls\<close>

text \<open>The state after \<open>n\<close> polls and their windows, and what the next poll sees.\<close>

fun polled :: "'s writer \<Rightarrow> ('s \<Rightarrow> 's option) \<Rightarrow> nat \<Rightarrow> 's \<Rightarrow> 's option" where
  "polled out window 0 s = Some s"
| "polled out window (Suc n) s = do { s \<leftarrow> window (out [(0x43, 0xe8)] s); polled out window n s }"

definition out_high :: "'s writer \<Rightarrow> ('s \<Rightarrow> u8) \<Rightarrow> 's \<Rightarrow> bool" where
  "out_high out port42 s \<longleftrightarrow> bit (port42 (out [(0x43, 0xe8)] s)) 7"

text \<open>The \<open>n\<close>-th poll is the first that finds the output high.\<close>

definition rises_at :: "'s writer \<Rightarrow> ('s \<Rightarrow> u8) \<Rightarrow> ('s \<Rightarrow> 's option) \<Rightarrow> nat \<Rightarrow> 's \<Rightarrow> bool" where
  "rises_at out port42 window n s \<longleftrightarrow>
     (\<exists>u. polled out window n s = Some u \<and> out_high out port42 u) \<and> (\<forall>k < n. \<forall>v. polled out window k s = Some v \<longrightarrow> \<not> out_high out port42 v)"

lemma high_bit: "x AND 0x80 = 0 \<longleftrightarrow> \<not> bit x 7" for x :: u8
proof -
  have "(0x80 :: u8) = push_bit 7 1" by simp
  then show ?thesis using and_exp_eq_0_iff_not_bit [of x 7] by simp
qed

lemma pit_poll_step:
  "pit_poll out port42 window c s =
     do { t \<leftarrow> window (out [(0x43, 0xe8)] s);
          if out_high out port42 s then Some (c, ucast (port42 (out [(0x43, 0xe8)] s)), t) else pit_poll out port42 window (c + 1) t }"
  by (subst pit_poll.simps) (simp add: Let_def high_bit out_high_def)

lemma rises_at_0: "rises_at out port42 window 0 s \<longleftrightarrow> out_high out port42 s"
  by (simp add: rises_at_def)

lemma all_less_Suc: "(\<forall>k < Suc n. P k) \<longleftrightarrow> P 0 \<and> (\<forall>k < n. P (Suc k))"
  using less_Suc_eq_0_disj by auto

lemma rises_at_Suc:
  "rises_at out port42 window (Suc n) s \<longleftrightarrow>
     \<not> out_high out port42 s \<and> (\<exists>t. window (out [(0x43, 0xe8)] s) = Some t \<and> rises_at out port42 window n t)"
  unfolding rises_at_def all_less_Suc by (cases "window (out [(0x43, 0xe8)] s)") auto

text \<open>The loop ends with the window of the poll that finds the output high.\<close>

lemma pit_poll_ends:
  "rises_at out port42 window n s \<Longrightarrow>
   pit_poll out port42 window c s =
     do { u \<leftarrow> polled out window n s; t \<leftarrow> polled out window 1 u; Some (c + of_nat n, ucast (port42 (out [(0x43, 0xe8)] u)), t) }"
proof (induction n arbitrary: c s)
  case 0
  then show ?case by (subst pit_poll_step) (simp add: rises_at_0)
next
  case (Suc n)
  then obtain t where t: "\<not> out_high out port42 s" "window (out [(0x43, 0xe8)] s) = Some t" "rises_at out port42 window n t"
    by (auto simp: rises_at_Suc)
  then show ?case using Suc.IH [OF t(3), of "c + 1"] by (subst pit_poll_step) (simp add: ac_simps)
qed

lemma pit_poll_rises:
  "pit_poll out port42 window c s = Some r \<Longrightarrow> \<exists>n. rises_at out port42 window n s"
proof (induction out port42 window c s r rule: pit_poll.raw_induct [rotated, consumes 1, case_names turn])
  case (turn poll out port42 window c s y)
  obtain t where t: "window (out [(0x43, 0xe8)] s) = Some t" "out_high out port42 s \<or> poll out port42 window (c + 1) t = Some y"
    using turn(2) by (auto simp: Let_def high_bit out_high_def bind_eq_Some_conv simp del: split_paired_Ex split: if_splits)
  show ?case
  proof (cases "out_high out port42 s")
    case True
    then have "rises_at out port42 window 0 s" by (simp add: rises_at_0)
    then show ?thesis by blast
  next
    case False
    then obtain n where "rises_at out port42 window n t" using t(2) turn(1) by blast
    then have "rises_at out port42 window (Suc n) s" using False t(1) by (simp add: rises_at_Suc)
    then show ?thesis by blast
  qed
qed

lemma polled_append: "polled out window (m + n) s = do { s \<leftarrow> polled out window m s; polled out window n s }"
  by (induction m arbitrary: s) (simp_all split: bind_split)

lemma polled_Suc: "polled out window (n + 1) s = do { u \<leftarrow> polled out window n s; window (out [(0x43, 0xe8)] u) }"
proof -
  have "polled out window 0 = Some" by (simp add: fun_eq_iff)
  then show ?thesis by (simp only: polled_append One_nat_def polled.simps) simp
qed

text \<open>So \<^verbatim>\<open>pit_wait\<close> returns exactly if the output rises, and then after the first poll that sees it.\<close>

lemma pit_wait_iff:
  "pit_wait out port42 window cycles s = Some t \<longleftrightarrow>
     (\<exists>n. rises_at out port42 window n (pit_load out cycles s) \<and> polled out window (n + 1) (pit_load out cycles s) = Some t)"
proof -
  have "pit_wait out port42 window cycles s = polled out window (n + 1) (pit_load out cycles s)"
    if "rises_at out port42 window n (pit_load out cycles s)" for n
    unfolding pit_wait_def pit_poll_ends [OF that] polled_append
    by (cases "polled out window n (pit_load out cycles s)") (auto split: bind_split)
  moreover have "\<exists>n. rises_at out port42 window n (pit_load out cycles s)" if "pit_wait out port42 window cycles s = Some t"
    using that pit_poll_rises unfolding pit_wait_def by (fastforce simp: bind_eq_Some_conv)
  ultimately show ?thesis by metis
qed

lemma polled_delivers:
  assumes "delivers P window P" and "\<And>s. P s \<Longrightarrow> P (out [(0x43, 0xe8)] s)"
  shows "delivers P (polled out window n) P"
proof (induction n)
  case (Suc n)
  have "delivers P (\<lambda>s. window (out [(0x43, 0xe8)] s)) P" using assms by (auto simp: delivers_def)
  then show ?case using delivers_bind [OF _ Suc.IH] by simp
qed (simp add: delivers_def)

text \<open>A wait keeps what its windows keep.\<close>

lemma pit_wait_delivers:
  assumes "delivers P window P" and "\<And>ps s. P s \<Longrightarrow> P (out ps s)" and "\<And>s. P s \<Longrightarrow> \<exists>n. rises_at out port42 window n (pit_load out cycles s)"
  shows "delivers P (pit_wait out port42 window cycles) P"
proof (rule deliversI)
  fix s assume s: "P s"
  then obtain n where "rises_at out port42 window n (pit_load out cycles s)" using assms(3) by blast
  moreover have "P (pit_load out cycles s)" using assms(2) s by (simp add: pit_load_def Let_def)
  then obtain t where "polled out window (n + 1) (pit_load out cycles s) = Some t" "P t"
    using deliversD [OF polled_delivers [of P window out "n + 1"]] assms(1,2) by blast
  ultimately show "\<exists>t. pit_wait out port42 window cycles s = Some t \<and> P t" unfolding pit_wait_iff by blast
qed

definition windows_keep :: "('s \<Rightarrow> bool) \<Rightarrow> 's writer \<Rightarrow> ('s \<Rightarrow> u8) \<Rightarrow> ('s \<Rightarrow> 's option) \<Rightarrow> bool" where
  "windows_keep P out port42 window \<longleftrightarrow> delivers P window P \<and> (\<forall>s. P s \<longrightarrow> (\<exists>n. rises_at out port42 window n (pit_load out PIT_HZ s)))"

lemma pit_wait_keeps:
  "windows_keep P out port42 window \<Longrightarrow> (\<And>ps s. P s \<Longrightarrow> P (out ps s)) \<Longrightarrow> delivers P (pit_wait out port42 window PIT_HZ) P"
  by (rule pit_wait_delivers) (auto simp: windows_keep_def)

lemma pit_wait_ms_delivers:
  assumes "delivers P (wait PIT_HZ) P"
  shows "delivers P (pit_wait_ms wait n) P"
proof (induction n)
  case (Suc n)
  show ?case using delivers_bind [OF assms Suc.IH] by simp
qed (simp add: delivers_def)

section \<open>How long it takes\<close>

text \<open>
  Channel 2 of the timer in mode 0 with its gate open: \<open>time\<close> counts the ticks of its clock. A write to a port takes at most \<open>d\<close>
  ticks, a window between 1 and \<open>d\<close>; the output is high from the tick after the count that was loaded, where 0 stands for \<open>2 ^ 16\<close>.
\<close>

definition pit_count :: "u8 \<Rightarrow> u8 \<Rightarrow> nat" where
  "pit_count lo hi = (if lo = 0 \<and> hi = 0 then 2 ^ 16 else unat lo + 256 * unat hi)"

definition ticking :: "'s writer \<Rightarrow> ('s \<Rightarrow> u8) \<Rightarrow> ('s \<Rightarrow> 's option) \<Rightarrow> ('s \<Rightarrow> nat) \<Rightarrow> nat \<Rightarrow> bool" where
  "ticking out port42 window time d \<longleftrightarrow>
     (\<forall>s ps. time s \<le> time (out ps s) \<and> time (out ps s) \<le> time s + d) \<and>
     (\<forall>s. \<exists>t. window s = Some t \<and> time s < time t \<and> time t \<le> time s + d) \<and>
     (\<forall>s lo hi n u. polled out window n (out [(0x43, 0xb0), (0x42, lo), (0x42, hi)] s) = Some u \<longrightarrow>
        (out_high out port42 u \<longleftrightarrow> time (out [(0x43, 0xb0), (0x42, lo), (0x42, hi)] s) + pit_count lo hi < time (out [(0x43, 0xe8)] u)))"

lemma high_byte: "ucast (word_rotl 8 x) = (ucast (drop_bit 8 x) :: u8)" for x :: u16
proof (rule bit_word_eqI)
  fix n assume "n < LENGTH(8)"
  then have "(n + 8) mod 16 = n + 8" by simp
  then show "bit (ucast (word_rotl 8 x) :: u8) n = bit (ucast (drop_bit 8 x) :: u8) n"
    using \<open>n < LENGTH(8)\<close> by (simp add: bit_simps add.commute)
qed

lemma load_PIT_HZ: "pit_load out PIT_HZ s = out [(0x43, 0xb0), (0x42, 0xa9), (0x42, 4)] s" "pit_count 0xa9 4 = 1193"
proof -
  have "ucast (ucast PIT_HZ :: u16) = (0xa9 :: u8)" "ucast (drop_bit 8 (ucast PIT_HZ :: u16)) = (4 :: u8)"
    by (simp_all add: PIT_HZ_def)
  then show "pit_load out PIT_HZ s = out [(0x43, 0xb0), (0x42, 0xa9), (0x42, 4)] s"
    by (simp only: pit_load_def Let_def high_byte)
qed (simp add: pit_count_def)

lemma pit_wait_lasts:
  assumes tick: "ticking out port42 window time d"
  shows "\<exists>t. pit_wait out port42 window PIT_HZ s = Some t \<and> time s + 1194 \<le> time t \<and> time t \<le> time s + (1193 + 4 * d)"
proof -
  let ?l = "pit_load out PIT_HZ s" and ?rd = "out [(0x43, 0xe8)]"
  note T = tick [unfolded ticking_def]
  have wr: "time s \<le> time (out ps s)" "time (out ps s) \<le> time s + d" for s ps using T by blast+
  have win: "\<exists>t. window s = Some t \<and> time s < time t \<and> time t \<le> time s + d" for s using T by blast
  have high: "out_high out port42 u \<longleftrightarrow> time ?l + 1193 < time (?rd u)" if "polled out window n ?l = Some u" for n u
    using T that load_PIT_HZ by metis
  have go: "\<exists>u. polled out window n ?l = Some u \<and> time ?l + n \<le> time u" for n
  proof (induction n)
    case (Suc n)
    then obtain u where u: "polled out window n ?l = Some u" "time ?l + n \<le> time u" by blast
    moreover obtain t where "window (?rd u) = Some t" "time (?rd u) < time t" using win by blast
    moreover have "time u \<le> time (?rd u)" by (rule wr)
    moreover note polled_Suc [of out window n ?l]
    ultimately show ?case by (intro exI [of _ t]) simp
  qed simp
  let ?late = "\<lambda>n. \<exists>u. polled out window n ?l = Some u \<and> out_high out port42 u"
  have "?late 1194"
  proof -
    obtain u where u: "polled out window 1194 ?l = Some u" "time ?l + 1194 \<le> time u" using go by blast
    then have "time ?l + 1193 < time (?rd u)" using wr(1) [of u "[(0x43, 0xe8)]"] by linarith
    then show ?thesis using high [OF u(1)] u(1) by blast
  qed
  then obtain k where k: "?late k" "\<forall>j < k. \<not> ?late j" using exists_least_iff [of ?late] by blast
  then obtain u where u: "polled out window k ?l = Some u" "out_high out port42 u" by blast
  obtain t where t: "window (?rd u) = Some t" "time (?rd u) < time t" "time t \<le> time (?rd u) + d" using win by blast
  have "rises_at out port42 window k ?l" using k unfolding rises_at_def by blast
  moreover have "polled out window (k + 1) ?l = Some t" using u t(1) unfolding polled_Suc by simp
  ultimately have run: "pit_wait out port42 window PIT_HZ s = Some t" unfolding pit_wait_iff by blast
  have l: "time s \<le> time ?l" "time ?l \<le> time s + d" using wr load_PIT_HZ by metis+
  have "time ?l + 1193 < time (?rd u)" using high [OF u(1)] u(2) by simp
  moreover have "time u \<le> time ?l + 1193 + d"
  proof (cases k)
    case 0
    then show ?thesis using u(1) by simp
  next
    case (Suc j)
    then have no: "\<not> ?late j" using k(2) lessI by blast
    obtain v where v: "polled out window j ?l = Some v" using go by blast
    then have "time (?rd v) \<le> time ?l + 1193" using no high [OF v] by auto
    moreover have "window (?rd v) = Some u" using u(1) v polled_Suc [of out window j ?l] by (simp add: Suc)
    then have "time u \<le> time (?rd v) + d" using win [of "?rd v"] by simp
    ultimately show ?thesis by simp
  qed
  moreover have "time (?rd u) \<le> time u + d" by (rule wr)
  ultimately show ?thesis using run t l by (intro exI [of _ t]) linarith
qed

text \<open>(C19) \<^verbatim>\<open>pit_wait_ms\<close> on a timer whose channel 2 counts: it returns, not before \<open>ms\<close> milliseconds of the timer's clock of 1193182 Hz
  have passed, and not later than that and four of the longest writes or interrupt windows per millisecond.\<close>

theorem pit_wait_ms_lasts:
  assumes "ticking out port42 window time d"
  shows "\<exists>t. pit_wait_ms (pit_wait out port42 window) ms s = Some t \<and>
     1193182 * ms \<le> 1000 * (time t - time s) \<and> time t \<le> time s + ms * (1193 + 4 * d)"
proof -
  have "\<exists>t. pit_wait_ms (pit_wait out port42 window) ms s = Some t \<and> time s + 1194 * ms \<le> time t \<and> time t \<le> time s + ms * (1193 + 4 * d)"
  proof (induction ms arbitrary: s)
    case (Suc ms)
    obtain u where u: "pit_wait out port42 window PIT_HZ s = Some u" "time s + 1194 \<le> time u" "time u \<le> time s + (1193 + 4 * d)"
      using pit_wait_lasts [OF assms] by blast
    moreover obtain t where "pit_wait_ms (pit_wait out port42 window) ms u = Some t" "time u + 1194 * ms \<le> time t"
      "time t \<le> time u + ms * (1193 + 4 * d)" using Suc.IH by blast
    ultimately show ?case by (intro exI [of _ t]) (simp add: algebra_simps)
  qed simp
  then obtain t where "pit_wait_ms (pit_wait out port42 window) ms s = Some t" "time s + 1194 * ms \<le> time t" "time t \<le> time s + ms * (1193 + 4 * d)"
    by blast
  then show ?thesis by (intro exI [of _ t]) simp
qed

text \<open>A timer whose state is the tick at which its output rises and the current tick; a window takes two ticks.\<close>

definition timer_out :: "(nat \<times> nat) writer" where
  "timer_out ps s =
     (if map fst ps = [0x43, 0x42, 0x42] then (snd s + 1 + pit_count (snd (ps ! 1)) (snd (ps ! 2)), snd s + 1) else (fst s, snd s + 1))"

definition timer_status :: "nat \<times> nat \<Rightarrow> u8" where
  "timer_status s = (if fst s < snd s then 0x80 else 0)"

definition timer_window :: "nat \<times> nat \<Rightarrow> (nat \<times> nat) option" where
  "timer_window s = Some (fst s, snd s + 2)"

lemma timer_ticks: "ticking timer_out timer_status timer_window snd 2"
proof -
  have p: "polled timer_out timer_window n (due, t) = Some (due, t + 3 * n)" for n due t
    by (induction n arbitrary: t) (simp_all add: timer_out_def timer_window_def)
  have b: "bit (0x80 :: u8) 7" by simp
  show ?thesis
    unfolding ticking_def out_high_def by (auto simp: p b timer_window_def timer_status_def) (simp_all add: timer_out_def p b timer_status_def)
qed

theorem pit_wait_ms_lasts_witness:
  "\<exists>t. pit_wait_ms (pit_wait timer_out timer_status timer_window) 10 (0, 0) = Some t \<and> 11932 \<le> snd t \<and> snd t \<le> 12010"
proof -
  obtain t where "pit_wait_ms (pit_wait timer_out timer_status timer_window) 10 (0, 0) = Some t"
    "1193182 * 10 \<le> 1000 * (snd t - snd (0 :: nat, 0 :: nat))" "snd t \<le> snd (0 :: nat, 0 :: nat) + 10 * (1193 + 4 * 2)"
    using pit_wait_ms_lasts [OF timer_ticks, of 10 "(0, 0)"] by blast
  then show ?thesis by (intro exI [of _ t]) simp
qed

end
