(* ===== verification/User_Entry.thy ===== *)
theory User_Entry
  imports Traps User_Pages
begin

text \<open>
  Leaving the kernel: \<^verbatim>\<open>switch_to_um\<close> of \<^verbatim>\<open>usermode.c\<close>. It loads the data segments, pushes the five words \<^verbatim>\<open>iret\<close> takes off
  the stack, and executes it; the CPU is then in the user program.
\<close>

text \<open>The words in the order of the pushes: SS, ESP, EFLAGS, CS, EIP.\<close>

definition um_frame :: "u32 \<Rightarrow> u32 list" where
  "um_frame eflags =
     [of_nat USER_DATA_SEG OR 3, USER_MODE_VIRT_STACK + USER_MODE_STACK_SIZE, eflags OR 0x200, of_nat USER_CODE_SEG OR 3,
      USER_MODE_VIRT_TEXT]"

text \<open>\<^verbatim>\<open>iret\<close> to another privilege level, on the words from the top of the stack.\<close>

fun iret :: "u32 list \<Rightarrow> cpu_regs \<Rightarrow> cpu_regs option" where
  "iret (ip # cs # flags # sp # ss # stack) r =
     Some (r\<lparr>r_eip := ip, r_cs := ucast cs, r_eflags := flags, r_esp := sp, r_ss := ucast ss\<rparr>)"
| "iret stack r = None"

definition switch_to_um :: "nat \<Rightarrow> machine \<Rightarrow> machine option" where
  "switch_to_um cpu m =
     (let m = upd_regs cpu (\<lambda>r. r\<lparr>r_eflags := r_eflags r AND NOT 0x200\<rparr>) m;
          seg = of_nat USER_DATA_SEG OR 3;
          m = upd_regs cpu (\<lambda>r. r\<lparr>r_ds := seg, r_es := seg, r_fs := seg, r_gs := seg\<rparr>) m;
          stack = fold (#) (um_frame (r_eflags (regs_of m cpu))) []
      in do { r \<leftarrow> iret stack (regs_of m cpu); Some (upd_regs cpu (\<lambda>_. r) m) })"

end
