(* ===== verification/Smp.thy ===== *)
theory Smp
  imports Pit_Wait User_Entry
begin

text \<open>
  The other processors, from \<^verbatim>\<open>smp.c\<close>: \<^verbatim>\<open>smp_start\<close>, with which the first processor lays out what
  the start-up code in low memory needs and sends the start-up interrupts, and \<^verbatim>\<open>finish_smp_initialization\<close>,
  which every started processor runs, once as the function one CPU computes and once as a step relation over the memory
  accesses of all of them. The start-up code, the user program, the kernel's first stack and the address of
  \<^verbatim>\<open>finish_smp_initialization\<close> come from the linker. Fences and \<^verbatim>\<open>sti\<close> have no effect on this state.
\<close>

section \<open>State\<close>

record smp =
  irq :: irqs
  frames :: mm
  smp_bits :: u32
  smp_nums :: u32
  smp_on_hold :: u32
  spinlock_smp :: u32

definition upd_mem :: "(paging \<Rightarrow> paging option) \<Rightarrow> smp \<Rightarrow> smp option" where
  "upd_mem f s = do { p \<leftarrow> f (paging_of (mach (irq s))); Some (s\<lparr>irq := (irq s)\<lparr>mach := (mach (irq s))\<lparr>paging_of := p\<rparr>\<rparr>\<rparr>) }"

definition upd_irq :: "(irqs \<Rightarrow> irqs) \<Rightarrow> smp \<Rightarrow> smp" where
  "upd_irq f s = s\<lparr>irq := f (irq s)\<rparr>"

definition BASE_WRITE_ADDR :: u32 where "BASE_WRITE_ADDR = BASE_WRITE_PAGE + 128"
definition AP_FIRST_STACK :: u32 where "AP_FIRST_STACK = BASE_WRITE_ADDR"
definition AP_LAPIC_BASE_REGISTER :: u32 where "AP_LAPIC_BASE_REGISTER = BASE_WRITE_ADDR + 4"
definition AP_KERNEL_PG_DIR :: u32 where "AP_KERNEL_PG_DIR = BASE_WRITE_ADDR + 12"
definition AP_FINISH_CODE :: u32 where "AP_FINISH_CODE = BASE_WRITE_ADDR + 16"
definition LAPIC_ICR_1 :: u32 where "LAPIC_ICR_1 = 0x300"
definition LAPIC_ICR_2 :: u32 where "LAPIC_ICR_2 = 0x310"
definition KERNEL_PGDIR_OFFSET :: u32 where "KERNEL_PGDIR_OFFSET = drop_bit 20 KERNEL_VIRT_ADDR"
definition KERNEL_PGDIR_ENTRY :: u32 where "KERNEL_PGDIR_ENTRY = KERNEL_PGDIR_OFFSET div 4"

section \<open>smp\_start\<close>

definition copy_smp_init_to_low_mem :: "u8 list \<Rightarrow> paging \<Rightarrow> paging" where
  "copy_smp_init_to_low_mem init_ap p = copy_bytes init_ap (AP_INIT_PHYS_TEXT + KERNEL_VIRT_ADDR) p"

definition init_pg_dir :: "kernel_layout \<Rightarrow> nat \<Rightarrow> paging \<Rightarrow> paging" where
  "init_pg_dir lay i p =
     (let pgd = kernel_pg_dir lay + PAGE_SIZE * of_nat i;
          p = p\<lparr>pmem := memcpy_words 1024 pgd (master_kernel_pg_dir lay) (pmem p)\<rparr>
      in pmem_write pgd (pmem p (pgd + 4 * KERNEL_PGDIR_ENTRY)) p)"

definition initialize_kernel_pg_tables :: "kernel_layout \<Rightarrow> paging \<Rightarrow> paging" where
  "initialize_kernel_pg_tables lay p = fold (init_pg_dir lay) [1..<MAX_NUM_SMPS] p"

definition ap_words :: "kernel_layout \<Rightarrow> symbols \<Rightarrow> u32 \<Rightarrow> u32 \<Rightarrow> paging \<Rightarrow> paging" where
  "ap_words lay sy lapic_base finish p =
     (let p = pmem_write (AP_FIRST_STACK + KERNEL_VIRT_ADDR) (kernel_stack_0_start sy) p;
          p = pmem_write (AP_LAPIC_BASE_REGISTER + KERNEL_VIRT_ADDR) lapic_base p;
          p = pmem_write (AP_KERNEL_PG_DIR + KERNEL_VIRT_ADDR) (kernel_pg_dir lay - KERNEL_VIRT_ADDR) p
      in pmem_write (AP_FINISH_CODE + KERNEL_VIRT_ADDR) finish p)"

text \<open>\<open>wait\<close> is \<^verbatim>\<open>pit_wait\<close> with the interrupts its windows let in.\<close>

definition smp_start ::
  "kernel_layout \<Rightarrow> symbols \<Rightarrow> u8 list \<Rightarrow> u32 \<Rightarrow> (u32 \<Rightarrow> smp \<Rightarrow> smp option) \<Rightarrow> smp \<Rightarrow> smp option"
where
  "smp_start lay sy init_ap finish wait s =
     (if lapic_present (irq s) = 0 then Some s
      else do {
        s \<leftarrow> upd_mem (\<lambda>p. Some (copy_smp_init_to_low_mem init_ap p)) s;
        s \<leftarrow> upd_mem (\<lambda>p. Some (initialize_kernel_pg_tables lay p)) s;
        s \<leftarrow> upd_mem (\<lambda>p. Some (ap_words lay sy (lapic_base_register (irq s)) finish p)) s;
        let s = upd_irq (lapic_write_register LAPIC_ICR_1 0xc4500) s;
        let s = upd_irq (lapic_write_register LAPIC_ICR_2 0) s;
        s \<leftarrow> pit_wait_ms wait 10 s;
        let s = upd_irq (lapic_write_register LAPIC_ICR_1 (0xc4600 OR drop_bit 12 AP_INIT_PHYS_TEXT)) s;
        let s = upd_irq (lapic_write_register LAPIC_ICR_2 0) s;
        s \<leftarrow> pit_wait_ms wait 200 s;
        let s = upd_irq (log_irq ''Number of APs: %d '' [smp_nums s]) s;
        Some (upd_irq (log_irq ''SMP bits: %x\<newline>'' [smp_bits s]) s)
      })"

section \<open>finish\_smp\_initialization\<close>

text \<open>The part under \<^verbatim>\<open>spinlock_smp\<close>, as one CPU runs it while nobody else writes.\<close>

partial_function (option) smp_register :: "u32 \<Rightarrow> smp \<Rightarrow> smp option" where
  "smp_register smp_id s =
     do {
       l \<leftarrow> spinlock_lock (spinlock_smp s);
       if smp_on_hold s \<noteq> 0
       then smp_register smp_id (s\<lparr>spinlock_smp := spinlock_unlock l\<rparr>)
       else let s = s\<lparr>smp_nums := smp_nums s + 1\<rparr>;
                s = s\<lparr>smp_bits := smp_bits s OR push_bit (unat smp_id mod 32) 1\<rparr>
            in Some (s\<lparr>spinlock_smp := spinlock_unlock l\<rparr>)
     }"

definition start_lapic :: "device \<Rightarrow> irqs \<Rightarrow> irqs" where
  "start_lapic dev s =
     (let s = lapic_write_register LAPIC_SPURIOUS_REG (lapic_read_register dev LAPIC_SPURIOUS_REG s OR 0x1ff) s;
          s = lapic_write_register LAPIC_LVT_TIMER_REG (LAPIC_IDT_VECTOR OR 0x20000) s;
          s = lapic_write_register LAPIC_DIVIDE_CONFIGURATION_REG LAPIC_DIVIDE_CONFIG_VALUE s
      in lapic_write_register LAPIC_INITIAL_COUNTER_REG LAPIC_COUNTER_VALUE s)"

text \<open>
  \<^verbatim>\<open>initialize_usermode\<close> on the state of the kernel; its messages go to the log. After a page fault in it, which
  \<^verbatim>\<open>trap_handler\<close> cannot repair, the CPU is halted.
\<close>

definition usermode_on :: "kernel_layout \<Rightarrow> u32 \<Rightarrow> tlb \<Rightarrow> u8 list \<Rightarrow> smp \<Rightarrow> smp option" where
  "usermode_on lay cpu tlb text s =
     do {
       (r, f, p) \<leftarrow> initialize_usermode lay cpu tlb text (frames s) (paging_of (mach (irq s)));
       msgs \<leftarrow> (case r of Inl fault \<Rightarrow> None | Inr msgs \<Rightarrow> Some msgs);
       s \<leftarrow> upd_mem (\<lambda>_. Some p) (s\<lparr>frames := f\<rparr>);
       Some (upd_irq (fold (\<lambda>(fmt, args). log_irq fmt (map of_int args)) msgs) s)
     }"

text \<open>\<^verbatim>\<open>switch_to_um\<close> on the state of the kernel.\<close>

definition leave_kernel :: "nat \<Rightarrow> smp \<Rightarrow> smp option" where
  "leave_kernel cpu s = do { m \<leftarrow> switch_to_um cpu (mach (irq s)); Some (upd_irq (\<lambda>i. i\<lparr>mach := m\<rparr>) s) }"

text \<open>\<^verbatim>\<open>CUR_CPU\<close> is the number of the CPU.\<close>

definition finish_smp_initialization ::
  "kernel_layout \<Rightarrow> symbols \<Rightarrow> device \<Rightarrow> tlb \<Rightarrow> u8 list \<Rightarrow> u32 \<Rightarrow> smp \<Rightarrow> smp option"
where
  "finish_smp_initialization lay sy dev tlb text smp_id s =
     do {
       s \<leftarrow> smp_register smp_id s;
       m \<leftarrow> setup32 lay sy (unat smp_id) (mach (irq s));
       let s = upd_irq (\<lambda>i. i\<lparr>mach := m\<rparr>) s;
       let base = lapic_base_register (irq s);
       s \<leftarrow> upd_mem (map_kernel_with_pagetable lay smp_id base base PAGE_SIZE PTE_WRITE 0) s;
       s \<leftarrow> usermode_on lay smp_id tlb text (upd_irq (start_lapic dev) s);
       leave_kernel (unat smp_id) s
     }"

section \<open>All processors at once\<close>

text \<open>
  The same code instruction by instruction, for any number of CPUs: \<^verbatim>\<open>smp_nums++\<close> and
  \<^verbatim>\<open>smp_bits |=\<close> are a load into a register and a store. Taking the lock is the exchange that returned 0
  (theory \<open>Spinlock\<close> has its loop); a CPU is \<open>Registered\<close> when it has released the lock for good.
\<close>

datatype ap_pc = Waiting | Test_Hold | Load_Nums | Store_Nums | Load_Bits | Store_Bits | Release | Back_Off | Registered

record ap_state =
  ap_lock :: u32
  ap_hold :: u32
  ap_nums :: u32
  ap_bits :: u32
  ap_pc :: "nat \<Rightarrow> ap_pc"
  ap_reg :: "nat \<Rightarrow> u32"

definition goto :: "nat \<Rightarrow> ap_pc \<Rightarrow> ap_state \<Rightarrow> ap_state" where
  "goto c l s = s\<lparr>ap_pc := (ap_pc s)(c := l)\<rparr>"

inductive ap_step :: "nat \<Rightarrow> ap_state \<Rightarrow> ap_state \<Rightarrow> bool" where
  acquire: "ap_pc s c = Waiting \<Longrightarrow> ap_lock s = 0 \<Longrightarrow> ap_step c s (goto c Test_Hold (s\<lparr>ap_lock := 1\<rparr>))"
| on_hold: "ap_pc s c = Test_Hold \<Longrightarrow> ap_hold s \<noteq> 0 \<Longrightarrow> ap_step c s (goto c Back_Off s)"
| back_off: "ap_pc s c = Back_Off \<Longrightarrow> ap_step c s (goto c Waiting (s\<lparr>ap_lock := 0\<rparr>))"
| go_on: "ap_pc s c = Test_Hold \<Longrightarrow> ap_hold s = 0 \<Longrightarrow> ap_step c s (goto c Load_Nums s)"
| load_nums: "ap_pc s c = Load_Nums \<Longrightarrow> ap_step c s (goto c Store_Nums (s\<lparr>ap_reg := (ap_reg s)(c := ap_nums s)\<rparr>))"
| store_nums: "ap_pc s c = Store_Nums \<Longrightarrow> ap_step c s (goto c Load_Bits (s\<lparr>ap_nums := ap_reg s c + 1\<rparr>))"
| load_bits: "ap_pc s c = Load_Bits \<Longrightarrow> ap_step c s (goto c Store_Bits (s\<lparr>ap_reg := (ap_reg s)(c := ap_bits s)\<rparr>))"
| store_bits: "ap_pc s c = Store_Bits \<Longrightarrow> ap_step c s (goto c Release (s\<lparr>ap_bits := ap_reg s c OR push_bit (c mod 32) 1\<rparr>))"
| release: "ap_pc s c = Release \<Longrightarrow> ap_step c s (goto c Registered (s\<lparr>ap_lock := 0\<rparr>))"

text \<open>Nothing in the tree writes \<^verbatim>\<open>smp_on_hold\<close> after its initial value.\<close>

definition ap_init :: "u32 \<Rightarrow> ap_state" where
  "ap_init hold = \<lparr>ap_lock = 0, ap_hold = hold, ap_nums = 0, ap_bits = 1, ap_pc = (\<lambda>_. Waiting), ap_reg = (\<lambda>_. 0)\<rparr>"

inductive ap_reachable :: "ap_state \<Rightarrow> bool" where
  start: "ap_reachable (ap_init hold)"
| step: "ap_reachable s \<Longrightarrow> ap_step c s t \<Longrightarrow> ap_reachable t"

end
