(* ===== verification/Boot.thy ===== *)
theory Boot
  imports Mem_Init Acpi Smp
begin

text \<open>
  The boot sequence: \<^verbatim>\<open>dump_e820\<close> of \<^verbatim>\<open>system.c\<close> and \<^verbatim>\<open>start_kernel\<close> of \<^verbatim>\<open>start.c\<close>, which calls every other part in turn.
\<close>

section \<open>dump\_e820\<close>

text \<open>
  \<open>pr\<close> is \<^verbatim>\<open>printf(KERNEL_DEBUG, ...)\<close> on whatever keeps the output, \<open>lit\<close> the address of a literal. The map of the
  firmware is the list of its \<^verbatim>\<open>e820_count\<close> entries.
\<close>

type_synonym 's printer = "string \<Rightarrow> item list \<Rightarrow> 's \<Rightarrow> 's option"

definition E820_MAP_VIRT_ADDRESS :: u32 where "E820_MAP_VIRT_ADDRESS = KERNEL_VIRT_ADDR + (BASE_WRITE_ADDR + 24)"

definition e820_format :: string where "e820_format = ''0x%llx | 0x%llx | %d %s\<newline>''"

fun dump_entries :: "'s printer \<Rightarrow> (string \<Rightarrow> u32) \<Rightarrow> e820_map list \<Rightarrow> 's \<Rightarrow> 's option" where
  "dump_entries pr lit [] s = Some s"
| "dump_entries pr lit (e # es) s =
     do {
       s \<leftarrow> pr e820_format [LLHex (e820_base e), LLHex (e820_length e), Dec (e820_type e),
              Str (lit (if e820_type e = 1 then '' Free memory'' else '' Reserved memory''))] s;
       dump_entries pr lit es s
     }"

definition dump_e820 :: "'s printer \<Rightarrow> (string \<Rightarrow> u32) \<Rightarrow> e820_map list \<Rightarrow> 's \<Rightarrow> 's option" where
  "dump_e820 pr lit es s =
     do {
       s \<leftarrow> pr ''E820 map at %p\<newline>'' [Ptr E820_MAP_VIRT_ADDRESS] s;
       s \<leftarrow> pr ''===========================================================\<newline>'' [] s;
       s \<leftarrow> pr ''Base address | Length | Type\<newline>'' [] s;
       dump_entries pr lit es s
     }"

text \<open>The two places output is kept: the debug console itself, and the log of formats and words.\<close>

definition print_debug :: "(u32 \<Rightarrow> u8 list option) \<Rightarrow> u8 list \<Rightarrow> debug printer" where
  "print_debug mem str fmt args d = printf KERNEL_DEBUG (bytes_of fmt @ [0]) (arg_bytes args) mem str d"

fun item_words :: "item \<Rightarrow> u32 list" where
  "item_words (Chr c) = []"
| "item_words Percent = []"
| "item_words (Dec v) = [v]"
| "item_words (Unsigned v) = [v]"
| "item_words (Hex v) = [v]"
| "item_words (LHex v) = [v]"
| "item_words (Ptr v) = [v]"
| "item_words (LLHex v) = [ucast v, ucast (drop_bit 32 v)]"
| "item_words (Str a) = [a]"

definition print_log :: "irqs printer" where
  "print_log fmt args s = Some (log_irq fmt (concat (map item_words args)) s)"

section \<open>State\<close>

text \<open>
  The whole kernel. \<open>ksmp\<close> owns the page frames, the memory, the registers and the devices; \<open>kmem\<close> and \<open>kacpi\<close> hold the
  other variables of \<^verbatim>\<open>memory.c\<close> and \<^verbatim>\<open>acpi.c\<close>, and get these parts while their code runs.
\<close>

record kernel =
  ksmp :: smp
  kmem :: mem_state
  kacpi :: acpi
  kdebug :: debug

definition paging_now :: "smp \<Rightarrow> paging" where
  "paging_now s = paging_of (mach (irq s))"

definition set_memory :: "mm \<Rightarrow> paging \<Rightarrow> smp \<Rightarrow> smp" where
  "set_memory f p s = s\<lparr>frames := f, irq := (irq s)\<lparr>mach := (mach (irq s))\<lparr>paging_of := p\<rparr>\<rparr>\<rparr>"

definition on_smp :: "(smp \<Rightarrow> smp option) \<Rightarrow> kernel \<Rightarrow> kernel option" where
  "on_smp f k = do { s \<leftarrow> f (ksmp k); Some (k\<lparr>ksmp := s\<rparr>) }"

definition on_irqs :: "(irqs \<Rightarrow> irqs option) \<Rightarrow> kernel \<Rightarrow> kernel option" where
  "on_irqs f = on_smp (\<lambda>s. do { i \<leftarrow> f (irq s); Some (s\<lparr>irq := i\<rparr>) })"

definition on_acpi :: "(acpi \<Rightarrow> acpi option) \<Rightarrow> kernel \<Rightarrow> kernel option" where
  "on_acpi f k = do { a \<leftarrow> f ((kacpi k)\<lparr>irqs_of := irq (ksmp k)\<rparr>); Some (k\<lparr>kacpi := a, ksmp := (ksmp k)\<lparr>irq := irqs_of a\<rparr>\<rparr>) }"

definition on_mem :: "(mem_state \<Rightarrow> ('a \<times> mem_state) option) \<Rightarrow> kernel \<Rightarrow> ('a \<times> kernel) option" where
  "on_mem f k =
     do {
       (r, m) \<leftarrow> f ((kmem k)\<lparr>mmgr := frames (ksmp k), mpaging := paging_now (ksmp k)\<rparr>);
       Some (r, k\<lparr>kmem := m, ksmp := set_memory (mmgr m) (mpaging m) (ksmp k)\<rparr>)
     }"

section \<open>start\_kernel\<close>

text \<open>
  What the code does not hold itself: linker symbols and images, the firmware, the devices and what they send, what happens in
  the waits, what the TLB still holds when the user program is loaded, the registers read by \<^verbatim>\<open>cpuid\<close> and \<^verbatim>\<open>rdmsr\<close>, and the uninitialised memory of locals and buffers.
\<close>

record environment =
  x_layout :: kernel_layout
  x_symbols :: symbols
  x_e820 :: "e820_map list"
  x_firmware :: memory
  x_device :: device
  x_init_ap :: "u8 list"
  x_finish :: u32
  x_image :: "u8 list"
  x_tlb :: tlb
  x_cpuid :: u32
  x_apic_msr :: u32
  x_8042 :: "u8 list"
  x_8042_enable :: "u8 list"
  x_port42 :: "irqs \<Rightarrow> u8"
  x_irq_window :: "irqs \<Rightarrow> irqs option"
  x_smp_window :: "smp \<Rightarrow> smp option"
  x_literal :: "string \<Rightarrow> u32"
  x_str :: "u8 list"
  x_temp :: "u8 list"
  x_kbd_buffer :: "u8 list"

text \<open>
  The waits with the timer: of one CPU, with the interrupts its windows let in, and of the whole kernel, where other processors run.
\<close>

definition irq_wait :: "environment \<Rightarrow> nat \<Rightarrow> irqs \<Rightarrow> irqs option" where
  "irq_wait x = pit_wait_ms (pit_wait outs (x_port42 x) (x_irq_window x))"

definition smp_outs :: "smp writer" where
  "smp_outs ps = upd_irq (outs ps)"

definition smp_wait :: "environment \<Rightarrow> u32 \<Rightarrow> smp \<Rightarrow> smp option" where
  "smp_wait x = pit_wait smp_outs (\<lambda>s. x_port42 x (irq s)) (x_smp_window x)"

text \<open>A page for the debug console; without one the kernel would write to address 0.\<close>

definition debug_start :: "kernel_layout \<Rightarrow> kernel \<Rightarrow> kernel option" where
  "debug_start lay k =
     do {
       order \<leftarrow> NPAGES_TO_ORDER 1;
       (addr, f, p) \<leftarrow> page_alloc_kmap_linear lay 0 order (frames (ksmp k)) (paging_now (ksmp k));
       if addr = 0 then None
       else Some (k\<lparr>ksmp := set_memory f p (ksmp k), kdebug := debug_init (replicate DEBUG_BUFFER_SIZE 0) (kdebug k)\<rparr>)
     }"

definition boot_locks :: "kernel \<Rightarrow> kernel" where
  "boot_locks k =
     (let s = ksmp k
      in k\<lparr>kdebug := (kdebug k)\<lparr>dbg_vga := vga_init (dbg_vga (kdebug k))\<rparr>,
           ksmp := set_memory (frames s) (pgd_lock_init (paging_now s)) (s\<lparr>spinlock_smp := 0\<rparr>)\<rparr>)"

text \<open>From \<^verbatim>\<open>setup32\<close> to \<^verbatim>\<open>interrupts_enable\<close>, on CPU 0.\<close>

definition start_devices :: "environment \<Rightarrow> kernel \<Rightarrow> kernel option" where
  "start_devices x k =
     (let lay = x_layout x; dev = x_device x
      in do {
        k \<leftarrow> on_irqs (\<lambda>i. do { m \<leftarrow> setup32 lay (x_symbols x) 0 (mach i); Some (i\<lparr>mach := m\<rparr>) }) k;
        k \<leftarrow> on_acpi (\<lambda>a. Some (bda_read_table (x_firmware x) a)) k;
        k \<leftarrow> on_irqs interrupts_init k;
        k \<leftarrow> on_acpi (acpi_init lay 0 (x_firmware x) (ioapic_allocate lay 0 dev (x_temp x))) k;
        k \<leftarrow> on_irqs (devices_init (x_kbd_buffer x) (x_8042 x)) k;
        k \<leftarrow> on_irqs ioapic_init k;
        on_irqs (interrupts_enable lay 0 dev (x_cpuid x) (x_apic_msr x) (irq_wait x) (x_8042_enable x)) k
      })"

text \<open>\<^verbatim>\<open>switch_to_um\<close> leaves for the user program and does not return; the 0 stands for getting there.\<close>

definition start_kernel :: "environment \<Rightarrow> kernel \<Rightarrow> (int \<times> kernel) option" where
  "start_kernel x k =
     (let lay = x_layout x; k = boot_locks k
      in do {
        (r, k) \<leftarrow> on_mem (mem_init lay 0 (of_nat (length (x_init_ap x))) (x_e820 x) (x_str x)) k;
        if r \<noteq> 0 then Some (-1, k)
        else do {
          k \<leftarrow> debug_start lay k;
          k \<leftarrow> on_irqs (print_log ''XIS kernel starting (v1.0)\<newline>'' []) k;
          k \<leftarrow> on_irqs (dump_e820 print_log (x_literal x) (x_e820 x)) k;
          k \<leftarrow> start_devices x k;
          k \<leftarrow> on_smp (smp_start lay (x_symbols x) (x_init_ap x) (x_finish x) (smp_wait x)) k;
          k \<leftarrow> on_smp (usermode_on lay 0 (x_tlb x) (x_image x)) k;
          k \<leftarrow> on_irqs (print_log ''Kernel started '' []) k;
          k \<leftarrow> on_smp (leave_kernel 0) k;
          Some (0, k)
        }
      })"

end
