(* ===== verification/Boot_Dump.thy ===== *)
theory Boot_Dump
  imports Boot
begin

text \<open>
  The dump of the firmware's memory map on the debug console: the text, its place in the debug page and on the screen, and when it
  no longer fits.
\<close>

section \<open>Several texts\<close>

text \<open>Several texts, one \<^verbatim>\<open>printf\<close> each.\<close>

definition zero_ended :: "u8 list list \<Rightarrow> u8 list" where
  "zero_ended ts = concat (map (\<lambda>t. t @ [0]) ts)"

definition show_texts :: "u8 list list \<Rightarrow> vga \<Rightarrow> vga" where
  "show_texts ts v = fold (\<lambda>t v. the (print_vga t v)) ts v"

definition debug_ready :: "debug \<Rightarrow> bool" where
  "debug_ready d \<longleftrightarrow> length (dbg_page d) = 4096 \<and> cur_dbg d \<le> 4095 \<and> lock_debug_mem d = 0 \<and> spinlock_vga (dbg_vga d) = 0 \<and>
     debug_level_for_vga d \<le> KERNEL_DEBUG"

definition texts_shown :: "u8 list list \<Rightarrow> debug \<Rightarrow> debug option" where
  "texts_shown ts d =
     (let c = cur_dbg d; n = length (zero_ended ts)
      in if c + n \<le> 4095
         then Some (d\<lparr>dbg_page := take c (dbg_page d) @ zero_ended ts @ drop (c + n) (dbg_page d), cur_dbg := c + n,
                      dbg_vga := show_texts ts (dbg_vga d)\<rparr>)
         else None)"

lemma print_vga_lock: "spinlock_vga v = 0 \<Longrightarrow> spinlock_vga (the (print_vga t v)) = 0"
  by (auto simp: print_vga_def spinlock_unlock_def)

lemma texts_shown_ready: "debug_ready d \<Longrightarrow> texts_shown ts d = Some d' \<Longrightarrow> debug_ready d'"
proof -
  have "spinlock_vga (show_texts ts v) = 0" if "spinlock_vga v = 0" for v
    using that unfolding show_texts_def by (induction ts arbitrary: v) (auto simp: print_vga_lock)
  then show "debug_ready d \<Longrightarrow> texts_shown ts d = Some d' \<Longrightarrow> debug_ready d'"
    by (auto simp: debug_ready_def texts_shown_def Let_def split: if_splits)
qed

lemma texts_shown_Nil: "debug_ready d \<Longrightarrow> texts_shown [] d = Some d"
  by (simp add: texts_shown_def zero_ended_def show_texts_def debug_ready_def)

lemma texts_shown_append:
  assumes "debug_ready d"
  shows "texts_shown (ts @ us) d = texts_shown ts d \<bind> texts_shown us"
proof (cases "cur_dbg d + length (zero_ended ts) \<le> 4095")
  case True
  define c n where "c = cur_dbg d" and "n = length (zero_ended ts)"
  have l: "length (take c (dbg_page d)) = c" "c + n \<le> 4095" "length (dbg_page d) = 4096"
    using assms True by (simp_all add: debug_ready_def c_def n_def)
  define page where "page = take c (dbg_page d) @ zero_ended ts @ drop (c + n) (dbg_page d)"
  have "take (c + n) page = take c (dbg_page d) @ zero_ended ts" "drop (c + n + k) page = drop (c + n + k) (dbg_page d)" for k
    using l by (simp_all add: page_def n_def [symmetric] ac_simps)
  moreover have "zero_ended (ts @ us) = zero_ended ts @ zero_ended us" "show_texts (ts @ us) v = show_texts us (show_texts ts v)" for v
    by (simp_all add: zero_ended_def show_texts_def)
  moreover have "texts_shown ts d = Some (d\<lparr>dbg_page := page, cur_dbg := c + n, dbg_vga := show_texts ts (dbg_vga d)\<rparr>)"
    using True by (simp add: texts_shown_def Let_def c_def n_def page_def)
  ultimately show ?thesis
    by (simp add: texts_shown_def Let_def c_def [symmetric] n_def [symmetric] add.assoc)
next
  case False
  then show ?thesis by (simp add: texts_shown_def zero_ended_def Let_def)
qed

lemma print_text:
  assumes "\<forall>it \<in> set its. item_ok mem it" and "length str = 20" and "debug_ready d"
    and "bytes_of fmt @ [0] = fmt_string its" and "arg_bytes args = arg_bytes its"
  shows "print_debug mem str fmt args d = texts_shown [rendered mem its] d"
  using printf_renders [OF assms(1,2), of d KERNEL_DEBUG] assms(3-5)
  by (simp add: print_debug_def debug_ready_def texts_shown_def zero_ended_def show_texts_def Let_def)

text \<open>The text of the dump.\<close>

definition e820_line :: "e820_map \<Rightarrow> u8 list" where
  "e820_line e = bytes_of ''0x'' @ hex_field 16 (unat (e820_base e)) @ bytes_of '' | 0x'' @ hex_field 16 (unat (e820_length e)) @
     bytes_of '' | '' @ itoa_text (e820_type e) 10 False @ bytes_of '' '' @
     bytes_of (if e820_type e = 1 then '' Free memory'' else '' Reserved memory'') @ [10]"

definition e820_text :: "e820_map list \<Rightarrow> u8 list list" where
  "e820_text es =
     [bytes_of ''E820 map at 80002098'' @ [10], bytes_of ''==========================================================='' @ [10], bytes_of ''Base address | Length | Type'' @ [10]] @ map e820_line es"

text \<open>The format literals as lists of items.\<close>

definition chars :: "string \<Rightarrow> item list" where
  "chars s = map Chr (bytes_of s)"

definition literals :: "(u32 \<Rightarrow> u8 list option) \<Rightarrow> (string \<Rightarrow> u32) \<Rightarrow> bool" where
  "literals mem lit \<longleftrightarrow> (\<forall>s \<in> {'' Free memory'', '' Reserved memory''}. mem (lit s) = Some (bytes_of s))"

lemma fmt_string_simps:
  "fmt_string (chars s @ its) = bytes_of s @ fmt_string its" "fmt_string [] = [0]" "fmt_string (it # its) = fmt_of it @ fmt_string its"
  "arg_bytes (chars s @ its) = arg_bytes its" "arg_bytes [] = []" "arg_bytes (it # its) = arg_of it @ arg_bytes its"
  "rendered mem (chars s @ its) = bytes_of s @ rendered mem its" "rendered mem [] = []"
  "rendered mem (it # its) = render mem it @ rendered mem its"
proof -
  have "concat (map (fmt_of \<circ> Chr) xs) = xs" "concat (map (arg_of \<circ> Chr) xs) = []" "concat (map (render mem \<circ> Chr) xs) = xs" for xs
    by (induction xs) simp_all
  then show "fmt_string (chars s @ its) = bytes_of s @ fmt_string its" "arg_bytes (chars s @ its) = arg_bytes its"
    "rendered mem (chars s @ its) = bytes_of s @ rendered mem its"
    by (simp_all add: fmt_string_def arg_bytes_def rendered_def chars_def)
qed (simp_all add: fmt_string_def arg_bytes_def rendered_def)

lemma chars_ok: "(\<forall>it \<in> set (chars s). item_ok mem it) \<longleftrightarrow> 0 \<notin> set (bytes_of s) \<and> 37 \<notin> set (bytes_of s)"
  by (auto simp: chars_def)

lemma print_line:
  assumes "literals mem lit" and "length str = 20" and "debug_ready d"
  shows "print_debug mem str e820_format [LLHex (e820_base e), LLHex (e820_length e), Dec (e820_type e),
      Str (lit (if e820_type e = 1 then '' Free memory'' else '' Reserved memory''))] d = texts_shown [e820_line e] d"
proof -
  let ?s = "if e820_type e = 1 then '' Free memory'' else '' Reserved memory''"
  let ?its = "chars ''0x'' @ LLHex (e820_base e) # chars '' | 0x'' @ LLHex (e820_length e) # chars '' | '' @ Dec (e820_type e) #
     chars '' '' @ [Str (lit ?s), Chr 10]"
  have m: "mem (lit ?s) = Some (bytes_of ?s)" using assms(1) by (simp add: literals_def)
  have "0 \<notin> set (bytes_of ?s)" by (simp add: bytes_of_def)
  then have ok: "\<forall>it \<in> set ?its. item_ok mem it"
    using chars_ok [of "''0x''" mem] chars_ok [of "'' | 0x''" mem] chars_ok [of "'' | ''" mem] chars_ok [of "'' ''" mem] m
    by (auto simp: bytes_of_def ball_Un)
  have "bytes_of e820_format @ [0] = fmt_string ?its"
    unfolding fmt_string_simps by (simp add: e820_format_def bytes_of_def)
  moreover have "rendered mem ?its = e820_line e" unfolding fmt_string_simps by (simp add: e820_line_def m del: if_split)
  ultimately show ?thesis
    using print_text [OF ok assms(2,3), of e820_format] by (simp add: fmt_string_simps)
qed

lemma print_heads:
  assumes "length str = 20" and "debug_ready d"
  shows "print_debug mem str ''E820 map at %p\<newline>'' [Ptr E820_MAP_VIRT_ADDRESS] d = texts_shown [bytes_of ''E820 map at 80002098'' @ [10]] d"
    "print_debug mem str ''===========================================================\<newline>'' [] d = texts_shown [bytes_of ''==========================================================='' @ [10]] d"
    "print_debug mem str ''Base address | Length | Type\<newline>'' [] d = texts_shown [bytes_of ''Base address | Length | Type'' @ [10]] d"
proof -
  note p = print_text [OF _ assms]
  have a: "hex_field 8 (unat E820_MAP_VIRT_ADDRESS) = bytes_of ''80002098''"
    by (simp add: E820_MAP_VIRT_ADDRESS_def KERNEL_VIRT_ADDR_def BASE_WRITE_ADDR_def BASE_WRITE_PAGE_def hex_field_def text_of_def lsd.simps
        digit_char_def bytes_of_def)
  show "print_debug mem str ''E820 map at %p\<newline>'' [Ptr E820_MAP_VIRT_ADDRESS] d = texts_shown [bytes_of ''E820 map at 80002098'' @ [10]] d"
    using p [of "chars ''E820 map at '' @ [Ptr E820_MAP_VIRT_ADDRESS, Chr 10]" mem "''E820 map at %p\<newline>''" "[Ptr E820_MAP_VIRT_ADDRESS]"]
      chars_ok [of "''E820 map at ''" mem]
    by (simp add: fmt_string_simps a ball_Un) (simp add: bytes_of_def)
  have plain: "print_debug mem str fmt [] d = texts_shown [bytes_of fmt] d" if "0 \<notin> set (bytes_of fmt)" "37 \<notin> set (bytes_of fmt)" for fmt
    using p [of "chars fmt @ []" mem fmt "[]"] chars_ok [of fmt mem] that unfolding fmt_string_simps by simp
  show "print_debug mem str ''===========================================================\<newline>'' [] d = texts_shown [bytes_of ''==========================================================='' @ [10]] d"
    "print_debug mem str ''Base address | Length | Type\<newline>'' [] d = texts_shown [bytes_of ''Base address | Length | Type'' @ [10]] d"
    by (subst plain; simp add: bytes_of_def)+
qed

text \<open>Text after text.\<close>

lemma texts_then:
  assumes "debug_ready d" and "\<And>d. debug_ready d \<Longrightarrow> g d = texts_shown us d"
  shows "texts_shown ts d \<bind> g = texts_shown (ts @ us) d"
  using assms texts_shown_ready [OF assms(1)] unfolding texts_shown_append [OF assms(1)]
  by (cases "texts_shown ts d") auto

lemma dump_entries_shown:
  assumes "literals mem lit" and "length str = 20"
  shows "debug_ready d \<Longrightarrow> dump_entries (print_debug mem str) lit es d = texts_shown (map e820_line es) d"
proof (induction es arbitrary: d)
  case Nil
  then show ?case by (simp add: texts_shown_Nil)
next
  case (Cons e es)
  have "dump_entries (print_debug mem str) lit (e # es) d = texts_shown [e820_line e] d \<bind> dump_entries (print_debug mem str) lit es"
    unfolding dump_entries.simps print_line [OF assms Cons.prems] ..
  then show ?case using texts_then [OF Cons.prems Cons.IH] by simp
qed

lemma dump_e820_shown:
  assumes "literals mem lit" and "length str = 20" and d: "debug_ready d"
  shows "dump_e820 (print_debug mem str) lit es d = texts_shown (e820_text es) d"
proof -
  let ?h = "[bytes_of ''E820 map at 80002098'' @ [10]]" and ?r = "[bytes_of ''==========================================================='' @ [10]]"
    and ?c = "[bytes_of ''Base address | Length | Type'' @ [10]]" and ?es = "map e820_line es"
  note entries = dump_entries_shown [OF assms(1,2)] and heads = print_heads [OF assms(2)]
  have c: "print_debug mem str ''Base address | Length | Type\<newline>'' [] d \<bind> dump_entries (print_debug mem str) lit es =
      texts_shown (?c @ ?es) d" if "debug_ready d" for d
    unfolding heads(3) [OF that] by (rule texts_then [OF that entries])
  have r: "print_debug mem str ''===========================================================\<newline>'' [] d \<bind>
      (\<lambda>d. print_debug mem str ''Base address | Length | Type\<newline>'' [] d \<bind> dump_entries (print_debug mem str) lit es) =
      texts_shown (?r @ ?c @ ?es) d" if "debug_ready d" for d
    unfolding heads(2) [OF that] by (rule texts_then [OF that c])
  show ?thesis
    unfolding dump_e820_def heads(1) [OF d] by (simp only: texts_then [OF d r] e820_text_def append.simps)
qed

text \<open>(C30) \<^verbatim>\<open>dump_e820\<close> on a debug console whose locks are free and that shows everything: three lines of heading and then one
  line per entry of the firmware's map, with base and length as sixteen hexadecimal digits, the type as a number and in words, are
  appended to the debug page, each ended by a zero, and shown on the screen in this order; if they do not end before the last byte of
  the page, the dump writes past it.\<close>

theorem dump_e820_prints:
  assumes "literals mem lit" and "length str = 20" and "debug_ready d"
  shows "dump_e820 (print_debug mem str) lit es d =
    (let c = cur_dbg d; n = length (zero_ended (e820_text es))
     in if c + n \<le> 4095
        then Some (d\<lparr>dbg_page := take c (dbg_page d) @ zero_ended (e820_text es) @ drop (c + n) (dbg_page d), cur_dbg := c + n,
                     dbg_vga := show_texts (e820_text es) (dbg_vga d)\<rparr>)
        else None)"
  unfolding dump_e820_shown [OF assms] texts_shown_def ..

text \<open>One entry of 639 KiB, and the length of the dump.\<close>

definition some_literals :: "u32 \<Rightarrow> u8 list option" where
  "some_literals = [0x80101000 \<mapsto> bytes_of '' Free memory'', 0x80101010 \<mapsto> bytes_of '' Reserved memory'']"

definition literal_at :: "string \<Rightarrow> u32" where
  "literal_at s = (if s = '' Free memory'' then 0x80101000 else 0x80101010)"

lemma one_entry:
  "e820_line \<lparr>e820_base = 0, e820_length = 0x9fc00, e820_type = 1, e820_ACPI = 1\<rparr> =
     bytes_of ''0x0000000000000000 | 0x000000000009FC00 | 1  Free memory'' @ [10]"
  by (simp add: e820_line_def hex_field_def text_of_def lsd.simps itoa_text_def digit_char_def bytes_of_def) (simp add: numeral_eq_Suc)

theorem dump_e820_prints_witness:
  "\<exists>d. dump_e820 (print_debug some_literals (replicate 20 9)) literal_at [\<lparr>e820_base = 0, e820_length = 0x9fc00, e820_type = 1, e820_ACPI = 1\<rparr>]
       debug0 = Some d \<and> take 57 (drop 113 (dbg_page d)) =
     bytes_of ''0x0000000000000000 | 0x000000000009FC00 | 1  Free memory'' @ [10]"
proof -
  let ?es = "[\<lparr>e820_base = 0, e820_length = 0x9fc00, e820_type = 1, e820_ACPI = 1\<rparr>]"
  let ?line = "bytes_of ''0x0000000000000000 | 0x000000000009FC00 | 1  Free memory'' @ [10]"
  have lit: "literals some_literals literal_at" by (simp add: literals_def some_literals_def literal_at_def)
  have d: "debug_ready debug0" "cur_dbg debug0 = 0"
    by (simp_all add: debug_ready_def debug0_def debug_init_def DEBUG_BUFFER_SIZE_def)
  obtain h where z: "zero_ended (e820_text ?es) = h @ ?line @ [0]" "length h = 113"
    by (simp add: zero_ended_def e820_text_def one_entry) (simp add: bytes_of_def)
  have "length ?line = 57" by (simp add: bytes_of_def)
  then show ?thesis
    using dump_e820_prints [OF lit _ d(1), of "replicate 20 9" ?es] z by (simp add: d(2) Let_def)
qed

end
