(* ===== verification/Acpi_Props.thy ===== *)
theory Acpi_Props
  imports Acpi Routing_Props
begin

text \<open>
  What \<^verbatim>\<open>acpi.c\<close> does with the firmware's tables: where the root pointer is found, what the walk over the
  entries of a MADT amounts to and when it does not end, and the way from the bytes of the MADT to the I/O APIC.
\<close>

section \<open>Bytes\<close>

lemma length_bytes_at [simp]: "length (bytes_at m n a) = n"
  by (induction n arbitrary: a) simp_all

lemma bytes_at_append: "bytes_at m (k + n) a = bytes_at m k a @ bytes_at m n (a + of_nat k)"
  by (induction k arbitrary: a) (simp_all add: add.assoc)

text \<open>The bytes \<open>xs\<close> stand in memory from an address on.\<close>

definition reads :: "memory \<Rightarrow> u32 \<Rightarrow> u8 list \<Rightarrow> bool" where
  "reads m a xs \<longleftrightarrow> bytes_at m (length xs) a = xs"

lemma reads_simps [simp]:
  "reads m a []" "reads m a (x # xs) \<longleftrightarrow> m a = x \<and> reads m (a + 1) xs"
  "reads m a (xs @ ys) \<longleftrightarrow> reads m a xs \<and> reads m (a + of_nat (length xs)) ys"
  by (simp_all add: reads_def bytes_at_append)

lemma has_signature_iff: "has_signature m a str \<longleftrightarrow> bytes_at m (length str) a = bytes_of str"
proof -
  have l: "length (bytes_of str) = length str" by (simp add: bytes_of_def)
  then show ?thesis
    using strncmp_prefix [of "bytes_at m (length str) a" "length str" "bytes_of str" 0 "bytes_at m (length str) a @ bytes_of str" "length str"]
    by (auto simp: has_signature_def)
qed

section \<open>The root pointer\<close>

definition bios_addr :: "nat \<Rightarrow> u32" where
  "bios_addr i = 0xE0000 + KERNEL_VIRT_ADDR + of_nat i"

lemma bios_addr_le: "i \<le> 0x20000 \<Longrightarrow> 0xE0000 + KERNEL_VIRT_ADDR + 0x20000 \<le> bios_addr i \<longleftrightarrow> i = 0x20000"
proof -
  assume i: "i \<le> 0x20000"
  then have "unat (bios_addr i) = 0x800E0000 + i"
    unfolding bios_addr_def by (subst unat_add_of_nat) (simp_all add: KERNEL_VIRT_ADDR_def)
  then show ?thesis using i by (simp add: word_le_nat_alt KERNEL_VIRT_ADDR_def)
qed

definition found_at :: "nat option \<Rightarrow> (u32 \<times> nat) option" where
  "found_at r = map_option (\<lambda>k. (bios_addr k, if k = 0x20000 then 2 else 1)) r"

lemma rsdp_bios:
  "i \<le> 0x20000 \<Longrightarrow>
   rsdp_loop m 1 (bios_addr i) (0xE0000 + KERNEL_VIRT_ADDR + 0x20000) =
   found_at (find (\<lambda>k. has_signature m (bios_addr k) RSDPTR_STR) [i..<Suc 0x20000])"
proof (induction "0x20000 - i" arbitrary: i)
  case 0
  then have i: "i = 0x20000" by simp
  have "rsdp_loop m 2 c e = None" for c e by (subst rsdp_loop.simps) simp
  then show ?case using bios_addr_le [of "0x20000"] unfolding i
    by (subst rsdp_loop.simps) (simp add: found_at_def numeral_2_eq_2)
next
  case (Suc d)
  then have i: "i < 0x20000" by simp
  then have e: "\<not> 0xE0000 + KERNEL_VIRT_ADDR + 0x20000 \<le> bios_addr i" using bios_addr_le [of i] by simp
  have "bios_addr i + 1 = bios_addr (Suc i)" by (simp add: bios_addr_def)
  moreover have "[i..<Suc 0x20000] = i # [Suc i..<Suc 0x20000]" using i by (simp add: upt_rec)
  ultimately show ?case using Suc.hyps(1) [of "Suc i"] Suc.hyps(2) i e
    by (subst rsdp_loop.simps) (simp add: found_at_def)
qed

lemma rsdp_from_ebda:
  "end \<le> cur \<Longrightarrow> rsdp_loop m 0 cur end = found_at (find (\<lambda>k. has_signature m (bios_addr k) RSDPTR_STR) [0..<Suc 0x20000])"
proof -
  assume "end \<le> cur"
  then have "rsdp_loop m 0 cur end = rsdp_loop m 1 (bios_addr 0) (0xE0000 + KERNEL_VIRT_ADDR + 0x20000)"
    using bios_addr_le [of 0] by (subst (1 2) rsdp_loop.simps) (simp add: bios_addr_def)
  then show ?thesis using rsdp_bios [of 0 m] by simp
qed

lemma ebda_empty: "push_bit 4 (ucast w) + 1024 \<le> push_bit 4 (ucast w) + KERNEL_VIRT_ADDR" for w :: u16
proof -
  have "unat (push_bit 4 (ucast w) :: u32) < 2 ^ 20"
    using unsigned_less [of w, where 'a = nat]
    by (simp add: push_bit_eq_mult unat_word_ariths unsigned_ucast_eq take_bit_nat_eq_self)
  then have "unat ((push_bit 4 (ucast w) :: u32) + 1024) = unat (push_bit 4 (ucast w) :: u32) + 1024"
    "unat ((push_bit 4 (ucast w) :: u32) + KERNEL_VIRT_ADDR) = unat (push_bit 4 (ucast w) :: u32) + 2 ^ 31"
    by (subst word_add_no_wrap; simp add: KERNEL_VIRT_ADDR_def)+
  then show ?thesis by (simp add: word_le_nat_alt)
qed

text \<open>(C33) The search for the root pointer ends, and finds the first \<^verbatim>\<open>RSD PTR\<close> signature at
  any byte from 0xE0000 up to and including 0x100000; the extended BIOS data area, which \<^verbatim>\<open>bda_read_table\<close> found
  before, is never looked at, because its end is compared as a physical address with a virtual one.\<close>

theorem acpi_find_rsdp_search:
  "acpi_find_rsdp m (bda_read_table m s) =
     (let s = bda_read_table m s
      in case find (\<lambda>k. bytes_at m 8 (bios_addr k) = bytes_of ''RSD PTR '') [0..<0x20001] of
           None \<Rightarrow> (False, s)
         | Some k \<Rightarrow> (True, log_acpi '', RSDT: %x, phase: %d ''
                              [rsdt_address (rsd_at m (bios_addr k)), if k = 0x20000 then 2 else 1]
                              (s\<lparr>rsdp := bios_addr k\<rparr>)))"
proof -
  have e: "ebda (bda_read_table m s) = push_bit 4 (ucast (u16_at m (0x40e + KERNEL_VIRT_ADDR)))"
    by (simp add: bda_read_table_def log_acpi_def Let_def)
  have l: "length RSDPTR_STR = 8" by (simp add: RSDPTR_STR_def)
  have sig: "(\<lambda>k. has_signature m (bios_addr k) RSDPTR_STR) = (\<lambda>k. bytes_at m 8 (bios_addr k) = bytes_of ''RSD PTR '')"
    by (rule ext) (simp only: has_signature_iff l, simp only: RSDPTR_STR_def)
  have u: "[0..<Suc 0x20000] = [0..<0x20001]" by (simp del: upt_Suc)
  show ?thesis
    unfolding acpi_find_rsdp_def e rsdp_from_ebda [OF ebda_empty] sig u found_at_def Let_def
    by (auto split: option.splits)
qed

section \<open>Entries of the MADT\<close>

text \<open>A MADT as ACPI lays it out: the entries the code knows, and others of a type from 5 on.\<close>

datatype madt_item = Known apic_info | Other u8 "u8 list"

fun info_type :: "apic_info \<Rightarrow> u8" where
  "info_type (Processor_Lapic _ _ _) = 0"
| "info_type (Ioapic_Info _ _ _ _) = 1"
| "info_type (Int_Src_Override _ _ _ _) = 2"
| "info_type (Nmi_Source _ _) = 3"
| "info_type (Lapic_Nmi _ _ _) = 4"
| "info_type No_Info = 5"

definition le32 :: "u32 \<Rightarrow> u8 list" where
  "le32 w = le_bytes 4 (unat w)"

definition le16 :: "u16 \<Rightarrow> u8 list" where
  "le16 w = le_bytes 2 (unat w)"

fun info_bytes :: "apic_info \<Rightarrow> u8 list" where
  "info_bytes (Processor_Lapic uid ix flags) = [uid, ix] @ le32 flags"
| "info_bytes (Ioapic_Info ix res address gsib) = [ix, res] @ le32 address @ le32 gsib"
| "info_bytes (Int_Src_Override b source gsi flags) = [b, source] @ le32 gsi @ le16 flags"
| "info_bytes (Nmi_Source flags gsi) = le16 flags @ le32 gsi"
| "info_bytes (Lapic_Nmi uid flags lint) = [uid] @ le16 flags @ [lint]"
| "info_bytes No_Info = []"

fun item_type :: "madt_item \<Rightarrow> u8" where
  "item_type (Known e) = info_type e"
| "item_type (Other t body) = t"

fun item_info :: "madt_item \<Rightarrow> apic_info" where
  "item_info (Known e) = e"
| "item_info (Other t body) = No_Info"

fun item_body :: "madt_item \<Rightarrow> u8 list" where
  "item_body (Known e) = info_bytes e"
| "item_body (Other t body) = body"

definition item_bytes :: "madt_item \<Rightarrow> u8 list" where
  "item_bytes x = [item_type x, of_nat (2 + length (item_body x))] @ item_body x"

definition item_ok :: "madt_item \<Rightarrow> bool" where
  "item_ok x \<longleftrightarrow> length (item_body x) < 254 \<and> (case x of Known e \<Rightarrow> True | Other t body \<Rightarrow> 5 \<le> t)"

lemma length_le32 [simp]: "length (le32 w) = 4" "length (le16 v) = 2"
  by (simp_all add: le32_def le16_def)

lemma u32_at_reads: "reads m a (le32 w) \<Longrightarrow> u32_at m a = w"
  using le_value_bytes [of "unat w" 4] unsigned_less [of w, where 'a = nat]
  by (simp add: reads_def u32_at_def le32_def del: le_bytes.simps bytes_at.simps)

lemma u16_at_reads: "reads m a (le16 w) \<Longrightarrow> u16_at m a = w"
  using le_value_bytes [of "unat w" 2] unsigned_less [of w, where 'a = nat]
  by (simp add: reads_def u16_at_def le16_def del: le_bytes.simps bytes_at.simps)

lemma item_length:
  assumes "unat (w :: u8) = k"
  shows "ucast w = (of_nat k :: u32)" "unat (of_nat k :: u32) = k"
proof -
  have k: "k < 256" using assms unsigned_less [of w, where 'a = nat] by simp
  show "ucast w = (of_nat k :: u32)" using assms of_nat_unat [of w, where 'a = "32 word"] by simp
  show "unat (of_nat k :: u32) = k" using k by (simp add: unat_of_nat)
qed

lemma item_at:
  assumes "reads m a (item_bytes x)" and "item_ok x"
  shows "info (apic_table_at m a) = item_info x" "unat (at_length (apic_table_at m a)) = length (item_bytes x)"
proof -
  have b: "m a = item_type x" "m (a + 1) = of_nat (2 + length (item_body x))" "reads m (a + 2) (item_body x)"
    using assms(1) by (simp_all add: item_bytes_def add.assoc)
  show "unat (at_length (apic_table_at m a)) = length (item_bytes x)"
    using b(2) assms(2) by (simp add: apic_table_at_def item_bytes_def item_ok_def Let_def unat_word_ariths unat_of_nat)
  show "info (apic_table_at m a) = item_info x"
  proof (cases x)
    case (Known e)
    then show ?thesis using b(1,3) assms(2)
      by (cases e) (auto simp: apic_table_at_def Let_def add.assoc item_ok_def intro!: u32_at_reads u16_at_reads)
  next
    case (Other t body)
    then have "t \<noteq> 0" "t \<noteq> 1" "t \<noteq> 2" "t \<noteq> 3" "t \<noteq> 4" using assms(2) by (auto simp: item_ok_def word_le_nat_alt)
    then show ?thesis using b(1) Other by (simp add: apic_table_at_def Let_def)
  qed
qed

section \<open>The walk over the MADT\<close>

fun run_entries :: "allocator \<Rightarrow> apic_info list \<Rightarrow> irqs \<Rightarrow> irqs option" where
  "run_entries allocate [] s = Some s"
| "run_entries allocate (e # es) s = do { s \<leftarrow> madt_entry allocate e s; run_entries allocate es s }"

definition items_bytes :: "madt_item list \<Rightarrow> u8 list" where
  "items_bytes xs = concat (map item_bytes xs)"

lemma item_bytes_length: "2 \<le> length (item_bytes x)"
  by (simp add: item_bytes_def)

lemma madt_loop_items:
  "reads m a (items_bytes xs) \<Longrightarrow> \<forall>x \<in> set xs. item_ok x \<Longrightarrow> xs \<noteq> [] \<Longrightarrow> length (items_bytes xs) < 2 ^ 32 \<Longrightarrow>
   madt_loop m allocate (of_nat (length (items_bytes xs))) a s = run_entries allocate (map item_info xs) s"
proof (induction xs arbitrary: a s)
  case (Cons x xs)
  let ?k = "length (item_bytes x)" and ?n = "length (items_bytes xs)"
  have r: "reads m a (item_bytes x)" "reads m (a + of_nat ?k) (items_bytes xs)"
    using Cons.prems(1) by (simp_all add: items_bytes_def)
  have ok: "item_ok x" using Cons.prems(2) by simp
  have l: "ucast (at_length (apic_table_at m a)) = (of_nat ?k :: u32)" "length (items_bytes (x # xs)) = ?k + ?n"
    using item_length(1) [OF item_at(2) [OF r(1) ok]] by (simp_all add: items_bytes_def)
  have n: "(of_nat ?n :: u32) = 0 \<longleftrightarrow> xs = []"
  proof -
    have "?n < 2 ^ 32" using Cons.prems(4) l(2) by simp
    then have "unat (of_nat ?n :: u32) = ?n" by (simp add: unat_of_nat)
    moreover have "?n = 0 \<longleftrightarrow> xs = []" by (cases xs) (simp_all add: items_bytes_def item_bytes_def)
    ultimately show ?thesis by (metis unat_0 word_unat_eq_iff)
  qed
  have IH: "madt_loop m allocate (of_nat ?n) (a + of_nat ?k) t = run_entries allocate (map item_info xs) t" if "xs \<noteq> []" for t
    using Cons.IH [OF r(2) _ that] Cons.prems(2,4) l(2) by simp
  show ?case
    by (subst madt_loop.simps, unfold Let_def l item_at(1) [OF r(1) ok]) (use IH n in \<open>auto intro!: arg_cong2 [of _ _ _ _ Option.bind]\<close>)
qed simp

lemma madt_loop_stuck:
  assumes "m (a + 1) = 0" and "remaining \<noteq> 0"
  shows "madt_loop m allocate remaining a s = None"
proof -
  have "\<not> (m (a + 1) = 0 \<and> remaining \<noteq> 0)" if "madt_loop m allocate remaining a s = Some t" for t
  proof (rule madt_loop.raw_induct [where P = "\<lambda>m allocate remaining a s t. \<not> (m (a + 1) = 0 \<and> remaining \<noteq> 0)", OF _ that])
    fix f m allocate and remaining :: u32 and a s t
    assume IH: "\<And>m allocate remaining a s t. f m allocate remaining a s = Some t \<Longrightarrow> \<not> (m (a + 1) = 0 \<and> remaining \<noteq> 0)"
      and eq: "(let t = apic_table_at m a; remaining = remaining - ucast (at_length t)
          in Option.bind (madt_entry allocate (info t) s)
               (\<lambda>s. let a = a + ucast (at_length t) in if remaining \<noteq> 0 then f m allocate remaining a s else Some s)) = Some t"
    show "\<not> (m (a + 1) = 0 \<and> remaining \<noteq> 0)"
    proof
      assume c: "m (a + 1) = 0 \<and> remaining \<noteq> 0"
      then have "at_length (apic_table_at m a) = 0" by (simp add: apic_table_at_def Let_def)
      then obtain u where "f m allocate remaining a u = Some t" using eq c by (auto simp: Let_def bind_eq_Some_conv)
      then show False using IH c by blast
    qed
  qed
  then show ?thesis using assms by (cases "madt_loop m allocate remaining a s") auto
qed

text \<open>(C31) The walk over a MADT of well-formed entries ends and is the processing of each entry once, in the
  order of the table: local APICs and entries of a type the code does not know are passed over, whatever their length, I/O APICs
  are allocated and source overrides entered, with the fields the bytes of the entry hold.\<close>

theorem acpi_process_madt_walk:
  assumes "reads m (madt + 44) (items_bytes xs)" and "\<forall>x \<in> set xs. item_ok x" and "xs \<noteq> []"
    and "length (items_bytes xs) < 2 ^ 32 - 44" and "u32_at m (madt + 4) = of_nat (44 + length (items_bytes xs))"
  shows "acpi_process_madt m allocate madt s = run_entries allocate (map item_info xs) s"
  using madt_loop_items [OF assms(1-3)] assms(4,5) by (simp add: acpi_process_madt_def acpi_table_at_def)

text \<open>(C32) One entry whose length byte is 0 and the walk never ends, whatever entries came before, as
  long as bytes remain; there is no check against the length.\<close>

theorem acpi_process_madt_stuck:
  assumes "reads m (madt + 44) (items_bytes xs @ [t, 0])" and "\<forall>x \<in> set xs. item_ok x"
    and "length (items_bytes xs) < unat (u32_at m (madt + 4)) - 44"
  shows "acpi_process_madt m allocate madt s = None"
proof -
  have "madt_loop m allocate remaining a s = None"
    if "reads m a (items_bytes xs @ [t, 0])" "length (items_bytes xs) < unat remaining" "\<forall>x \<in> set xs. item_ok x" for remaining a
    using that
  proof (induction xs arbitrary: remaining a s)
    case Nil
    then show ?case by (intro madt_loop_stuck) (auto simp: items_bytes_def)
  next
    case (Cons x xs)
    let ?k = "length (item_bytes x)"
    have r: "reads m a (item_bytes x)" "reads m (a + of_nat ?k) (items_bytes xs @ [t, 0])"
      using Cons.prems(1) by (simp_all add: items_bytes_def add.assoc)
    have ok: "item_ok x" using Cons.prems(3) by simp
    note l = item_length [OF item_at(2) [OF r(1) ok]]
    have n: "?k + length (items_bytes xs) < unat remaining" using Cons.prems(2) by (simp add: items_bytes_def)
    then have "unat (remaining - of_nat ?k) = unat remaining - ?k"
      by (metis add_leD1 l(2) less_imp_le unat_sub word_le_nat_alt)
    then have "length (items_bytes xs) < unat (remaining - of_nat ?k)" using n by simp
    from Cons.IH [OF r(2) this] Cons.prems(3) have "madt_loop m allocate (remaining - of_nat ?k) (a + of_nat ?k) t = None" for t
      by simp
    moreover have "remaining \<noteq> of_nat ?k" using n l(2) by auto
    ultimately show ?case
      by (subst madt_loop.simps) (simp add: Let_def l(1) bind_eq_None_conv del: of_nat_add)
  qed
  moreover have "unat (u32_at m (madt + 4) - 44) = unat (u32_at m (madt + 4)) - 44"
    using assms(3) by (subst unat_sub) (simp_all add: word_le_nat_alt)
  ultimately show ?thesis using assms by (simp add: acpi_process_madt_def acpi_table_at_def)
qed

section \<open>From the MADT to the I/O APIC\<close>

fun override_of :: "apic_info \<Rightarrow> src_override list" where
  "override_of (Int_Src_Override b source gsi flags) =
     [\<lparr>ov_bus = b, ov_source = source, ov_gsi = gsi, ov_polarity = ucast (take_bit 2 flags),
       ov_trigger = ucast (take_bit 2 (drop_bit 2 flags))\<rparr>]"
| "override_of _ = []"

definition overrides_of :: "apic_info list \<Rightarrow> src_override list" where
  "overrides_of es = concat (map override_of es)"

text \<open>An I/O APIC has a slot in the array and its page can be mapped; \<open>io_base\<close> is where the last entry puts number 0.\<close>

fun info_ok :: "nat \<Rightarrow> apic_info \<Rightarrow> bool" where
  "info_ok n (Ioapic_Info ix _ address _) \<longleftrightarrow>
     unat ix < n \<and> KERNEL_VIRT_ADDR \<le> address \<and> unat address \<le> 2 ^ 32 - 0x2000"
| "info_ok n _ \<longleftrightarrow> True"

fun io_base :: "apic_info list \<Rightarrow> u32 \<Rightarrow> u32" where
  "io_base [] b = b"
| "io_base (Ioapic_Info ix _ address _ # es) b = io_base es (if ix = 0 then address else b)"
| "io_base (_ # es) b = io_base es b"

definition paging_ready :: "kernel_layout \<Rightarrow> irqs \<Rightarrow> bool" where
  "paging_ready lay s \<longleftrightarrow> layout_ok lay (pgdir_for lay 0 0) \<and> locks_free (paging_of (mach s)) \<and>
     pg_inv lay (pgdir_for lay 0 0) (pmem (paging_of (mach s)))"

text \<open>Kernel mappings write only the kernel's tables and the kernel half of the master directory.\<close>

definition tables_only :: "kernel_layout \<Rightarrow> (u32 \<Rightarrow> u32) \<Rightarrow> (u32 \<Rightarrow> u32) \<Rightarrow> bool" where
  "tables_only lay m m' \<longleftrightarrow>
     (\<forall>a. (\<forall>k < 2 ^ 19. a \<noteq> pte_at lay k \<and> a \<noteq> pgd_at (pgdir_for lay 0 0) (k div 1024)) \<longrightarrow> m' a = m a)"

lemma tables_only_refl [simp]: "tables_only lay m m"
  by (simp add: tables_only_def)

lemma tables_only_trans: "tables_only lay m m' \<Longrightarrow> tables_only lay m' m'' \<Longrightarrow> tables_only lay m m''"
  unfolding tables_only_def by metis

lemma map_ready:
  assumes "paging_ready lay s" and "KERNEL_VIRT_ADDR \<le> a" and "unat a + unat len \<le> 2 ^ 32 - 4096"
  shows "\<exists>p. map_kernel_with_pagetable lay 0 a phys len fl 0 (paging_of (mach s)) = Some p \<and>
     locks_free p \<and> pg_inv lay (pgdir_for lay 0 0) (pmem p) \<and> tables_only lay (pmem (paging_of (mach s))) (pmem p)"
proof -
  obtain p where p: "map_kernel_with_pagetable lay 0 a phys len fl 0 (paging_of (mach s)) = Some p"
     "locks_free p" "pg_inv lay (pgdir_for lay 0 0) (pmem p)"
     "\<forall>x. (\<forall>k. first_page a \<le> k \<and> k < end_page a len \<longrightarrow> x \<noteq> pte_at lay k \<and> x \<noteq> pgd_at (pgdir_for lay 0 0) (k div 1024)) \<longrightarrow>
        pmem p x = pmem (paging_of (mach s)) x"
    using map_range [OF _ refl _ _ _ _ assms(2,3), of lay 0 0 "paging_of (mach s)" phys fl] assms(1)
    by (auto simp: paging_ready_def)
  moreover have "k < 2 ^ 19" if "k < end_page a len" for k using range_pages(4) [OF assms(2,3)] that by simp
  then have "tables_only lay (pmem (paging_of (mach s))) (pmem p)" using p(4) unfolding tables_only_def by blast
  ultimately show ?thesis by blast
qed

text \<open>What only the interrupt handlers work on.\<close>

definition handler_part :: "irqs \<Rightarrow> keyboard \<times> u32 list \<times> u32 list \<times> u32 list" where
  "handler_part s = (kbd s, timer_counter s, seconds s, sched_tick (mach s))"

lemma handler_part_simps [simp]:
  "handler_part (s\<lparr>ioapics := a\<rparr>) = handler_part s" "handler_part (s\<lparr>mmio := ws\<rparr>) = handler_part s"
  "handler_part (s\<lparr>interrupts_cpu_0 := t\<rparr>) = handler_part s" "handler_part (s\<lparr>buses := b\<rparr>) = handler_part s"
  "handler_part (s\<lparr>interrupts_set := c\<rparr>) = handler_part s" "handler_part (s\<lparr>ioapic_initialized := c\<rparr>) = handler_part s"
  "sched_tick m = sched_tick (mach s) \<Longrightarrow> handler_part (s\<lparr>mach := m\<rparr>) = handler_part s"
  "handler_part (log_irq f args s) = handler_part s"
  by (simp_all add: handler_part_def log_irq_def log_printf_def)

text \<open>What the entries leave alone, and the array of I/O APICs with \<open>b\<close> as the base of the first.\<close>

definition routing_frame :: "kernel_layout \<Rightarrow> u32 \<Rightarrow> irqs \<Rightarrow> irqs \<Rightarrow> bool" where
  "routing_frame lay b s s' \<longleftrightarrow> interrupts_set s' = interrupts_set s \<and> lapic_id s' = lapic_id s \<and> buses s' = buses s \<and>
     length (ioapics s') = length (ioapics s) \<and> base_register (ioapics s' ! 0) = b \<and> paging_ready lay s' \<and>
     tables_only lay (pmem (paging_of (mach s))) (pmem (paging_of (mach s'))) \<and>
     tables_of (mach s') = tables_of (mach s) \<and> regs_of (mach s') = regs_of (mach s) \<and> handler_part s' = handler_part s"

lemma log_irq_simps [simp]:
  "interrupts_set (log_irq f a s) = interrupts_set s" "lapic_id (log_irq f a s) = lapic_id s" "buses (log_irq f a s) = buses s"
  "ioapics (log_irq f a s) = ioapics s" "interrupts_cpu_0 (log_irq f a s) = interrupts_cpu_0 s"
  "paging_of (mach (log_irq f a s)) = paging_of (mach s)" "tables_of (mach (log_irq f a s)) = tables_of (mach s)"
  "regs_of (mach (log_irq f a s)) = regs_of (mach s)" "paging_ready lay (log_irq f a s) = paging_ready lay s"
  by (simp_all add: log_irq_def log_printf_def paging_ready_def)

lemma store32_len: "k + 4 \<le> length xs \<Longrightarrow> \<exists>ys. store32 k w xs = Some ys \<and> length ys = length xs"
  by (simp add: store32_def)

lemma ioapic_read_ok:
  assumes "unat ix < length (ioapics s)" and "4 \<le> length temp"
  shows "\<exists>t ws. ioapic_read dev ix reg 4 temp s = Some (t, s\<lparr>mmio := ws\<rparr>) \<and> length t = length temp"
proof -
  let ?io = "ioapics s ! unat ix"
  obtain t where "store32 0 (dev (mmio s @ [W8 (base_register ?io) reg]) (base_register ?io + 0x10)) temp = Some t"
    "length t = length temp"
    using store32_len [of 0 temp] assms(2) by auto
  then show ?thesis using assms(1) by (auto simp: ioapic_read_def mmio_put_def Let_def)
qed

lemma ioapic_allocate_ok:
  assumes "unat ix < length (ioapics s)" and "4 \<le> length temp" and "paging_ready lay s"
    and "KERNEL_VIRT_ADDR \<le> base" and "unat base \<le> 2 ^ 32 - 0x2000"
  shows "\<exists>s'. ioapic_allocate lay 0 dev temp ix base gsib s = Some s' \<and> interrupts_cpu_0 s' = interrupts_cpu_0 s \<and>
     routing_frame lay (if ix = 0 then base else base_register (ioapics s ! 0)) s s'"
proof -
  let ?io = "(ioapics s ! unat ix)\<lparr>ioapic_id := ix, base_register := base, gsi_base := gsib\<rparr>"
  have l: "unat base + unat PAGE_SIZE \<le> 2 ^ 32 - 4096" using assms(5) by (simp add: PAGE_SIZE_def)
  obtain p where p: "map_kernel_with_pagetable lay 0 base base PAGE_SIZE PTE_WRITE 0 (paging_of (mach s)) = Some p"
     "locks_free p" "pg_inv lay (pgdir_for lay 0 0) (pmem p)" "tables_only lay (pmem (paging_of (mach s))) (pmem p)"
    using map_ready [OF assms(3,4) l] by blast
  let ?s = "s\<lparr>ioapics := (ioapics s)[unat ix := ?io], mach := (mach s)\<lparr>paging_of := p\<rparr>\<rparr>"
  have i: "unat ix < length (ioapics ?s)" "unat ix < length (ioapics (?s\<lparr>mmio := ws\<rparr>))" for ws using assms(1) by simp_all
  obtain t ws where r: "ioapic_read dev ix 0 4 temp ?s = Some (t, ?s\<lparr>mmio := ws\<rparr>)" "length t = length temp"
    using ioapic_read_ok [OF i(1) assms(2)] by blast
  obtain u vs where v: "ioapic_read dev ix 1 4 temp (?s\<lparr>mmio := ws\<rparr>) = Some (u, ?s\<lparr>mmio := vs\<rparr>)" "length u = length temp"
    using ioapic_read_ok [OF i(2) assms(2)] by fastforce
  have "ix = 0 \<longleftrightarrow> unat ix = 0" by (simp add: unat_eq_0)
  then show ?thesis
    using assms p r v unfolding ioapic_allocate_def
    by (auto simp: ioapic_read_id_def ioapic_read_version_def load32_def Let_def routing_frame_def paging_ready_def nth_list_update)
qed

lemma routing_frame_trans:
  "routing_frame lay b s t \<Longrightarrow> routing_frame lay c t u \<Longrightarrow> routing_frame lay c s u"
  by (auto simp: routing_frame_def intro: tables_only_trans)

lemma madt_entry_ok:
  assumes "info_ok (length (ioapics s)) e" and "\<forall>v \<in> set (override_of e). in_table (length (interrupts_cpu_0 s)) v"
    and "paging_ready lay s" and "4 \<le> length temp"
  shows "\<exists>s'. madt_entry (ioapic_allocate lay 0 dev temp) e s = Some s' \<and>
     routing_frame lay (io_base [e] (base_register (ioapics s ! 0))) s s' \<and> length (interrupts_cpu_0 s') = length (interrupts_cpu_0 s) \<and>
     (\<forall>i < length (interrupts_cpu_0 s). interrupts_cpu_0 s' ! i = fold (\<lambda>v. overridden_by v i) (override_of e) (interrupts_cpu_0 s ! i))"
proof (cases e)
  case (Ioapic_Info ix r address gsib)
  let ?s = "log_irq ''IOAPIC_ID: %d, Addr: %x, GSIBase: %d '' [ucast ix, address, gsib] s"
  obtain s' where "ioapic_allocate lay 0 dev temp ix address gsib ?s = Some s'" "interrupts_cpu_0 s' = interrupts_cpu_0 ?s"
    "routing_frame lay (if ix = 0 then address else base_register (ioapics ?s ! 0)) ?s s'"
    using ioapic_allocate_ok [of ix ?s temp lay address dev gsib] assms Ioapic_Info by auto
  then show ?thesis using Ioapic_Info by (intro exI [of _ s']) (auto simp: routing_frame_def)
next
  case (Int_Src_Override b source gsi flags)
  let ?v = "\<lparr>ov_bus = b, ov_source = source, ov_gsi = gsi, ov_polarity = ucast (take_bit 2 flags),
       ov_trigger = ucast (take_bit 2 (drop_bit 2 flags))\<rparr>"
  obtain xs where "interrupt_set_override b source gsi (ucast (take_bit 2 flags)) (ucast (take_bit 2 (drop_bit 2 flags))) s =
      Some (s\<lparr>interrupts_cpu_0 := xs\<rparr>)" "length xs = length (interrupts_cpu_0 s)"
     "\<forall>i < length xs. xs ! i = overridden_by ?v i (interrupts_cpu_0 s ! i)"
    using set_override_ok [of s ?v] assms(2) Int_Src_Override by auto
  then show ?thesis using Int_Src_Override assms(3)
    by (intro exI [of _ "s\<lparr>interrupts_cpu_0 := xs\<rparr>"]) (auto simp: routing_frame_def paging_ready_def)
qed (use assms(3) in \<open>simp_all add: routing_frame_def\<close>)

lemma io_base_Cons: "io_base (e # es) b = io_base es (io_base [e] b)"
  by (cases e) simp_all

lemma run_entries_ok:
  "\<forall>e \<in> set es. info_ok (length (ioapics s)) e \<Longrightarrow> \<forall>v \<in> set (overrides_of es). in_table (length (interrupts_cpu_0 s)) v \<Longrightarrow>
   paging_ready lay s \<Longrightarrow> 4 \<le> length temp \<Longrightarrow>
   \<exists>s'. run_entries (ioapic_allocate lay 0 dev temp) es s = Some s' \<and>
     routing_frame lay (io_base es (base_register (ioapics s ! 0))) s s' \<and> length (interrupts_cpu_0 s') = length (interrupts_cpu_0 s) \<and>
     (\<forall>i < length (interrupts_cpu_0 s). interrupts_cpu_0 s' ! i = fold (\<lambda>v. overridden_by v i) (overrides_of es) (interrupts_cpu_0 s ! i))"
proof (induction es arbitrary: s)
  case Nil
  then show ?case by (simp add: routing_frame_def overrides_of_def)
next
  case (Cons e es)
  obtain t where t: "madt_entry (ioapic_allocate lay 0 dev temp) e s = Some t"
     "routing_frame lay (io_base [e] (base_register (ioapics s ! 0))) s t" "length (interrupts_cpu_0 t) = length (interrupts_cpu_0 s)"
     "\<forall>i < length (interrupts_cpu_0 s). interrupts_cpu_0 t ! i = fold (\<lambda>v. overridden_by v i) (override_of e) (interrupts_cpu_0 s ! i)"
    using madt_entry_ok [of s e lay temp dev] Cons.prems by (auto simp: overrides_of_def)
  then have f: "length (ioapics t) = length (ioapics s)" "paging_ready lay t"
    "base_register (ioapics t ! 0) = io_base [e] (base_register (ioapics s ! 0))" by (simp_all add: routing_frame_def)
  obtain s' where "run_entries (ioapic_allocate lay 0 dev temp) es t = Some s'"
     "routing_frame lay (io_base es (base_register (ioapics t ! 0))) t s'" "length (interrupts_cpu_0 s') = length (interrupts_cpu_0 t)"
     "\<forall>i < length (interrupts_cpu_0 t). interrupts_cpu_0 s' ! i = fold (\<lambda>v. overridden_by v i) (overrides_of es) (interrupts_cpu_0 t ! i)"
    using Cons.IH [of t] Cons.prems f(1,2) t(3) by (auto simp: overrides_of_def)
  then show ?case using t routing_frame_trans [OF t(2)] unfolding f(3)
    by (intro exI [of _ s']) (auto simp: io_base_Cons [of e es] overrides_of_def)
qed

section \<open>All tables\<close>

text \<open>A MADT with the entries \<open>xs\<close>, and a table that \<^verbatim>\<open>acpi_process_table\<close> can take: its bytes can be mapped, and if it is
  a MADT its entries are well formed, its I/O APICs have a slot and its overrides are inside the table of interrupts.\<close>

definition madt_ok :: "memory \<Rightarrow> u32 \<Rightarrow> madt_item list \<Rightarrow> bool" where
  "madt_ok m a xs \<longleftrightarrow> reads m (a + 44) (items_bytes xs) \<and> (\<forall>x \<in> set xs. item_ok x) \<and> xs \<noteq> [] \<and>
     length (items_bytes xs) < 2 ^ 32 - 44 \<and> u32_at m (a + 4) = of_nat (44 + length (items_bytes xs))"

definition table_ok :: "memory \<Rightarrow> nat \<Rightarrow> u32 \<Rightarrow> madt_item list \<Rightarrow> bool" where
  "table_ok m n a xs \<longleftrightarrow> KERNEL_VIRT_ADDR \<le> a \<and> unat a + unat (u32_at m (a + 4)) \<le> 2 ^ 32 - 4096 \<and>
     (if bytes_at m 4 a = bytes_of ''APIC''
      then madt_ok m a xs \<and> (\<forall>x \<in> set xs. info_ok n (item_info x)) \<and> (\<forall>v \<in> set (overrides_of (map item_info xs)). in_table 24 v)
      else xs = [])"

definition facp_8042 :: "memory \<Rightarrow> u32 \<Rightarrow> bool" where
  "facp_8042 m a \<longleftrightarrow> bytes_at m 4 a = bytes_of ''FACP'' \<and> bit (u16_at m (a + 109)) 1"

lemma signature_simps: "has_signature m a APIC_STR \<longleftrightarrow> bytes_at m 4 a = bytes_of ''APIC''"
  "has_signature m a FACP_STR \<longleftrightarrow> bytes_at m 4 a = bytes_of ''FACP''"
proof -
  have "length APIC_STR = 4" "length FACP_STR = 4" by (simp_all add: APIC_STR_def FACP_STR_def)
  then show "has_signature m a APIC_STR \<longleftrightarrow> bytes_at m 4 a = bytes_of ''APIC''"
    "has_signature m a FACP_STR \<longleftrightarrow> bytes_at m 4 a = bytes_of ''FACP''"
    unfolding has_signature_iff by (simp_all only: APIC_STR_def FACP_STR_def)
qed

lemma FACP_not_APIC: "bytes_of ''FACP'' \<noteq> bytes_of ''APIC''" "bytes_of ''APIC'' \<noteq> bytes_of ''FACP''"
  by (simp_all add: bytes_of_def)

lemma and_2: "w AND 2 \<noteq> 0 \<longleftrightarrow> bit w 1" for w :: u16
  using and_exp_eq_0_iff_not_bit [of w 1] by simp

text \<open>What one step does to the interrupts and to the rest of the state.\<close>

definition acpi_step :: "kernel_layout \<Rightarrow> apic_info list \<Rightarrow> bool \<Rightarrow> acpi \<Rightarrow> acpi \<Rightarrow> bool" where
  "acpi_step lay es ctl s s' \<longleftrightarrow>
     routing_frame lay (io_base es (base_register (ioapics (irqs_of s) ! 0))) (irqs_of s) (irqs_of s') \<and>
     length (interrupts_cpu_0 (irqs_of s')) = length (interrupts_cpu_0 (irqs_of s)) \<and>
     (\<forall>i < length (interrupts_cpu_0 (irqs_of s)).
        interrupts_cpu_0 (irqs_of s') ! i = fold (\<lambda>v. overridden_by v i) (overrides_of es) (interrupts_cpu_0 (irqs_of s) ! i)) \<and>
     keyboard_controller_8042_present s' = (keyboard_controller_8042_present s \<or> ctl) \<and> rsdp s' = rsdp s"

lemma io_base_append: "io_base (es @ fs) b = io_base fs (io_base es b)"
  by (induction es b rule: io_base.induct) auto

lemma acpi_step_trans: "acpi_step lay es c s t \<Longrightarrow> acpi_step lay fs d t u \<Longrightarrow> acpi_step lay (es @ fs) (c \<or> d) s u"
  unfolding acpi_step_def by (auto simp: routing_frame_def io_base_append overrides_of_def intro: tables_only_trans)

lemma acpi_step_ready: "acpi_step lay es c s t \<Longrightarrow> paging_ready lay (irqs_of t)"
  by (simp add: acpi_step_def routing_frame_def)

lemma acpi_step_lengths: "acpi_step lay es c s t \<Longrightarrow> length (ioapics (irqs_of t)) = length (ioapics (irqs_of s)) \<and>
    length (interrupts_cpu_0 (irqs_of t)) = length (interrupts_cpu_0 (irqs_of s))"
  by (simp add: acpi_step_def routing_frame_def)

lemma log_step: "paging_ready lay (irqs_of s) \<Longrightarrow> acpi_step lay [] False s (log_acpi f a s)"
  by (simp add: acpi_step_def routing_frame_def overrides_of_def log_acpi_def)

lemma upd_paging_step:
  assumes "paging_ready lay (irqs_of s)" and "KERNEL_VIRT_ADDR \<le> a" and "unat a + unat len \<le> 2 ^ 32 - 4096"
  shows "\<exists>s'. upd_paging (map_kernel_with_pagetable lay 0 a phys len fl 0) s = Some s' \<and> acpi_step lay [] False s s' \<and>
     (\<exists>p. s' = s\<lparr>irqs_of := (irqs_of s)\<lparr>mach := (mach (irqs_of s))\<lparr>paging_of := p\<rparr>\<rparr>\<rparr>)"
proof -
  obtain p where p: "map_kernel_with_pagetable lay 0 a phys len fl 0 (paging_of (mach (irqs_of s))) = Some p"
     "locks_free p" "pg_inv lay (pgdir_for lay 0 0) (pmem p)" "tables_only lay (pmem (paging_of (mach (irqs_of s)))) (pmem p)"
    using map_ready [OF assms] by blast
  then show ?thesis using assms(1)
    by (auto simp: upd_paging_def upd_irqs_def acpi_step_def routing_frame_def paging_ready_def overrides_of_def)
qed

lemma process_table_ok:
  assumes ok: "table_ok m (length (ioapics (irqs_of s))) a xs" and len: "length (interrupts_cpu_0 (irqs_of s)) = 24"
    and ready: "paging_ready lay (irqs_of s)" and temp: "4 \<le> length temp"
  shows "\<exists>s'. acpi_process_table lay 0 m (ioapic_allocate lay 0 dev temp) a s = Some s' \<and>
     acpi_step lay (map item_info xs) (facp_8042 m a) s s' \<and> acpi_tables s' = acpi_tables s"
proof -
  let ?len = "table_length (acpi_table_at m a)"
  let ?log = "log_acpi ''ACPI Table: %p, %s, %d, %d '' [a, u32_at m a, ?len, sizeof_ACPI_TABLE]"
  have l: "?len = u32_at m (a + 4)" by (simp add: acpi_table_at_def)
  obtain t where t: "upd_paging (map_kernel_linear_with_pagetable lay 0 a ?len PTE_PRESENT 0) s = Some t"
     "acpi_step lay [] False s t" "acpi_tables t = acpi_tables s"
    using upd_paging_step [OF ready, of a ?len "a - KERNEL_VIRT_ADDR" PTE_PRESENT] ok
    unfolding map_kernel_linear_with_pagetable_def [abs_def] l table_ok_def by auto
  define u where "u = ?log t"
  have u: "acpi_step lay [] False s u" "acpi_tables u = acpi_tables s"
    using acpi_step_trans [OF t(2) log_step [OF acpi_step_ready [OF t(2)]]] t(3) by (simp_all add: u_def log_acpi_def)
  have run: "acpi_process_table lay 0 m (ioapic_allocate lay 0 dev temp) a s =
     (if bytes_at m 4 a = bytes_of ''APIC'' then upd_irqs (acpi_process_madt m (ioapic_allocate lay 0 dev temp) a) u
      else if bytes_at m 4 a = bytes_of ''FACP'' then
        let b = u16_at m (a + 109); u = log_acpi ''iapc_boot_arch: %d\<newline>'' [ucast b] u
        in if bit b 1 then Some (log_acpi ''8042 controller present\<newline>'' [] (u\<lparr>keyboard_controller_8042_present := True\<rparr>)) else Some u
      else Some u)"
    unfolding acpi_process_table_def Let_def t(1) signature_simps and_2 u_def by simp
  consider "bytes_at m 4 a = bytes_of ''APIC''" "\<not> facp_8042 m a"
    | "bytes_at m 4 a = bytes_of ''FACP''" "bytes_at m 4 a \<noteq> bytes_of ''APIC''"
    | "bytes_at m 4 a \<noteq> bytes_of ''APIC''" "bytes_at m 4 a \<noteq> bytes_of ''FACP''" "\<not> facp_8042 m a"
    using FACP_not_APIC by (auto simp: facp_8042_def)
  then show ?thesis
  proof cases
    case 1
    then have madt: "madt_ok m a xs" "\<forall>x \<in> set xs. info_ok (length (ioapics (irqs_of s))) (item_info x)"
       "\<forall>v \<in> set (overrides_of (map item_info xs)). in_table 24 v"
      using ok by (simp_all add: table_ok_def)
    obtain i where i: "run_entries (ioapic_allocate lay 0 dev temp) (map item_info xs) (irqs_of u) = Some i"
       "acpi_step lay (map item_info xs) False u (u\<lparr>irqs_of := i\<rparr>)"
      using run_entries_ok [of "map item_info xs" "irqs_of u" lay temp dev] madt(2,3) acpi_step_lengths [OF u(1)] len temp
        acpi_step_ready [OF u(1)] by (auto simp: acpi_step_def)
    have "acpi_process_madt m (ioapic_allocate lay 0 dev temp) a (irqs_of u) = Some i"
      using madt_loop_items [of m "a + 44" xs "ioapic_allocate lay 0 dev temp" "irqs_of u"] madt(1) i(1)
      by (simp add: acpi_process_madt_def acpi_table_at_def madt_ok_def)
    then show ?thesis using 1 run u(2) acpi_step_trans [OF u(1) i(2)] by (simp add: upd_irqs_def)
  next
    case 2
    then have xs: "xs = []" and f: "facp_8042 m a \<longleftrightarrow> bit (u16_at m (a + 109)) 1"
      using ok by (simp_all add: table_ok_def facp_8042_def)
    show ?thesis using 2 u xs f run by (auto simp: Let_def acpi_step_def routing_frame_def log_acpi_def)
  next
    case 3
    then have "xs = []" using ok by (simp add: table_ok_def)
    then show ?thesis using 3 u run by simp
  qed
qed

definition table_addr :: "memory \<Rightarrow> u32 \<Rightarrow> nat \<Rightarrow> u32" where
  "table_addr m r i = u32_at m (r + sizeof_ACPI_TABLE + of_nat (4 * i)) + KERNEL_VIRT_ADDR"

definition all_entries :: "(nat \<Rightarrow> madt_item list) \<Rightarrow> nat list \<Rightarrow> apic_info list" where
  "all_entries items is = concat (map (\<lambda>i. map item_info (items i)) is)"

lemma process_tables_ok:
  "\<forall>i \<in> set is. table_ok m (length (ioapics (irqs_of s))) (table_addr m r i) (items i) \<Longrightarrow>
   length (interrupts_cpu_0 (irqs_of s)) = 24 \<Longrightarrow> paging_ready lay (irqs_of s) \<Longrightarrow> 4 \<le> length temp \<Longrightarrow>
   acpi_tables s = r + sizeof_ACPI_TABLE \<Longrightarrow>
   \<exists>s'. process_tables lay 0 m (ioapic_allocate lay 0 dev temp) is s = Some s' \<and>
     acpi_step lay (all_entries items is) (\<exists>i \<in> set is. facp_8042 m (table_addr m r i)) s s'"
proof (induction "is" arbitrary: s)
  case Nil
  then show ?case by (simp add: all_entries_def acpi_step_def routing_frame_def overrides_of_def)
next
  case (Cons i js)
  obtain t where t: "acpi_process_table lay 0 m (ioapic_allocate lay 0 dev temp) (table_addr m r i) s = Some t"
     "acpi_step lay (map item_info (items i)) (facp_8042 m (table_addr m r i)) s t" "acpi_tables t = acpi_tables s"
    using process_table_ok [of m s "table_addr m r i" "items i" lay temp dev] Cons.prems by auto
  obtain s' where "process_tables lay 0 m (ioapic_allocate lay 0 dev temp) js t = Some s'"
     "acpi_step lay (all_entries items js) (\<exists>i \<in> set js. facp_8042 m (table_addr m r i)) t s'"
    using Cons.IH [of t] Cons.prems acpi_step_lengths [OF t(2)] acpi_step_ready [OF t(2)] t(3) by auto
  then show ?case using t(1) acpi_step_trans [OF t(2)] Cons.prems(5)
    by (intro exI [of _ s']) (simp add: table_addr_def all_entries_def)
qed

text \<open>The firmware: a root pointer at byte \<open>k\<close> of the BIOS area that is the first, the RSDT it names with \<open>n\<close> tables,
  and each of them as \<^const>\<open>table_ok\<close> asks.\<close>

definition rsdt_of :: "memory \<Rightarrow> nat \<Rightarrow> u32" where
  "rsdt_of m k = (let a = u32_at m (bios_addr k + 16) in if KERNEL_VIRT_ADDR \<le> a then a else a + KERNEL_VIRT_ADDR)"

definition firmware_ok :: "memory \<Rightarrow> nat \<Rightarrow> nat \<Rightarrow> nat \<Rightarrow> (nat \<Rightarrow> madt_item list) \<Rightarrow> bool" where
  "firmware_ok m apics k n items \<longleftrightarrow>
     find (\<lambda>k. bytes_at m 8 (bios_addr k) = bytes_of ''RSD PTR '') [0..<0x20001] = Some k \<and>
     u32_at m (rsdt_of m k + 4) = of_nat (36 + 4 * n) \<and> unat (rsdt_of m k) + (36 + 4 * n) \<le> 2 ^ 32 - 4096 \<and>
     (\<forall>i < n. table_ok m apics (table_addr m (rsdt_of m k) i) (items i))"

lemma acpi_find_ok:
  assumes "firmware_ok m apics k n items" and "ebda s = push_bit 4 (ucast (w :: u16))"
  shows "\<exists>f a. acpi_find_rsdp m s = (True, log_acpi f a (s\<lparr>rsdp := bios_addr k\<rparr>))"
proof -
  have l: "length RSDPTR_STR = 8" by (simp add: RSDPTR_STR_def)
  have "(\<lambda>k. has_signature m (bios_addr k) RSDPTR_STR) = (\<lambda>k. bytes_at m 8 (bios_addr k) = bytes_of ''RSD PTR '')"
    by (rule ext) (simp only: has_signature_iff l, simp only: RSDPTR_STR_def)
  moreover have "[0..<Suc 0x20000] = [0..<0x20001]" by (simp del: upt_Suc)
  ultimately show ?thesis
    using assms(1) unfolding acpi_find_rsdp_def assms(2) rsdp_from_ebda [OF ebda_empty] firmware_ok_def found_at_def by auto
qed

lemma acpi_step_simps [simp]:
  "acpi_step lay es c s (s'\<lparr>rsdt := x\<rparr>) = acpi_step lay es c s s'" "acpi_step lay es c s (s'\<lparr>acpi_tables := y\<rparr>) = acpi_step lay es c s s'"
  "acpi_step lay es c s (s'\<lparr>num_acpi_tables := z\<rparr>) = acpi_step lay es c s s'"
  "acpi_step lay es c (s\<lparr>acpi_tables := y\<rparr>) s' = acpi_step lay es c s s'"
  by (simp_all add: acpi_step_def)

lemma log_acpi_simps [simp]: "rsdt (log_acpi f a s) = rsdt s" "rsdp (log_acpi f a s) = rsdp s"
  "acpi_tables (log_acpi f a s) = acpi_tables s" "paging_ready lay (irqs_of (log_acpi f a s)) = paging_ready lay (irqs_of s)"
  by (simp_all add: log_acpi_def)

lemma log_after: "acpi_step lay es c s s' \<Longrightarrow> acpi_step lay es c s (log_acpi f a s')"
proof -
  assume h: "acpi_step lay es c s s'"
  from acpi_step_trans [OF h log_step [OF acpi_step_ready [OF h], of f a]] show ?thesis by simp
qed

lemma map_rsdt_step:
  assumes "paging_ready lay (irqs_of s)" and "KERNEL_VIRT_ADDR \<le> a" and "unat a + unat len \<le> 2 ^ 32 - 4096"
  shows "\<exists>s'. map_rsdt lay 0 address a len s = Some s' \<and> acpi_step lay [] False s s' \<and> rsdt s' = rsdt s \<and>
    lapic_present (irqs_of s') = lapic_present (irqs_of s)"
  using upd_paging_step [OF assms, of _ PTE_PRESENT] unfolding map_rsdt_def map_kernel_linear_with_pagetable_def [abs_def]
  by (fastforce split: if_splits)

lemma acpi_init_ok:
  assumes fw: "firmware_ok m (length (ioapics (irqs_of s))) k n items" and ebda: "ebda s = push_bit 4 (ucast (w :: u16))"
    and len: "length (interrupts_cpu_0 (irqs_of s)) = 24" and ready: "paging_ready lay (irqs_of s)" and temp: "4 \<le> length temp"
  shows "\<exists>s'. acpi_init lay 0 m (ioapic_allocate lay 0 dev temp) s = Some s' \<and>
     acpi_step lay (all_entries items [0..<n]) (\<exists>i < n. facp_8042 m (table_addr m (rsdt_of m k) i)) (s\<lparr>rsdp := bios_addr k\<rparr>) s'"
proof -
  let ?s = "s\<lparr>rsdp := bios_addr k\<rparr>" and ?r = "rsdt_of m k" and ?a = "rsdt_address (rsd_at m (bios_addr k))"
  obtain f args where find: "acpi_find_rsdp m (s\<lparr>rsdp := 0, acpi_tables := 0\<rparr>) =
      (True, log_acpi f args (s\<lparr>acpi_tables := 0, rsdp := bios_addr k\<rparr>))"
    using acpi_find_ok [OF fw, of "s\<lparr>rsdp := 0, acpi_tables := 0\<rparr>" w] ebda by auto
  have r: "(if KERNEL_VIRT_ADDR \<le> ?a then ?a else ?a + KERNEL_VIRT_ADDR) = ?r"
    by (simp add: rsdt_of_def rsd_at_def Let_def)
  have rk: "KERNEL_VIRT_ADDR \<le> ?r"
  proof (cases "KERNEL_VIRT_ADDR \<le> u32_at m (bios_addr k + 16)")
    case False
    then have "unat (u32_at m (bios_addr k + 16)) < 2 ^ 31" by (simp add: KERNEL_VIRT_ADDR_def word_le_nat_alt)
    then have "unat ?r = unat (u32_at m (bios_addr k + 16)) + 2 ^ 31"
      using False unfolding rsdt_of_def Let_def by (simp add: word_add_no_wrap KERNEL_VIRT_ADDR_def)
    then show ?thesis by (simp add: KERNEL_VIRT_ADDR_def word_le_nat_alt)
  qed (simp add: rsdt_of_def)
  have n: "table_length (acpi_table_at m ?r) = of_nat (36 + 4 * n)" "unat ?r + (36 + 4 * n) \<le> 2 ^ 32 - 4096"
    using fw by (simp_all add: firmware_ok_def acpi_table_at_def)
  have ln: "unat (of_nat (36 + 4 * n) :: u32) = 36 + 4 * n" using n(2) by (simp add: unat_of_nat del: of_nat_add of_nat_mult)
  then have num: "unat ((of_nat (36 + 4 * n) - sizeof_ACPI_TABLE) div 4) = n"
    by (simp add: sizeof_ACPI_TABLE_def unat_div unat_sub word_le_nat_alt del: of_nat_add of_nat_mult)
  define s1 where "s1 = (log_acpi f args (s\<lparr>acpi_tables := 0, rsdp := bios_addr k\<rparr>))\<lparr>rsdt := ?r\<rparr>"
  have s1: "acpi_step lay [] False ?s s1" "rsdt s1 = ?r"
    using ready by (simp_all add: s1_def log_acpi_def acpi_step_def routing_frame_def overrides_of_def)
  have "unat ?r + unat sizeof_ACPI_TABLE \<le> 2 ^ 32 - 4096" using n(2) by (simp add: sizeof_ACPI_TABLE_def)
  then obtain s2 where s2: "map_rsdt lay 0 ?a ?r sizeof_ACPI_TABLE s1 = Some s2" "acpi_step lay [] False s1 s2" "rsdt s2 = ?r"
    using map_rsdt_step [OF acpi_step_ready [OF s1(1)] rk] s1(2) by metis
  let ?len = "of_nat (36 + 4 * n) :: u32"
  define s3 where "s3 = log_acpi ''GS register: %d, %d\<newline>'' [0, lapic_present (irqs_of (log_acpi '' RSDT Length: %d %d '' [?len, sizeof_ACPI_TABLE]
      (log_acpi ''RSDT: %p %p '' [?r, ?a] s2)))] (log_acpi '' RSDT Length: %d %d '' [?len, sizeof_ACPI_TABLE] (log_acpi ''RSDT: %p %p '' [?r, ?a] s2))"
  have s3: "acpi_step lay [] False ?s s3" "rsdt s3 = ?r"
    using log_after [OF log_after [OF log_after [OF acpi_step_trans [OF s1(1) s2(2)]]]] s2(3) by (simp_all add: s3_def)
  have "unat ?r + unat ?len \<le> 2 ^ 32 - 4096" using n(2) ln by simp
  then obtain s4 where s4: "map_rsdt lay 0 ?a ?r ?len s3 = Some s4" "acpi_step lay [] False s3 s4" "rsdt s4 = ?r"
    using map_rsdt_step [OF acpi_step_ready [OF s3(1)] rk] s3(2) by metis
  define s5 where "s5 = s4\<lparr>num_acpi_tables := (?len - sizeof_ACPI_TABLE) div 4, acpi_tables := ?r + sizeof_ACPI_TABLE\<rparr>"
  have s5: "acpi_step lay [] False ?s s5" "acpi_tables s5 = ?r + sizeof_ACPI_TABLE"
    using acpi_step_trans [OF s3(1) s4(2)] by (simp_all add: s5_def)
  obtain s6 where s6: "process_tables lay 0 m (ioapic_allocate lay 0 dev temp) [0..<n] s5 = Some s6"
    "acpi_step lay (all_entries items [0..<n]) (\<exists>i \<in> set [0..<n]. facp_8042 m (table_addr m ?r i)) s5 s6"
    using process_tables_ok [of "[0..<n]" m s5 ?r items lay temp dev] acpi_step_lengths [OF s5(1)] acpi_step_ready [OF s5(1)]
      s5(2) len temp fw by (auto simp: firmware_ok_def)
  have "acpi_init lay 0 m (ioapic_allocate lay 0 dev temp) s = Some (log_acpi ''\<newline>'' [] s6)"
    using s2(1,3) s4(1,3) s6(1) num
    by (simp add: acpi_init_def find Let_def r n(1) s1_def s3_def s5_def del: of_nat_add of_nat_mult cong: if_cong split del: if_split)
  moreover have "acpi_step lay (all_entries items [0..<n]) (\<exists>i < n. facp_8042 m (table_addr m ?r i)) ?s (log_acpi ''\<newline>'' [] s6)"
    using log_after [OF acpi_step_trans [OF s5(1) s6(2)]] by (simp add: Bex_def)
  ultimately show ?thesis by blast
qed

text \<open>What \<^verbatim>\<open>ioapic_init\<close> needs of the table of interrupts to program the pins from the overrides \<open>vs\<close>.\<close>

definition lines_ready :: "src_override list \<Rightarrow> u32 \<Rightarrow> u32 \<Rightarrow> irqs \<Rightarrow> bool" where
  "lines_ready vs dest base s \<longleftrightarrow>
     interrupts_set s \<and> length (interrupts_cpu_0 s) = 24 \<and> lapic_id s = dest \<and> ioapics s \<noteq> [] \<and> base_register (ioapics s ! 0) = base \<and>
     (\<forall>i < 16. let x = interrupts_cpu_0 s ! i in
        (routed x \<longleftrightarrow> \<not> line_moved vs i \<and> source_line vs i \<noteq> 0) \<and> (trigger x = IRQ_TRIGGER_MODE_LEVEL \<longleftrightarrow> level_line vs i))"

lemma lines_programmed:
  assumes "lines_ready vs dest base s"
  shows "\<exists>ws. ioapic_init s = Some (s\<lparr>ioapic_initialized := True, mmio := mmio s @ ws\<rparr>) \<and> programmed vs dest base ws"
  using ioapic_init_programs [of s "ioapics s ! 0" vs] assms unfolding lines_ready_def by auto

definition tables_entries :: "(nat \<Rightarrow> madt_item list) \<Rightarrow> nat \<Rightarrow> apic_info list" where
  "tables_entries items n = all_entries items [0..<n]"

lemma acpi_lines_ok:
  assumes "firmware_ok m (length (ioapics (irqs_of s))) k n items" and "length (interrupts_cpu_0 (irqs_of s)) = 24"
    and "\<forall>x \<in> set (interrupts_cpu_0 (irqs_of s)). overriden x = 0" and "buses (irqs_of s) \<noteq> []"
    and "ioapics (irqs_of s) \<noteq> []" and "paging_ready lay (irqs_of s)" and "4 \<le> length temp"
  defines "es \<equiv> tables_entries items n"
  defines "b \<equiv> io_base es (base_register (ioapics (irqs_of s) ! 0))"
  shows "\<exists>i2 s3. interrupts_init (irqs_of (bda_read_table m s)) = Some i2 \<and>
     acpi_init lay 0 m (ioapic_allocate lay 0 dev temp) ((bda_read_table m s)\<lparr>irqs_of := i2\<rparr>) = Some s3 \<and>
     rsdp s3 = bios_addr k \<and> keyboard_controller_8042_present s3 =
       (keyboard_controller_8042_present s \<or> (\<exists>i < n. facp_8042 m (table_addr m (rsdt_of m k) i))) \<and>
     lines_ready (overrides_of es) (lapic_id (irqs_of s)) b (irqs_of s3) \<and> paging_ready lay (irqs_of s3) \<and>
     tables_only lay (pmem (paging_of (mach (irqs_of s)))) (pmem (paging_of (mach (irqs_of s3)))) \<and>
     tables_of (mach (irqs_of s3)) = tables_of (mach (irqs_of s)) \<and> regs_of (mach (irqs_of s3)) = regs_of (mach (irqs_of s)) \<and>
     handler_part (irqs_of s3) = handler_part (irqs_of s)"
proof -
  let ?s1 = "bda_read_table m s" and ?es = "all_entries items [0..<n]"
  have s1: "irqs_of ?s1 = log_irq ''EBDA: %x '' [ebda ?s1] (irqs_of s)" "ebda ?s1 = push_bit 4 (ucast (u16_at m (0x40e + KERNEL_VIRT_ADDR)))"
    "keyboard_controller_8042_present ?s1 = keyboard_controller_8042_present s"
    by (simp_all add: bda_read_table_def log_acpi_def Let_def)
  have table: "length (interrupts_cpu_0 (irqs_of ?s1)) = 24" "\<forall>x \<in> set (interrupts_cpu_0 (irqs_of ?s1)). overriden x = 0"
     "buses (irqs_of ?s1) \<noteq> []" using assms(2-4) by (simp_all add: s1(1))
  obtain i2 ts where i2: "interrupts_init (irqs_of ?s1) = Some i2"
     "i2 = (irqs_of ?s1)\<lparr>buses := (buses (irqs_of ?s1))[0 := \<lparr>bus_id = 0, bus_type = 0\<rparr>], interrupts_set := True, interrupts_cpu_0 := ts\<rparr>"
     and ts: "length ts = 24" "\<forall>i < 24. overriden (ts ! i) = 0"
     "\<forall>i < 16. orig_irq (ts ! i) = of_nat i \<and> trigger (ts ! i) = DEFAULT_ISA_IRQ_TRIGGER_MODE"
    using interrupts_init_table [OF table] by blast
  obtain s3 where s3: "acpi_init lay 0 m (ioapic_allocate lay 0 dev temp) (?s1\<lparr>irqs_of := i2\<rparr>) = Some s3"
    "acpi_step lay ?es (\<exists>i < n. facp_8042 m (table_addr m (rsdt_of m k) i)) (?s1\<lparr>irqs_of := i2, rsdp := bios_addr k\<rparr>) s3"
    using acpi_init_ok [of m "?s1\<lparr>irqs_of := i2\<rparr>" k n items _ lay temp dev] assms(1,6,7) ts(1) s1(2) i2(2)
    by (fastforce simp: s1(1) paging_ready_def)
  have f: "interrupts_set (irqs_of s3)" "length (interrupts_cpu_0 (irqs_of s3)) = 24" "lapic_id (irqs_of s3) = lapic_id (irqs_of s)"
    "aget (ioapics (irqs_of s3)) 0 = Some (ioapics (irqs_of s3) ! 0)" "rsdp s3 = bios_addr k"
    "base_register (ioapics (irqs_of s3) ! 0) = io_base ?es (base_register (ioapics (irqs_of s) ! 0))"
    "keyboard_controller_8042_present s3 = (keyboard_controller_8042_present s \<or> (\<exists>i < n. facp_8042 m (table_addr m (rsdt_of m k) i)))"
    "\<forall>i < 24. interrupts_cpu_0 (irqs_of s3) ! i = fold (\<lambda>v. overridden_by v i) (overrides_of ?es) (ts ! i)"
    using s3(2) i2(2) ts(1) assms(5) s1(3) by (auto simp: acpi_step_def routing_frame_def s1(1))
  have pins: "\<forall>i < 16. let x = interrupts_cpu_0 (irqs_of s3) ! i in
        (routed x \<longleftrightarrow> \<not> line_moved (overrides_of ?es) i \<and> source_line (overrides_of ?es) i \<noteq> 0) \<and>
        (trigger x = IRQ_TRIGGER_MODE_LEVEL \<longleftrightarrow> level_line (overrides_of ?es) i)"
    using f(8) ts(2,3) overridden_pin [of "ts ! i" i "overrides_of ?es" for i] by (simp add: Let_def)
  have "routing_frame lay (io_base ?es (base_register (ioapics (irqs_of s) ! 0))) i2 (irqs_of s3)"
    using s3(2) i2(2) by (simp add: acpi_step_def s1(1))
  then have "tables_only lay (pmem (paging_of (mach (irqs_of s)))) (pmem (paging_of (mach (irqs_of s3))))"
    "tables_of (mach (irqs_of s3)) = tables_of (mach (irqs_of s))" "regs_of (mach (irqs_of s3)) = regs_of (mach (irqs_of s))"
    "paging_ready lay (irqs_of s3)" "handler_part (irqs_of s3) = handler_part (irqs_of s)"
    using i2(2) by (simp_all add: routing_frame_def s1(1))
  moreover have "ioapics (irqs_of s3) \<noteq> []" using f(4) by auto
  ultimately show ?thesis using i2(1) s3(1) f pins unfolding es_def b_def tables_entries_def lines_ready_def by blast
qed


section \<open>A board\<close>

text \<open>Bytes placed over a memory.\<close>

definition place :: "u32 \<Rightarrow> u8 list \<Rightarrow> memory \<Rightarrow> memory" where
  "place b xs m a = (if unat (a - b) < length xs then xs ! unat (a - b) else m a)"

definition board_items :: "madt_item list" where
  "board_items = [Known (Processor_Lapic 0 0 1), Known (Ioapic_Info 0 0 0xfec00000 0), Other 9 [0, 0],
     Known (Int_Src_Override 0 0 2 0), Known (Int_Src_Override 0 9 9 0xd)]"

definition board_firmware :: memory where
  "board_firmware = place 0x800E0000 (bytes_of ''RSD PTR '') (place 0x800E0010 (le32 0x1000)
     (place 0x80001004 (le32 44) (place 0x80001024 (le32 0x2000 @ le32 0x3000)
     (place 0x80002000 (bytes_of ''APIC'' @ le32 88) (place 0x8000202C (items_bytes board_items)
     (place 0x80003000 (bytes_of ''FACP'' @ le32 116) (place 0x8000306D [2, 0] (\<lambda>_. 0))))))))"

definition board_acpi :: acpi where
  "board_acpi = \<lparr>irqs_of = boot_irqs, ebda = 0, rsdp = 0, rsdt = 0, acpi_tables = 0, num_acpi_tables = 0,
     keyboard_controller_8042_present = False\<rparr>"

lemma le_eval:
  "le32 w = [of_nat (unat w mod 256), of_nat (unat w div 256 mod 256), of_nat (unat w div 65536 mod 256), of_nat (unat w div 16777216 mod 256)]"
  "le16 v = [of_nat (unat v mod 256), of_nat (unat v div 256 mod 256)]"
proof -
  have "le_bytes (Suc (Suc (Suc (Suc 0)))) n = [of_nat (n mod 256), of_nat (n div 256 mod 256), of_nat (n div 65536 mod 256),
      of_nat (n div 16777216 mod 256)]" for n
    by (simp add: div_mult2_eq [symmetric])
  moreover have "(4 :: nat) = Suc (Suc (Suc (Suc 0)))" by simp
  ultimately show "le32 w = [of_nat (unat w mod 256), of_nat (unat w div 256 mod 256), of_nat (unat w div 65536 mod 256),
      of_nat (unat w div 16777216 mod 256)]" unfolding le32_def by metis
  show "le16 v = [of_nat (unat v mod 256), of_nat (unat v div 256 mod 256)]"
    by (simp add: le16_def numeral_2_eq_2)
qed

lemma board_bytes: "items_bytes board_items =
   [0, 8, 0, 0, 1, 0, 0, 0, 1, 12, 0, 0, 0, 0, 0xc0, 0xfe, 0, 0, 0, 0, 9, 4, 0, 0,
    2, 10, 0, 0, 2, 0, 0, 0, 0, 0, 2, 10, 0, 9, 9, 0, 0, 0, 13, 0]"
  by (simp add: items_bytes_def board_items_def item_bytes_def le_eval)

lemma reads_nth: "reads m a xs \<longleftrightarrow> (\<forall>i < length xs. m (a + of_nat i) = xs ! i)"
proof (induction xs arbitrary: a)
  case (Cons x xs)
  then show ?case by (auto simp: less_Suc_eq_0_disj add.assoc add.commute [of 1])
qed simp

lemma reads_place:
  "length xs < 2 ^ 32 \<Longrightarrow> reads (place b xs m) b xs"
  "length xs \<le> unat (a - b) \<Longrightarrow> unat (a - b) + length ys \<le> 2 ^ 32 \<Longrightarrow> reads (place b xs m) a ys \<longleftrightarrow> reads m a ys"
proof -
  show "length xs < 2 ^ 32 \<Longrightarrow> reads (place b xs m) b xs"
    by (simp add: reads_nth place_def unat_of_nat)
  assume a: "length xs \<le> unat (a - b)" "unat (a - b) + length ys \<le> 2 ^ 32"
  have "unat (a + of_nat i - b) = unat (a - b) + i" if "i < length ys" for i
    using unat_add_of_nat [of "a - b" i] a(2) that by (simp add: algebra_simps)
  then show "reads (place b xs m) a ys \<longleftrightarrow> reads m a ys" using a(1) by (simp add: reads_nth place_def)
qed

lemma reads_split: "reads m b (xs @ ys) \<Longrightarrow> a = b + of_nat (length xs) \<Longrightarrow> reads m b xs \<and> reads m a ys"
  by simp

lemma board_memory:
  "reads board_firmware (bios_addr 0) (bytes_of ''RSD PTR '')" "reads board_firmware (bios_addr 0 + 16) (le32 0x1000)"
  "reads board_firmware 0x80001004 (le32 44)" "reads board_firmware 0x80001024 (le32 0x2000 @ le32 0x3000)"
  "reads board_firmware 0x80002000 (bytes_of ''APIC'' @ le32 88)" "reads board_firmware 0x8000202C (items_bytes board_items)"
  "reads board_firmware 0x80003000 (bytes_of ''FACP'' @ le32 116)" "reads board_firmware 0x8000306D [2, 0]"
  unfolding board_firmware_def bios_addr_def KERNEL_VIRT_ADDR_def
  by (simp_all add: reads_place bytes_of_def board_bytes del: reads_simps)

lemma board_words:
  "u32_at board_firmware (bios_addr 0 + 16) = 0x1000" "u32_at board_firmware 0x80001004 = 44"
  "u32_at board_firmware 0x80001024 = 0x2000" "u32_at board_firmware 0x80001028 = 0x3000"
  "u32_at board_firmware 0x80002004 = 88" "u32_at board_firmware 0x80003004 = 116" "u16_at board_firmware 0x8000306D = 2"
proof -
  note m = board_memory
  show "u32_at board_firmware (bios_addr 0 + 16) = 0x1000" "u32_at board_firmware 0x80001004 = 44"
    using m(2,3) by (simp_all add: u32_at_reads)
  show "u32_at board_firmware 0x80001024 = 0x2000" "u32_at board_firmware 0x80001028 = 0x3000"
    using reads_split [OF m(4), of "0x80001028"] by (simp_all add: u32_at_reads)
  have l: "length (bytes_of ''APIC'') = 4" "length (bytes_of ''FACP'') = 4" by (simp_all add: bytes_of_def)
  show "u32_at board_firmware 0x80002004 = 88" "u32_at board_firmware 0x80003004 = 116"
    using reads_split [OF m(5), of "0x80002004"] reads_split [OF m(7), of "0x80003004"] by (simp_all add: u32_at_reads l)
  show "u16_at board_firmware 0x8000306D = 2" using m(8) by (intro u16_at_reads) (simp add: le_eval)
qed

lemma board_signatures:
  "bytes_at board_firmware 8 (bios_addr 0) = bytes_of ''RSD PTR ''" "bytes_at board_firmware 4 0x80002000 = bytes_of ''APIC''"
  "bytes_at board_firmware 4 0x80003000 = bytes_of ''FACP''"
proof -
  have l: "length (bytes_of ''RSD PTR '') = 8" "length (bytes_of ''APIC'') = 4" "length (bytes_of ''FACP'') = 4"
    by (simp_all add: bytes_of_def)
  show "bytes_at board_firmware 8 (bios_addr 0) = bytes_of ''RSD PTR ''" using board_memory(1) unfolding reads_def l(1) .
  have "reads board_firmware 0x80002000 (bytes_of ''APIC'')" "reads board_firmware 0x80003000 (bytes_of ''FACP'')"
    using reads_split [OF board_memory(5) refl] reads_split [OF board_memory(7) refl] by blast+
  then show "bytes_at board_firmware 4 0x80002000 = bytes_of ''APIC''" "bytes_at board_firmware 4 0x80003000 = bytes_of ''FACP''"
    unfolding reads_def l(2,3) by blast+
qed

lemma board_madt: "madt_ok board_firmware 0x80002000 board_items"
proof -
  have "length (items_bytes board_items) = 44" by (simp add: board_bytes)
  moreover have "\<forall>x \<in> set board_items. item_ok x" "board_items \<noteq> []"
    by (simp_all add: board_items_def item_ok_def word_le_nat_alt)
  ultimately show ?thesis using board_memory(6) board_words(5) by (simp add: madt_ok_def)
qed

lemma board_entries: "map item_info board_items =
   [Processor_Lapic 0 0 1, Ioapic_Info 0 0 0xfec00000 0, No_Info, Int_Src_Override 0 0 2 0, Int_Src_Override 0 9 9 0xd]"
  by (simp add: board_items_def)

lemma board_overrides_of: "overrides_of (map item_info board_items) = board_overrides"
  by (simp add: board_entries overrides_of_def board_overrides_def take_bit_eq_mod drop_bit_eq_div)

definition board_tables :: "nat \<Rightarrow> madt_item list" where
  "board_tables i = (if i = 0 then board_items else [])"

lemma board_table_addr: "table_addr board_firmware 0x80001000 0 = 0x80002000" "table_addr board_firmware 0x80001000 (Suc 0) = 0x80003000"
  using board_words by (simp_all add: table_addr_def sizeof_ACPI_TABLE_def KERNEL_VIRT_ADDR_def)

lemma board_tables_ok: "table_ok board_firmware 1 0x80002000 board_items" "table_ok board_firmware 1 0x80003000 []"
proof -
  have "\<forall>x \<in> set board_items. info_ok 1 (item_info x)"
    by (simp add: board_items_def KERNEL_VIRT_ADDR_def word_le_nat_alt)
  then show "table_ok board_firmware 1 0x80002000 board_items"
    using board_words(5) board_signatures(2) board_madt board_lines(7)
    by (simp add: table_ok_def board_overrides_of KERNEL_VIRT_ADDR_def)
  show "table_ok board_firmware 1 0x80003000 []"
    using board_words(6) board_signatures(3) FACP_not_APIC by (simp add: table_ok_def KERNEL_VIRT_ADDR_def)
qed

lemma board_rsdt: "rsdt_of board_firmware 0 = 0x80001000"
  using board_words(1) by (simp add: rsdt_of_def KERNEL_VIRT_ADDR_def)

lemma board_firmware_ok: "firmware_ok board_firmware 1 0 2 board_tables"
proof -
  have "[0..<0x20001] = 0 # [Suc 0..<0x20001]" by (rule upt_rec [THEN trans]) simp
  then have "find (\<lambda>k. bytes_at board_firmware 8 (bios_addr k) = bytes_of ''RSD PTR '') [0..<0x20001] = Some 0"
    using board_signatures(1) by simp
  then show ?thesis using board_words(2) board_tables_ok
    by (simp add: firmware_ok_def board_rsdt less_2_cases_iff all_conj_distrib disj_imp board_table_addr board_tables_def)
qed

theorem acpi_process_madt_walk_witness:
  "\<exists>s'. acpi_process_madt board_firmware (\<lambda>_ _ _ s. Some s) 0x80002000 boot_irqs = Some s' \<and>
     overriden (interrupts_cpu_0 s' ! 0) = 1 \<and> orig_irq (interrupts_cpu_0 s' ! 2) = 0 \<and> trigger (interrupts_cpu_0 s' ! 9) = 3"
proof -
  have "acpi_process_madt board_firmware (\<lambda>_ _ _ s. Some s) 0x80002000 boot_irqs =
      run_entries (\<lambda>_ _ _ s. Some s) (map item_info board_items) boot_irqs"
    using acpi_process_madt_walk [of board_firmware "0x80002000" board_items "\<lambda>_ _ _ s. Some s" boot_irqs] board_madt
    by (simp add: madt_ok_def)
  then show ?thesis
    by (simp add: board_entries interrupt_set_override_def upd_int_def boot_irqs_def zero_interrupt_def take_bit_eq_mod drop_bit_eq_div)
qed

text \<open>A local APIC, then an entry of length 0 with 52 bytes to go.\<close>

theorem acpi_process_madt_stuck_witness:
  "acpi_process_madt (place 0x80002004 (le32 104) (place 0x8000202C (item_bytes (Known (Processor_Lapic 0 0 1)) @ [0, 0]) (\<lambda>_. 0)))
     (\<lambda>_ _ _ s. Some s) 0x80002000 boot_irqs = None" (is "acpi_process_madt ?m _ _ _ = None")
proof -
  have b: "item_bytes (Known (Processor_Lapic 0 0 1)) = [0, 8, 0, 0, 1, 0, 0, 0]"
    by (simp add: item_bytes_def le_eval)
  have "reads ?m 0x8000202C ([0, 8, 0, 0, 1, 0, 0, 0] @ [0, 0])" "reads ?m 0x80002004 (le32 104)"
    unfolding b by (simp_all add: reads_place del: reads_simps)
  then show ?thesis
    using acpi_process_madt_stuck [of ?m "0x80002000" "[Known (Processor_Lapic 0 0 1)]" 0 "\<lambda>_ _ _ s. Some s" boot_irqs]
    by (simp add: items_bytes_def b item_ok_def u32_at_reads)
qed


end
