(* ===== verification/Smp_Props.thy ===== *)
theory Smp_Props
  imports Smp User_Props Byte_Memory Routing_Props
begin

text \<open>
  The start of the other processors: what the count and the bits of the registered processors say in every interleaving, and
  what \<^verbatim>\<open>smp_start\<close> has laid out by the time a processor starts.
\<close>

section \<open>Registration\<close>

definition inside :: "ap_pc \<Rightarrow> bool" where
  "inside l \<longleftrightarrow> l \<noteq> Waiting \<and> l \<noteq> Registered"

definition counted :: "ap_state \<Rightarrow> nat set" where
  "counted s = {c. ap_pc s c \<in> {Load_Bits, Store_Bits, Release, Registered}}"

definition flagged :: "ap_state \<Rightarrow> nat set" where
  "flagged s = {c. ap_pc s c \<in> {Release, Registered}}"

definition ap_inv :: "ap_state \<Rightarrow> bool" where
  "ap_inv s \<longleftrightarrow>
     (ap_lock s \<noteq> 0 \<longleftrightarrow> (\<exists>c. inside (ap_pc s c))) \<and> (\<forall>c d. inside (ap_pc s c) \<and> inside (ap_pc s d) \<longrightarrow> c = d) \<and>
     finite (counted s) \<and> ap_nums s = of_nat (card (counted s)) \<and>
     (\<forall>i < 32. bit (ap_bits s) i \<longleftrightarrow> i = 0 \<or> i \<in> (\<lambda>c. c mod 32) ` flagged s) \<and>
     (\<forall>c. ap_pc s c = Store_Nums \<longrightarrow> ap_reg s c = ap_nums s) \<and>
     (\<forall>c. ap_pc s c = Store_Bits \<longrightarrow> ap_reg s c = ap_bits s) \<and>
     (ap_hold s \<noteq> 0 \<longrightarrow> (\<forall>c. ap_pc s c \<in> {Waiting, Test_Hold, Back_Off}))"

lemma ap_invD:
  assumes "ap_inv s"
  shows "inside (ap_pc s c) \<Longrightarrow> ap_lock s \<noteq> 0" "inside (ap_pc s c) \<Longrightarrow> inside (ap_pc s d) \<Longrightarrow> c = d"
    "finite (counted s)" "ap_nums s = of_nat (card (counted s))" "i < 32 \<Longrightarrow> bit (ap_bits s) i \<longleftrightarrow> i = 0 \<or> i \<in> (\<lambda>c. c mod 32) ` flagged s"
    "ap_pc s c = Store_Nums \<Longrightarrow> ap_reg s c = ap_nums s" "ap_pc s c = Store_Bits \<Longrightarrow> ap_reg s c = ap_bits s"
    "ap_hold s \<noteq> 0 \<Longrightarrow> ap_pc s c \<in> {Waiting, Test_Hold, Back_Off}"
  using assms unfolding ap_inv_def by blast+

lemma goto_simps [simp]:
  "ap_pc (goto c l s) = (ap_pc s)(c := l)" "ap_lock (goto c l s) = ap_lock s" "ap_hold (goto c l s) = ap_hold s"
  "ap_nums (goto c l s) = ap_nums s" "ap_bits (goto c l s) = ap_bits s" "ap_reg (goto c l s) = ap_reg s"
  by (simp_all add: goto_def)

lemma counted_upd:
  "counted (goto c l s) = (if l \<in> {Load_Bits, Store_Bits, Release, Registered} then insert c (counted s) else counted s - {c})"
  "counted (s\<lparr>ap_lock := v\<rparr>) = counted s" "counted (s\<lparr>ap_nums := v\<rparr>) = counted s" "counted (s\<lparr>ap_bits := v\<rparr>) = counted s"
  "counted (s\<lparr>ap_reg := r\<rparr>) = counted s"
  by (auto simp: counted_def)

lemma flagged_upd:
  "flagged (goto c l s) = (if l \<in> {Release, Registered} then insert c (flagged s) else flagged s - {c})"
  "flagged (s\<lparr>ap_lock := v\<rparr>) = flagged s" "flagged (s\<lparr>ap_nums := v\<rparr>) = flagged s" "flagged (s\<lparr>ap_bits := v\<rparr>) = flagged s"
  "flagged (s\<lparr>ap_reg := r\<rparr>) = flagged s"
  by (auto simp: flagged_def)

lemma counted_mem: "c \<in> counted s \<longleftrightarrow> ap_pc s c \<in> {Load_Bits, Store_Bits, Release, Registered}"
  by (simp add: counted_def)

lemma flagged_mem: "c \<in> flagged s \<longleftrightarrow> ap_pc s c \<in> {Release, Registered}"
  by (simp add: flagged_def)

lemma ap_inv_init: "ap_inv (ap_init hold)"
  by (simp add: ap_inv_def ap_init_def inside_def counted_def flagged_def bit_1_iff)

text \<open>The invariant while one CPU owns the lock, and while none does.\<close>

lemma ap_inv_inside:
  assumes "inside (ap_pc s c)" and others: "\<forall>d. d \<noteq> c \<longrightarrow> \<not> inside (ap_pc s d)"
  shows "ap_inv s \<longleftrightarrow> ap_lock s \<noteq> 0 \<and> finite (counted s) \<and> ap_nums s = of_nat (card (counted s)) \<and>
     (\<forall>i < 32. bit (ap_bits s) i \<longleftrightarrow> i = 0 \<or> i \<in> (\<lambda>c. c mod 32) ` flagged s) \<and>
     (ap_pc s c = Store_Nums \<longrightarrow> ap_reg s c = ap_nums s) \<and> (ap_pc s c = Store_Bits \<longrightarrow> ap_reg s c = ap_bits s) \<and>
     (ap_hold s \<noteq> 0 \<longrightarrow> ap_pc s c \<in> {Test_Hold, Back_Off} \<and> (\<forall>d. d \<noteq> c \<longrightarrow> ap_pc s d = Waiting))"
proof -
  have only: "inside (ap_pc s d) \<longleftrightarrow> d = c" for d using assms by blast
  then have "ap_pc s d = l \<Longrightarrow> inside l \<Longrightarrow> d = c" for d l by blast
  then have "ap_pc s d = Store_Nums \<Longrightarrow> d = c" "ap_pc s d = Store_Bits \<Longrightarrow> d = c" "ap_pc s d = Test_Hold \<Longrightarrow> d = c"
    "ap_pc s d = Back_Off \<Longrightarrow> d = c" for d
    by (simp_all add: inside_def)
  moreover have "ap_pc s c \<noteq> Waiting" using assms(1) by (simp add: inside_def)
  ultimately show ?thesis unfolding ap_inv_def only by (intro iffI conjI; metis insertCI insertE singletonD)
qed

lemma ap_inv_outside:
  assumes "\<And>d. \<not> inside (ap_pc s d)"
  shows "ap_inv s \<longleftrightarrow> ap_lock s = 0 \<and> finite (counted s) \<and> ap_nums s = of_nat (card (counted s)) \<and>
     (\<forall>i < 32. bit (ap_bits s) i \<longleftrightarrow> i = 0 \<or> i \<in> (\<lambda>c. c mod 32) ` flagged s) \<and> (ap_hold s \<noteq> 0 \<longrightarrow> (\<forall>d. ap_pc s d = Waiting))"
proof -
  have "ap_pc s d \<noteq> Store_Nums" "ap_pc s d \<noteq> Store_Bits" "ap_pc s d \<noteq> Test_Hold" "ap_pc s d \<noteq> Back_Off" for d
    using assms [of d] by (auto simp: inside_def)
  then show ?thesis unfolding ap_inv_def using assms by auto
qed

lemma inside_pcs [simp]: "inside Test_Hold" "inside Load_Nums" "inside Store_Nums" "inside Load_Bits" "inside Store_Bits"
  "inside Release" "inside Back_Off" "\<not> inside Waiting" "\<not> inside Registered"
  by (simp_all add: inside_def)

lemma ap_inv_step:
  assumes inv: "ap_inv s" and step: "ap_step c s t"
  shows "ap_inv t"
proof (cases "inside (ap_pc s c)")
  case False
  have a: "ap_pc s c = Waiting" "ap_lock s = 0" "t = goto c Test_Hold (s\<lparr>ap_lock := 1\<rparr>)"
    using step False by (auto elim: ap_step.cases)
  have none: "\<not> inside (ap_pc s d)" for d using ap_invD(1) [OF inv] a(2) by blast
  have c: "inside (ap_pc t c)" "\<forall>d. d \<noteq> c \<longrightarrow> \<not> inside (ap_pc t d)" using none by (simp_all add: a(3))
  have "c \<notin> counted s" "c \<notin> flagged s" using a(1) by (simp_all add: counted_mem flagged_mem)
  moreover note inv [unfolded ap_inv_outside [OF none]]
  ultimately show ?thesis unfolding ap_inv_inside [OF c] by (simp add: a(3) counted_upd flagged_upd)
next
  case True
  have others: "\<forall>d. d \<noteq> c \<longrightarrow> \<not> inside (ap_pc s d)" using ap_invD(2) [OF inv True] by blast
  note I = inv [unfolded ap_inv_inside [OF True others]]
  show ?thesis
  proof (cases "inside (ap_pc t c)")
    case in_t: True
    have others_t: "\<forall>d. d \<noteq> c \<longrightarrow> \<not> inside (ap_pc t d)" using step others by cases simp_all
    note T = ap_inv_inside [OF in_t others_t]
    show ?thesis
      using step
    proof cases
      case store_nums
      then have "c \<notin> counted s" by (simp add: counted_mem)
      then have "of_nat (card (insert c (counted s))) = ap_nums s + 1" using I by simp
      then show ?thesis unfolding T using I store_nums others by (auto simp: counted_upd flagged_upd flagged_mem)
    next
      case store_bits
      then have "insert c (counted s) = counted s" by (auto simp: counted_mem)
      then show ?thesis unfolding T using I store_bits by (auto simp: counted_upd flagged_upd bit_or_iff bit_exp_iff)
    qed (unfold T, use I in_t in \<open>auto simp: counted_upd flagged_upd counted_mem flagged_mem insert_absorb\<close>)
  next
    case False
    have none: "\<not> inside (ap_pc t d)" for d using step others False by cases (auto split: if_splits)
    note T = ap_inv_outside [OF none]
    show ?thesis
      using step
    proof cases
      case back_off
      then have "c \<notin> counted s" "c \<notin> flagged s" by (simp_all add: counted_mem flagged_mem)
      then show ?thesis unfolding T using I back_off by (auto simp: counted_upd flagged_upd)
    next
      case release
      then have "insert c (counted s) = counted s" "insert c (flagged s) = flagged s" by (auto simp: counted_mem flagged_mem)
      then show ?thesis unfolding T using I release by (auto simp: counted_upd flagged_upd)
    qed (use False True in simp_all)
  qed
qed

lemma ap_reachable_inv: "ap_reachable s \<Longrightarrow> ap_inv s"
  by (induction rule: ap_reachable.induct) (auto intro: ap_inv_init ap_inv_step)

text \<open>(C21) Registration of the started processors, in every interleaving of their instructions: at most one of them is
  between the lock and its release; whenever none is, \<^verbatim>\<open>smp_nums\<close> is the number of the registered ones and
  \<^verbatim>\<open>smp_bits\<close> has exactly the bits of these (their numbers modulo 32, as the processor shifts) and of processor 0, so that no increment is lost although loads and
  stores interleave; and while \<^verbatim>\<open>smp_on_hold\<close> is set none is ever registered.\<close>

theorem registration_counts:
  assumes "ap_reachable s"
  shows "(\<forall>c d. inside (ap_pc s c) \<and> inside (ap_pc s d) \<longrightarrow> c = d) \<and>
     ((\<nexists>c. inside (ap_pc s c)) \<longrightarrow> ap_lock s = 0 \<and> finite {c. ap_pc s c = Registered} \<and>
        ap_nums s = of_nat (card {c. ap_pc s c = Registered}) \<and>
        (\<forall>i < 32. bit (ap_bits s) i \<longleftrightarrow> i = 0 \<or> (\<exists>c. ap_pc s c = Registered \<and> i = c mod 32))) \<and>
     (ap_hold s \<noteq> 0 \<longrightarrow> (\<forall>c. ap_pc s c \<noteq> Registered))"
proof (intro conjI impI allI)
  note inv = ap_reachable_inv [OF assms]
  show "c = d" if "inside (ap_pc s c) \<and> inside (ap_pc s d)" for c d using ap_invD(2) [OF inv] that by blast
  show "ap_pc s c \<noteq> Registered" if "ap_hold s \<noteq> 0" for c using ap_invD(8) [OF inv that, of c] by auto
  assume "\<nexists>c. inside (ap_pc s c)"
  then have none: "\<not> inside (ap_pc s c)" for c by blast
  then have "ap_pc s c = Waiting \<or> ap_pc s c = Registered" for c by (auto simp: inside_def)
  then have "counted s = {c. ap_pc s c = Registered}" "flagged s = {c. ap_pc s c = Registered}"
    by (auto simp: counted_def flagged_def) (metis ap_pc.distinct)+
  then show "ap_lock s = 0" "finite {c. ap_pc s c = Registered}" "ap_nums s = of_nat (card {c. ap_pc s c = Registered})"
    "\<And>i. i < 32 \<Longrightarrow> bit (ap_bits s) i = (i = 0 \<or> (\<exists>c. ap_pc s c = Registered \<and> i = c mod 32))"
    using inv [unfolded ap_inv_outside [OF none]] by (simp_all add: image_iff)
qed

text \<open>
  A waiting processor that finds the lock free and no hold registers with seven of its own steps, and these steps compute
  what \<^const>\<open>smp_register\<close> computes.
\<close>

lemma smp_register_free:
  assumes "spinlock_smp s = 0" and "smp_on_hold s = 0"
  shows "smp_register c s = Some (s\<lparr>smp_nums := smp_nums s + 1, smp_bits := smp_bits s OR push_bit (unat c mod 32) 1, spinlock_smp := 0\<rparr>)"
  using assms by (subst smp_register.simps) (simp add: spinlock_unlock_def Let_def)

lemma register_run:
  assumes r: "ap_reachable s" and pc: "ap_pc s c = Waiting" and free: "ap_lock s = 0" "ap_hold s = 0"
  shows "\<exists>t. ap_reachable t \<and> ap_pc t = (ap_pc s)(c := Registered) \<and> ap_lock t = 0 \<and> ap_hold t = 0 \<and>
     ap_nums t = ap_nums s + 1 \<and> ap_bits t = ap_bits s OR push_bit (c mod 32) 1"
proof -
  have then_step: "\<exists>t. ap_reachable t \<and> Q t" if "\<exists>s. ap_reachable s \<and> P s" "\<And>s. P s \<Longrightarrow> \<exists>t. ap_step c s t \<and> Q t" for P Q
    using that ap_reachable.step by metis
  let ?at = "\<lambda>l k n b t. ap_pc t = (ap_pc s)(c := l) \<and> ap_lock t = k \<and> ap_hold t = 0 \<and> ap_nums t = n \<and> ap_bits t = b"
  let ?n = "ap_nums s" and ?b = "ap_bits s"
  have "\<exists>t. ap_reachable t \<and> ?at Test_Hold 1 ?n ?b t"
    using ap_reachable.step [OF r ap_step.acquire [OF pc free(1)]] free(2)
    by (intro exI [of _ "goto c Test_Hold (s\<lparr>ap_lock := 1\<rparr>)"]) simp
  then have "\<exists>t. ap_reachable t \<and> ?at Load_Nums 1 ?n ?b t"
    by (rule then_step) (rule exI, rule conjI, rule ap_step.go_on, simp_all)
  then have "\<exists>t. ap_reachable t \<and> (?at Store_Nums 1 ?n ?b t \<and> ap_reg t c = ?n)"
    by (rule then_step) (rule exI, rule conjI, rule ap_step.load_nums, simp_all)
  then have "\<exists>t. ap_reachable t \<and> ?at Load_Bits 1 (?n + 1) ?b t"
    by (rule then_step) (rule exI, rule conjI, rule ap_step.store_nums, simp_all)
  then have "\<exists>t. ap_reachable t \<and> (?at Store_Bits 1 (?n + 1) ?b t \<and> ap_reg t c = ?b)"
    by (rule then_step) (rule exI, rule conjI, rule ap_step.load_bits, simp_all)
  then have "\<exists>t. ap_reachable t \<and> ?at Release 1 (?n + 1) (?b OR push_bit (c mod 32) 1) t"
    by (rule then_step) (rule exI, rule conjI, rule ap_step.store_bits, simp_all)
  then have "\<exists>t. ap_reachable t \<and> ?at Registered 0 (?n + 1) (?b OR push_bit (c mod 32) 1) t"
    by (rule then_step) (rule exI, rule conjI, rule ap_step.release, simp_all)
  then show ?thesis by blast
qed

text \<open>Processors 1 and 3 have registered.\<close>

theorem registration_counts_witness:
  "\<exists>s. ap_reachable s \<and> ap_nums s = 2 \<and> bit (ap_bits s) 3 \<and> \<not> bit (ap_bits s) 2"
proof -
  obtain s where s: "ap_reachable s" "ap_pc s = (\<lambda>_. Waiting)(1 := Registered)" "ap_lock s = 0" "ap_hold s = 0"
    using register_run [OF ap_reachable.start [of 0], of 1] by (auto simp: ap_init_def)
  have "ap_pc s 3 = Waiting" using s(2) by simp
  then obtain t where t: "ap_reachable t" "ap_pc t = (\<lambda>_. Waiting)(1 := Registered, 3 := Registered)"
    using register_run [OF s(1) _ s(3,4), of 3] unfolding s(2) by blast
  then have reg: "{c. ap_pc t c = Registered} = {1, 3}" "\<nexists>c. inside (ap_pc t c)" by auto
  then have "ap_pc t c = Registered \<longleftrightarrow> c = 1 \<or> c = 3" for c by blast
  then show ?thesis
    using registration_counts [OF t(1)] reg t(1) by (intro exI [of _ t]) (simp add: ex_disj_distrib conj_disj_distribR)
qed

section \<open>The page directories of the other processors\<close>

definition smp_layout :: "kernel_layout \<Rightarrow> bool" where
  "smp_layout lay \<longleftrightarrow>
     (let d = unat (kernel_pg_dir lay); t = unat (kernel_pg_table_0 lay); g = unat (master_kernel_pg_dir lay)
      in 4096 dvd d \<and> d + 32 * 4096 + 4096 < 2 ^ 32 \<and> layout_ok lay (master_kernel_pg_dir lay) \<and>
         2 ^ 31 + 2 ^ 20 \<le> d \<and> 2 ^ 31 + 2 ^ 20 \<le> t \<and> 2 ^ 31 + 2 ^ 20 \<le> g \<and>
         (d + 32 * 4096 \<le> t \<or> t + 2 ^ 21 \<le> d) \<and> (d + 32 * 4096 \<le> g \<or> g + 4096 \<le> d))"

definition dir_of :: "kernel_layout \<Rightarrow> nat \<Rightarrow> u32" where
  "dir_of lay i = kernel_pg_dir lay + PAGE_SIZE * of_nat i"

lemma dir_of_layout:
  assumes "smp_layout lay" and "i < 32"
  shows "unat (dir_of lay i) = unat (kernel_pg_dir lay) + 4096 * i" "layout_ok lay (dir_of lay i)"
    "apart (dir_of lay i) (master_kernel_pg_dir lay)"
proof -
  have e: "dir_of lay i = kernel_pg_dir lay + of_nat (4096 * i)" by (simp add: dir_of_def PAGE_SIZE_def)
  show u: "unat (dir_of lay i) = unat (kernel_pg_dir lay) + 4096 * i"
    unfolding e using assms by (intro unat_add_of_nat) (simp add: smp_layout_def Let_def)
  show "layout_ok lay (dir_of lay i)" "apart (dir_of lay i) (master_kernel_pg_dir lay)"
    using assms u by (auto simp: smp_layout_def Let_def layout_ok_def apart_def)
qed

definition dir_word :: "kernel_layout \<Rightarrow> nat \<Rightarrow> nat \<Rightarrow> u32" where
  "dir_word lay i j = dir_of lay i + of_nat (4 * j)"

lemma unat_dir_word: "smp_layout lay \<Longrightarrow> i < 32 \<Longrightarrow> j < 1024 \<Longrightarrow> unat (dir_word lay i j) = unat (kernel_pg_dir lay) + 4096 * i + 4 * j"
  using dir_entries [OF dir_of_layout(2)] dir_of_layout(1) by (simp add: dir_word_def)

lemma dir_word_inj:
  "smp_layout lay \<Longrightarrow> i < 32 \<Longrightarrow> k < 32 \<Longrightarrow> j < 1024 \<Longrightarrow> l < 1024 \<Longrightarrow> dir_word lay i j = dir_word lay k l \<Longrightarrow> i = k \<and> j = l"
  using page_word_inj [of j l i k] unat_dir_word [of lay i j] unat_dir_word [of lay k l] by simp

lemma master_word:
  assumes "smp_layout lay" and "i < 32" and "j < 1024" and "l < 1024"
  shows "master_kernel_pg_dir lay + of_nat (4 * l) \<noteq> dir_word lay i j"
proof -
  have "layout_ok lay (master_kernel_pg_dir lay)" using assms(1) by (simp add: smp_layout_def Let_def)
  then have "unat (master_kernel_pg_dir lay + of_nat (4 * l)) = unat (master_kernel_pg_dir lay) + 4 * l" using assms(4) by (rule dir_entries)
  then show ?thesis
    using unat_dir_word [OF assms(1-3)] dir_of_layout(1,3) [OF assms(1,2)] assms(3,4) by (auto simp: apart_def)
qed

lemma init_pg_dir_words:
  assumes ok: "smp_layout lay" and i: "i < 32"
  shows "j < 1024 \<Longrightarrow> pmem (init_pg_dir lay i p) (dir_word lay i j) =
      pmem p (master_kernel_pg_dir lay + of_nat (4 * (if j = 0 then 512 else j)))"
    "(\<forall>j < 1024. a \<noteq> dir_word lay i j) \<Longrightarrow> pmem (init_pg_dir lay i p) a = pmem p a"
proof -
  let ?d = "dir_of lay i" and ?g = "master_kernel_pg_dir lay"
  have lay: "layout_ok lay ?d" "layout_ok lay ?g" "apart ?d ?g" using dir_of_layout [OF ok i] ok by (simp_all add: smp_layout_def Let_def)
  have sep: "\<forall>i < 1024. \<forall>j < 1024. ?d + of_nat (4 * i) \<noteq> ?g + of_nat (4 * j)"
    using master_word [OF ok i] unfolding dir_word_def by metis
  define m where "m = memcpy_words 1024 ?d ?g (pmem p)"
  have cp: "m (?d + of_nat (4 * j)) = pmem p (?g + of_nat (4 * j))" if "j < 1024" for j
    unfolding m_def by (rule memcpy_words_copied [OF sep _ that]) simp
  have fr: "m a = pmem p a" if "\<forall>j < 1024. a \<noteq> ?d + of_nat (4 * j)" for a unfolding m_def by (rule memcpy_words_same [OF that])
  have k: "?d + 4 * KERNEL_PGDIR_ENTRY = ?d + of_nat (4 * 512)" by (simp add: KERNEL_PGDIR_ENTRY_def KERNEL_PGDIR_OFFSET_def KERNEL_VIRT_ADDR_def)
  have eq: "pmem (init_pg_dir lay i p) = m(?d := pmem p (?g + of_nat (4 * 512)))"
    using cp [of 512] by (simp add: init_pg_dir_def Let_def dir_of_def [symmetric] k m_def [symmetric] del: of_nat_mult)
  have first: "dir_word lay i 0 = ?d" by (simp add: dir_word_def)
  show "pmem (init_pg_dir lay i p) (dir_word lay i j) = pmem p (?g + of_nat (4 * (if j = 0 then 512 else j)))" if "j < 1024"
    using cp [OF that] dir_word_inj [OF ok i i that, of 0] first unfolding eq by (auto simp: dir_word_def)
  show "pmem (init_pg_dir lay i p) a = pmem p a" if "\<forall>j < 1024. a \<noteq> dir_word lay i j"
    using fr [of a] that first unfolding eq dir_word_def by (auto dest: spec [of _ 0])
qed

lemma init_pg_dirs:
  assumes ok: "smp_layout lay"
  shows "distinct is \<Longrightarrow> set is \<subseteq> {..<32} \<Longrightarrow>
    (\<forall>i \<in> set is. \<forall>j < 1024. pmem (fold (init_pg_dir lay) is p) (dir_word lay i j) =
      pmem p (master_kernel_pg_dir lay + of_nat (4 * (if j = 0 then 512 else j)))) \<and>
    (\<forall>a. (\<forall>i \<in> set is. \<forall>j < 1024. a \<noteq> dir_word lay i j) \<longrightarrow> pmem (fold (init_pg_dir lay) is p) a = pmem p a)"
proof (induction "is" arbitrary: p)
  case (Cons i "is")
  let ?p = "init_pg_dir lay i p" and ?g = "master_kernel_pg_dir lay"
  have i: "i < 32" "i \<notin> set is" "distinct is" "set is \<subseteq> {..<32}" using Cons.prems by auto
  note ih = Cons.IH [OF i(3,4), of ?p] and w = init_pg_dir_words [OF ok i(1), where p = p]
  have master: "pmem ?p (?g + of_nat (4 * l)) = pmem p (?g + of_nat (4 * l))" if "l < 1024" for l
    using w(2) master_word [OF ok i(1) _ that] by blast
  have own: "pmem (fold (init_pg_dir lay) is ?p) (dir_word lay i j) = pmem ?p (dir_word lay i j)" if "j < 1024" for j
  proof -
    have "dir_word lay i j \<noteq> dir_word lay k l" if "k \<in> set is" "l < 1024" for k l
      using dir_word_inj [OF ok i(1) _ \<open>j < 1024\<close> that(2), of k] i(2,4) that(1) by blast
    then show ?thesis using ih by blast
  qed
  have "pmem (fold (init_pg_dir lay) (i # is) p) (dir_word lay k j) = pmem p (?g + of_nat (4 * (if j = 0 then 512 else j)))"
    if "k \<in> set (i # is)" "j < 1024" for k j
  proof (cases "k = i")
    case True
    then show ?thesis using own [OF that(2)] w(1) [OF that(2)] by simp
  next
    case False
    then have "k \<in> set is" using that(1) by simp
    then have "pmem (fold (init_pg_dir lay) is ?p) (dir_word lay k j) = pmem ?p (?g + of_nat (4 * (if j = 0 then 512 else j)))"
      using ih that(2) by blast
    then show ?thesis using master that(2) by simp
  qed
  moreover have "pmem (fold (init_pg_dir lay) (i # is) p) a = pmem p a" if "\<forall>k \<in> set (i # is). \<forall>j < 1024. a \<noteq> dir_word lay k j" for a
    using ih w(2) that by simp
  ultimately show ?case by blast
qed simp

section \<open>What a started processor finds\<close>

text \<open>The walk of the MMU for an access of the kernel to any address; for the upper half it is \<^const>\<open>translate\<close>.\<close>

definition mmu_walk :: "u32 \<Rightarrow> (u32 \<Rightarrow> u32) \<Rightarrow> u32 \<Rightarrow> u32 option" where
  "mmu_walk dir m addr =
     (let e = m (pgd_slot dir addr)
      in if e AND PGD_PRESENT = 0 then None
         else let p = m (pte_slot ((e AND PAGE_MASK) + KERNEL_VIRT_ADDR) addr)
              in if p AND PTE_PRESENT = 0 then None else Some p)"

definition low_byte :: "nat \<Rightarrow> u32" where
  "low_byte i = AP_INIT_PHYS_TEXT + KERNEL_VIRT_ADDR + of_nat i"

text \<open>
  The directories of processors 1 to 31 translate the kernel half as the master did and the first 4 MiB like the
  kernel's first 4 MiB, the start-up code is in place, and the words it reads are set.
\<close>

definition ap_ready :: "kernel_layout \<Rightarrow> symbols \<Rightarrow> u8 list \<Rightarrow> u32 \<Rightarrow> u32 \<Rightarrow> (u32 \<Rightarrow> u32) \<Rightarrow> (u32 \<Rightarrow> u32) \<Rightarrow> bool" where
  "ap_ready lay sy init_ap base finish m m' \<longleftrightarrow>
     (\<forall>i. 0 < i \<and> i < 32 \<longrightarrow> dir_synced lay (dir_of lay i) m' \<and>
        (\<forall>k < 2 ^ 19. translate (dir_of lay i) m' k = translate (master_kernel_pg_dir lay) m k) \<and>
        (\<forall>v < 1024. mmu_walk (dir_of lay i) m' (uaddr v) = translate (master_kernel_pg_dir lay) m v)) \<and>
     (\<forall>k < 2 ^ 19. translate (master_kernel_pg_dir lay) m' k = translate (master_kernel_pg_dir lay) m k) \<and>
     (\<forall>i < length init_ap. read8 m' (low_byte i) = init_ap ! i) \<and>
     m' 0x80002080 = kernel_stack_0_start sy \<and> m' 0x80002084 = base \<and>
     m' 0x8000208c = kernel_pg_dir lay - KERNEL_VIRT_ADDR \<and> m' 0x80002090 = finish"

lemma ap_words_mem:
  "pmem (ap_words lay sy base finish p) = (pmem p)(0x80002080 := kernel_stack_0_start sy, 0x80002084 := base,
     0x8000208c := kernel_pg_dir lay - KERNEL_VIRT_ADDR, 0x80002090 := finish)"
  by (simp add: ap_words_def Let_def AP_FIRST_STACK_def AP_LAPIC_BASE_REGISTER_def AP_KERNEL_PG_DIR_def AP_FINISH_CODE_def
      BASE_WRITE_ADDR_def BASE_WRITE_PAGE_def KERNEL_VIRT_ADDR_def)

lemma unat_low_byte: "i \<le> 0x80000 \<Longrightarrow> unat (low_byte i) = 0x80007c00 + i"
  unfolding low_byte_def by (subst unat_add_of_nat) (simp_all add: AP_INIT_PHYS_TEXT_def KERNEL_VIRT_ADDR_def)

definition started :: "nat list" where
  "started = [1..<32]"

lemma started: "i \<in> set started \<longleftrightarrow> 0 < i \<and> i < 32" "distinct started" "set started \<subseteq> {..<32}"
  unfolding started_def by (auto simp del: upt_rec_numeral)

lemma initialize_kernel_pg_tables_fold: "initialize_kernel_pg_tables lay p = fold (init_pg_dir lay) started p"
  by (simp add: initialize_kernel_pg_tables_def MAX_NUM_SMPS_def started_def del: upt_rec_numeral)

text \<open>Above the first MiB only the directories of processors 1 to 31 are written.\<close>

lemma smp_memory_same:
  assumes ok: "smp_layout lay" and len: "length init_ap \<le> 0x80000"
    and a: "2 ^ 31 + 2 ^ 20 \<le> unat a" "\<And>i j. 0 < i \<Longrightarrow> i < 32 \<Longrightarrow> j < 1024 \<Longrightarrow> a \<noteq> dir_word lay i j"
  shows "pmem (ap_words lay sy base finish (initialize_kernel_pg_tables lay (copy_smp_init_to_low_mem init_ap p))) a = pmem p a"
proof -
  have "unat (AP_INIT_PHYS_TEXT + KERNEL_VIRT_ADDR) = 0x80007c00" by (simp add: AP_INIT_PHYS_TEXT_def KERNEL_VIRT_ADDR_def)
  then have "pmem (copy_smp_init_to_low_mem init_ap p) a = pmem p a"
    unfolding copy_smp_init_to_low_mem_def using a(1) len by (intro copy_bytes_outside) simp_all
  moreover have "pmem (ap_words lay sy base finish q) a = pmem q a" for q using a(1) by (auto simp: ap_words_mem)
  moreover have "\<forall>i \<in> set started. \<forall>j < 1024. a \<noteq> dir_word lay i j"
  proof (intro ballI allI impI)
    fix i j assume "i \<in> set started" "j < (1024 :: nat)"
    then show "a \<noteq> dir_word lay i j" using a(2) started(1) by simp
  qed
  then have "pmem (fold (init_pg_dir lay) started q) a = pmem q a" for q
    by (rule mp [OF spec [OF conjunct2 [OF init_pg_dirs [OF ok started(2,3)]]]])
  ultimately show ?thesis by (simp add: initialize_kernel_pg_tables_fold)
qed

lemma smp_memory_ready:
  assumes ok: "smp_layout lay" and inv: "pg_inv lay (master_kernel_pg_dir lay) (pmem p)" and len: "length init_ap \<le> 0x80000"
  shows "ap_ready lay sy init_ap base finish (pmem p)
     (pmem (ap_words lay sy base finish (initialize_kernel_pg_tables lay (copy_smp_init_to_low_mem init_ap p))))"
proof -
  let ?g = "master_kernel_pg_dir lay" and ?m = "pmem p"
  define p1 where "p1 = copy_smp_init_to_low_mem init_ap p"
  define p2 where "p2 = initialize_kernel_pg_tables lay p1"
  define m3 where "m3 = pmem (ap_words lay sy base finish p2)"
  have og: "layout_ok lay ?g" "2 ^ 31 + 2 ^ 20 \<le> unat ?g" "2 ^ 31 + 2 ^ 20 \<le> unat (kernel_pg_table_0 lay)"
    "2 ^ 31 + 2 ^ 20 \<le> unat (kernel_pg_dir lay)"
    using ok by (simp_all add: smp_layout_def Let_def)
  have a0: "unat (AP_INIT_PHYS_TEXT + KERNEL_VIRT_ADDR) = 0x80007c00" by (simp add: AP_INIT_PHYS_TEXT_def KERNEL_VIRT_ADDR_def)
  have m1: "pmem p1 a = ?m a" if "2 ^ 31 + 2 ^ 20 \<le> unat a" for a
    unfolding p1_def copy_smp_init_to_low_mem_def using that len by (intro copy_bytes_outside) (simp_all add: a0)
  have p2: "p2 = fold (init_pg_dir lay) started p1" by (simp add: p2_def initialize_kernel_pg_tables_fold)
  have dirs: "pmem p2 (dir_word lay i j) = pmem p1 (?g + of_nat (4 * (if j = 0 then 512 else j)))" if "0 < i" "i < 32" "j < 1024" for i j
    using init_pg_dirs [OF ok started(2,3), of p1] started(1) [of i] that unfolding p2 by blast
  have frame: "pmem p2 a = pmem p1 a" if "\<And>i j. i < 32 \<Longrightarrow> j < 1024 \<Longrightarrow> a \<noteq> dir_word lay i j" for a
    using init_pg_dirs [OF ok started(2,3), of p1] started(1) that unfolding p2 by blast
  have m3: "m3 a = pmem p2 a" if "2 ^ 31 + 2 ^ 20 \<le> unat a \<or> 0x80007c00 \<le> unat a" for a
    using that by (auto simp: m3_def ap_words_mem)
  have dir_low: "2 ^ 31 + 2 ^ 20 \<le> unat (dir_word lay i j)" if "i < 32" "j < 1024" for i j
    using unat_dir_word [OF ok that] og(4) by simp
  have master: "m3 (?g + of_nat (4 * l)) = ?m (?g + of_nat (4 * l))" if "l < 1024" for l
  proof -
    have "2 ^ 31 + 2 ^ 20 \<le> unat (?g + of_nat (4 * l))" using dir_entries [OF og(1) that] og(2) by simp
    then show ?thesis unfolding m3_def p2_def p1_def using master_word [OF ok _ _ that] by (intro smp_memory_same [OF ok len]) auto
  qed
  have pte: "m3 (pte_at lay n) = ?m (pte_at lay n)" if "n < 2 ^ 19" for n
  proof -
    have u: "unat (pte_at lay n) = unat (kernel_pg_table_0 lay) + 4 * n" by (rule unat_pte_at [OF og(1) that])
    have "pte_at lay n \<noteq> dir_word lay i j" if "i < 32" "j < 1024" for i j
    proof -
      have "unat (dir_word lay i j) = unat (kernel_pg_dir lay) + 4096 * i + 4 * j" by (rule unat_dir_word [OF ok that])
      then show ?thesis using u ok that \<open>n < 2 ^ 19\<close> by (auto simp: smp_layout_def Let_def)
    qed
    then show ?thesis unfolding m3_def p2_def p1_def using u og(3) by (intro smp_memory_same [OF ok len]) auto
  qed
  have own: "m3 (dir_word lay i j) = ?m (?g + of_nat (4 * (if j = 0 then 512 else j)))" if "0 < i" "i < 32" "j < 1024" for i j
  proof -
    define l where "l = (if j = 0 then 512 else j)"
    have "l < 1024" using that(3) by (simp add: l_def)
    then have "unat (?g + of_nat (4 * l)) = unat ?g + 4 * l" by (rule dir_entries [OF og(1)])
    then have "2 ^ 31 + 2 ^ 20 \<le> unat (?g + of_nat (4 * l))" using og(2) by linarith
    then show ?thesis unfolding l_def using m3 [OF disjI1 [OF dir_low [OF that(2,3)]]] dirs [OF that] m1 by simp
  qed
  have each: "dir_synced lay (dir_of lay i) m3 \<and> (\<forall>k < 2 ^ 19. translate (dir_of lay i) m3 k = translate ?g ?m k) \<and>
      (\<forall>v < 1024. mmu_walk (dir_of lay i) m3 (uaddr v) = translate ?g ?m v)" if i: "0 < i" "i < 32" for i
  proof -
    have "m3 (pgd_at (dir_of lay i) j) = ?m (pgd_at ?g j)" if "j < 512" for j
      using own [OF i, of "512 + j"] that by (simp add: dir_word_def pgd_at_def)
    note follow = follows_master [OF dir_of_layout(2) [OF ok i(2)] og(1) inv this pte]
    have "mmu_walk (dir_of lay i) m3 (uaddr v) = translate ?g ?m v" if v: "v < 1024" for v
    proof -
      have v': "v < 2 ^ 19" using v by simp
      have e: "m3 (pgd_slot (dir_of lay i) (uaddr v)) = ?m (pgd_at ?g 0)"
        using own [OF i, of 0] v by (simp add: user_slots(1) [OF v'] ud_def dir_word_def pgd_at_def)
      have "pte_slot (table_at lay 0) (uaddr v) = pte_at lay v"
        using v by (simp add: pte_slot_def uaddr_index [OF v'] table_at_def pte_at_def)
      moreover have "?m (pgd_at ?g 0) = 0 \<and> ?m (pte_at lay v) = 0 \<or>
          ?m (pgd_at ?g 0) AND PGD_PRESENT \<noteq> 0 \<and> (?m (pgd_at ?g 0) AND PAGE_MASK) + KERNEL_VIRT_ADDR = table_at lay 0"
        using inv v v' unfolding pg_inv_def Let_def by (metis div_less zero_less_numeral)
      ultimately show ?thesis
        using translate_inv [OF og(1) inv v'] pte [OF v'] e by (auto simp: mmu_walk_def Let_def)
    qed
    then show ?thesis using follow by blast
  qed
  have kernel: "translate ?g m3 k = translate ?g ?m k" if "k < 2 ^ 19" for k
  proof (rule follows_master(2) [OF og(1) og(1) inv _ pte that])
    show "m3 (pgd_at ?g j) = ?m (pgd_at ?g j)" if "j < 512" for j
      using master [of "512 + j"] that by (simp add: pgd_at_def)
  qed
  have image: "read8 m3 (low_byte i) = init_ap ! i" if i: "i < length init_ap" for i
  proof -
    have u: "unat (low_byte i) = 0x80007c00 + i" using i len by (simp add: unat_low_byte)
    let ?w = "low_byte i AND NOT 3"
    have w: "unat ?w \<le> 0x80007c00 + i" "0x80007c00 + i < unat ?w + 4" "unat ?w mod 4 = 0"
      using word_of_byte [of "low_byte i"] word_of_byte_aligned [of "low_byte i"] unfolding u by blast+
    have low: "0x80007c00 \<le> unat ?w" "unat ?w < 2 ^ 31 + 2 ^ 20"
    proof -
      show "0x80007c00 \<le> unat ?w" using w(2,3) by presburger
      show "unat ?w < 2 ^ 31 + 2 ^ 20" using w(1) i len by simp
    qed
    have "pmem p2 ?w = pmem p1 ?w"
    proof (rule frame)
      fix k j assume "k < (32 :: nat)" "j < (1024 :: nat)"
      then show "?w \<noteq> dir_word lay k j" using dir_low [of k j] low(2) by auto
    qed
    then have "read8 m3 (low_byte i) = read8 (pmem p1) (low_byte i)" using m3 [of ?w] low(1) by (simp add: read8_def)
    also have "\<dots> = init_ap ! i"
      unfolding p1_def copy_smp_init_to_low_mem_def using copy_bytes_read [of "AP_INIT_PHYS_TEXT + KERNEL_VIRT_ADDR" init_ap] len i u
      by (simp add: a0)
    finally show ?thesis .
  qed
  have "ap_ready lay sy init_ap base finish ?m m3"
    unfolding ap_ready_def using each kernel image by (simp add: m3_def ap_words_mem)
  then show ?thesis by (simp only: m3_def p2_def p1_def)
qed

text \<open>A wait in which no other processor writes memory; interrupts may write device registers.\<close>

definition quiet :: "(u32 \<Rightarrow> smp \<Rightarrow> smp option) \<Rightarrow> bool" where
  "quiet wait \<longleftrightarrow> (\<forall>c s. \<exists>s' w. wait c s = Some s' \<and> mmio (irq s') = mmio (irq s) @ w \<and>
     paging_of (mach (irq s')) = paging_of (mach (irq s)) \<and> lapic_base_register (irq s') = lapic_base_register (irq s))"

lemma quiet_ms:
  "quiet wait \<Longrightarrow> \<exists>s' w. pit_wait_ms wait n s = Some s' \<and> mmio (irq s') = mmio (irq s) @ w \<and>
     paging_of (mach (irq s')) = paging_of (mach (irq s)) \<and> lapic_base_register (irq s') = lapic_base_register (irq s)"
proof (induction n arbitrary: s)
  case (Suc n)
  obtain t w where t: "wait PIT_HZ s = Some t" "mmio (irq t) = mmio (irq s) @ w" "paging_of (mach (irq t)) = paging_of (mach (irq s))"
    "lapic_base_register (irq t) = lapic_base_register (irq s)"
    using Suc.prems unfolding quiet_def by metis
  obtain u v where "pit_wait_ms wait n t = Some u" "mmio (irq u) = mmio (irq t) @ v" "paging_of (mach (irq u)) = paging_of (mach (irq t))"
    "lapic_base_register (irq u) = lapic_base_register (irq t)"
    using Suc.IH [OF Suc.prems, of t] by blast
  then show ?case using t by (intro exI [of _ u] exI [of _ "w @ v"]) simp
qed simp

text \<open>(C20) \<^verbatim>\<open>smp_start\<close> on a machine with a local APIC: it sends INIT and then the start-up interrupt with page 7 to all other
  processors, in this order; and then, with no other processor writing in the waits, every processor finds its own
  directory, which translates the kernel half as the master does and the first 4 MiB to the kernel's first 4 MiB,
  the start-up code at 0x7c00 byte by byte, and the first stack, the local APIC's address, the physical address of
  the directories and the address of \<^verbatim>\<open>finish_smp_initialization\<close> in the words the start-up code reads. Without a local
  APIC nothing happens.\<close>

theorem smp_start_prepares:
  assumes "smp_layout lay" and "pg_inv lay (master_kernel_pg_dir lay) (pmem (paging_of (mach (irq s))))"
    and "length init_ap \<le> 0x80000" and "quiet wait"
  shows "\<exists>s'. smp_start lay sy init_ap finish wait s = Some s' \<and>
     (if lapic_present (irq s) = 0 then s' = s
      else let b = lapic_base_register (irq s)
           in ap_ready lay sy init_ap b finish (pmem (paging_of (mach (irq s)))) (pmem (paging_of (mach (irq s')))) \<and>
              (\<exists>w1 w2. mmio (irq s') = mmio (irq s) @ [W32 (b + 0x300) 0xc4500, W32 (b + 0x310) 0] @ w1 @
                 [W32 (b + 0x300) 0xc4607, W32 (b + 0x310) 0] @ w2))"
proof (cases "lapic_present (irq s) = 0")
  case True
  then show ?thesis by (simp add: smp_start_def)
next
  case False
  let ?b = "lapic_base_register (irq s)" and ?p = "paging_of (mach (irq s))"
  define p where "p = ap_words lay sy ?b finish (initialize_kernel_pg_tables lay (copy_smp_init_to_low_mem init_ap ?p))"
  define s1 where "s1 = s\<lparr>irq := (irq s)\<lparr>mach := (mach (irq s))\<lparr>paging_of := p\<rparr>\<rparr>\<rparr>"
  define s2 where "s2 = upd_irq (lapic_write_register LAPIC_ICR_2 0) (upd_irq (lapic_write_register LAPIC_ICR_1 0xc4500) s1)"
  obtain s3 w1 where s3: "pit_wait_ms wait 10 s2 = Some s3" "mmio (irq s3) = mmio (irq s2) @ w1"
    "paging_of (mach (irq s3)) = paging_of (mach (irq s2))" "lapic_base_register (irq s3) = lapic_base_register (irq s2)"
    using quiet_ms [OF assms(4)] by metis
  define s4 where "s4 = upd_irq (lapic_write_register LAPIC_ICR_2 0)
     (upd_irq (lapic_write_register LAPIC_ICR_1 (0xc4600 OR drop_bit 12 AP_INIT_PHYS_TEXT)) s3)"
  obtain s5 w2 where s5: "pit_wait_ms wait 200 s4 = Some s5" "mmio (irq s5) = mmio (irq s4) @ w2"
    "paging_of (mach (irq s5)) = paging_of (mach (irq s4))"
    using quiet_ms [OF assms(4)] by metis
  have "(0xc4600 OR drop_bit 12 AP_INIT_PHYS_TEXT :: u32) = 0xc4607" by (simp add: AP_INIT_PHYS_TEXT_def)
  note defs = upd_irq_def lapic_write_register_def mmio_put_def LAPIC_ICR_1_def LAPIC_ICR_2_def this
  have mem: "paging_of (mach (irq s5)) = p" using s3(3) s5(3) by (simp add: s4_def s2_def s1_def defs)
  have io: "mmio (irq s5) = mmio (irq s) @ [W32 (?b + 0x300) 0xc4500, W32 (?b + 0x310) 0] @ w1 @
      [W32 (?b + 0x300) 0xc4607, W32 (?b + 0x310) 0] @ w2"
    using s3(2,4) s5(2) by (simp add: s4_def s2_def s1_def defs)
  have "smp_start lay sy init_ap finish wait s =
     Some (upd_irq (log_irq ''SMP bits: %x\<newline>'' [smp_bits s5]) (upd_irq (log_irq ''Number of APs: %d '' [smp_nums s5]) s5))"
    using False s3(1) s5(1) unfolding s4_def s2_def s1_def p_def by (simp add: smp_start_def upd_mem_def upd_irq_def Let_def)
  moreover have "ap_ready lay sy init_ap ?b finish (pmem ?p) (pmem p)"
    unfolding p_def by (rule smp_memory_ready [OF assms(1-3)])
  moreover have "\<exists>w1 w2. mmio (irq s5) = mmio (irq s) @ [W32 (?b + 0x300) 0xc4500, W32 (?b + 0x310) 0] @ w1 @
      [W32 (?b + 0x300) 0xc4607, W32 (?b + 0x310) 0] @ w2"
    using io by blast
  ultimately show ?thesis
    using False mem by (simp add: upd_irq_def log_irq_def log_printf_def Let_def)
qed

lemma lay0_smp: "smp_layout lay0"
  by (simp add: smp_layout_def layout_ok_def lay0_def)

text \<open>A machine with a local APIC, start-up code of two bytes, and waits in which nothing happens.\<close>

definition ap_machine :: smp where
  "ap_machine = \<lparr>irq = boot_irqs\<lparr>lapic_present := 1, lapic_base_register := 0xFEE00000\<rparr>, frames = boot_mm 8 3, smp_bits = 1, smp_nums = 0,
     smp_on_hold = 0, spinlock_smp = 0\<rparr>"

theorem smp_start_prepares_witness:
  "\<exists>s'. smp_start lay0 some_symbols [0xfa, 0x31] 0x80101234 (\<lambda>_ s. Some s) ap_machine = Some s' \<and>
     read8 (pmem (paging_of (mach (irq s')))) 0x80007c01 = 0x31 \<and>
     pmem (paging_of (mach (irq s'))) 0x80002090 = 0x80101234 \<and>
     translate (dir_of lay0 5) (pmem (paging_of (mach (irq s')))) 0x123 = None"
proof -
  let ?s = ap_machine
  have p: "pmem (paging_of (mach (irq ?s))) = pmem empty_paging" "lapic_present (irq ?s) \<noteq> 0"
    by (simp_all add: ap_machine_def boot_irqs_def)
  have "quiet (\<lambda>_ s. Some s)" by (simp add: quiet_def)
  moreover have "pg_inv lay0 (master_kernel_pg_dir lay0) (pmem (paging_of (mach (irq ?s))))" unfolding p(1) by (rule lay0_ok(3))
  ultimately obtain s' where s': "smp_start lay0 some_symbols [0xfa, 0x31] 0x80101234 (\<lambda>_ s. Some s) ?s = Some s'"
    "ap_ready lay0 some_symbols [0xfa, 0x31] (lapic_base_register (irq ?s)) 0x80101234 (pmem empty_paging) (pmem (paging_of (mach (irq s'))))"
    using smp_start_prepares [OF lay0_smp, of ?s "[0xfa, 0x31]" "\<lambda>_ s. Some s" some_symbols "0x80101234"] p by (auto simp: Let_def)
  have "low_byte 1 = 0x80007c01" by (simp add: low_byte_def AP_INIT_PHYS_TEXT_def KERNEL_VIRT_ADDR_def)
  moreover have "translate (master_kernel_pg_dir lay0) (pmem empty_paging) 0x123 = None" by (simp add: translate_def empty_paging_def)
  ultimately show ?thesis
    using s' unfolding ap_ready_def by (auto dest: spec [of _ 1] spec [of _ 5] spec [of _ "0x123"])
qed

end
