(* ===== verification/User_Entry_Props.thy ===== *)
theory User_Entry_Props
  imports User_Entry Traps_Props Usermode_Props
begin

text \<open>
  The first instruction of the user program: which memory it is read from, and what the CPU may do then.
\<close>

text \<open>All segments are the flat ones of privilege 3 in the GDT, named with privilege 3.\<close>

definition user_mode :: "tables \<Rightarrow> cpu_regs \<Rightarrow> bool" where
  "user_mode t r \<longleftrightarrow>
     (let desc = \<lambda>sel. cpu_descriptor (pack_gdt (gdt t ! (unat sel div 8)))
      in r_cs r AND 7 = 3 \<and> unat (r_cs r) div 8 < length (gdt t) \<and> desc (r_cs r) = flat_segment 0xa 3 \<and>
         (\<forall>sel \<in> {r_ss r, r_ds r, r_es r, r_fs r, r_gs r}. sel AND 7 = 3 \<and> unat sel div 8 < length (gdt t) \<and> desc sel = flat_segment 2 3))"

text \<open>The registers after \<^verbatim>\<open>switch_to_um\<close>.\<close>

definition user_regs :: "cpu_regs \<Rightarrow> cpu_regs" where
  "user_regs r = r\<lparr>r_eip := USER_MODE_VIRT_TEXT, r_esp := USER_MODE_VIRT_STACK + USER_MODE_STACK_SIZE, r_eflags := r_eflags r OR 0x200,
     r_cs := 0x13, r_ss := 0x23, r_ds := 0x23, r_es := 0x23, r_fs := 0x23, r_gs := 0x23\<rparr>"

lemma switch_to_um_regs:
  "switch_to_um cpu m = Some (m\<lparr>regs_of := (regs_of m)(cpu := user_regs (regs_of m cpu))\<rparr>)"
proof -
  have "(x AND NOT b) OR b = x OR b" for x b :: u32 by (rule bit_word_eqI) (auto simp: bit_simps)
  from this [of _ "0x200"] have "(x AND - 513) OR 512 = x OR 512" for x :: u32 by simp
  then show ?thesis
    by (cases "regs_of m cpu") (simp add: switch_to_um_def Let_def um_frame_def upd_regs_def user_regs_def USER_DATA_SEG_def USER_CODE_SEG_def)
qed

lemma user_regs_mode: "tables_ready sy t \<Longrightarrow> user_mode t (user_regs r)"
proof -
  assume "tables_ready sy t"
  then have "length (gdt t) = 44" "\<forall>i < 12. cpu_descriptor (pack_gdt (gdt t ! i)) = cpu_descriptor (pack_gdt (gdt_of sy ! i))"
    by (simp_all add: tables_ready_def)
  then have "cpu_descriptor (pack_gdt (gdt t ! 2)) = flat_segment 0xa 3" "cpu_descriptor (pack_gdt (gdt t ! 4)) = flat_segment 2 3"
     "length (gdt t) = 44" using gdt_of_entry [of 2 sy] gdt_of_entry [of 4 sy] by simp_all
  then show "user_mode t (user_regs r)" by (simp add: user_mode_def user_regs_def)
qed

lemma user_stack:
  assumes "program_ready dir img F m" and "k < 8192"
  shows "\<exists>e. user_translate dir m (USER_MODE_VIRT_STACK + of_nat k) = Some e \<and> e AND PTE_WRITE \<noteq> 0"
proof -
  define i where "i = k div 4096"
  have "uaddr (0x10001 + k div 4096) + of_nat (k mod 4096) = of_nat (4096 * 0x10001 + (4096 * (k div 4096) + k mod 4096))"
    by (simp only: uaddr_def of_nat_add distrib_left add.assoc)
  then have k: "USER_MODE_VIRT_STACK + of_nat k = uaddr (0x10001 + i) + of_nat (k mod 4096)"
    by (simp add: USER_MODE_VIRT_STACK_def i_def)
  have i: "i < 2" using assms(2) by (simp add: i_def less_mult_imp_div_less)
  then have "user_translate dir m (USER_MODE_VIRT_STACK + of_nat k) = user_translate dir m (uaddr (0x10001 + i))"
    unfolding k by (intro user_byte_address) simp_all
  moreover obtain a where "user_translate dir m (uaddr (0x10001 + i)) = Some (of_nat (4096 * (a + i)) OR (PTE_PRESENT OR PTE_USER OR PTE_WRITE))"
    using assms(1) i unfolding program_ready_def by blast
  moreover have "bit (x OR (PTE_PRESENT OR PTE_USER OR PTE_WRITE)) 1" for x :: u32
    by (simp add: bit_or_iff PTE_PRESENT_def PTE_USER_def PTE_WRITE_def)
  then have "(x OR (PTE_PRESENT OR PTE_USER OR PTE_WRITE)) AND PTE_WRITE \<noteq> 0" for x :: u32
    using and_exp_eq_0_iff_not_bit [of "x OR (PTE_PRESENT OR PTE_USER OR PTE_WRITE)" 1] by (simp add: PTE_WRITE_def)
  ultimately show ?thesis by auto
qed

lemma user_entry_ok:
  assumes "tables_ready sy (tables_of m)" and "program_ready dir img F (pmem (paging_of m))" and "img \<noteq> []"
  shows "\<exists>m'. switch_to_um cpu m = Some m' \<and>
     (let r = regs_of m' cpu; mem = pmem (paging_of m)
      in user_mode (tables_of m) r \<and> user_read8 dir mem (r_eip r) = Some (img ! 0) \<and> r_eflags r = r_eflags (regs_of m cpu) OR 0x200 \<and>
         r_esp r = USER_MODE_VIRT_STACK + 8192 \<and>
         (\<forall>k < 8192. \<exists>e. user_translate dir mem (USER_MODE_VIRT_STACK + of_nat k) = Some e \<and> e AND PTE_WRITE \<noteq> 0) \<and>
         cr3 r = cr3 (regs_of m cpu) \<and> ldtr r = ldtr (regs_of m cpu) \<and> task_reg r = task_reg (regs_of m cpu)) \<and>
     (\<forall>c. c \<noteq> cpu \<longrightarrow> regs_of m' c = regs_of m c) \<and> tables_of m' = tables_of m \<and> paging_of m' = paging_of m"
proof -
  define m' where "m' = m\<lparr>regs_of := (regs_of m)(cpu := user_regs (regs_of m cpu))\<rparr>"
  have m': "switch_to_um cpu m = Some m'" "regs_of m' cpu = user_regs (regs_of m cpu)" "tables_of m' = tables_of m" "paging_of m' = paging_of m"
    "\<forall>c. c \<noteq> cpu \<longrightarrow> regs_of m' c = regs_of m c"
    unfolding m'_def by (simp_all add: switch_to_um_regs)
  have "user_read8 dir (pmem (paging_of m)) (USER_MODE_VIRT_TEXT + of_nat 0) = Some (img ! 0)"
    using assms(2,3) unfolding program_ready_def by blast
  then have "user_read8 dir (pmem (paging_of m)) (r_eip (user_regs (regs_of m cpu))) = Some (img ! 0)" by (simp add: user_regs_def)
  then show ?thesis
    using user_regs_mode [OF assms(1)] user_stack [OF assms(2)]
    by (intro exI [of _ m']) (simp add: m' Let_def, simp add: user_regs_def USER_MODE_STACK_SIZE_def)
qed

text \<open>(C18) \<^verbatim>\<open>switch_to_um\<close> on any CPU with the kernel's descriptor tables and a loaded program: all segments it leaves with are flat
  segments of privilege 3, the next instruction is fetched from the first byte of the program's image, interrupts are on and the
  other flags as they were, the 8192 bytes below the stack pointer can be written, and page directory, LDT, task register and all other CPUs are
  as before.\<close>

theorem user_mode_entered:
  assumes "tables_ready sy (tables_of m)" and "program_ready dir img F (pmem (paging_of m))" and "img \<noteq> []"
  shows "\<exists>m'. switch_to_um cpu m = Some m' \<and>
     (let r = regs_of m' cpu; mem = pmem (paging_of m)
      in user_mode (tables_of m) r \<and> user_read8 dir mem (r_eip r) = Some (img ! 0) \<and> r_eflags r = r_eflags (regs_of m cpu) OR 0x200 \<and>
         r_esp r = USER_MODE_VIRT_STACK + 8192 \<and>
         (\<forall>k < 8192. \<exists>e. user_translate dir mem (USER_MODE_VIRT_STACK + of_nat k) = Some e \<and> e AND PTE_WRITE \<noteq> 0) \<and>
         cr3 r = cr3 (regs_of m cpu) \<and> ldtr r = ldtr (regs_of m cpu) \<and> task_reg r = task_reg (regs_of m cpu)) \<and>
     (\<forall>c. c \<noteq> cpu \<longrightarrow> regs_of m' c = regs_of m c) \<and> tables_of m' = tables_of m \<and> paging_of m' = paging_of m"
  by (rule user_entry_ok [OF assms])

text \<open>A program of three bytes on a machine whose tables CPU 0 has filled.\<close>

lemma small_program: "\<exists>p' :: paging. program_ready (GET_CPU_PGDIR lay0 0) [0x90, 0xEB, 0xFD] {..<8} (pmem p')"
proof -
  obtain s where s: "mm_free s {..<8 :: nat}" "kpage_last s = 7" using eight_free by blast
  note r = lay0_user_ready [OF s, unfolded user_ready_def]
  have n: "(length [0x90, 0xEB, 0xFD :: u8] + 4095) div 4096 = 1" by simp
  have "tlb_holds (\<lambda>n. Some (of_nat (4096 * n))) t" if "t \<in> {..<8}" for t
    using that by (simp add: tlb_holds_def frame_of_def unat_of_nat del: of_nat_mult)
  then have "(\<exists>p' :: paging. program_ready (GET_CPU_PGDIR lay0 0) [0x90, 0xEB, 0xFD] {..<8} (pmem p')) \<or> memory_short {..<8} 1"
    using initialize_usermode_cases [of lay0 0 "GET_CPU_PGDIR lay0 0" empty_paging s "{..<8}" "[0x90, 0xEB, 0xFD]", unfolded n] r by simp blast
  then show ?thesis using eight_enough by blast
qed

lemma filled_tables: "\<exists>t. tables_ready some_symbols t"
proof -
  have "length (ldt blank_tables) = 2" "length (idt blank_tables) = 256" "length (tss blank_tables) = 32"
    by (simp_all add: blank_tables_def)
  then show ?thesis using boot_tables_ready by blast
qed

theorem user_mode_entered_witness:
  "\<exists>m m'. switch_to_um 0 m = Some m' \<and> cpu_descriptor (pack_gdt (gdt (tables_of m') ! (unat (r_cs (regs_of m' 0)) div 8))) = flat_segment 0xa 3 \<and>
     user_read8 (GET_CPU_PGDIR lay0 0) (pmem (paging_of m')) (r_eip (regs_of m' 0)) = Some 0x90 \<and> r_esp (regs_of m' 0) = 0x10003000"
proof -
  obtain p' :: paging where p': "program_ready (GET_CPU_PGDIR lay0 0) [0x90, 0xEB, 0xFD] {..<8} (pmem p')" using small_program by blast
  obtain t where t: "tables_ready some_symbols t" using filled_tables by blast
  define m where "m = boot_machine\<lparr>tables_of := t, paging_of := p'\<rparr>"
  have "tables_ready some_symbols (tables_of m)" "program_ready (GET_CPU_PGDIR lay0 0) [0x90, 0xEB, 0xFD] {..<8} (pmem (paging_of m))"
    using p' t by (simp_all add: m_def)
  from user_mode_entered [OF this, of 0] obtain m' where "switch_to_um 0 m = Some m'" "user_mode (tables_of m') (regs_of m' 0)"
    "user_read8 (GET_CPU_PGDIR lay0 0) (pmem (paging_of m')) (r_eip (regs_of m' 0)) = Some 0x90"
    "r_esp (regs_of m' 0) = USER_MODE_VIRT_STACK + 8192"
    by (auto simp: Let_def)
  then show ?thesis by (intro exI [of _ m] exI [of _ m']) (simp add: user_mode_def Let_def USER_MODE_VIRT_STACK_def)
qed

end
