(* ===== verification/Kernel_Run.thy ===== *)
theory Kernel_Run
  imports Irq_Props Smp_Props Acpi_Props Kernel_Pages
begin

text \<open>
  The kernel after its start: interrupts, traps and system calls on any of its processors, in any order. The state keeps its
  invariant, so that no handler gets stuck but on a scan code behind the keyboard's table, and the page faults of the kernel stay repairable.
\<close>

section \<open>Events\<close>

text \<open>\<^verbatim>\<open>common_sys_call_handler\<close> of \<^verbatim>\<open>setup32.c\<close>: without \<^verbatim>\<open>DEBUG_SYSCALL\<close> it does nothing.\<close>

definition common_sys_call_handler :: "regs_frame \<Rightarrow> irqs \<Rightarrow> irqs" where
  "common_sys_call_handler rf s = s"

text \<open>
  An interrupt comes with the processor, the byte the keyboard has for it, the uninitialised buffer of the timer, and its frame; a
  trap with the register CR2.
\<close>

datatype event =
  Irq (ev_cpu: nat) u8 "u8 list" regs_frame
| Trap (ev_cpu: nat) u32 regs_frame
| Syscall (ev_cpu: nat) regs_frame

text \<open>The state is the set of halted processors and what they share; \<^const>\<open>None\<close> is an access outside an array.\<close>

fun handle :: "kernel_layout \<Rightarrow> event \<Rightarrow> nat set \<times> irqs \<Rightarrow> (nat set \<times> irqs) option" where
  "handle lay (Irq c scan_code str rf) (H, s) = do { s \<leftarrow> common_interrupt_handler c scan_code str rf s; Some (H, s) }"
| "handle lay (Trap c cr2 rf) (H, s) =
     Some (case trap_handler lay (of_nat c) cr2 rf (mach s) of
             Resume m \<Rightarrow> (H, s\<lparr>mach := m\<rparr>)
           | Halt m \<Rightarrow> (insert c H, s\<lparr>mach := m\<rparr>))"
| "handle lay (Syscall c rf) (H, s) = Some (H, common_sys_call_handler rf s)"

text \<open>The sixteen lines, the keyboard with a scan code its table knows.\<close>

fun delivered :: "event \<Rightarrow> bool" where
  "delivered (Irq c scan_code str rf) \<longleftrightarrow> length str = 20 \<and> code_nr rf < 16 \<and> (code_nr rf = 2 \<longrightarrow> kbd_decodable scan_code)"
| "delivered e \<longleftrightarrow> True"

text \<open>The same lines with any scan code, and the events whose scan code lies outside the table of the keyboard.\<close>

fun arrives :: "event \<Rightarrow> bool" where
  "arrives (Irq c scan_code str rf) \<longleftrightarrow> length str = 20 \<and> code_nr rf < 16"
| "arrives e \<longleftrightarrow> True"

fun unknown_key :: "event \<Rightarrow> bool" where
  "unknown_key (Irq c scan_code str rf) \<longleftrightarrow> code_nr rf = 2 \<and> \<not> kbd_decodable scan_code"
| "unknown_key e \<longleftrightarrow> False"

lemma delivered_iff: "delivered e \<longleftrightarrow> arrives e \<and> \<not> unknown_key e"
  by (cases e) auto

definition can_happen :: "nat set \<Rightarrow> nat set \<Rightarrow> event \<Rightarrow> bool" where
  "can_happen C H e \<longleftrightarrow> ev_cpu e \<in> C - H \<and> delivered e"

inductive kernel_run :: "kernel_layout \<Rightarrow> nat set \<Rightarrow> nat set \<times> irqs \<Rightarrow> nat set \<times> irqs \<Rightarrow> bool"
  for lay C start
where
  begins: "kernel_run lay C start start"
| goes_on: "kernel_run lay C start (H, s) \<Longrightarrow> can_happen C H e \<Longrightarrow> handle lay e (H, s) = Some x \<Longrightarrow> kernel_run lay C start x"

section \<open>The invariant\<close>

definition sizes_ok :: "irqs \<Rightarrow> bool" where
  "sizes_ok s \<longleftrightarrow> length (sched_tick (mach s)) = MAX_NUM_SMPS \<and> length (timer_counter s) = MAX_NUM_SMPS \<and> length (seconds s) = MAX_NUM_SMPS"

definition handlers_ok :: "irqs \<Rightarrow> bool" where
  "handlers_ok s \<longleftrightarrow> sizes_ok s \<and> rb_wf (ring_buffer_kbd (kbd s)) \<and> (\<exists>hist. window_ok hist (kbd s))"

definition kernel_typed :: "kernel_layout \<Rightarrow> symbols \<Rightarrow> nat set \<Rightarrow> irqs \<Rightarrow> bool" where
  "kernel_typed lay sy C s \<longleftrightarrow>
     handlers_ok s \<and> paging_ready lay s \<and>
     tables_ready sy (tables_of (mach s)) \<and> (\<forall>c \<in> C. dir_synced lay (dir_of lay c) (pmem (paging_of (mach s))))"

lemma handlers_ok_part: "handler_part t = handler_part s \<Longrightarrow> handlers_ok t = handlers_ok s"
  by (simp add: handlers_ok_def sizes_ok_def handler_part_def)

lemma typed_ready: "kernel_typed lay sy C s \<Longrightarrow> c < 32 \<Longrightarrow> handler_ready c s"
  by (simp add: kernel_typed_def handlers_ok_def sizes_ok_def handler_ready_def has_cpu_def MAX_NUM_SMPS_def)

lemma outs_frame [simp]:
  "paging_of (mach (outs ps s)) = paging_of (mach s)" "tables_of (mach (outs ps s)) = tables_of (mach s)"
  "regs_of (mach (outs ps s)) = regs_of (mach s)" "mmio (outs ps s) = mmio s" "lapic_present (outs ps s) = lapic_present s"
proof -
  have "\<exists>ports. fold (\<lambda>(port, x). outb x port) ps m = m\<lparr>port_out := ports\<rparr>" for m
  proof (induction ps arbitrary: m)
    case (Cons p ps)
    obtain port x where p: "p = (port, x)" by (cases p)
    obtain ports where "fold (\<lambda>(port, x). outb x port) ps (outb x port m) = (outb x port m)\<lparr>port_out := ports\<rparr>"
      using Cons.IH by blast
    then have "fold (\<lambda>(port, x). outb x port) (p # ps) m = m\<lparr>port_out := ports\<rparr>" by (simp add: p) (simp add: outb_def)
    then show ?case by blast
  next
    case Nil
    show ?case by (rule exI [of _ "port_out m"]) simp
  qed
  then obtain ports where "outs ps s = s\<lparr>mach := (mach s)\<lparr>port_out := ports\<rparr>\<rparr>" unfolding outs_def by metis
  then show "paging_of (mach (outs ps s)) = paging_of (mach s)" "tables_of (mach (outs ps s)) = tables_of (mach s)"
    "regs_of (mach (outs ps s)) = regs_of (mach s)" "mmio (outs ps s) = mmio s" "lapic_present (outs ps s) = lapic_present s"
    by simp_all
qed

text \<open>What an interrupt leaves alone.\<close>

definition same_frame :: "irqs \<Rightarrow> irqs \<Rightarrow> bool" where
  "same_frame s t \<longleftrightarrow> (sizes_ok s \<longrightarrow> sizes_ok t) \<and> paging_of (mach t) = paging_of (mach s) \<and> tables_of (mach t) = tables_of (mach s) \<and>
     regs_of (mach t) = regs_of (mach s) \<and> (\<exists>ws. mmio t = mmio s @ ws)"

lemma same_frame_refl [simp]: "same_frame s s"
  by (simp add: same_frame_def)

lemma same_frame_trans: "same_frame s t \<Longrightarrow> same_frame t u \<Longrightarrow> same_frame s u"
  by (auto simp: same_frame_def)

lemma sendEOI_frame: "n < 16 \<Longrightarrow> same_frame t (sendEOI n t)"
  using sendEOI_logged [of n t] by (simp add: same_frame_def sizes_ok_def) (simp add: sendEOI_def mmio_put_def)

lemma upd_counter_length: "upd_counter c xs = Some ys \<Longrightarrow> length ys = length xs"
  by (auto simp: upd_counter_def bind_eq_Some_conv aput_eq_Some)

lemma timer_tick_frame: "timer_tick c str s = Some t \<Longrightarrow> same_frame s t"
  by (auto simp: timer_tick_def same_frame_def sizes_ok_def bind_eq_Some_conv Let_def aput_eq_Some dest!: upd_counter_length
      split: if_splits)

lemma interrupt_frame:
  assumes "common_interrupt_handler c sc str rf s = Some t" and "code_nr rf < 16"
  shows "same_frame s t"
proof -
  have u: "same_frame s (s\<lparr>mach := (mach s)\<lparr>sched_tick := ts\<rparr>\<rparr>)" if "upd_counter c (sched_tick (mach s)) = Some ts" for ts
    using upd_counter_length [OF that] by (simp add: same_frame_def sizes_ok_def)
  obtain s' where s': "t = sendEOI (code_nr rf) s'" "same_frame s s'"
  proof (cases "code_nr rf = 0")
    case True
    then obtain ts where ts: "upd_counter c (sched_tick (mach s)) = Some ts"
      using assms(1) by (auto simp: common_interrupt_handler_def bind_eq_Some_conv)
    show ?thesis
    proof (cases "lapic_calibration_mode s")
      case True
      then have "t = sendEOI 0 (s\<lparr>mach := (mach s)\<lparr>sched_tick := ts\<rparr>, lapic_calibration_tick := lapic_calibration_tick s + 1\<rparr>)"
        using assms(1) ts \<open>code_nr rf = 0\<close> by (simp add: common_interrupt_handler_def Let_def)
      moreover have "same_frame s (s\<lparr>mach := (mach s)\<lparr>sched_tick := ts\<rparr>, lapic_calibration_tick := lapic_calibration_tick s + 1\<rparr>)"
        using u [OF ts] by (simp add: same_frame_def sizes_ok_def)
      ultimately show ?thesis using that \<open>code_nr rf = 0\<close> by simp
    next
      case False
      then obtain v where "timer_tick c str (s\<lparr>mach := (mach s)\<lparr>sched_tick := ts\<rparr>\<rparr>) = Some v" "t = sendEOI 0 v"
        using assms(1) ts \<open>code_nr rf = 0\<close> by (auto simp: common_interrupt_handler_def Let_def bind_eq_Some_conv)
      then show ?thesis using that same_frame_trans [OF u [OF ts] timer_tick_frame] \<open>code_nr rf = 0\<close> by simp
    qed
  next
    case False
    then have "t = sendEOI (code_nr rf) s \<or> (\<exists>k. t = sendEOI (code_nr rf) (s\<lparr>kbd := k\<rparr>))"
      using assms(1) by (auto simp: common_interrupt_handler_def bind_eq_Some_conv split: if_splits)
    moreover have "same_frame s (s\<lparr>kbd := k\<rparr>)" for k by (simp_all add: same_frame_def sizes_ok_def)
    ultimately show ?thesis using that same_frame_refl by blast
  qed
  then show ?thesis using sendEOI_frame [OF assms(2)] same_frame_trans by blast
qed

lemma interrupt_typed:
  assumes "kernel_typed lay sy C s" and "c < 32" and "length str = 20" "code_nr rf < 16" "code_nr rf = 2 \<Longrightarrow> kbd_decodable sc"
  shows "\<exists>t. common_interrupt_handler c sc str rf s = Some t \<and> kernel_typed lay sy C t \<and> same_frame s t"
proof -
  obtain t where t: "common_interrupt_handler c sc str rf s = Some t" "handler_ready c t"
    using handler_returns [OF typed_ready [OF assms(1,2)] assms(3-5)] typed_ready [OF assms(1,2)] by blast
  then have f: "same_frame s t" using interrupt_frame assms(4) by blast
  then have "kernel_typed lay sy C t"
    using assms(1) t(2) by (simp add: kernel_typed_def handlers_ok_def same_frame_def handler_ready_def paging_ready_def)
  then show ?thesis using t(1) f by blast
qed

section \<open>Traps\<close>

text \<open>A trap that returns has copied a directory entry of the master; the word is one of the directory of the CPU.\<close>

definition same_but_memory :: "machine \<Rightarrow> machine \<Rightarrow> bool" where
  "same_but_memory m m' \<longleftrightarrow> tables_of m' = tables_of m \<and> sched_tick m' = sched_tick m \<and> regs_of m' = regs_of m"

lemma trap_outcome:
  "(\<exists>m'. trap_handler lay (of_nat c) cr2 rf m = Halt m' \<and> same_but_memory m m' \<and> paging_of m' = paging_of m) \<or>
   (\<exists>m' i. trap_handler lay (of_nat c) cr2 rf m = Resume m' \<and> same_but_memory m m' \<and> i < 1024 \<and>
      pmem (paging_of m) (master_kernel_pg_dir lay + of_nat (4 * i)) \<noteq> 0 \<and>
      paging_of m' = pmem_write (dir_word lay c i) (pmem (paging_of m) (master_kernel_pg_dir lay + of_nat (4 * i))) (paging_of m))"
proof -
  define i where "i = unat (drop_bit PGD_SHIFT cr2 AND 0x3ff)"
  have "drop_bit PGD_SHIFT cr2 AND 0x3ff \<le> 0x3ff" by (rule word_and_le1)
  then have i: "i < 1024" by (simp add: i_def word_le_nat_alt)
  have w: "GET_CPU_PGDIR lay (of_nat c) + 4 * (drop_bit PGD_SHIFT cr2 AND 0x3ff) = dir_word lay c i"
    "master_kernel_pg_dir lay + 4 * (drop_bit PGD_SHIFT cr2 AND 0x3ff) = master_kernel_pg_dir lay + of_nat (4 * i)"
    by (simp_all add: i_def dir_word_def dir_of_def GET_CPU_PGDIR_def)
  show ?thesis
    unfolding trap_handler_def Let_def w using i by (auto simp: log_printf_def same_but_memory_def)
qed

lemma pte_dir_word: "smp_layout lay \<Longrightarrow> i < 32 \<Longrightarrow> j < 1024 \<Longrightarrow> n < 2 ^ 19 \<Longrightarrow> pte_at lay n \<noteq> dir_word lay i j"
  using unat_dir_word [of lay i j] unat_pte_at [of lay "master_kernel_pg_dir lay" n] by (auto simp: smp_layout_def Let_def)

lemma dir_word_pgd: "pgd_at (dir_of lay c) j = dir_word lay c (512 + j)"
  by (simp add: pgd_at_def dir_word_def)

lemma dir_write_keeps:
  assumes ok: "smp_layout lay" and c: "c < 32" and i: "i < 1024" and g: "g = master_kernel_pg_dir lay"
    and inv: "pg_inv lay g m" and z: "m (g + of_nat (4 * i)) \<noteq> 0" and m': "m' = m(dir_word lay c i := m (g + of_nat (4 * i)))"
  shows "pg_inv lay g m'" "\<And>k. k < 32 \<Longrightarrow> dir_synced lay (dir_of lay k) m \<Longrightarrow> dir_synced lay (dir_of lay k) m'"
    "\<And>n. n < 2 ^ 19 \<Longrightarrow> translate g m' n = translate g m n"
proof -
  have lg: "layout_ok lay g" using ok by (simp add: g smp_layout_def Let_def)
  have pte: "m' (pte_at lay n) = m (pte_at lay n)" if "n < 2 ^ 19" for n using pte_dir_word [OF ok c i that] by (simp add: m')
  have master: "m' (pgd_at g j) = m (pgd_at g j)" if "j < 512" for j
    using master_word [OF ok c i, of "512 + j"] that by (simp add: m' g pgd_at_def)
  show gi: "pg_inv lay g m'" by (rule pg_inv_cong [OF inv master pte])
  show "translate g m' n = translate g m n" if "n < 2 ^ 19" for n
    using translate_inv [OF lg gi that] translate_inv [OF lg inv that] pte [OF that] by simp
  fix k assume k: "k < 32" and sync: "dir_synced lay (dir_of lay k) m"
  show "dir_synced lay (dir_of lay k) m'"
    unfolding dir_synced_def Let_def
  proof (intro allI impI)
    fix j :: nat assume j: "j < 512"
    show "m' (pgd_at (dir_of lay k) j) = 0 \<or> m' (pgd_at (dir_of lay k) j) AND PGD_PRESENT \<noteq> 0 \<and>
        (m' (pgd_at (dir_of lay k) j) AND PAGE_MASK) + KERNEL_VIRT_ADDR = table_at lay j"
    proof (cases "k = c \<and> 512 + j = i")
      case True
      then have w: "m' (pgd_at (dir_of lay k) j) = m (pgd_at g j)" by (auto simp: m' dir_word_pgd) (simp add: pgd_at_def)
      have "m (pgd_at g j) \<noteq> 0" using True z by (auto simp: pgd_at_def)
      then show ?thesis using inv j unfolding w pg_inv_def Let_def by blast
    next
      case False
      then have "pgd_at (dir_of lay k) j \<noteq> dir_word lay c i"
        using dir_word_inj [OF ok k c _ i, of "512 + j"] j by (auto simp: dir_word_pgd)
      then show ?thesis using sync j unfolding m' dir_synced_def Let_def by simp
    qed
  qed
qed

lemma trap_typed:
  assumes ok: "smp_layout lay" and C: "C \<subseteq> {..<32}" and c: "c < 32" and s: "kernel_typed lay sy C s"
    and x: "handle lay (Trap c cr2 rf) (H, s) = Some (H', t)"
  shows "kernel_typed lay sy C t" "n < 2 ^ 19 \<Longrightarrow> translate (master_kernel_pg_dir lay) (pmem (paging_of (mach t))) n =
     translate (master_kernel_pg_dir lay) (pmem (paging_of (mach s))) n"
proof -
  let ?g = "master_kernel_pg_dir lay" and ?m = "mach s"
  have dir: "pgdir_for lay 0 0 = ?g" by (simp add: pgdir_for_def)
  have p: "pg_inv lay ?g (pmem (paging_of ?m))" "locks_free (paging_of ?m)" "layout_ok lay ?g"
    using s by (simp_all add: kernel_typed_def paging_ready_def dir)
  have sync: "k \<in> C \<Longrightarrow> dir_synced lay (dir_of lay k) (pmem (paging_of ?m))" for k using s by (simp add: kernel_typed_def)
  obtain m' where t: "t = s\<lparr>mach := m'\<rparr>" and same: "same_but_memory ?m m'" and
    m': "paging_of m' = paging_of ?m \<or> (\<exists>i < 1024. pmem (paging_of ?m) (?g + of_nat (4 * i)) \<noteq> 0 \<and>
      paging_of m' = pmem_write (dir_word lay c i) (pmem (paging_of ?m) (?g + of_nat (4 * i))) (paging_of ?m))"
    using trap_outcome [of lay c cr2 rf ?m] x by fastforce
  have "pg_inv lay ?g (pmem (paging_of m')) \<and> locks_free (paging_of m') \<and> (\<forall>k \<in> C. dir_synced lay (dir_of lay k) (pmem (paging_of m'))) \<and>
     (\<forall>n < 2 ^ 19. translate ?g (pmem (paging_of m')) n = translate ?g (pmem (paging_of ?m)) n)"
    using m'
  proof (elim disjE exE conjE)
    assume "paging_of m' = paging_of ?m"
    then show ?thesis using p sync by simp
  next
    fix i assume i: "i < (1024 :: nat)" "pmem (paging_of ?m) (?g + of_nat (4 * i)) \<noteq> 0"
      and w: "paging_of m' = pmem_write (dir_word lay c i) (pmem (paging_of ?m) (?g + of_nat (4 * i))) (paging_of ?m)"
    have "pmem (paging_of m') = (pmem (paging_of ?m))(dir_word lay c i := pmem (paging_of ?m) (?g + of_nat (4 * i)))"
      by (simp add: w)
    note k = dir_write_keeps [OF ok c i(1) refl p(1) i(2) this]
    have "locks_free (paging_of m')" using p(2) by (simp add: w locks_free_def)
    then show ?thesis using k sync C by blast
  qed
  then show "kernel_typed lay sy C t" "n < 2 ^ 19 \<Longrightarrow> translate ?g (pmem (paging_of (mach t))) n = translate ?g (pmem (paging_of ?m)) n"
    using s same p(3) by (simp_all add: t kernel_typed_def handlers_ok_def sizes_ok_def paging_ready_def same_but_memory_def dir)
qed

section \<open>Every run\<close>

text \<open>What an event changes for nobody: what the master directory says, the registers, and what has been written to devices.\<close>

definition goes_with :: "kernel_layout \<Rightarrow> irqs \<Rightarrow> irqs \<Rightarrow> bool" where
  "goes_with lay s t \<longleftrightarrow>
     (\<forall>n < 2 ^ 19. translate (master_kernel_pg_dir lay) (pmem (paging_of (mach t))) n =
        translate (master_kernel_pg_dir lay) (pmem (paging_of (mach s))) n) \<and>
     regs_of (mach t) = regs_of (mach s) \<and> (\<exists>ws. mmio t = mmio s @ ws)"

lemma event_typed:
  assumes ok: "smp_layout lay" and C: "C \<subseteq> {..<32}" and s: "kernel_typed lay sy C s" and e: "can_happen C H e"
  shows "\<exists>H' t. handle lay e (H, s) = Some (H', t) \<and> kernel_typed lay sy C t \<and> goes_with lay s t"
proof (cases e)
  case (Irq c sc str rf)
  then have "c < 32" "length str = 20" "code_nr rf < 16" "code_nr rf = 2 \<Longrightarrow> kbd_decodable sc"
    using e C by (auto simp: can_happen_def)
  then show ?thesis using interrupt_typed [OF s, of c str rf sc] by (fastforce simp: Irq goes_with_def same_frame_def)
next
  case (Trap c cr2 rf)
  then have c: "c < 32" using e C by (auto simp: can_happen_def)
  obtain H' t where x: "handle lay (Trap c cr2 rf) (H, s) = Some (H', t)"
    by (cases "trap_handler lay (of_nat c) cr2 rf (mach s)") simp_all
  moreover have "regs_of (mach t) = regs_of (mach s)" "mmio t = mmio s"
    using x trap_outcome [of lay c cr2 rf "mach s"] by (auto simp: same_but_memory_def)
  ultimately show ?thesis using trap_typed [OF ok C c s x] by (simp add: Trap goes_with_def)
next
  case (Syscall c rf)
  then show ?thesis using s by (simp add: common_sys_call_handler_def goes_with_def)
qed

lemma unknown_key_reads_outside: "unknown_key e \<Longrightarrow> handle lay e (H, s) = None"
proof (cases e)
  case (Irq c sc str rf)
  assume "unknown_key e"
  then have k: "code_nr rf = 2" "\<not> kbd_decodable sc" by (simp_all add: Irq)
  then have "kbd_process_scan_code sc st = None" for st unfolding kbd_table_bounds by (auto simp: kbd_decodable_def)
  then show ?thesis using k(1) by (simp add: Irq common_interrupt_handler_def keyboard_handle_interrupt_def)
qed simp_all

lemma kernel_run_typed:
  assumes ok: "smp_layout lay" and C: "C \<subseteq> {..<32}" and s: "kernel_typed lay sy C s"
  shows "kernel_run lay C (H, s) x \<Longrightarrow> kernel_typed lay sy C (snd x) \<and> goes_with lay s (snd x)"
proof (induction rule: kernel_run.induct)
  case begins
  then show ?case using s by (simp add: goes_with_def)
next
  case (goes_on H' u e x)
  then show ?case using event_typed [OF ok C _ goes_on(2), of sy u] by (fastforce simp: goes_with_def)
qed


text \<open>Two processors with filled tables: a timer interrupt on CPU 3; then a key on CPU 0 and an access of CPU 3 to a page nobody has
  mapped.\<close>

lemma typed_board: "\<exists>t. kernel_typed lay0 some_symbols {0, 3} (boot_irqs\<lparr>mach := boot_machine\<lparr>tables_of := t\<rparr>\<rparr>)"
proof -
  have "length (ldt blank_tables) = 2" "length (idt blank_tables) = 256" "length (tss blank_tables) = 32"
    by (simp_all add: blank_tables_def)
  then obtain t where "tables_ready some_symbols t" using boot_tables_ready by blast
  moreover have "handler_ready 0 boot_irqs" using boot_irqs_ready [of 0 False "[]"] by (simp add: boot_irqs_def)
  moreover have "sizes_ok (boot_irqs\<lparr>mach := boot_machine\<lparr>tables_of := t\<rparr>\<rparr>)"
    by (simp add: sizes_ok_def boot_irqs_def MAX_NUM_SMPS_def boot_machine_def)
  ultimately show ?thesis
    using lay0_ok empty_synced by (intro exI [of _ t]) (simp add: kernel_typed_def handlers_ok_def handler_ready_def paging_ready_def)
qed


end
