(* ===== verification/Boot_Props.thy ===== *)
theory Boot_Props
  imports Boot Mem_Init_Props Acpi_Props Smp_Props Kernel_Pages User_Entry_Props Kernel_Run
begin

text \<open>
  The parts together: the invariant of a running kernel, that each step of the boot keeps it, and that \<^verbatim>\<open>start_kernel\<close> gets to the
  user program.
\<close>

section \<open>The invariant of the boot\<close>

text \<open>
  CPU 0 is set up, the handlers can run, the page tables are in order, and the writes \<open>ws\<close> have reached the devices.
\<close>

definition cpu_ready :: "kernel_layout \<Rightarrow> symbols \<Rightarrow> machine \<Rightarrow> bool" where
  "cpu_ready lay sy m \<longleftrightarrow> cr3 (regs_of m 0) = kernel_pg_dir lay - KERNEL_VIRT_ADDR \<and> tables_ready sy (tables_of m) \<and>
     dir_synced lay (dir_of lay 0) (pmem (paging_of m))"

definition written :: "mmio_write list \<Rightarrow> irqs \<Rightarrow> bool" where
  "written ws i \<longleftrightarrow> (\<exists>pre post. mmio i = pre @ ws @ post)"

definition irq_inv :: "kernel_layout \<Rightarrow> symbols \<Rightarrow> mmio_write list \<Rightarrow> irqs \<Rightarrow> bool" where
  "irq_inv lay sy ws i \<longleftrightarrow> handlers_ok i \<and> paging_ready lay i \<and> cpu_ready lay sy (mach i) \<and> written ws i"

text \<open>The free frames are some of those \<^verbatim>\<open>mem_init\<close> found, \<open>F\<close>, and those of \<open>R\<close> have not been taken.\<close>

definition frames_between :: "nat set \<Rightarrow> nat set \<Rightarrow> mm \<Rightarrow> bool" where
  "frames_between R F f \<longleftrightarrow> F \<subseteq> {..kpage_last f} \<and> (\<exists>G. R \<subseteq> G \<and> G \<subseteq> F \<and> mm_free f G)"

definition smp_inv :: "kernel_layout \<Rightarrow> symbols \<Rightarrow> nat set \<Rightarrow> nat set \<Rightarrow> mmio_write list \<Rightarrow> smp \<Rightarrow> bool" where
  "smp_inv lay sy R F ws s \<longleftrightarrow> irq_inv lay sy ws (irq s) \<and> frames_between R F (frames s)"

lemma written_more: "written ws i \<Longrightarrow> mmio i' = mmio i @ w \<Longrightarrow> written ws i'"
proof -
  assume "written ws i" "mmio i' = mmio i @ w"
  then obtain pre post where "mmio i' = pre @ ws @ (post @ w)" by (auto simp: written_def)
  then show "written ws i'" unfolding written_def by blast
qed

lemma irq_inv_same:
  "irq_inv lay sy ws i \<Longrightarrow> handler_part i' = handler_part i \<Longrightarrow> paging_of (mach i') = paging_of (mach i) \<Longrightarrow> tables_of (mach i') = tables_of (mach i) \<Longrightarrow>
   regs_of (mach i') = regs_of (mach i) \<Longrightarrow> mmio i' = mmio i @ w \<Longrightarrow> irq_inv lay sy ws i'"
  using written_more [of ws i i' w] handlers_ok_part [of i' i] by (simp add: irq_inv_def paging_ready_def cpu_ready_def)

lemma irq_inv_simps [simp]:
  "irq_inv lay sy ws (log_irq f a i) = irq_inv lay sy ws i"
  using handlers_ok_part [of "log_irq f a i" i]
  by (simp add: irq_inv_def cpu_ready_def written_def) (simp add: log_irq_def log_printf_def)

lemma handlers_ok_paging [simp]: "handlers_ok (i\<lparr>mach := (mach i)\<lparr>paging_of := p\<rparr>\<rparr>) = handlers_ok i"
  by (rule handlers_ok_part) simp

text \<open>In particular a processor that takes traps and interrupts keeps it.\<close>

lemma irq_inv_typed: "irq_inv lay sy ws i \<Longrightarrow> kernel_typed lay sy {0} i"
  by (simp add: irq_inv_def kernel_typed_def cpu_ready_def)

lemma irq_inv_run:
  assumes "smp_layout lay" and "irq_inv lay sy ws i" and "kernel_run lay {0} (H, i) (H', t)"
  shows "irq_inv lay sy ws t"
proof -
  have "kernel_typed lay sy {0} t" "goes_with lay i t"
    using kernel_run_typed [OF assms(1) _ irq_inv_typed [OF assms(2)] assms(3)] by simp_all
  moreover from this(2) obtain w where "mmio t = mmio i @ w" by (auto simp: goes_with_def)
  then have "written ws t" using written_more assms(2) by (auto simp: irq_inv_def)
  ultimately show ?thesis using assms(2) by (simp add: irq_inv_def kernel_typed_def goes_with_def cpu_ready_def)
qed

lemma pgdir_master [simp]: "pgdir_for lay 0 0 = master_kernel_pg_dir lay"
  by (simp add: pgdir_for_def)

lemma boot_dir: "dir_of lay 0 = kernel_pg_dir lay" "GET_CPU_PGDIR lay 0 = dir_of lay 0"
  by (simp_all add: dir_of_def GET_CPU_PGDIR_def)

lemma boot_layouts:
  assumes "smp_layout lay"
  shows "layout_ok lay (dir_of lay 0)" "layout_ok lay (master_kernel_pg_dir lay)" "apart (dir_of lay 0) (master_kernel_pg_dir lay)"
  using dir_of_layout [OF assms, of 0] assms by (simp_all add: smp_layout_def Let_def)

lemma synced_kept:
  assumes "smp_layout lay" and "tables_only lay m m'" and "dir_synced lay (dir_of lay 0) m"
  shows "dir_synced lay (dir_of lay 0) m'"
proof -
  note L = boot_layouts [OF assms(1)]
  have "m' (pgd_at (dir_of lay 0) i) = m (pgd_at (dir_of lay 0) i)" if i: "i < 512" for i
  proof (rule assms(2) [unfolded tables_only_def, rule_format], rule conjI)
    fix k assume k: "k < (2 :: nat) ^ 19"
    then have "k div 1024 < 512" by (simp add: less_mult_imp_div_less)
    then show "pgd_at (dir_of lay 0) i \<noteq> pgd_at (pgdir_for lay 0 0) (k div 1024)" using pgd_at_apart [OF L i] by simp
    show "pgd_at (dir_of lay 0) i \<noteq> pte_at lay k" by (rule pgd_pte_apart [OF L(1) i k])
  qed
  then show ?thesis using assms(3) unfolding dir_synced_def Let_def by simp
qed

lemma irq_inv_mapped:
  assumes "smp_layout lay" and "irq_inv lay sy ws i" and "locks_free p" "pg_inv lay (master_kernel_pg_dir lay) (pmem p)"
    and "tables_only lay (pmem (paging_of (mach i))) (pmem p)"
  shows "irq_inv lay sy ws (i\<lparr>mach := (mach i)\<lparr>paging_of := p\<rparr>\<rparr>)"
  using assms synced_kept [OF assms(1,5)]
  by (simp add: irq_inv_def paging_ready_def cpu_ready_def written_def)

section \<open>The local APIC\<close>

definition lapic_ok :: "u32 \<Rightarrow> u32 \<Rightarrow> bool" where
  "lapic_ok edx msr \<longleftrightarrow>
     edx AND 0x200 = 0 \<or> KERNEL_VIRT_ADDR \<le> msr AND 0xfffff000 \<and> unat (msr AND 0xfffff000) \<le> 2 ^ 32 - 0x2000"

lemma present_bit: "drop_bit 9 (edx AND 0x200) = 0 \<longleftrightarrow> edx AND 0x200 = 0" for edx :: u32
proof -
  have "(0x200 :: u32) = push_bit 9 1" by simp
  then have "edx AND 0x200 = 0 \<longleftrightarrow> \<not> bit edx 9" using and_exp_eq_0_iff_not_bit [of edx 9] by simp
  moreover have "drop_bit 9 (edx AND 0x200) = of_bool (bit edx 9)"
    by (rule bit_word_eqI) (auto simp: bit_simps)
  ultimately show ?thesis by simp
qed

lemma irq_inv_write [simp]: "irq_inv lay sy ws i \<Longrightarrow> irq_inv lay sy ws (lapic_write_register r v i)"
  by (rule irq_inv_same [where w = "[W32 (lapic_base_register i + r) v]"]) (simp_all add: lapic_write_register_def mmio_put_def handler_part_def)

lemma outs_ticks [simp]: "sched_tick (mach (outs ps s)) = sched_tick (mach s)" "handler_part (outs ps s) = handler_part s"
proof -
  have "sched_tick (fold (\<lambda>(port, x). outb x port) ps m) = sched_tick m" for m
    by (induction ps arbitrary: m) (auto simp: outb_def)
  then show "sched_tick (mach (outs ps s)) = sched_tick (mach s)" by (simp add: outs_def)
  then show "handler_part (outs ps s) = handler_part s" by (simp add: handler_part_def outs_def)
qed

lemma irq_inv_fields [simp]:
  "irq_inv lay sy ws (i\<lparr>lapic_base_register := a\<rparr>) = irq_inv lay sy ws i" "irq_inv lay sy ws (i\<lparr>lapic_id := a\<rparr>) = irq_inv lay sy ws i"
  "irq_inv lay sy ws (i\<lparr>lapic_present := a\<rparr>) = irq_inv lay sy ws i" "irq_inv lay sy ws (i\<lparr>lapic_calibration_mode := c\<rparr>) = irq_inv lay sy ws i"
  "irq_inv lay sy ws (i\<lparr>lapic_timer_enabled := c\<rparr>) = irq_inv lay sy ws i" "irq_inv lay sy ws (outs ps i) = irq_inv lay sy ws i"
  using handlers_ok_part [of "outs ps i" i]
  by (simp_all add: irq_inv_def paging_ready_def cpu_ready_def written_def handlers_ok_def sizes_ok_def)

lemma calibrate_keeps:
  assumes "\<And>n. delivers (irq_inv lay sy ws) (wait n) (irq_inv lay sy ws)"
  shows "delivers (irq_inv lay sy ws) (calibrate_lapic_timer wait) (irq_inv lay sy ws)"
proof (rule deliversI)
  fix i assume inv: "irq_inv lay sy ws i"
  let ?s = "lapic_write_register LAPIC_INITIAL_COUNTER_REG LAPIC_COUNTER_VALUE
     ((lapic_write_register LAPIC_DIVIDE_CONFIGURATION_REG LAPIC_DIVIDE_CONFIG_VALUE
        (lapic_write_register LAPIC_LVT_TIMER_REG (LAPIC_IDT_VECTOR OR 0x20000) i))\<lparr>lapic_calibration_mode := True\<rparr>)"
  have "irq_inv lay sy ws ?s" using inv by simp
  from deliversD [OF assms this, of 1] obtain t where "wait 1 ?s = Some t" "irq_inv lay sy ws t" by blast
  then show "\<exists>t. calibrate_lapic_timer wait i = Some t \<and> irq_inv lay sy ws t" by (simp add: calibrate_lapic_timer_def Let_def)
qed

lemma init_lapic_keeps:
  assumes ok: "smp_layout lay" and apic: "lapic_ok edx msr" and wait: "\<And>n. delivers (irq_inv lay sy ws) (wait n) (irq_inv lay sy ws)"
  shows "delivers (irq_inv lay sy ws) (init_lapic lay 0 dev edx msr wait) (irq_inv lay sy ws)"
proof (rule deliversI)
  fix i assume inv: "irq_inv lay sy ws i"
  let ?present = "drop_bit 9 (edx AND 0x200)" and ?base = "msr AND 0xfffff000"
  show "\<exists>t. init_lapic lay 0 dev edx msr wait i = Some t \<and> irq_inv lay sy ws t"
  proof (cases "?present = 0")
    case True
    then show ?thesis using inv by (simp add: init_lapic_def)
  next
    case False
    then have b: "KERNEL_VIRT_ADDR \<le> ?base" "unat ?base + unat PAGE_SIZE \<le> 2 ^ 32 - 4096"
      using apic unfolding lapic_ok_def present_bit by (simp_all add: PAGE_SIZE_def)
    define i1 where "i1 = (log_irq ''Local APIC present: %d '' [?present] i)\<lparr>lapic_base_register := ?base\<rparr>"
    have i1: "irq_inv lay sy ws i1" "lapic_base_register i1 = ?base" using inv by (simp_all add: i1_def)
    then have "paging_ready lay i1" by (simp add: irq_inv_def)
    then obtain p where p: "map_kernel_with_pagetable lay 0 ?base ?base PAGE_SIZE PTE_WRITE 0 (paging_of (mach i1)) = Some p"
       "irq_inv lay sy ws (i1\<lparr>mach := (mach i1)\<lparr>paging_of := p\<rparr>\<rparr>)"
      using map_ready [OF _ b, of lay i1 ?base PTE_WRITE] irq_inv_mapped [OF ok i1(1)] by auto
    define i2 where "i2 = log_irq ''Local APIC address: %p '' [msr] (i1\<lparr>mach := (mach i1)\<lparr>paging_of := p\<rparr>\<rparr>)"
    define i3 where "i3 = i2\<lparr>lapic_id := signed_drop_bit 24 (lapic_read_register dev LAPIC_ID_REG i2)\<rparr>"
    define i4 where "i4 = log_irq ''Local APIC id: %x\<newline>'' [lapic_id i3] i3"
    define i5 where "i5 = (lapic_write_register LAPIC_SPURIOUS_REG (lapic_read_register dev LAPIC_SPURIOUS_REG i4 OR 0x100) i4)\<lparr>lapic_present := ?present\<rparr>"
    have run: "init_lapic lay 0 dev edx msr wait i = calibrate_lapic_timer wait i5"
      using False p(1) i1(2) by (simp add: init_lapic_def Let_def i1_def [symmetric] i2_def [symmetric] i3_def [symmetric]
          i4_def [symmetric] i5_def [symmetric] del: log_irq_simps) (simp add: i1_def i2_def i3_def i4_def i5_def)
    have "irq_inv lay sy ws i5" using p(2) by (simp add: i5_def i4_def i3_def i2_def)
    then show ?thesis unfolding run by (rule deliversD [OF calibrate_keeps [OF wait]])
  qed
qed

lemma interrupts_enable_keeps:
  assumes "smp_layout lay" and "lapic_ok edx msr" and "\<And>n. delivers (irq_inv lay sy ws) (wait n) (irq_inv lay sy ws)"
    and "wait_8042 ins \<noteq> None"
  shows "delivers (irq_inv lay sy ws) (interrupts_enable lay 0 dev edx msr wait ins) (irq_inv lay sy ws)"
  unfolding interrupts_enable_def
proof (rule delivers_bind [OF init_lapic_keeps [OF assms(1-3)]], rule deliversI)
  fix i assume "irq_inv lay sy ws i"
  then show "\<exists>t. keyboard_enable_interrupt ins (if lapic_present i = 0 then init_pit_frequency (init_pic_8259 i) else i) = Some t \<and>
      irq_inv lay sy ws t"
    using assms(4) by (auto simp: keyboard_enable_interrupt_def init_pit_frequency_def init_pic_8259_def)
qed

section \<open>From setup32 to interrupts\_enable\<close>

text \<open>
  The board: firmware as \<^const>\<open>firmware_ok\<close> asks, arrays of the sizes the code declares, an 8042 that takes its commands, and a local
  APIC, if there is one, in the kernel half.
\<close>

definition board_ok :: "environment \<Rightarrow> nat \<Rightarrow> nat \<Rightarrow> (nat \<Rightarrow> madt_item list) \<Rightarrow> irqs \<Rightarrow> bool" where
  "board_ok x k n items i \<longleftrightarrow>
     firmware_ok (x_firmware x) (length (ioapics i)) k n items \<and> length (interrupts_cpu_0 i) = 24 \<and>
     (\<forall>x \<in> set (interrupts_cpu_0 i). overriden x = 0) \<and> buses i \<noteq> [] \<and> ioapics i \<noteq> [] \<and>
     4 \<le> length (x_temp x) \<and> length (x_kbd_buffer x) = 10 \<and> wait_8042 (x_8042 x) \<noteq> None \<and> wait_8042 (x_8042_enable x) \<noteq> None \<and>
     lapic_ok (x_cpuid x) (x_apic_msr x) \<and> length (sched_tick (mach i)) = 32 \<and>
     length (timer_counter i) = 32 \<and> length (seconds i) = 32 \<and> dbg_r (kbd i) = 0 \<and> dbg_s (kbd i) = replicate 7 0 \<and> length (ldt (tables_of (mach i))) = 2 \<and>
     length (idt (tables_of (mach i))) = 256 \<and> length (tss (tables_of (mach i))) = 32"

lemma lines_ready_fields:
  "lines_ready vs dest base i \<Longrightarrow> interrupts_set i' = interrupts_set i \<Longrightarrow> interrupts_cpu_0 i' = interrupts_cpu_0 i \<Longrightarrow>
   lapic_id i' = lapic_id i \<Longrightarrow> ioapics i' = ioapics i \<Longrightarrow> lines_ready vs dest base i'"
  by (simp add: lines_ready_def)

lemma outs_fields [simp]: "interrupts_set (outs ps i) = interrupts_set i" "interrupts_cpu_0 (outs ps i) = interrupts_cpu_0 i"
  "lapic_id (outs ps i) = lapic_id i" "ioapics (outs ps i) = ioapics i"
  by (simp_all add: outs_def)

lemma devices_init_ok:
  assumes "wait_8042 ins \<noteq> None" and "length buf = 10" and "dbg_r (kbd i) = 0" "dbg_s (kbd i) = replicate 7 0"
  shows "\<exists>k ps. devices_init buf ins i = Some (outs ps (i\<lparr>kbd := k\<rparr>)) \<and> rb_wf (ring_buffer_kbd k) \<and> window_ok [] k"
proof -
  obtain k where k: "keyboard_init buf (kbd i) = Some k" using assms(2) by (simp add: keyboard_init_def ring_buffer_init_def)
  then have "dbg_r k = 0" "dbg_s k = replicate 7 0" "rb_wf (ring_buffer_kbd k)"
    using assms(2-4) by (auto simp: keyboard_init_def ring_buffer_init_def rb_wf_def)
  moreover from this have "window_ok [] k" by (simp add: window_ok_def last_six_def eval_nat_numeral)
  moreover from k have "devices_init buf ins i = Some (outs [(0x64, 0x60), (0x60, 0x60), (0x64, 0xae)] (i\<lparr>kbd := k\<rparr>))"
    using assms(1) by (auto simp: devices_init_def keyboard_controller_init_def)
  ultimately show ?thesis by blast
qed

lemma setup_boot_cpu:
  assumes "smp_layout lay" and "board_ok x k n items i" and "paging_ready lay i"
  shows "\<exists>m. setup32 lay sy 0 (mach i) = Some m \<and> paging_ready lay (i\<lparr>mach := m\<rparr>) \<and> cpu_ready lay sy m \<and>
     length (sched_tick m) = 32"
proof -
  let ?d = "dir_of lay 0" and ?g = "master_kernel_pg_dir lay"
  have d: "?d = GET_CPU_PGDIR lay (of_nat 0)" by (simp add: boot_dir)
  have p: "pg_inv lay ?g (pmem (paging_of (mach i)))" "locks_free (paging_of (mach i))" using assms(3) by (simp_all add: paging_ready_def)
  have t: "length (sched_tick (mach i)) = 32"
    "if (0 :: nat) = 0 then length (ldt (tables_of (mach i))) = 2 \<and> length (idt (tables_of (mach i))) = 256 \<and> length (tss (tables_of (mach i))) = 32
     else tables_ready sy (tables_of (mach i))" using assms(2) by (simp_all add: board_ok_def)
  obtain m where m: "setup32 lay sy 0 (mach i) = Some m" "locks_free (paging_of m) = locks_free (paging_of (mach i))"
     "dir_synced lay ?d (pmem (paging_of m))" "pg_inv lay ?g (pmem (paging_of m))" "cr3 (regs_of m 0) = ?d - KERNEL_VIRT_ADDR"
     "tables_ready sy (tables_of m)" "sched_tick m = (sched_tick (mach i))[0 := 0]"
    using setup32_ok [OF boot_layouts [OF assms(1)] d refl p(1) _ t] by auto
  then have "paging_ready lay (i\<lparr>mach := m\<rparr>)" using p(2) boot_layouts(2) [OF assms(1)] by (simp add: paging_ready_def)
  moreover have "cpu_ready lay sy m" using m(3,5,6) by (simp add: cpu_ready_def boot_dir)
  ultimately show ?thesis using m(1,7) t(1) by simp
qed

text \<open>The writes that program the pins from the firmware's overrides.\<close>

definition routes :: "(nat \<Rightarrow> madt_item list) \<Rightarrow> nat \<Rightarrow> irqs \<Rightarrow> mmio_write list \<Rightarrow> bool" where
  "routes items n i ws \<longleftrightarrow>
     (let es = tables_entries items n in programmed (overrides_of es) (lapic_id i) (io_base es (base_register (ioapics i ! 0))) ws)"

lemma start_devices_ok:
  assumes ok: "smp_layout (x_layout x)" and board: "board_ok x k n items (irq (ksmp s))" and ready: "paging_ready (x_layout x) (irq (ksmp s))"
    and wait: "\<And>c ws. delivers (irq_inv (x_layout x) (x_symbols x) ws) (irq_wait x c) (irq_inv (x_layout x) (x_symbols x) ws)"
  shows "\<exists>s' i ws. start_devices x s = Some s' \<and> routes items n (irq (ksmp s)) ws \<and> ksmp s' = (ksmp s)\<lparr>irq := i\<rparr> \<and>
     irq_inv (x_layout x) (x_symbols x) ws i"
proof -
  let ?lay = "x_layout x" and ?sy = "x_symbols x" and ?fw = "x_firmware x" and ?i = "irq (ksmp s)"
  obtain m where m: "setup32 ?lay ?sy 0 (mach ?i) = Some m" "paging_ready ?lay (?i\<lparr>mach := m\<rparr>)" "cpu_ready ?lay ?sy m"
    "length (sched_tick m) = 32"
    using setup_boot_cpu [OF ok board ready] by blast
  define a where "a = (kacpi s)\<lparr>irqs_of := ?i\<lparr>mach := m\<rparr>\<rparr>"
  have a: "irqs_of a = ?i\<lparr>mach := m\<rparr>" by (simp add: a_def)
  note b = board [unfolded board_ok_def]
  let ?es = "tables_entries items n"
  obtain i2 s3 where i2: "interrupts_init (irqs_of (bda_read_table ?fw a)) = Some i2"
    and s3: "acpi_init ?lay 0 ?fw (ioapic_allocate ?lay 0 (x_device x) (x_temp x)) ((bda_read_table ?fw a)\<lparr>irqs_of := i2\<rparr>) = Some s3"
    and l3: "lines_ready (overrides_of ?es) (lapic_id ?i) (io_base ?es (base_register (ioapics ?i ! 0))) (irqs_of s3)"
    and p3: "paging_ready ?lay (irqs_of s3)" "tables_only ?lay (pmem (paging_of m)) (pmem (paging_of (mach (irqs_of s3))))"
      "tables_of (mach (irqs_of s3)) = tables_of m" "regs_of (mach (irqs_of s3)) = regs_of m"
      "handler_part (irqs_of s3) = handler_part (?i\<lparr>mach := m\<rparr>)"
    using acpi_lines_ok [of ?fw a k n items ?lay "x_temp x" "x_device x"] b m(2) unfolding a by auto
  have c3: "cpu_ready ?lay ?sy (mach (irqs_of s3))"
    using m(3) synced_kept [OF ok p3(2)] p3(3,4) by (simp add: cpu_ready_def)
  obtain kb ps where i4: "devices_init (x_kbd_buffer x) (x_8042 x) (irqs_of s3) = Some (outs ps ((irqs_of s3)\<lparr>kbd := kb\<rparr>))"
     and kb: "rb_wf (ring_buffer_kbd kb)" "window_ok [] kb"
    using devices_init_ok [of "x_8042 x" "x_kbd_buffer x" "irqs_of s3"] b p3(5) by (auto simp: handler_part_def)
  define i4' where "i4' = outs ps ((irqs_of s3)\<lparr>kbd := kb\<rparr>)"
  have "lines_ready (overrides_of ?es) (lapic_id ?i) (io_base ?es (base_register (ioapics ?i ! 0))) i4'"
    by (rule lines_ready_fields [OF l3]) (simp_all add: i4'_def)
  then obtain ws where ws: "ioapic_init i4' = Some (i4'\<lparr>ioapic_initialized := True, mmio := mmio i4' @ ws\<rparr>)" "routes items n ?i ws"
    using lines_programmed unfolding routes_def Let_def by blast
  define i5 where "i5 = i4'\<lparr>ioapic_initialized := True, mmio := mmio i4' @ ws\<rparr>"
  have "handlers_ok ((irqs_of s3)\<lparr>kbd := kb\<rparr>)"
    using kb p3(5) b m(4) by (auto simp: handlers_ok_def sizes_ok_def handler_part_def MAX_NUM_SMPS_def)
  moreover have "handler_part i5 = handler_part ((irqs_of s3)\<lparr>kbd := kb\<rparr>)" by (simp add: i5_def i4'_def)
  ultimately have "handlers_ok i5" using handlers_ok_part by blast
  then have "irq_inv ?lay ?sy ws i5"
    using p3(1) c3 by (auto simp: i5_def i4'_def irq_inv_def paging_ready_def cpu_ready_def written_def intro: exI [of _ "[]"])
  then obtain i6 where i6: "interrupts_enable ?lay 0 (x_device x) (x_cpuid x) (x_apic_msr x) (irq_wait x) (x_8042_enable x) i5 = Some i6"
     "irq_inv ?lay ?sy ws i6"
    using deliversD [OF interrupts_enable_keeps [OF ok, of "x_cpuid x" "x_apic_msr x" ?sy ws "irq_wait x" "x_8042_enable x" "x_device x"]] wait b
    by blast
  let ?s' = "s\<lparr>kacpi := s3, ksmp := (ksmp s)\<lparr>irq := i6\<rparr>\<rparr>"
  have "start_devices x s = Some ?s'"
    using m(1) i2 s3 i4 ws(1) i6(1)
    by (simp add: start_devices_def Let_def on_irqs_def on_acpi_def on_smp_def a_def [symmetric] i4'_def [symmetric] i5_def [symmetric])
  then show ?thesis using ws(2) i6(2) by (intro exI [of _ ?s'] exI [of _ i6] exI [of _ ws]) simp
qed

section \<open>The other processors\<close>

lemma smp_inv_upd [simp]:
  "smp_inv lay sy R F ws s \<Longrightarrow> smp_inv lay sy R F ws (upd_irq (lapic_write_register r v) s)"
  "smp_inv lay sy R F ws (upd_irq (log_irq f a) s) = smp_inv lay sy R F ws s"
  by (simp_all add: smp_inv_def upd_irq_def)

lemma smp_memory_locks:
  "locks_free p \<Longrightarrow> locks_free (ap_words lay sy base finish (initialize_kernel_pg_tables lay (copy_smp_init_to_low_mem init_ap p)))"
proof -
  have "locks_free (fold (init_pg_dir lay) is q)" if "locks_free q" for "is" q
    using that by (induction "is" arbitrary: q) (auto simp: init_pg_dir_def Let_def locks_free_def)
  then show "locks_free p \<Longrightarrow> ?thesis"
    by (simp add: ap_words_def Let_def initialize_kernel_pg_tables_def copy_smp_init_to_low_mem_def locks_free_def)
qed

lemma smp_memory_keeps:
  fixes sy :: symbols and base finish :: u32
  assumes ok: "smp_layout lay" and len: "length init_ap \<le> 0x80000"
  defines "m' \<equiv> \<lambda>p. pmem (ap_words lay sy base finish (initialize_kernel_pg_tables lay (copy_smp_init_to_low_mem init_ap p)))"
  shows "pg_inv lay (master_kernel_pg_dir lay) (pmem p) \<Longrightarrow> pg_inv lay (master_kernel_pg_dir lay) (m' p)"
    "dir_synced lay (dir_of lay 0) (pmem p) \<Longrightarrow> dir_synced lay (dir_of lay 0) (m' p)"
proof -
  note L = boot_layouts [OF ok]
  have hi: "2 ^ 31 + 2 ^ 20 \<le> unat (kernel_pg_dir lay)" "2 ^ 31 + 2 ^ 20 \<le> unat (kernel_pg_table_0 lay)"
    "2 ^ 31 + 2 ^ 20 \<le> unat (master_kernel_pg_dir lay)" using ok by (simp_all add: smp_layout_def Let_def)
  have master: "m' p (pgd_at (master_kernel_pg_dir lay) j) = pmem p (pgd_at (master_kernel_pg_dir lay) j)" if "j < 512" for j
    unfolding m'_def
  proof (rule smp_memory_same [OF ok len])
    show "2 ^ 31 + 2 ^ 20 \<le> unat (pgd_at (master_kernel_pg_dir lay) j)" using unat_pgd_at [OF L(2) that] hi(3) by simp
    show "pgd_at (master_kernel_pg_dir lay) j \<noteq> dir_word lay i l" if "0 < i" "i < 32" "l < 1024" for i l
      using master_word [OF ok that(2,3), of "512 + j"] \<open>j < 512\<close> unfolding pgd_at_def by simp
  qed
  have pte: "m' p (pte_at lay n) = pmem p (pte_at lay n)" if "n < 2 ^ 19" for n
    unfolding m'_def
  proof (rule smp_memory_same [OF ok len])
    show "2 ^ 31 + 2 ^ 20 \<le> unat (pte_at lay n)" using unat_pte_at [OF L(2) that] hi(2) by simp
    show "pte_at lay n \<noteq> dir_word lay i l" if "0 < i" "i < 32" "l < 1024" for i l
      using unat_dir_word [OF ok that(2,3)] unat_pte_at [OF L(2) \<open>n < 2 ^ 19\<close>] that ok \<open>n < 2 ^ 19\<close> by (auto simp: smp_layout_def Let_def)
  qed
  have own: "m' p (pgd_at (dir_of lay 0) j) = pmem p (pgd_at (dir_of lay 0) j)" if "j < 512" for j
    unfolding m'_def
  proof (rule smp_memory_same [OF ok len])
    have w: "pgd_at (dir_of lay 0) j = dir_word lay 0 (512 + j)" by (simp add: pgd_at_def dir_word_def)
    show "2 ^ 31 + 2 ^ 20 \<le> unat (pgd_at (dir_of lay 0) j)" using unat_dir_word [OF ok, of 0 "512 + j"] hi(1) that by (simp add: w)
    show "pgd_at (dir_of lay 0) j \<noteq> dir_word lay i l" if "0 < i" "i < 32" "l < 1024" for i l
      using dir_word_inj [OF ok _ that(2) _ that(3), of 0 "512 + j"] that(1) \<open>j < 512\<close> unfolding w by auto
  qed
  show "pg_inv lay (master_kernel_pg_dir lay) (pmem p) \<Longrightarrow> pg_inv lay (master_kernel_pg_dir lay) (m' p)"
    by (rule pg_inv_cong [OF _ master pte])
  show "dir_synced lay (dir_of lay 0) (pmem p) \<Longrightarrow> dir_synced lay (dir_of lay 0) (m' p)"
    using own unfolding dir_synced_def Let_def by simp
qed

lemma smp_start_keeps:
  assumes ok: "smp_layout lay" and len: "length init_ap \<le> 0x80000"
    and wait: "delivers (smp_inv lay sy R F ws) (wait PIT_HZ) (smp_inv lay sy R F ws)"
  shows "delivers (smp_inv lay sy R F ws) (smp_start lay sy init_ap finish wait) (smp_inv lay sy R F ws)"
proof (rule deliversI)
  fix s assume inv: "smp_inv lay sy R F ws s"
  let ?b = "lapic_base_register (irq s)" and ?p = "paging_of (mach (irq s))"
  show "\<exists>t. smp_start lay sy init_ap finish wait s = Some t \<and> smp_inv lay sy R F ws t"
  proof (cases "lapic_present (irq s) = 0")
    case True
    then show ?thesis using inv by (simp add: smp_start_def)
  next
    case False
    have wait_ms: "delivers (smp_inv lay sy R F ws) (pit_wait_ms wait n) (smp_inv lay sy R F ws)" for n
      using pit_wait_ms_delivers [of "smp_inv lay sy R F ws" wait] wait by blast
    define p where "p = ap_words lay sy ?b finish (initialize_kernel_pg_tables lay (copy_smp_init_to_low_mem init_ap ?p))"
    define s1 where "s1 = s\<lparr>irq := (irq s)\<lparr>mach := (mach (irq s))\<lparr>paging_of := p\<rparr>\<rparr>\<rparr>"
    have "locks_free ?p" using inv by (simp add: smp_inv_def irq_inv_def paging_ready_def)
    then have "locks_free p" unfolding p_def by (simp add: smp_memory_locks)
    then have s1: "smp_inv lay sy R F ws s1"
      using inv smp_memory_keeps [OF ok len, of ?p sy ?b finish]
      by (simp add: s1_def p_def smp_inv_def irq_inv_def paging_ready_def cpu_ready_def written_def)
    define s2 where "s2 = upd_irq (lapic_write_register LAPIC_ICR_2 0) (upd_irq (lapic_write_register LAPIC_ICR_1 0xc4500) s1)"
    have "smp_inv lay sy R F ws s2" using s1 by (simp add: s2_def)
    then obtain s3 where s3: "pit_wait_ms wait 10 s2 = Some s3" "smp_inv lay sy R F ws s3"
      using deliversD [OF wait_ms] by blast
    define s4 where "s4 = upd_irq (lapic_write_register LAPIC_ICR_2 0)
       (upd_irq (lapic_write_register LAPIC_ICR_1 (0xc4600 OR drop_bit 12 AP_INIT_PHYS_TEXT)) s3)"
    have "smp_inv lay sy R F ws s4" using s3(2) by (simp add: s4_def)
    then obtain s5 where s5: "pit_wait_ms wait 200 s4 = Some s5" "smp_inv lay sy R F ws s5"
      using deliversD [OF wait_ms] by blast
    have "smp_start lay sy init_ap finish wait s =
       Some (upd_irq (log_irq ''SMP bits: %x\<newline>'' [smp_bits s5]) (upd_irq (log_irq ''Number of APs: %d '' [smp_nums s5]) s5))"
      using False s3(1) s5(1) unfolding s4_def s2_def s1_def p_def by (simp add: smp_start_def upd_mem_def upd_irq_def Let_def)
    then show ?thesis using s5(2) by simp
  qed
qed

section \<open>The user program\<close>

text \<open>Page tables and directories lie in the kernel's image, which ends at the physical address \<open>E\<close>.\<close>

definition tables_inside :: "kernel_layout \<Rightarrow> nat \<Rightarrow> bool" where
  "tables_inside lay E \<longleftrightarrow> unat (kernel_pg_dir lay) + 32 * 4096 \<le> 2 ^ 31 + E \<and> unat (kernel_pg_table_0 lay) + 2 ^ 21 \<le> 2 ^ 31 + E \<and>
     unat (master_kernel_pg_dir lay) + 4096 \<le> 2 ^ 31 + E"

lemma frames_behind:
  assumes "tables_inside lay E" and "E \<le> 4096 * f" and "f + 1 < 2 ^ 19"
  shows "safe_table lay (dir_of lay 0) f" "safe_table lay (master_kernel_pg_dir lay) f"
  using assms unat_kaddr [of f] by (simp_all add: tables_inside_def safe_table_def apart_def boot_dir)

lemma memory_short_less: "memory_short G n \<Longrightarrow> R \<subseteq> G \<Longrightarrow> finite G \<Longrightarrow> memory_short R n"
proof -
  assume m: "memory_short G n" and R: "R \<subseteq> G" and fin: "finite G"
  obtain X k where X: "X \<subseteq> G" "card X \<le> 3" "k \<in> {0, 1, page_order n}" "\<nexists>b. free_run k (G - X) b"
    using m unfolding memory_short_def by blast
  have "finite X" using X(1) fin finite_subset by blast
  then have "card (X \<inter> R) \<le> 3" using card_mono [of X "X \<inter> R"] X(2) by simp
  moreover have "\<nexists>b. free_run k (R - X \<inter> R) b"
  proof
    assume "\<exists>b. free_run k (R - X \<inter> R) b"
    then obtain b where "free_run k (R - X \<inter> R) b" ..
    then have "free_run k (G - X) b" using R by (auto simp: free_run_def)
    then show False using X(4) by blast
  qed
  ultimately show "memory_short R n" unfolding memory_short_def using X(3) by blast
qed

text \<open>The program in memory, or the reserve \<open>R\<close> was short.\<close>

definition booted :: "kernel_layout \<Rightarrow> nat set \<Rightarrow> u8 list \<Rightarrow> smp \<Rightarrow> bool" where
  "booted lay R img s \<longleftrightarrow> locks_free (paging_now s) \<and>
     ((\<exists>G. R \<subseteq> G \<and> program_ready (dir_of lay 0) img G (pmem (paging_now s))) \<or> memory_short R ((length img + 4095) div 4096))"

lemma fold_log_frame [simp]:
  "paging_of (mach (fold (\<lambda>(fmt, args). log_irq fmt (g args)) msgs i)) = paging_of (mach i)"
  "tables_of (mach (fold (\<lambda>(fmt, args). log_irq fmt (g args)) msgs i)) = tables_of (mach i)"
  "regs_of (mach (fold (\<lambda>(fmt, args). log_irq fmt (g args)) msgs i)) = regs_of (mach i)"
  "mmio (fold (\<lambda>(fmt, args). log_irq fmt (g args)) msgs i) = mmio i"
proof -
  have m: "mmio (log_irq f a i) = mmio i" for f a i by (simp add: log_irq_def)
  show "paging_of (mach (fold (\<lambda>(fmt, args). log_irq fmt (g args)) msgs i)) = paging_of (mach i)"
    "tables_of (mach (fold (\<lambda>(fmt, args). log_irq fmt (g args)) msgs i)) = tables_of (mach i)"
    "regs_of (mach (fold (\<lambda>(fmt, args). log_irq fmt (g args)) msgs i)) = regs_of (mach i)"
    "mmio (fold (\<lambda>(fmt, args). log_irq fmt (g args)) msgs i) = mmio i"
    by (induction msgs arbitrary: i; fastforce simp: m)+
qed

lemma usermode_on_boots:
  assumes ok: "smp_layout lay" and inv: "smp_inv lay sy R F ws s" and F: "\<forall>f \<in> F. safe_table lay (dir_of lay 0) f"
    and img: "0 < length img" "length img \<le> 1020 * 4096" and some: "F \<noteq> {}"
  shows "\<exists>g \<in> F. \<forall>tlb. tlb_holds tlb g \<longrightarrow> (\<exists>t. usermode_on lay 0 tlb img s = Some t \<and> booted lay R img t \<and>
     regs_of (mach (irq t)) = regs_of (mach (irq s)) \<and> tables_of (mach (irq t)) = tables_of (mach (irq s)) \<and>
     mmio (irq t) = mmio (irq s))"
proof -
  let ?d = "dir_of lay 0" and ?n = "(length img + 4095) div 4096"
  have "local_dir lay 0 ?d" using boot_layouts(1) [OF ok] by (simp add: local_dir_def boot_dir)
  moreover have "locks_free (paging_of (mach (irq s)))" "dir_synced lay ?d (pmem (paging_of (mach (irq s))))"
    using inv by (simp_all add: smp_inv_def irq_inv_def paging_ready_def cpu_ready_def)
  moreover obtain G where G: "R \<subseteq> G" "G \<subseteq> F" "mm_free (frames s) G" "G \<subseteq> {..kpage_last (frames s)}"
    using inv unfolding smp_inv_def frames_between_def by blast
  moreover have "\<forall>f \<in> G. safe_table lay ?d f" using F G(2) by blast
  moreover have "unat (0 :: u32) < 32" by simp
  ultimately have cases: "(\<exists>msgs s' p'. (\<forall>tlb. initialize_usermode lay 0 tlb img (frames s) (paging_of (mach (irq s))) = Some (Inr msgs, s', p')) \<and>
      locks_free p' \<and> msgs \<noteq> [] \<and> memory_short G ?n) \<or>
    (\<exists>g \<in> G. \<exists>s'. \<forall>tlb. tlb_holds tlb g \<longrightarrow> (\<exists>p'. initialize_usermode lay 0 tlb img (frames s) (paging_of (mach (irq s))) = Some (Inr [], s', p') \<and>
        locks_free p' \<and> program_ready ?d img G (pmem p')))"
    using initialize_usermode_cases [of lay 0 ?d "paging_of (mach (irq s))" "frames s" G img] img by blast
  have short: "memory_short R ?n" if "memory_short G ?n"
    using memory_short_less [OF that G(1)] G(4) finite_subset by blast
  have "\<exists>g \<in> F. \<forall>tlb. tlb_holds tlb g \<longrightarrow> (\<exists>msgs f p. initialize_usermode lay 0 tlb img (frames s) (paging_of (mach (irq s))) = Some (Inr msgs, f, p) \<and>
      locks_free p \<and> (program_ready ?d img G (pmem p) \<or> memory_short R ?n))"
    using cases short some G(2) by (elim disjE) blast+
  then obtain g where g: "g \<in> F" "\<And>tlb. tlb_holds tlb g \<Longrightarrow>
      \<exists>msgs f p. initialize_usermode lay 0 tlb img (frames s) (paging_of (mach (irq s))) = Some (Inr msgs, f, p) \<and>
      locks_free p \<and> (program_ready ?d img G (pmem p) \<or> memory_short R ?n)" by blast
  show ?thesis
  proof (rule bexI [OF _ g(1)], intro allI impI)
    fix tlb assume "tlb_holds tlb g"
    from g(2) [OF this] obtain msgs f p where i: "initialize_usermode lay 0 tlb img (frames s) (paging_of (mach (irq s))) = Some (Inr msgs, f, p)"
      "locks_free p" "program_ready ?d img G (pmem p) \<or> memory_short R ?n" by blast
    then show "\<exists>t. usermode_on lay 0 tlb img s = Some t \<and> booted lay R img t \<and> regs_of (mach (irq t)) = regs_of (mach (irq s)) \<and>
        tables_of (mach (irq t)) = tables_of (mach (irq s)) \<and> mmio (irq t) = mmio (irq s)"
      using G(1) by (auto simp: usermode_on_def upd_mem_def upd_irq_def booted_def paging_now_def)
  qed
qed

section \<open>start\_kernel\<close>

text \<open>The frames \<^verbatim>\<open>mem_init\<close> finds usable.\<close>

definition usable :: "environment \<Rightarrow> kernel \<Rightarrow> nat set" where
  "usable x s = available (x_e820 x) (unat (end_kernel_mapped_memory (kmem s))) (of_nat (length (x_init_ap x)))"

text \<open>The machine at the entry of \<^verbatim>\<open>start_kernel\<close>: page tables, firmware map, board, and an image of the user program.\<close>

definition machine_ok :: "environment \<Rightarrow> nat \<Rightarrow> nat \<Rightarrow> (nat \<Rightarrow> madt_item list) \<Rightarrow> kernel \<Rightarrow> bool" where
  "machine_ok x k n items s \<longleftrightarrow>
     (let lay = x_layout x; es = x_e820 x; p = paging_now (ksmp s); E = unat (end_kernel_mapped_memory (kmem s))
      in smp_layout lay \<and> tables_inside lay E \<and> length (lock_pgd_kernel p) = 512 \<and> length (lock_pgd_user p) = 32 \<and>
         pg_inv lay (master_kernel_pg_dir lay) (pmem p) \<and> (\<forall>k > MAX_ALLOC_ORDER. alloc_order_lock (frames (ksmp s)) k = 0) \<and>
         memory_map es \<and> (\<forall>e \<in> set es. e820_type e = 1 \<longrightarrow> hi_page e < 2 ^ 19) \<and> E \<le> 2 ^ 30 \<and> E \<le> map_end es \<and>
         length (x_init_ap x) \<le> 0x10000 \<and> board_ok x k n items (irq (ksmp s)) \<and>
         0 < length (x_image x) \<and> length (x_image x) \<le> 1020 * 4096)"

text \<open>
  What may happen in the waits. In a window for interrupts, any run of interrupts and repaired page faults of CPU 0; when other
  processors run, everything that keeps the invariants, whatever was written to the devices before, and leaves the frames of
  \<open>R\<close> alone. The output of the timer's channel rises at some poll.
\<close>

definition waits_ok :: "environment \<Rightarrow> nat set \<Rightarrow> nat set \<Rightarrow> bool" where
  "waits_ok x R F \<longleftrightarrow>
     (let lay = x_layout x; sy = x_symbols x
      in (\<forall>s. kernel_typed lay sy {0} s \<longrightarrow>
            (\<exists>t. x_irq_window x s = Some t \<and> kernel_run lay {0} ({}, s) ({}, t)) \<and>
            (\<exists>n. rises_at outs (x_port42 x) (x_irq_window x) n (pit_load outs PIT_HZ s))) \<and>
         (\<forall>ws. \<forall>f \<in> F. windows_keep (smp_inv lay sy (R - {f}) F ws) smp_outs (\<lambda>s. x_port42 x (irq s)) (x_smp_window x)))"

lemma waits_keep:
  assumes "waits_ok x R F" and "smp_layout (x_layout x)"
  shows "delivers (irq_inv (x_layout x) (x_symbols x) ws) (irq_wait x n) (irq_inv (x_layout x) (x_symbols x) ws)"
    "f \<in> F \<Longrightarrow> delivers (smp_inv (x_layout x) (x_symbols x) (R - {f}) F ws) (smp_wait x PIT_HZ) (smp_inv (x_layout x) (x_symbols x) (R - {f}) F ws)"
proof -
  have w: "(\<exists>t. x_irq_window x s = Some t \<and> kernel_run (x_layout x) {0} ({}, s) ({}, t)) \<and>
      (\<exists>n. rises_at outs (x_port42 x) (x_irq_window x) n (pit_load outs PIT_HZ s))" if "irq_inv (x_layout x) (x_symbols x) ws s" for s
    using assms(1) irq_inv_typed [OF that] by (simp add: waits_ok_def Let_def)
  have "windows_keep (irq_inv (x_layout x) (x_symbols x) ws) outs (x_port42 x) (x_irq_window x)"
    unfolding windows_keep_def delivers_def using w irq_inv_run [OF assms(2)] by metis
  from pit_wait_keeps [OF this] show "delivers (irq_inv (x_layout x) (x_symbols x) ws) (irq_wait x n) (irq_inv (x_layout x) (x_symbols x) ws)"
    unfolding irq_wait_def by (intro pit_wait_ms_delivers) simp
next
  assume "f \<in> F"
  then have "windows_keep (smp_inv (x_layout x) (x_symbols x) (R - {f}) F ws) smp_outs (\<lambda>s. x_port42 x (irq s)) (x_smp_window x)"
    using assms by (simp add: waits_ok_def Let_def)
  from pit_wait_keeps [OF this]
  show "delivers (smp_inv (x_layout x) (x_symbols x) (R - {f}) F ws) (smp_wait x PIT_HZ) (smp_inv (x_layout x) (x_symbols x) (R - {f}) F ws)"
    unfolding smp_wait_def by (simp add: smp_outs_def upd_irq_def smp_inv_def)
qed

lemma first_order: "NPAGES_TO_ORDER 1 = Some 0"
proof -
  have "filter (bit (1 :: u32)) [0..<32] = [0]"
  proof -
    have "[0..<32] = 0 # [Suc 0..<32]" by (rule upt_rec [THEN trans]) simp
    moreover have "filter (bit (1 :: u32)) [Suc 0..<32] = []" by (auto simp: filter_empty_conv bit_1_iff simp del: upt_rec_numeral)
    ultimately show ?thesis by simp
  qed
  then show ?thesis by (simp add: NPAGES_TO_ORDER_def)
qed

lemma set_memory_simps [simp]:
  "frames (set_memory f p s) = f" "paging_now (set_memory f p s) = p" "mach (irq (set_memory f p s)) = (mach (irq s))\<lparr>paging_of := p\<rparr>"
  by (simp_all add: set_memory_def paging_now_def)

lemma usable_safe:
  assumes "machine_ok x k n items s" and "f \<in> usable x s"
  shows "safe_table (x_layout x) (dir_of (x_layout x) 0) f" "safe_table (x_layout x) (master_kernel_pg_dir (x_layout x)) f"
proof -
  let ?E = "unat (end_kernel_mapped_memory (kmem s))"
  note m = assms(1) [unfolded machine_ok_def Let_def]
  obtain e where e: "e \<in> set (x_e820 x)" "covers e f" "e820_type e = 1" and f: "data_page (x_e820 x) ?E < f"
    using assms(2) by (auto simp: usable_def available_def)
  have "hi_page e < 2 ^ 19" using m e(1,3) by blast
  then have "f + 1 < 2 ^ 19" using e(2) by (simp add: covers_def)
  moreover have "?E \<le> 4096 * f" using f by (simp add: data_page_def)
  ultimately show "safe_table (x_layout x) (dir_of (x_layout x) 0) f" "safe_table (x_layout x) (master_kernel_pg_dir (x_layout x)) f"
    using frames_behind m by blast+
qed

text \<open>Up to the debug console.\<close>

lemma boot_memory:
  assumes m: "machine_ok x k n items s" and some: "usable x s \<noteq> {}"
  defines "lay \<equiv> x_layout x"
  shows "\<exists>s1 s2 f. on_mem (mem_init lay 0 (of_nat (length (x_init_ap x))) (x_e820 x) (x_str x)) (boot_locks s) = Some (0, s1) \<and>
     debug_start lay s1 = Some s2 \<and> f \<in> usable x s \<and> mm_free (frames (ksmp s2)) (usable x s - {f}) \<and>
     usable x s \<subseteq> {..kpage_last (frames (ksmp s2))} \<and> paging_ready lay (irq (ksmp s2)) \<and>
     (\<exists>p. irq (ksmp s2) = (irq (ksmp s))\<lparr>mach := (mach (irq (ksmp s)))\<lparr>paging_of := p\<rparr>\<rparr>)"
proof -
  let ?F = "usable x s" and ?g = "master_kernel_pg_dir lay" and ?s0 = "boot_locks s"
  note M = m [unfolded machine_ok_def Let_def, folded lay_def]
  have L: "layout_ok lay ?g" using boot_layouts(2) M by blast
  define m0 where "m0 = (kmem ?s0)\<lparr>mmgr := frames (ksmp ?s0), mpaging := paging_now (ksmp ?s0)\<rparr>"
  have m0: "locks_free (mpaging m0)" "pg_inv lay ?g (pmem (mpaging m0))" "\<forall>k > MAX_ALLOC_ORDER. alloc_order_lock (mmgr m0) k = 0"
    "end_kernel_mapped_memory m0 = end_kernel_mapped_memory (kmem s)"
    using M by (simp_all add: m0_def boot_locks_def Let_def pgd_lock_init_def locks_free_def map_replicate_const)
  have ap: "unat (of_nat (length (x_init_ap x)) :: u32) \<le> 0x10000" using M by (simp add: unat_of_nat)
  obtain m1 where m1: "mem_init lay 0 (of_nat (length (x_init_ap x))) (x_e820 x) (x_str x) m0 = Some (0, m1)" "mm_free (mmgr m1) ?F"
      "Suc (kpage_last (mmgr m1)) = map_pages (x_e820 x)" "locks_free (mpaging m1)" "pg_inv lay ?g (pmem (mpaging m1))"
    using mem_init_ok [OF L _ m0(1-3) _ ap, of 0 "x_e820 x" "x_str x"] M unfolding m0(4) usable_def by auto
  define s1 where "s1 = ?s0\<lparr>kmem := m1, ksmp := set_memory (mmgr m1) (mpaging m1) (ksmp ?s0)\<rparr>"
  have run: "on_mem (mem_init lay 0 (of_nat (length (x_init_ap x))) (x_e820 x) (x_str x)) ?s0 = Some (0, s1)"
    using m1(1) by (simp add: on_mem_def m0_def [symmetric] s1_def)
  have F: "?F \<subseteq> {..kpage_last (mmgr m1)}"
    using available_bound(2) M m1(3) unfolding usable_def by fastforce
  have safe: "\<forall>i \<in> ?F. safe_table lay ?g i" using usable_safe(2) [OF m] by (simp add: lay_def)
  obtain f0 where "f0 \<in> ?F" using some by blast
  then have "free_run 0 ?F f0" by (simp add: free_run_def aligned_def block_def)
  then obtain f fr p where k: "page_alloc_kmap_linear lay 0 0 (mmgr m1) (mpaging m1) = Some (kaddr f, fr, p)" "free_run 0 ?F f"
      "mm_free fr (?F - block 0 f)" "kpage_last fr = kpage_last (mmgr m1)" "locks_free p" "kernel_block lay ?g 0 f (pmem (mpaging m1)) (pmem p)"
    using kmap_linear_cases [OF L _ _ m1(4,5,2) safe, of 0 0] by auto
  have b: "block 0 f = {f}" by (auto simp: block_def)
  then have f: "f \<in> ?F" using k(2) by (simp add: free_run_def)
  have "unat (kaddr f) = 2 ^ 31 + 4096 * f" using safe f safe_less(1) unat_kaddr by blast
  then have "kaddr f \<noteq> 0" by auto
  then have "debug_start lay s1 = Some (s1\<lparr>ksmp := set_memory fr p (ksmp s1), kdebug := debug_init (replicate DEBUG_BUFFER_SIZE 0) (kdebug s1)\<rparr>)"
    (is "_ = Some ?s2") using k(1) by (simp add: debug_start_def first_order s1_def)
  moreover have "paging_ready lay (irq (ksmp ?s2))"
    using k(5,6) L by (simp add: paging_ready_def kernel_block_def)
  moreover have "\<exists>q. irq (ksmp ?s2) = (irq (ksmp s))\<lparr>mach := (mach (irq (ksmp s)))\<lparr>paging_of := q\<rparr>\<rparr>"
    by (rule exI [of _ p]) (simp add: s1_def boot_locks_def Let_def set_memory_def)
  ultimately show ?thesis
    using run f k(3,4) F b by (intro exI [of _ s1] exI [of _ ?s2] exI [of _ f]) simp
qed

lemma board_ok_paging [simp]:
  "board_ok x k n items (i\<lparr>mach := (mach i)\<lparr>paging_of := p\<rparr>\<rparr>) = board_ok x k n items i"
  "routes items n (i\<lparr>mach := (mach i)\<lparr>paging_of := p\<rparr>\<rparr>) = routes items n i"
  by (simp_all add: board_ok_def routes_def fun_eq_iff)

lemma board_ok_log [simp]: "board_ok x k n items (log_irq f a i) = board_ok x k n items i" "routes items n (log_irq f a i) = routes items n i"
  by (simp_all add: board_ok_def routes_def fun_eq_iff) (simp_all add: log_irq_def log_printf_def)

text \<open>Logging changes nothing that the boot looks at.\<close>

definition same_board :: "irqs \<Rightarrow> irqs \<Rightarrow> bool" where
  "same_board i i' \<longleftrightarrow> (\<forall>x k n items. board_ok x k n items i' = board_ok x k n items i \<and> routes items n i' = routes items n i) \<and>
     (\<forall>lay. paging_ready lay i' = paging_ready lay i)"

lemma same_board_log: "same_board i i' \<Longrightarrow> same_board i (log_irq f a i')"
  by (simp add: same_board_def)

lemma dump_log: "same_board i i' \<Longrightarrow> \<exists>j. dump_e820 print_log lit es i' = Some j \<and> same_board i j"
proof -
  have "\<exists>j. dump_entries print_log lit es i' = Some j \<and> same_board i j" if "same_board i i'" for i'
    using that by (induction es arbitrary: i') (simp_all add: print_log_def same_board_log)
  then show "same_board i i' \<Longrightarrow> ?thesis" by (simp add: dump_e820_def print_log_def same_board_log)
qed

lemma start_devices_tlb: "start_devices (x\<lparr>x_tlb := tlb\<rparr>) s = start_devices x s"
  by (simp add: start_devices_def irq_wait_def)

lemma smp_wait_tlb: "smp_wait (x\<lparr>x_tlb := tlb\<rparr>) = smp_wait x"
  by (simp add: fun_eq_iff smp_wait_def)

lemma start_kernel_boots_ok:
  assumes m: "machine_ok x k n items s" and some: "usable x s \<noteq> {}" and R: "R \<subseteq> usable x s" and wait: "waits_ok x R (usable x s)"
  shows "\<exists>g \<in> usable x s. \<forall>tlb. tlb_holds tlb g \<longrightarrow>
     (\<exists>t f ws. start_kernel (x\<lparr>x_tlb := tlb\<rparr>) s = Some (0, t) \<and> f \<in> usable x s \<and> booted (x_layout x) (R - {f}) (x_image x) (ksmp t) \<and>
     routes items n (irq (ksmp s)) ws \<and> written ws (irq (ksmp t)) \<and> tables_ready (x_symbols x) (tables_of (mach (irq (ksmp t)))) \<and>
     (let r = regs_of (mach (irq (ksmp t))) 0
      in cr3 r = kernel_pg_dir (x_layout x) - KERNEL_VIRT_ADDR \<and> user_mode (tables_of (mach (irq (ksmp t)))) r \<and>
         r_eip r = USER_MODE_VIRT_TEXT \<and> r_esp r = USER_MODE_VIRT_STACK + USER_MODE_STACK_SIZE))"
proof -
  let ?lay = "x_layout x" and ?sy = "x_symbols x" and ?F = "usable x s"
  note M = m [unfolded machine_ok_def Let_def]
  have ok: "smp_layout ?lay" using M by blast
  obtain s1 s2 f where s1: "on_mem (mem_init ?lay 0 (of_nat (length (x_init_ap x))) (x_e820 x) (x_str x)) (boot_locks s) = Some (0, s1)"
    and s2: "debug_start ?lay s1 = Some s2" and f: "f \<in> ?F" "mm_free (frames (ksmp s2)) (?F - {f})" "?F \<subseteq> {..kpage_last (frames (ksmp s2))}"
    and i2: "paging_ready ?lay (irq (ksmp s2))" "\<exists>p. irq (ksmp s2) = (irq (ksmp s))\<lparr>mach := (mach (irq (ksmp s)))\<lparr>paging_of := p\<rparr>\<rparr>"
    using boot_memory [OF m some] by blast
  have b2: "board_ok x k n items (irq (ksmp s2))" "routes items n (irq (ksmp s2)) = routes items n (irq (ksmp s))"
    using i2(2) M by auto
  define i3 where "i3 = log_irq ''XIS kernel starting (v1.0)\<newline>'' [] (irq (ksmp s2))"
  have "same_board (irq (ksmp s2)) i3" unfolding i3_def by (rule same_board_log) (simp add: same_board_def)
  then obtain i4 where i4: "dump_e820 print_log (x_literal x) (x_e820 x) i3 = Some i4" "same_board (irq (ksmp s2)) i4"
    using dump_log by blast
  define s4 where "s4 = s2\<lparr>ksmp := (ksmp s2)\<lparr>irq := i4\<rparr>\<rparr>"
  have s4: "board_ok x k n items (irq (ksmp s4))" "paging_ready ?lay (irq (ksmp s4))" "routes items n (irq (ksmp s4)) = routes items n (irq (ksmp s))"
    using i4(2) b2 i2(1) by (simp_all add: s4_def same_board_def fun_eq_iff)
  obtain s5 i5 ws where s5: "start_devices x s4 = Some s5" "routes items n (irq (ksmp s)) ws" "ksmp s5 = (ksmp s4)\<lparr>irq := i5\<rparr>"
     "irq_inv ?lay ?sy ws i5"
    using start_devices_ok [OF _ s4(1,2) waits_keep(1) [OF wait ok]] M unfolding s4(3) by blast
  have "frames_between (R - {f}) ?F (frames (ksmp s5))"
    unfolding frames_between_def using f R by (auto simp: s5(3) s4_def intro!: exI [of _ "?F - {f}"])
  then have inv: "smp_inv ?lay ?sy (R - {f}) ?F ws (ksmp s5)" using s5(3,4) by (simp add: smp_inv_def)
  note waits_keep(2) [OF wait ok f(1), of ws]
  then obtain t6 where t6: "smp_start ?lay ?sy (x_init_ap x) (x_finish x) (smp_wait x) (ksmp s5) = Some t6"
     "smp_inv ?lay ?sy (R - {f}) ?F ws t6"
    using deliversD [OF smp_start_keeps inv, of "x_init_ap x" "smp_wait x" "x_finish x"] M by fastforce
  have "\<forall>f \<in> ?F. safe_table ?lay (dir_of ?lay 0) f" using usable_safe(1) [OF m] by blast
  then obtain g where g: "g \<in> ?F" "\<And>tlb. tlb_holds tlb g \<Longrightarrow> \<exists>t7. usermode_on ?lay 0 tlb (x_image x) t6 = Some t7 \<and> booted ?lay (R - {f}) (x_image x) t7 \<and>
     regs_of (mach (irq t7)) = regs_of (mach (irq t6)) \<and> tables_of (mach (irq t7)) = tables_of (mach (irq t6)) \<and> mmio (irq t7) = mmio (irq t6)"
    using usermode_on_boots [OF _ t6(2) _ _ _ some] M by blast
  show ?thesis
  proof (rule bexI [OF _ g(1)], intro allI impI)
    fix tlb assume "tlb_holds tlb g"
    from g(2) [OF this] obtain t7 where t7: "usermode_on ?lay 0 tlb (x_image x) t6 = Some t7" "booted ?lay (R - {f}) (x_image x) t7"
       "regs_of (mach (irq t7)) = regs_of (mach (irq t6))" "tables_of (mach (irq t7)) = tables_of (mach (irq t6))" "mmio (irq t7) = mmio (irq t6)"
      by blast
    define i8 where "i8 = log_irq ''Kernel started '' [] (irq t7)"
    define i9 where "i9 = i8\<lparr>mach := (mach i8)\<lparr>regs_of := (regs_of (mach i8))(0 := user_regs (regs_of (mach i8) 0))\<rparr>\<rparr>"
    define t where "t = s5\<lparr>ksmp := t7\<lparr>irq := i9\<rparr>\<rparr>"
    have "leave_kernel 0 (t7\<lparr>irq := i8\<rparr>) = Some (t7\<lparr>irq := i9\<rparr>)"
      unfolding leave_kernel_def switch_to_um_regs by (simp add: upd_irq_def i9_def)
    then have "start_kernel (x\<lparr>x_tlb := tlb\<rparr>) s = Some (0, t)"
      using s1 s2 i4(1) s5(1) t6(1) t7(1)
      by (simp add: start_kernel_def start_devices_tlb smp_wait_tlb Let_def on_irqs_def on_smp_def print_log_def i3_def [symmetric] i8_def [symmetric] s4_def [symmetric] t_def)
    moreover have "booted ?lay (R - {f}) (x_image x) (ksmp t)" using t7(2) by (simp add: booted_def paging_now_def t_def i9_def i8_def)
    moreover have "irq_inv ?lay ?sy ws (irq t6)" using t6(2) by (simp add: smp_inv_def)
    then have c: "cpu_ready ?lay ?sy (mach (irq t6))" "written ws (irq t6)" by (simp_all add: irq_inv_def)
    then have "written ws (irq (ksmp t))" "tables_ready ?sy (tables_of (mach (irq (ksmp t))))"
      using t7(3-5) by (simp_all add: t_def i9_def i8_def written_def cpu_ready_def) (simp add: log_irq_def)
    moreover have "regs_of (mach (irq (ksmp t))) 0 = user_regs (regs_of (mach (irq t6)) 0)" using t7(3) by (simp add: t_def i9_def i8_def)
    ultimately show "\<exists>t f ws. start_kernel (x\<lparr>x_tlb := tlb\<rparr>) s = Some (0, t) \<and> f \<in> ?F \<and> booted ?lay (R - {f}) (x_image x) (ksmp t) \<and>
       routes items n (irq (ksmp s)) ws \<and> written ws (irq (ksmp t)) \<and> tables_ready ?sy (tables_of (mach (irq (ksmp t)))) \<and>
       (let r = regs_of (mach (irq (ksmp t))) 0
        in cr3 r = kernel_pg_dir ?lay - KERNEL_VIRT_ADDR \<and> user_mode (tables_of (mach (irq (ksmp t)))) r \<and>
           r_eip r = USER_MODE_VIRT_TEXT \<and> r_esp r = USER_MODE_VIRT_STACK + USER_MODE_STACK_SIZE)"
      using f(1) s5(2) c(1) user_regs_mode by (intro exI [of _ t] exI [of _ f] exI [of _ ws]) (auto simp: Let_def cpu_ready_def user_regs_def)
  qed
qed


section \<open>A machine that boots\<close>

lemma pairs_left:
  fixes b :: nat
  assumes "4 < m" and "card Y \<le> 4" "finite Y"
  shows "\<exists>i < m. 2 * (b + i) \<notin> Y \<and> 2 * (b + i) + 1 \<notin> Y"
proof (rule ccontr)
  assume no: "\<not> ?thesis"
  have "{..<m} \<subseteq> (\<lambda>y. y div 2 - b) ` Y"
  proof
    fix i assume "i \<in> {..<m}"
    then have "2 * (b + i) \<in> Y \<or> 2 * (b + i) + 1 \<in> Y" using no by auto
    moreover have "i = 2 * (b + i) div 2 - b" "i = (2 * (b + i) + 1) div 2 - b" by simp_all
    ultimately show "i \<in> (\<lambda>y. y div 2 - b) ` Y" by blast
  qed
  then have "card {..<m} \<le> card Y" using surj_card_le [OF assms(3)] by blast
  then show False using assms(1,2) by simp
qed

lemma reserve_enough: "4 < m \<Longrightarrow> \<not> memory_short ({2 * b..<2 * (b + m)} - {f}) 1"
proof
  assume m: "4 < m" and "memory_short ({2 * b..<2 * (b + m)} - {f}) 1"
  then obtain X k where X: "X \<subseteq> {2 * b..<2 * (b + m)} - {f}" "card X \<le> 3" "k \<in> {0, 1 :: nat}"
    "\<nexists>c. free_run k ({2 * b..<2 * (b + m)} - {f} - X) c"
    unfolding memory_short_def small_orders by auto
  have fin: "finite X" using X(1) finite_subset by blast
  then have "card (insert f X) \<le> 4" using X(2) card_insert_le_m1 [of 4 X f] by simp
  then obtain i where i: "i < m" "2 * (b + i) \<notin> insert f X" "2 * (b + i) + 1 \<notin> insert f X"
    using pairs_left [OF m, of "insert f X" b] fin by blast
  have "block k (2 * (b + i)) \<subseteq> {2 * b..<2 * (b + m)} - {f} - X"
  proof
    fix x assume "x \<in> block k (2 * (b + i))"
    then have "x = 2 * (b + i) \<or> x = 2 * (b + i) + 1" using X(3) by (auto simp: block_def)
    then show "x \<in> {2 * b..<2 * (b + m)} - {f} - X" using i by auto
  qed
  moreover have "aligned k (2 * (b + i))" "k \<le> MAX_ALLOC_ORDER" using X(3) by (auto simp: aligned_def MAX_ALLOC_ORDER_def)
  ultimately have "free_run k ({2 * b..<2 * (b + m)} - {f} - X) (2 * (b + i))" by (simp add: free_run_def)
  then show False using X(4) by blast
qed

text \<open>In each window one timer interrupt; 128 MiB, the kernel's image in the first 7 MiB, the board of the ACPI theory, and a program of three bytes.\<close>

definition tick_window :: "irqs \<Rightarrow> irqs option" where
  "tick_window = common_interrupt_handler 0 0 (replicate 20 0) timer_frame"

lemma tick_window_run:
  assumes "kernel_typed lay sy {0} s" and "smp_layout lay"
  shows "\<exists>t. tick_window s = Some t \<and> kernel_run lay {0} ({}, s) ({}, t)"
proof -
  let ?e = "Irq 0 0 (replicate 20 0) timer_frame"
  have e: "can_happen {0} {} ?e" by (simp add: can_happen_def timer_frame_def)
  have "\<exists>t. handle lay ?e ({}, s) = Some ({}, t) \<and> tick_window s = Some t"
    using event_typed [OF assms(2) _ assms(1) e] by (auto simp: tick_window_def bind_eq_Some_conv)
  then show ?thesis using kernel_run.goes_on [OF kernel_run.begins e] by blast
qed

definition small_environment :: environment where
  "small_environment = \<lparr>x_layout = lay0, x_symbols = some_symbols, x_e820 = small_map, x_firmware = board_firmware, x_device = (\<lambda>_ _. 0),
     x_init_ap = [0xfa, 0x31], x_finish = 0x80101234, x_image = [0x90, 0xEB, 0xFD], x_tlb = (\<lambda>n. Some (of_nat (4096 * n))), x_cpuid = 0x200, x_apic_msr = 0xfee00900,
     x_8042 = [0], x_8042_enable = [0], x_port42 = (\<lambda>_. 0x80), x_irq_window = tick_window, x_smp_window = Some, x_literal = (\<lambda>_. 0x80101000),
     x_str = replicate 20 0, x_temp = replicate 4 0, x_kbd_buffer = replicate 10 7\<rparr>"

definition small_kernel :: kernel where
  "small_kernel = \<lparr>ksmp = \<lparr>irq = boot_irqs, frames = boot_mm 1 0, smp_bits = 1, smp_nums = 0, smp_on_hold = 0, spinlock_smp = 1\<rparr>,
     kmem = small_machine\<lparr>end_kernel_mapped_memory := 0x700000\<rparr>, kacpi = board_acpi, kdebug = debug0\<rparr>"

lemma small_reserve: "{2 * 0x800..<2 * (0x800 + 8)} \<subseteq> usable small_environment small_kernel"
proof
  fix i assume "i \<in> {2 * 0x800..<2 * (0x800 + 8 :: nat)}"
  then have "0x1000 \<le> i" "i < 0x1010" by simp_all
  then show "i \<in> usable small_environment small_kernel"
    by (auto simp: usable_def small_environment_def small_kernel_def available_def small_map_def covers_def lo_page_def hi_page_def data_page_def
        map_pages_def map_end_def tables_needed_def ap_end_def)
qed

lemma small_ok: "machine_ok small_environment 0 2 board_tables small_kernel"
proof -
  have f: "firmware_ok board_firmware (length (ioapics boot_irqs)) 0 2 board_tables" using board_firmware_ok by (simp add: boot_irqs_def)
  have i: "length (interrupts_cpu_0 boot_irqs) = 24" "\<forall>x \<in> set (interrupts_cpu_0 boot_irqs). overriden x = 0"
    "buses boot_irqs \<noteq> []" "ioapics boot_irqs \<noteq> []" "mach boot_irqs = boot_machine"
    by (simp_all add: boot_irqs_def zero_interrupt_def)
  have t: "length (ldt blank_tables) = 2" "length (idt blank_tables) = 256" "length (tss blank_tables) = 32"
    by (simp_all add: blank_tables_def)
  have l: "lapic_ok 0x200 0xfee00900" by (simp add: lapic_ok_def KERNEL_VIRT_ADDR_def)
  have board: "board_ok small_environment 0 2 board_tables boot_irqs"
    using f i t l by (simp add: board_ok_def small_environment_def) (simp add: boot_irqs_def idle_keyboard_def)
  have "tables_inside lay0 0x700000" by (simp add: tables_inside_def lay0_def)
  moreover have "\<forall>e \<in> set small_map. e820_type e = 1 \<longrightarrow> hi_page e < 2 ^ 19" by (simp add: small_map_def hi_page_def)
  ultimately show ?thesis
    using board lay0_smp small_map_ok lay0_ok(3)
    by (simp add: machine_ok_def Let_def small_kernel_def paging_now_def i(5) small_machine_def)
      (simp add: small_environment_def empty_paging_def boot_mm_def)
qed


end
