(* ===== verification/Spec2Isabelle.thy ===== *)
theory Spec2Isabelle
  imports Irq_Props Object_Cache_Props Boot_Dump Boot_Props
begin

text \<open>
  A verification of xis, a small multiprocessor kernel for 32-bit x86 written in C.

  \<^bold>\<open>The program.\<close> \<^verbatim>\<open>start_kernel\<close> (\<^verbatim>\<open>start.c\<close>) brings the machine up: the text console (\<^verbatim>\<open>system.c\<close>), the memory
  manager (\<^verbatim>\<open>memory.c\<close>: a buddy allocator of page frames, filled from the firmware's memory map), the page tables
  (\<^verbatim>\<open>page32.c\<close>: one master directory for the kernel half, one directory per CPU that follows it on page faults), the
  debug console (\<^verbatim>\<open>debug.c\<close>), descriptor tables and traps (\<^verbatim>\<open>setup32.c\<close>), the firmware's ACPI tables (\<^verbatim>\<open>acpi.c\<close>),
  interrupt routing and the local APIC (\<^verbatim>\<open>interrupt.c\<close>, \<^verbatim>\<open>apic.c\<close>), the keyboard (\<^verbatim>\<open>keyboard.c\<close>), the other
  CPUs (\<^verbatim>\<open>smp.c\<close>) and a user program (\<^verbatim>\<open>usermode.c\<close>). All of it stands on \<^verbatim>\<open>util.c\<close> (lists, strings, formatted
  output, ring buffer) and on the spin lock of \<^verbatim>\<open>lock.c\<close>.

  \<^bold>\<open>Conventions.\<close> Machine integers are words of their width (\<open>u8\<close> to \<open>u64\<close>), a struct is a record, an array a
  list whose accesses are checked (\<^const>\<open>aget\<close>, \<^const>\<open>aput\<close>); an operation returns an option, where \<^const>\<open>None\<close> says
  that it does not return or accesses something outside its array. Loops are structural recursion where their number of turns is
  known beforehand, \<^theory_text>\<open>function\<close> with a measure where the code ends for a reason, and \<^theory_text>\<open>partial_function (option)\<close> where
  it may not end; for these it is part of the theorems that a result is returned. The addresses of linker symbols, the contents
  of device registers, the firmware's memory and the bytes read from ports are parameters.

  \<^bold>\<open>Theories.\<close>

  \<^item> \<open>Xis_Prelude\<close>: word types, page constants (\<^verbatim>\<open>krnlconst.hdr\<close>), checked arrays, arithmetic of pages.

  \<^item> \<open>Klist\<close>: the intrusive lists of \<^verbatim>\<open>util.h\<close> on a store of pointers; the locale \<open>tail_queues\<close> is the interface under
  which the allocator uses them. \<open>Ring_Buffer\<close>: \<^verbatim>\<open>ring_buffer_*\<close> of \<^verbatim>\<open>util.c\<close>, with what survives of a bounded queue.
  \<open>Cstring\<close>: \<^verbatim>\<open>strlen\<close>, \<^verbatim>\<open>strncmp\<close>, \<^verbatim>\<open>_itoa\<close>, \<^verbatim>\<open>_lltoa\<close>, \<^verbatim>\<open>ptrtoa\<close>, with round trips through a reader of numerals.
  \<open>Printf\<close>, \<open>Printf_Props\<close>: \<^verbatim>\<open>sprintf\<close> and \<^verbatim>\<open>printf\<close> against a renderer of format items.

  \<^item> \<open>Spinlock\<close>: \<^verbatim>\<open>lock.c\<close> twice, as the function one CPU runs and as a step relation over the instructions of any number of
  CPUs with mutual exclusion and progress.

  \<^item> \<open>Buddy_Spec\<close>, \<open>Buddy\<close>, \<open>Buddy_Refine\<close>, \<open>Buddy_Props\<close>: the page allocator. The abstract allocator is a list of
  block bases per order; \<open>Buddy\<close> is \<^verbatim>\<open>page_add_to_slot\<close> and \<^verbatim>\<open>page_alloc\<close> with every descriptor write, list operation and
  lock; the refinement ties flags, orders, counters and links to the lists; the properties speak of the set of free frames only.

  \<^item> \<open>Paging\<close>, \<open>Paging_Refine\<close>: \<^verbatim>\<open>build_pagetable\<close>, \<^verbatim>\<open>unmap_pagetable\<close> and the kernel mappings of \<^verbatim>\<open>page32.c\<close>, and what they do
  to the translation of the MMU.

  \<^item> \<open>User_Pages\<close>: \<^verbatim>\<open>alloc_user_page\<close>, where allocator and page tables meet, \<^verbatim>\<open>page_alloc_kmap_linear\<close> and \<^verbatim>\<open>usermode.c\<close>.
  \<open>User_Props\<close>: the contract of \<^verbatim>\<open>alloc_user_page\<close>, success and failure, against the translation of user addresses. The loop
  that reserves page tables, \<open>reserve_tables\<close>, turns at most twice on one CPU. \<open>Byte_Memory\<close>: bytes of the memory of
  words. \<open>Usermode_Props\<close>: after \<^verbatim>\<open>initialize_usermode\<close> the program reads its own bytes at their addresses. The kernel's
  own reads of user page tables are taken from memory whether or not the page is mapped at that moment: see the findings.

  \<^item> \<open>Kernel_Pages\<close>: the contract of \<^verbatim>\<open>page_alloc_kmap_linear\<close>, allocator, mapping and clearing in one. \<open>Object_Cache\<close>,
  \<open>Object_Cache_Props\<close>: \<^verbatim>\<open>mem_cache_*\<close> and the bitmaps of \<^verbatim>\<open>memory.c\<close>, which nothing calls yet; lists, descriptors and bitmaps
  are words and bytes of the memory, because they overlap there. The theorems say how far it is from working.

  \<^item> \<open>Smp\<close>, \<open>Smp_Props\<close>: \<^verbatim>\<open>smp.c\<close>. \<^verbatim>\<open>smp_start\<close> is a function of the memory it lays out and the interrupts it sends; what the
  other processors then do to the shared counters is a step relation over their single memory accesses. What arrives while
  \<^verbatim>\<open>smp_start\<close> waits is a parameter there, which \<open>Boot\<close> fills in with \<open>Pit_Wait\<close>.

  \<^item> \<open>Pit_Wait\<close>: \<^verbatim>\<open>pit_wait\<close> and \<^verbatim>\<open>pit_wait_ms\<close>, a loop that polls the status of the timer 8254 until its output rises and that
  lets interrupts in between two polls. The loop may not end, so it is a \<^theory_text>\<open>partial_function (option)\<close>; it returns exactly if some
  poll sees the output high. On a channel that counts it does return, and not too early.

  \<^item> \<open>User_Entry\<close>, \<open>User_Entry_Props\<close>: \<^verbatim>\<open>switch_to_um\<close>, the stack frame it pushes and what \<^verbatim>\<open>iret\<close> makes of it: the processor
  goes on in user mode, at the first byte of the program's image.

  \<^item> \<open>Mem_Init\<close>, \<open>Mem_Marking\<close>, \<open>Mem_Init_Props\<close>: \<^verbatim>\<open>mem_init\<close>, from the E820 map to an allocator that holds exactly the
  usable frames.

  \<^item> \<open>Descriptors\<close>, \<open>Descriptors_Props\<close>: the macros of \<^verbatim>\<open>setup32.h\<close> and the tables \<^verbatim>\<open>setup32.c\<close> fills, decoded as the
  processor reads them. \<open>Traps\<close>, \<open>Traps_Props\<close>: \<^verbatim>\<open>setup32\<close> and \<^verbatim>\<open>trap_handler\<close>, and how a mapping in the master
  directory reaches a CPU through a page fault (two attempts, the fuel of \<open>kernel_access\<close>, are enough).

  \<^item> \<open>Vga\<close>: the text console. \<open>Keyboard\<close>: the scan code decoder as a refinement of keys that go up and down, and the handler.

  \<^item> \<open>Interrupts\<close>, \<open>Routing_Props\<close>, \<open>Irq_Props\<close>: I/O APIC, local APIC, 8259 and 8254, the handler and its acknowledgement, against a
  model of the I/O APIC as a device. \<open>Acpi\<close>, \<open>Acpi_Props\<close>: \<^verbatim>\<open>acpi.c\<close> on the bytes of the firmware's tables, composed
  with the routing: from the bytes of the MADT to the pins of the I/O APIC.

  \<^item> \<open>Kernel_Run\<close>: the running kernel as a step relation: which interrupts, page faults and system calls can happen and what their
  handlers make of interrupt controllers, keyboard, page tables and processors. Every event has its handler's step, and each keeps
  the sizes of the tables and the gates, so a kernel is never stuck, however long it runs.

  \<^item> \<open>Boot\<close>: \<^verbatim>\<open>dump_e820\<close> and \<^verbatim>\<open>start_kernel\<close>, which calls every other part in turn. The record \<open>kernel\<close> puts the states of the
  parts together, and what the code does not hold itself is in the record \<open>environment\<close>. \<open>Boot_Dump\<close>: the dump on the debug
  console, line by line; everywhere else a \<^verbatim>\<open>printf\<close> is recorded as its format and words. \<open>Boot_Props\<close>: the contracts of the parts
  composed. An invariant of the interrupt state and of the whole kernel is kept by every step from \<^verbatim>\<open>setup32\<close> to \<^verbatim>\<open>smp_start\<close>;
  during the waits any run of \<open>Kernel_Run\<close> may happen on the first processor, and the other processors work, of which only that is
  assumed that they keep the invariant and leave a reserve of free frames alone; of the timer, that its output rises.
  \<^verbatim>\<open>start_kernel\<close> then enters user mode at the user program, whose image is in place unless that reserve was too small.

  \<^bold>\<open>Not modelled.\<close> Assembly (\<^verbatim>\<open>boot32.S\<close>, \<^verbatim>\<open>bootldr.S\<close>, \<^verbatim>\<open>handlr32.S\<close>, \<^verbatim>\<open>mpinit.S\<close>, \<^verbatim>\<open>um.S\<close>, and the
  inline instructions \<^verbatim>\<open>rdmsr\<close>, \<^verbatim>\<open>wrmsr\<close> and \<^verbatim>\<open>cpuid\<close>, whose results are parameters); the translation look-aside buffer; the
  timing of devices other than the timer. \<^verbatim>\<open>pagetable_delete_entry\<close> is a loop
  with an empty body that nothing calls.
\<close>

end
